(* ===== verification/Prelude.thy ===== *)
theory Prelude
  imports Main "HOL-Library.Word" "HOL-Library.Monad_Syntax"
begin

text \<open>
  Shared vocabulary of the development: the universal return constants of
  \<^verbatim>\<open>include/xinu.h\<close> and \<^verbatim>\<open>include/stddef.h\<close>, the machine types, the C integer
  arithmetic that the kernel uses, and the generic lemmas on words, lists and options that
  the component theories share.

  Every operation that can touch memory is a function into \<open>'a option\<close>: the value
  \<open>None\<close> stands for undefined behaviour of the C program (an access outside an array or
  the heap, or a signed overflow), or for a loop that does not end.  A theorem that
  an operation yields \<open>Some\<close> is therefore a memory-safety and termination result.
\<close>

unbundle bit_operations_syntax

named_theorems bounds_simps \<open>checked table accesses that succeed\<close>
named_theorems frame_simps \<open>fields an operation leaves alone\<close>

type_synonym u8 = "8 word"
type_synonym u16 = "16 word"
type_synonym u32 = "32 word"
type_synonym tid_typ = int
type_synonym qid_typ = int

section \<open>Return constants\<close>

abbreviation (input) OK :: int where "OK \<equiv> 1"
abbreviation (input) SYSERR :: int where "SYSERR \<equiv> -1"
abbreviation (input) EOF :: int where "EOF \<equiv> -2"
abbreviation (input) TIMEOUT :: int where "TIMEOUT \<equiv> -3"
abbreviation (input) NOMSG :: int where "NOMSG \<equiv> -4"

abbreviation (input) SYSERR_u :: u32 where "SYSERR_u \<equiv> -1"

section \<open>C arithmetic\<close>

abbreviation (input) INT_MAX :: int where "INT_MAX \<equiv> 2147483647"
abbreviation (input) INT_MIN :: int where "INT_MIN \<equiv> -2147483648"

text \<open>
  A signed result outside the 32-bit range is undefined behaviour in C, so the checked
  operations return \<open>None\<close> there.  Unsigned arithmetic is the wrapping arithmetic of
  \<^typ>\<open>u32\<close>.
\<close>

definition c_int :: "int \<Rightarrow> int option" where
  "c_int x = (if INT_MIN \<le> x \<and> x \<le> INT_MAX then Some x else None)"

definition to_int :: "u32 \<Rightarrow> int" where
  \<comment> \<open>conversion of an unsigned value to \<^verbatim>\<open>int\<close> (two's complement)\<close>
  "to_int w = sint w"

definition to_u32 :: "int \<Rightarrow> u32" where
  \<comment> \<open>conversion of an \<^verbatim>\<open>int\<close> to unsigned (modulo 2^32)\<close>
  "to_u32 x = word_of_int x"

section \<open>Generic lemmas\<close>

lemma c_int_Some [simp]: "INT_MIN \<le> x \<Longrightarrow> x \<le> INT_MAX \<Longrightarrow> c_int x = Some x"
  by (simp add: c_int_def)

lemma c_int_eq_Some_iff: "c_int x = Some y \<longleftrightarrow> y = x \<and> INT_MIN \<le> x \<and> x \<le> INT_MAX"
  by (auto simp: c_int_def)

lemma bind_Some_iff: "Option.bind m f = Some y \<longleftrightarrow> (\<exists>x. m = Some x \<and> f x = Some y)"
  by (cases m) auto

lemma bind_SomeE: "Option.bind m f = Some y \<Longrightarrow> (\<And>x. m = Some x \<Longrightarrow> f x = Some y \<Longrightarrow> P) \<Longrightarrow> P"
  by (cases m) auto

lemma to_int_to_u32: "INT_MIN \<le> x \<Longrightarrow> x \<le> INT_MAX \<Longrightarrow> to_int (to_u32 x) = x"
  by (simp add: to_int_def to_u32_def sint_sbintrunc' signed_take_bit_int_eq_self)

lemma to_int_small: "uint w \<le> INT_MAX \<Longrightarrow> to_int w = uint w"
  unfolding to_int_def sint_uint by (rule signed_take_bit_int_eq_self) (simp_all add: order_trans [of _ 0])

lemma uint_to_u32: "0 \<le> x \<Longrightarrow> x < 4294967296 \<Longrightarrow> uint (to_u32 x) = x"
  by (simp add: to_u32_def uint_word_of_int)

lemma to_u32_not_SYSERR: "0 \<le> x \<Longrightarrow> x \<le> INT_MAX \<Longrightarrow> to_u32 x \<noteq> SYSERR_u"
proof
  assume "0 \<le> x" "x \<le> INT_MAX" "to_u32 x = SYSERR_u"
  then have "to_int (to_u32 x) = -1" by (simp add: to_int_def)
  then show False using to_int_to_u32 [of x] \<open>0 \<le> x\<close> \<open>x \<le> INT_MAX\<close> by simp
qed

lemma SYSERR_u_eq: "to_u32 SYSERR = SYSERR_u"
  by (simp add: to_u32_def)

lemma unat_add_no_wrap: "unat (a::u32) + unat b < 4294967296 \<Longrightarrow> unat (a + b) = unat a + unat b"
  by (simp add: unat_word_ariths)

lemma unat_sub_no_wrap: "(b::u32) \<le> a \<Longrightarrow> unat (a - b) = unat a - unat b"
  by (rule unat_sub)

lemma sorted_wrt_remove1: "sorted_wrt R xs \<Longrightarrow> sorted_wrt R (remove1 x xs)"
  by (induction xs) (auto dest: notin_set_remove1 set_remove1_subset [THEN subsetD])

end
