(* ===== verification/Kernel_State.thy ===== *)
theory Kernel_State
  imports Prelude
begin

text \<open>
  The global kernel variables: the thread table, the queue table, the semaphore table and
  the scheduler's variables (\<^verbatim>\<open>include/thread.h\<close>, \<^verbatim>\<open>include/queue.h\<close>,
  \<^verbatim>\<open>include/semaphore.h\<close>, \<^verbatim>\<open>system/initialize.c\<close>), with checked access to every
  table.  Tables are functions on \<^typ>\<open>int\<close>; an access with an index outside the C array
  is \<open>None\<close>.
\<close>

section \<open>Configuration\<close>

abbreviation (input) NTHREAD :: int where "NTHREAD \<equiv> 100"
abbreviation (input) NSEM :: int where "NSEM \<equiv> 100"
abbreviation (input) NQENT :: int where "NQENT \<equiv> NTHREAD + 4 + NSEM + NSEM"
abbreviation (input) EMPTY :: int where "EMPTY \<equiv> -2"
abbreviation (input) MAXKEY :: int where "MAXKEY \<equiv> INT_MAX"
abbreviation (input) MINKEY :: int where "MINKEY \<equiv> INT_MIN"
abbreviation (input) NULLTHREAD :: int where "NULLTHREAD \<equiv> 0"
abbreviation (input) BADTID :: int where "BADTID \<equiv> -1"
abbreviation (input) MINSTK :: u32 where "MINSTK \<equiv> 128"
abbreviation (input) TNMLEN :: nat where "TNMLEN \<equiv> 16"
abbreviation (input) SERIAL0 :: int where "SERIAL0 \<equiv> 0"
abbreviation (input) CONSOLE :: int where "CONSOLE \<equiv> 6"

section \<open>Data\<close>

record queent =
  qkey :: int
  qnext :: int
  qprev :: int

datatype thrstate =
    THRCURR | THRFREE | THRREADY | THRRECV | THRSLEEP | THRSUSP | THRWAIT | THRTMOUT | THRMIGRATE

record thrent =
  tstate :: thrstate
  prio :: int
  stkptr :: u32
  stkbase :: u32
  stklen :: u32
  tname :: string
  tsem :: u32
  parent :: int
  msg :: int
  hasmsg :: bool
  tmem_next :: u32
  tmem_length :: u32
  fdesc :: "int list"

datatype semstate = SFREE | SUSED

record sement =
  semstate :: semstate
  count :: int
  semqueue :: int

text \<open>
  The free memory list.  Memory is a store of 32-bit words; a \<^verbatim>\<open>struct memblock\<close> at
  address \<open>a\<close> has its \<^verbatim>\<open>next\<close> field at \<open>a\<close> and its \<^verbatim>\<open>length\<close> field at
  \<open>a + 4\<close>.  The list head \<^verbatim>\<open>memlist\<close> is a global variable outside the heap.
\<close>

record heap =
  mem :: "u32 \<Rightarrow> u32"
  memlist_next :: u32
  memlist_length :: u32
  memheap :: u32
  maxaddr :: u32

record kernel =
  quetab :: "int \<Rightarrow> queent"
  nextqid :: int
  thrtab :: "int \<Rightarrow> thrent"
  thrcount :: int
  thrcurrent :: int
  nexttid :: int
  semtab :: "int \<Rightarrow> sement"
  nextsem :: int
  readylist :: int
  sleepq :: int
  resdefer :: int
  clkticks :: u32
  clktime :: u32
  kheap :: heap

section \<open>Checked table access\<close>

definition quent :: "'a kernel_scheme \<Rightarrow> int \<Rightarrow> queent option" where
  "quent s i = (if 0 \<le> i \<and> i < NQENT then Some (quetab s i) else None)"

definition set_quent :: "int \<Rightarrow> (queent \<Rightarrow> queent) \<Rightarrow> 'a kernel_scheme \<Rightarrow> 'a kernel_scheme option" where
  "set_quent i f s =
     (if 0 \<le> i \<and> i < NQENT then Some (s\<lparr>quetab := (quetab s)(i := f (quetab s i))\<rparr>) else None)"

definition thread :: "'a kernel_scheme \<Rightarrow> int \<Rightarrow> thrent option" where
  "thread s i = (if 0 \<le> i \<and> i < NTHREAD then Some (thrtab s i) else None)"

definition set_thread :: "int \<Rightarrow> (thrent \<Rightarrow> thrent) \<Rightarrow> 'a kernel_scheme \<Rightarrow> 'a kernel_scheme option" where
  "set_thread i f s =
     (if 0 \<le> i \<and> i < NTHREAD then Some (s\<lparr>thrtab := (thrtab s)(i := f (thrtab s i))\<rparr>) else None)"

definition sem_ent :: "'a kernel_scheme \<Rightarrow> int \<Rightarrow> sement option" where
  "sem_ent s i = (if 0 \<le> i \<and> i < NSEM then Some (semtab s i) else None)"

definition set_sem :: "int \<Rightarrow> (sement \<Rightarrow> sement) \<Rightarrow> 'a kernel_scheme \<Rightarrow> 'a kernel_scheme option" where
  "set_sem i f s =
     (if 0 \<le> i \<and> i < NSEM then Some (s\<lparr>semtab := (semtab s)(i := f (semtab s i))\<rparr>) else None)"

text \<open>The macros \<^verbatim>\<open>isbadtid\<close> and \<^verbatim>\<open>isbadsem\<close>.\<close>

definition isbadtid :: "'a kernel_scheme \<Rightarrow> int \<Rightarrow> bool" where
  "isbadtid s x \<longleftrightarrow> x \<ge> NTHREAD \<or> x < 0 \<or> tstate (thrtab s x) = THRFREE"

definition isbadsem :: "'a kernel_scheme \<Rightarrow> u32 \<Rightarrow> bool" where
  "isbadsem s x \<longleftrightarrow> uint x \<ge> NSEM \<or> semstate (semtab s (uint x)) = SFREE"

section \<open>Access lemmas\<close>

declare Let_def [bounds_simps]

lemma quent_Some [bounds_simps]: "0 \<le> i \<Longrightarrow> i < NQENT \<Longrightarrow> quent s i = Some (quetab s i)"
  by (simp add: quent_def)

lemma set_quent_Some [bounds_simps]:
  "0 \<le> i \<Longrightarrow> i < NQENT \<Longrightarrow>
   set_quent i f s = Some (s\<lparr>quetab := (quetab s)(i := f (quetab s i))\<rparr>)"
  by (simp add: set_quent_def)

lemma thread_Some [bounds_simps]: "0 \<le> i \<Longrightarrow> i < NTHREAD \<Longrightarrow> thread s i = Some (thrtab s i)"
  by (simp add: thread_def)

lemma set_thread_Some [bounds_simps]:
  "0 \<le> i \<Longrightarrow> i < NTHREAD \<Longrightarrow>
   set_thread i f s = Some (s\<lparr>thrtab := (thrtab s)(i := f (thrtab s i))\<rparr>)"
  by (simp add: set_thread_def)

lemma sem_ent_Some [bounds_simps]: "0 \<le> i \<Longrightarrow> i < NSEM \<Longrightarrow> sem_ent s i = Some (semtab s i)"
  by (simp add: sem_ent_def)

lemma set_sem_Some [bounds_simps]:
  "0 \<le> i \<Longrightarrow> i < NSEM \<Longrightarrow>
   set_sem i f s = Some (s\<lparr>semtab := (semtab s)(i := f (semtab s i))\<rparr>)"
  by (simp add: set_sem_def)

lemma isbadtid_False [dest]:
  "\<not> isbadtid s x \<Longrightarrow> 0 \<le> x \<and> x < NTHREAD \<and> tstate (thrtab s x) \<noteq> THRFREE"
  by (simp add: isbadtid_def)

lemma isbadsem_False [dest]:
  "\<not> isbadsem s x \<Longrightarrow> uint x < NSEM \<and> semstate (semtab s (uint x)) = SUSED"
  by (cases "semstate (semtab s (uint x))") (auto simp: isbadsem_def)

end
