(* ===== verification/Queue.thy ===== *)
theory Queue
  imports Kernel_State
begin

text \<open>
  The statically allocated doubly linked thread queues of \<^verbatim>\<open>system/queue.c\<close>,
  \<^verbatim>\<open>system/queinit.c\<close>, \<^verbatim>\<open>system/getitem.c\<close>, \<^verbatim>\<open>system/insert.c\<close> and
  \<^verbatim>\<open>system/insertd.c\<close>: operations on the queue table, the list a queue represents, and
  the proof that every operation implements the corresponding list operation.
\<close>

section \<open>Operations\<close>

abbreviation (input) quehead :: "int \<Rightarrow> int" where "quehead q \<equiv> q"
abbreviation (input) quetail :: "int \<Rightarrow> int" where "quetail q \<equiv> q + 1"

definition isbadqid :: "int \<Rightarrow> bool" where
  "isbadqid x \<longleftrightarrow> quehead x < 0 \<or> quehead x \<noteq> quetail x - 1 \<or> quetail x \<ge> NQENT"

definition isempty :: "'a kernel_scheme \<Rightarrow> int \<Rightarrow> bool option" where
  "isempty s q = do { e \<leftarrow> quent s (quehead q); Some (qnext e \<ge> NTHREAD) }"

definition nonempty :: "'a kernel_scheme \<Rightarrow> int \<Rightarrow> bool option" where
  "nonempty s q = do { e \<leftarrow> quent s (quehead q); Some (qnext e < NTHREAD) }"

definition firstid :: "'a kernel_scheme \<Rightarrow> int \<Rightarrow> int option" where
  "firstid s q = do { e \<leftarrow> quent s (quehead q); Some (qnext e) }"

definition firstkey :: "'a kernel_scheme \<Rightarrow> int \<Rightarrow> int option" where
  "firstkey s q = do { i \<leftarrow> firstid s q; e \<leftarrow> quent s i; Some (qkey e) }"

definition enqueue :: "int \<Rightarrow> int \<Rightarrow> 'a kernel_scheme \<Rightarrow> (int \<times> 'a kernel_scheme) option" where
  "enqueue tid q s =
     (if isbadqid q \<or> isbadtid s tid then Some (SYSERR, s)
      else do {
        let tail = quetail q;
        e \<leftarrow> quent s tail;
        let prev = qprev e;
        s \<leftarrow> set_quent tid (qnext_update (\<lambda>_. tail)) s;
        s \<leftarrow> set_quent tid (qprev_update (\<lambda>_. prev)) s;
        s \<leftarrow> set_quent prev (qnext_update (\<lambda>_. tid)) s;
        s \<leftarrow> set_quent tail (qprev_update (\<lambda>_. tid)) s;
        Some (tid, s)
      })"

definition getitem :: "int \<Rightarrow> 'a kernel_scheme \<Rightarrow> (int \<times> 'a kernel_scheme) option" where
  "getitem tid s = do {
     e \<leftarrow> quent s tid;
     let next = qnext e;
     let prev = qprev e;
     s \<leftarrow> set_quent prev (qnext_update (\<lambda>_. next)) s;
     s \<leftarrow> set_quent next (qprev_update (\<lambda>_. prev)) s;
     s \<leftarrow> set_quent tid (qnext_update (\<lambda>_. EMPTY)) s;
     s \<leftarrow> set_quent tid (qprev_update (\<lambda>_. EMPTY)) s;
     Some (tid, s)
   }"

definition getfirst :: "int \<Rightarrow> 'a kernel_scheme \<Rightarrow> (int \<times> 'a kernel_scheme) option" where
  "getfirst q s =
     (if isbadqid q then Some (SYSERR, s)
      else do {
        emp \<leftarrow> isempty s q;
        if emp then Some (EMPTY, s)
        else do { e \<leftarrow> quent s (quehead q); getitem (qnext e) s }
      })"

definition getlast :: "int \<Rightarrow> 'a kernel_scheme \<Rightarrow> (int \<times> 'a kernel_scheme) option" where
  "getlast q s =
     (if isbadqid q then Some (SYSERR, s)
      else do {
        emp \<leftarrow> isempty s q;
        if emp then Some (EMPTY, s)
        else do { e \<leftarrow> quent s (quetail q); getitem (qprev e) s }
      })"

definition dequeue :: "int \<Rightarrow> 'a kernel_scheme \<Rightarrow> (int \<times> 'a kernel_scheme) option" where
  "dequeue q s =
     (if isbadqid q then Some (SYSERR, s)
      else do {
        emp \<leftarrow> isempty s q;
        if emp then Some (EMPTY, s)
        else do {
          (tid, s) \<leftarrow> getfirst q s;
          if \<not> isbadtid s tid
          then do {
            s \<leftarrow> set_quent tid (qprev_update (\<lambda>_. EMPTY)) s;
            s \<leftarrow> set_quent tid (qnext_update (\<lambda>_. EMPTY)) s;
            Some (tid, s)
          }
          else Some (tid, s)
        }
      })"

definition queinit :: "'a kernel_scheme \<Rightarrow> (int \<times> 'a kernel_scheme) option" where
  "queinit s =
     (if nextqid s > NQENT then Some (SYSERR, s)
      else do {
        let q = nextqid s;
        let s = s\<lparr>nextqid := nextqid s + 2\<rparr>;
        s \<leftarrow> set_quent (quehead q) (qnext_update (\<lambda>_. quetail q)) s;
        s \<leftarrow> set_quent (quehead q) (qprev_update (\<lambda>_. EMPTY)) s;
        s \<leftarrow> set_quent (quehead q) (qkey_update (\<lambda>_. MAXKEY)) s;
        s \<leftarrow> set_quent (quetail q) (qnext_update (\<lambda>_. EMPTY)) s;
        s \<leftarrow> set_quent (quetail q) (qprev_update (\<lambda>_. quehead q)) s;
        s \<leftarrow> set_quent (quetail q) (qkey_update (\<lambda>_. MINKEY)) s;
        Some (q, s)
      })"

text \<open>
  The scan of \<^verbatim>\<open>insert\<close>: it follows \<^verbatim>\<open>next\<close> while the key is at least the new one.
  It reads past the tail when the new key is \<^term>\<open>MINKEY\<close>.
\<close>

partial_function (option) insert_scan :: "'a kernel_scheme \<Rightarrow> int \<Rightarrow> int \<Rightarrow> int option" where
  "insert_scan s next key =
     do { e \<leftarrow> quent s next; if qkey e \<ge> key then insert_scan s (qnext e) key else Some next }"

definition insert_q :: "int \<Rightarrow> int \<Rightarrow> int \<Rightarrow> 'a kernel_scheme \<Rightarrow> (int \<times> 'a kernel_scheme) option" where
  "insert_q tid q key s =
     (if isbadqid q \<or> isbadtid s tid then Some (SYSERR, s)
      else do {
        h \<leftarrow> quent s (quehead q);
        next \<leftarrow> insert_scan s (qnext h) key;
        s \<leftarrow> set_quent tid (qnext_update (\<lambda>_. next)) s;
        e \<leftarrow> quent s next;
        let prev = qprev e;
        s \<leftarrow> set_quent tid (qprev_update (\<lambda>_. prev)) s;
        s \<leftarrow> set_quent tid (qkey_update (\<lambda>_. key)) s;
        s \<leftarrow> set_quent prev (qnext_update (\<lambda>_. tid)) s;
        s \<leftarrow> set_quent next (qprev_update (\<lambda>_. tid)) s;
        Some (OK, s)
      })"

text \<open>The scan of \<^verbatim>\<open>insertd\<close> returns the triple \<^verbatim>\<open>prev\<close>, \<^verbatim>\<open>next\<close>, \<^verbatim>\<open>key\<close>.\<close>

partial_function (option) insertd_scan ::
    "'a kernel_scheme \<Rightarrow> int \<Rightarrow> int \<Rightarrow> int \<Rightarrow> int \<Rightarrow> (int \<times> int \<times> int) option" where
  "insertd_scan s q prev next key =
     do { e \<leftarrow> quent s next;
          if qkey e \<le> key \<and> next \<noteq> quetail q
          then do { key \<leftarrow> c_int (key - qkey e); insertd_scan s q next (qnext e) key }
          else Some (prev, next, key) }"

definition insertd :: "int \<Rightarrow> int \<Rightarrow> int \<Rightarrow> 'a kernel_scheme \<Rightarrow> (int \<times> 'a kernel_scheme) option" where
  "insertd tid q key s =
     (if isbadqid q \<or> isbadtid s tid then Some (SYSERR, s)
      else do {
        h \<leftarrow> quent s (quehead q);
        (prev, next, key) \<leftarrow> insertd_scan s q (quehead q) (qnext h) key;
        s \<leftarrow> set_quent tid (qnext_update (\<lambda>_. next)) s;
        s \<leftarrow> set_quent tid (qprev_update (\<lambda>_. prev)) s;
        s \<leftarrow> set_quent tid (qkey_update (\<lambda>_. key)) s;
        s \<leftarrow> set_quent prev (qnext_update (\<lambda>_. tid)) s;
        s \<leftarrow> set_quent next (qprev_update (\<lambda>_. tid)) s;
        if next \<noteq> quetail q
        then do {
          e \<leftarrow> quent s next;
          k \<leftarrow> c_int (qkey e - key);
          s \<leftarrow> set_quent next (qkey_update (\<lambda>_. k)) s;
          Some (OK, s)
        }
        else Some (OK, s)
      })"

section \<open>The list a queue represents\<close>

text \<open>
  \<open>chain t xs\<close>: consecutive elements of \<open>xs\<close> are linked both ways.  \<open>isq t q xs\<close>: the
  queue with head \<open>q\<close> holds exactly the threads \<open>xs\<close>, in this order.
\<close>

fun chain :: "(int \<Rightarrow> queent) \<Rightarrow> int list \<Rightarrow> bool" where
  "chain t (x # y # zs) \<longleftrightarrow> qnext (t x) = y \<and> qprev (t y) = x \<and> chain t (y # zs)"
| "chain t _ \<longleftrightarrow> True"

definition isq :: "(int \<Rightarrow> queent) \<Rightarrow> int \<Rightarrow> int list \<Rightarrow> bool" where
  "isq t q xs \<longleftrightarrow>
     chain t (quehead q # xs @ [quetail q]) \<and> distinct xs \<and> set xs \<subseteq> {0..<NTHREAD} \<and>
     qkey (t (quehead q)) = MAXKEY \<and> qkey (t (quetail q)) = MINKEY"

definition queues :: "int set" where
  "queues = {q. NTHREAD \<le> q \<and> q + 1 < NQENT \<and> even q}"

text \<open>All queues of the table, with the invariant of \<^verbatim>\<open>include/queue.h\<close> that a thread is in
  at most one of them.\<close>

definition allq :: "(int \<Rightarrow> queent) \<Rightarrow> (int \<Rightarrow> int list) \<Rightarrow> bool" where
  "allq t Q \<longleftrightarrow> (\<forall>q\<in>queues. isq t q (Q q)) \<and>
     (\<forall>q\<in>queues. \<forall>q'\<in>queues. q \<noteq> q' \<longrightarrow> set (Q q) \<inter> set (Q q') = {})"

definition qsplice :: "(int \<Rightarrow> queent) \<Rightarrow> int \<Rightarrow> int \<Rightarrow> int \<Rightarrow> (int \<Rightarrow> queent)" where
  "qsplice t p x n = t(x := (t x)\<lparr>qnext := n, qprev := p\<rparr>,
                      p := (t p)\<lparr>qnext := x\<rparr>, n := (t n)\<lparr>qprev := x\<rparr>)"

definition qunlink :: "(int \<Rightarrow> queent) \<Rightarrow> int \<Rightarrow> (int \<Rightarrow> queent)" where
  "qunlink t x = t(qprev (t x) := (t (qprev (t x)))\<lparr>qnext := qnext (t x)\<rparr>,
                  qnext (t x) := (t (qnext (t x)))\<lparr>qprev := qprev (t x)\<rparr>,
                  x := (t x)\<lparr>qnext := EMPTY, qprev := EMPTY\<rparr>)"

text \<open>The list versions of the two ordered insertions.\<close>

fun ins_desc :: "(int \<Rightarrow> int) \<Rightarrow> int \<Rightarrow> int \<Rightarrow> int list \<Rightarrow> int list" where
  "ins_desc K k x [] = [x]"
| "ins_desc K k x (y # ys) = (if K y \<ge> k then y # ins_desc K k x ys else x # y # ys)"

fun dsplit :: "(int \<Rightarrow> int) \<Rightarrow> int \<Rightarrow> int list \<Rightarrow> int list \<times> int list \<times> int" where
  "dsplit K k [] = ([], [], k)"
| "dsplit K k (y # ys) =
     (if K y \<le> k then (case dsplit K (k - K y) ys of (a, b, k') \<Rightarrow> (y # a, b, k'))
      else ([], y # ys, k))"

text \<open>The wake-up times a delta queue stands for: running sums of its keys.\<close>

fun due :: "(int \<Rightarrow> int) \<Rightarrow> int \<Rightarrow> int list \<Rightarrow> (int \<times> int) list" where
  "due K a [] = []"
| "due K a (x # xs) = (x, a + K x) # due K (a + K x) xs"

fun ins_time :: "int \<Rightarrow> int \<Rightarrow> (int \<times> int) list \<Rightarrow> (int \<times> int) list" where
  "ins_time x k [] = [(x, k)]"
| "ins_time x k ((y, w) # ds) = (if w \<le> k then (y, w) # ins_time x k ds else (x, k) # (y, w) # ds)"

section \<open>Chains\<close>

lemma chain_append: "chain t (xs @ y # ys) \<longleftrightarrow> chain t (xs @ [y]) \<and> chain t (y # ys)"
proof (induction xs)
  case Nil
  then show ?case by simp
next
  case (Cons x xs)
  then show ?case by (cases xs) auto
qed

lemma chain_cong:
  assumes "\<forall>x\<in>set (butlast xs). qnext (t' x) = qnext (t x)"
    and "\<forall>x\<in>set (tl xs). qprev (t' x) = qprev (t x)"
  shows "chain t' xs = chain t xs"
  using assms by (induction t xs rule: chain.induct) (auto dest: in_set_butlastD)

lemma chain_cong_all:
  assumes "\<forall>x\<in>set xs. qnext (t' x) = qnext (t x) \<and> qprev (t' x) = qprev (t x)"
  shows "chain t' xs = chain t xs"
  using assms by (intro chain_cong; cases xs) (auto dest: in_set_butlastD)

lemma chain_qsplice:
  assumes ch: "chain t (as @ p # n # bs)" and d: "distinct (as @ p # n # bs)"
    and x: "x \<notin> set (as @ p # n # bs)"
  shows "chain (qsplice t p x n) (as @ p # x # n # bs)"
proof -
  have 1: "chain (qsplice t p x n) (as @ [p]) = chain t (as @ [p])"
    by (rule chain_cong) (use d x in \<open>auto simp: qsplice_def tl_append split: list.splits\<close>)
  have 2: "chain (qsplice t p x n) (n # bs) = chain t (n # bs)"
    by (rule chain_cong) (use d x in \<open>auto simp: qsplice_def split: if_splits dest: in_set_butlastD\<close>)
  have "chain t (as @ [p])" "chain t (p # n # bs)"
    using ch chain_append [of t as p "n # bs"] by auto
  moreover have "chain (qsplice t p x n) (p # x # n # bs) = chain t (n # bs)"
    using 2 d x by (auto simp: qsplice_def)
  ultimately show ?thesis
    using 1 chain_append [of "qsplice t p x n" as p "x # n # bs"] by auto
qed

lemma chain_qunlink:
  assumes ch: "chain t (as @ p # x # n # bs)" and d: "distinct (as @ p # x # n # bs)"
  shows "chain (qunlink t x) (as @ p # n # bs)"
proof -
  have pn: "qprev (t x) = p" "qnext (t x) = n"
    using ch chain_append [of t as p "x # n # bs"] by auto
  have 1: "chain (qunlink t x) (as @ [p]) = chain t (as @ [p])"
    by (rule chain_cong) (use d in \<open>auto simp: qunlink_def pn tl_append split: list.splits\<close>)
  have 2: "chain (qunlink t x) (n # bs) = chain t (n # bs)"
    by (rule chain_cong) (use d in \<open>auto simp: qunlink_def pn split: if_splits dest: in_set_butlastD\<close>)
  have "chain t (as @ [p])" "chain t (n # bs)"
    using ch chain_append [of t as p "x # n # bs"] by auto
  moreover have "chain (qunlink t x) (p # n # bs) = chain t (n # bs)"
    using 2 d by (auto simp: qunlink_def pn)
  ultimately show ?thesis
    using 1 chain_append [of "qunlink t x" as p "n # bs"] by auto
qed

lemma chain_mem_links:
  assumes "chain t (as @ p # x # n # bs)"
  shows "qprev (t x) = p" "qnext (t x) = n" "qnext (t p) = x" "qprev (t n) = x"
  using assms chain_append [of t as p "x # n # bs"] by auto

lemma qkey_qsplice [simp]: "qkey (qsplice t p x n i) = qkey (t i)"
  by (simp add: qsplice_def)

lemma qkey_qunlink [simp]: "qkey (qunlink t x i) = qkey (t i)"
  by (simp add: qunlink_def)

section \<open>Queues and the queue table\<close>

lemma split_ends:
  fixes q :: int
  obtains as p n bs where "q # xs = as @ [p]" "ys @ [q + 1] = n # bs"
    "last (q # xs) = p" "hd (ys @ [q + 1]) = n"
proof -
  obtain as p where as: "q # xs = as @ [p]" by (metis rev_exhaust list.distinct(1))
  obtain n bs where bs: "ys @ [q + 1] = n # bs" by (cases "ys @ [q + 1]") auto
  have "last (q # xs) = p" "hd (ys @ [q + 1]) = n" unfolding as bs by simp_all
  with as bs show ?thesis by (rule that)
qed

lemma isq_insert:
  assumes q: "isq t q (xs @ ys)" "NTHREAD \<le> q" and x: "0 \<le> x" "x < NTHREAD" "x \<notin> set (xs @ ys)"
  shows "isq (qsplice t (last (q # xs)) x (hd (ys @ [q + 1]))) q (xs @ x # ys)"
proof -
  obtain as p n bs where e: "q # xs = as @ [p]" "ys @ [q + 1] = n # bs"
    "last (q # xs) = p" "hd (ys @ [q + 1]) = n" by (rule split_ends)
  have eq: "q # (xs @ ys) @ [q + 1] = as @ p # n # bs"
    using arg_cong2 [where f = append, OF e(1) e(2)] by simp
  have eq': "q # (xs @ x # ys) @ [q + 1] = as @ p # x # n # bs"
    using arg_cong2 [where f = "\<lambda>a b. a @ x # b", OF e(1) e(2)] by simp
  have d: "distinct (q # (xs @ ys) @ [q + 1])" "x \<notin> set (q # (xs @ ys) @ [q + 1])"
    using q x by (auto simp: isq_def subset_iff)
  have "chain (qsplice t p x n) (q # (xs @ x # ys) @ [q + 1])"
    unfolding eq' by (rule chain_qsplice) (use q d in \<open>simp_all add: isq_def flip: eq\<close>)
  then show ?thesis
    unfolding e(3,4) using q x by (auto simp: isq_def)
qed

lemma isq_remove:
  assumes q: "isq t q (xs @ x # ys)" "NTHREAD \<le> q"
  shows "isq (qunlink t x) q (xs @ ys)"
    and "qprev (t x) = last (q # xs)" "qnext (t x) = hd (ys @ [q + 1])"
proof -
  obtain as p n bs where e: "q # xs = as @ [p]" "ys @ [q + 1] = n # bs"
    "last (q # xs) = p" "hd (ys @ [q + 1]) = n" by (rule split_ends)
  have eq: "q # (xs @ ys) @ [q + 1] = as @ p # n # bs"
    using arg_cong2 [where f = append, OF e(1) e(2)] by simp
  have eq': "q # (xs @ x # ys) @ [q + 1] = as @ p # x # n # bs"
    using arg_cong2 [where f = "\<lambda>a b. a @ x # b", OF e(1) e(2)] by simp
  have d: "distinct (q # (xs @ x # ys) @ [q + 1])"
    using q by (auto simp: isq_def subset_iff)
  have ch: "chain t (as @ p # x # n # bs)"
    using q(1) by (simp add: isq_def flip: eq')
  have "chain (qunlink t x) (q # (xs @ ys) @ [q + 1])"
    unfolding eq by (rule chain_qunlink [OF ch]) (use d in \<open>simp only: eq'\<close>)
  then show "isq (qunlink t x) q (xs @ ys)"
    using q by (auto simp: isq_def)
  show "qprev (t x) = last (q # xs)" "qnext (t x) = hd (ys @ [q + 1])"
    unfolding e(3,4) using chain_mem_links [OF ch] by auto
qed

lemma isq_frame:
  assumes "isq t q xs"
    and "\<forall>i\<in>set (q # xs @ [q + 1]). qnext (t' i) = qnext (t i) \<and> qprev (t' i) = qprev (t i)"
    and "qkey (t' q) = qkey (t q)" "qkey (t' (q + 1)) = qkey (t (q + 1))"
  shows "isq t' q xs"
  using assms chain_cong_all [of "q # xs @ [q + 1]" t' t] by (simp add: isq_def)

lemma queues_props: "q \<in> queues \<Longrightarrow> NTHREAD \<le> q \<and> q + 1 < NQENT \<and> \<not> isbadqid q"
  by (auto simp: queues_def isbadqid_def)

lemma queues_distinct: "q \<in> queues \<Longrightarrow> q' \<in> queues \<Longrightarrow> q \<noteq> q' + 1"
  by (auto simp: queues_def)

lemma allq_isq: "allq t Q \<Longrightarrow> q \<in> queues \<Longrightarrow> isq t q (Q q)"
  by (simp add: allq_def)

lemma allq_disjoint:
  "allq t Q \<Longrightarrow> q \<in> queues \<Longrightarrow> q' \<in> queues \<Longrightarrow> x \<in> set (Q q) \<Longrightarrow> x \<in> set (Q q') \<Longrightarrow> q = q'"
  by (auto simp: allq_def)

lemma allq_range: "allq t Q \<Longrightarrow> q \<in> queues \<Longrightarrow> x \<in> set (Q q) \<Longrightarrow> 0 \<le> x \<and> x < NTHREAD"
  by (force simp: allq_def isq_def subset_iff)

lemma allq_distinct: "allq t Q \<Longrightarrow> q \<in> queues \<Longrightarrow> distinct (Q q)"
  by (auto simp: allq_def isq_def)

lemma nodes_apart:
  assumes "allq t Q" "q \<in> queues" "q' \<in> queues" "q \<noteq> q'"
    "i \<in> insert q (insert (q + 1) (set (Q q)))"
  shows "i \<notin> set (q' # Q q' @ [q' + 1])"
  using assms(4,5) allq_range [OF assms(1,2)] allq_range [OF assms(1,3)] allq_disjoint [OF assms(1-3)]
    queues_props [OF assms(2)] queues_props [OF assms(3)]
    queues_distinct [OF assms(2,3)] queues_distinct [OF assms(3,2)]
  by fastforce

lemma last_node: "last (q # xs) \<in> insert q (set xs)"
  by simp

lemma hd_node: "hd (ys @ [q]) \<in> insert q (set ys)"
  by (cases ys) simp_all

lemma allq_update:
  assumes a: "allq t Q" and q: "q \<in> queues" and here: "isq t' q zs"
    and there: "\<And>q'. q' \<in> queues \<Longrightarrow> q' \<noteq> q \<Longrightarrow> isq t' q' (Q q')"
    and new: "\<forall>z\<in>set zs. z \<in> set (Q q) \<or> (\<forall>q'\<in>queues. z \<notin> set (Q q'))"
  shows "allq t' (Q(q := zs))"
proof -
  have "set zs \<inter> set (Q q') = {}" if "q' \<in> queues" "q' \<noteq> q" for q'
    using new that allq_disjoint [OF a q that(1)] by blast
  then show ?thesis
    using a here there by (simp add: allq_def) blast
qed

text \<open>The two structural lemmas every queue operation rests on.\<close>

lemma allq_insert:
  assumes a: "allq t Q" and q: "q \<in> queues" and Q: "Q q = xs @ ys"
    and x: "0 \<le> x" "x < NTHREAD" "\<forall>q\<in>queues. x \<notin> set (Q q)"
  shows "allq (qsplice t (last (q # xs)) x (hd (ys @ [q + 1]))) (Q(q := xs @ x # ys))"
proof -
  let ?t = "qsplice t (last (q # xs)) x (hd (ys @ [q + 1]))"
  have here: "isq ?t q (xs @ x # ys)"
    using isq_insert [of t q xs ys x] allq_isq [OF a q] Q x q queues_props [OF q] by auto
  have there: "isq ?t q' (Q q')" if q': "q' \<in> queues" "q' \<noteq> q" for q'
  proof (rule isq_frame [OF allq_isq [OF a q'(1)]])
    have "last (q # xs) \<notin> set (q' # Q q' @ [q' + 1])" "hd (ys @ [q + 1]) \<notin> set (q' # Q q' @ [q' + 1])"
      using nodes_apart [OF a q q'(1)] q'(2) last_node [of q xs] hd_node [of ys "q + 1"] Q by (metis Un_iff insert_iff set_append)+
    moreover have "x \<notin> set (q' # Q q' @ [q' + 1])"
      using x q'(1) queues_props [OF q'(1)] by auto
    ultimately show "\<forall>i\<in>set (q' # Q q' @ [q' + 1]). qnext (?t i) = qnext (t i) \<and> qprev (?t i) = qprev (t i)"
      unfolding qsplice_def by (metis fun_upd_apply)
  qed simp_all
  show ?thesis
    by (rule allq_update [OF a q here there]) (use Q x in auto)
qed

lemma allq_remove:
  assumes a: "allq t Q" and q: "q \<in> queues" and Q: "Q q = xs @ x # ys"
  shows "allq (qunlink t x) (Q(q := xs @ ys))"
proof -
  note r = isq_remove [of t q xs x ys]
  have isq: "isq t q (xs @ x # ys)" "NTHREAD \<le> q"
    using allq_isq [OF a q] Q queues_props [OF q] by auto
  have there: "isq (qunlink t x) q' (Q q')" if q': "q' \<in> queues" "q' \<noteq> q" for q'
  proof (rule isq_frame [OF allq_isq [OF a q'(1)]])
    have "qprev (t x) \<notin> set (q' # Q q' @ [q' + 1])" "qnext (t x) \<notin> set (q' # Q q' @ [q' + 1])"
        "x \<notin> set (q' # Q q' @ [q' + 1])"
      using nodes_apart [OF a q q'(1)] q'(2) last_node [of q xs] hd_node [of ys "q + 1"] Q r(2,3) [OF isq]
      by (metis Un_iff insert_iff list.set_intros set_append)+
    then show "\<forall>i\<in>set (q' # Q q' @ [q' + 1]). qnext (qunlink t x i) = qnext (t i) \<and>
        qprev (qunlink t x i) = qprev (t i)"
      unfolding qunlink_def by (metis fun_upd_apply)
  qed simp_all
  show ?thesis
    by (rule allq_update [OF a q r(1) [OF isq] there]) (use Q in auto)
qed

lemma allq_links:
  assumes a: "allq t Q" and q: "q \<in> queues" and Q: "Q q = xs @ x # ys"
  shows "qprev (t x) = last (q # xs)" "qnext (t x) = hd (ys @ [q + 1])"
  using isq_remove(2,3) [of t q xs x ys] allq_isq [OF a q] Q queues_props [OF q] by auto

lemma allq_ends:
  assumes a: "allq t Q" and q: "q \<in> queues"
  shows "qnext (t q) = hd (Q q @ [q + 1])" "qprev (t (q + 1)) = last (q # Q q)"
proof -
  have ch: "chain t (q # Q q @ [q + 1])" using allq_isq [OF a q] by (simp add: isq_def)
  show "qnext (t q) = hd (Q q @ [q + 1])" using ch by (cases "Q q") auto
  show "qprev (t (q + 1)) = last (q # Q q)"
  proof (cases "Q q" rule: rev_cases)
    case Nil
    with ch show ?thesis by simp
  next
    case (snoc xs x)
    with ch chain_append [of t "q # xs" x "[q + 1]"] show ?thesis by simp
  qed
qed

lemma allq_keys:
  assumes "allq t Q" "\<forall>i. qnext (t' i) = qnext (t i) \<and> qprev (t' i) = qprev (t i)"
    "\<forall>i. NTHREAD \<le> i \<longrightarrow> qkey (t' i) = qkey (t i)"
  shows "allq t' Q"
  using assms queues_props isq_frame [of t _ _ t'] by (force simp: allq_def)

section \<open>Correctness of the operations\<close>

abbreviation (input) keys :: "'a kernel_scheme \<Rightarrow> int \<Rightarrow> int" where
  "keys s \<equiv> \<lambda>i. qkey (quetab s i)"

lemma node_bounds:
  assumes "allq t Q" "q \<in> queues" "i \<in> insert q (insert (q + 1) (set (Q q)))"
  shows "0 \<le> i" "i < NQENT"
  using assms allq_range [OF assms(1,2)] queues_props [OF assms(2)] by force+

lemma last_hd_bounds:
  assumes a: "allq t Q" "q \<in> queues" "Q q = xs @ ys"
  shows "0 \<le> last (q # xs)" "last (q # xs) < NQENT"
    "0 \<le> hd (ys @ [q + 1])" "hd (ys @ [q + 1]) < NQENT"
proof -
  have "last (q # xs) \<in> insert q (insert (q + 1) (set (Q q)))"
    "hd (ys @ [q + 1]) \<in> insert q (insert (q + 1) (set (Q q)))"
    using last_node [of q xs] hd_node [of ys "q + 1"] a(3) by auto
  then show "0 \<le> last (q # xs)" "last (q # xs) < NQENT"
    "0 \<le> hd (ys @ [q + 1])" "hd (ys @ [q + 1]) < NQENT"
    using node_bounds [OF a(1,2)] by blast+
qed

lemma isempty_eq:
  assumes "allq (quetab s) Q" "q \<in> queues"
  shows "isempty s q = Some (Q q = [])" "nonempty s q = Some (Q q \<noteq> [])"
proof -
  have "(qnext (quetab s q) \<ge> NTHREAD) = (Q q = [])"
    using allq_ends(1) [OF assms] allq_range [OF assms] queues_props [OF assms(2)]
    by (cases "Q q") (auto, force)
  then show "isempty s q = Some (Q q = [])" "nonempty s q = Some (Q q \<noteq> [])"
    using queues_props [OF assms(2)] by (auto simp: isempty_def nonempty_def bounds_simps)
qed

lemma firstkey_eq:
  assumes "allq (quetab s) Q" "q \<in> queues" "Q q = x # xs"
  shows "firstid s q = Some x" "firstkey s q = Some (keys s x)"
  using allq_ends(1) [OF assms(1,2)] allq_range [OF assms(1,2), of x] queues_props [OF assms(2)] assms(3)
  by (simp_all add: firstkey_def firstid_def bounds_simps)

lemma enqueue_ok:
  assumes a: "allq (quetab s) Q" "q \<in> queues" and t: "\<not> isbadtid s tid"
    and new: "\<forall>q\<in>queues. tid \<notin> set (Q q)"
  shows "\<exists>t'. enqueue tid q s = Some (tid, s\<lparr>quetab := t'\<rparr>) \<and> allq t' (Q(q := Q q @ [tid])) \<and>
    (\<forall>i. qkey (t' i) = keys s i)"
proof -
  let ?p = "last (q # Q q)"
  have b: "0 \<le> ?p" "?p < NQENT" "0 \<le> q" "q + 1 < NQENT" "NTHREAD \<le> q"
    using last_hd_bounds [OF a, of "Q q" "[]"] queues_props [OF a(2)] by auto
  have tid: "0 \<le> tid" "tid < NTHREAD" using t by auto
  have ne: "?p \<noteq> tid" "q + 1 \<noteq> tid" "?p \<noteq> q + 1"
    using last_node [of q "Q q"] new a(2) tid b(5) allq_range [OF a] by force+
  have "enqueue tid q s = Some (tid, s\<lparr>quetab := qsplice (quetab s) ?p tid (q + 1)\<rparr>)"
    using t b tid ne queues_props [OF a(2)] allq_ends(2) [OF a]
    by (simp add: enqueue_def bounds_simps qsplice_def del: last.simps)
  then show ?thesis
    using allq_insert [OF a, of "Q q" "[]" tid] tid new by auto
qed

lemma getitem_ok:
  assumes a: "allq (quetab s) Q" "q \<in> queues" and x: "x \<in> set (Q q)"
  shows "\<exists>t'. getitem x s = Some (x, s\<lparr>quetab := t'\<rparr>) \<and> allq t' (Q(q := remove1 x (Q q))) \<and>
    (\<forall>i. qkey (t' i) = keys s i)"
proof -
  obtain xs ys where Q: "Q q = xs @ x # ys" using split_list [OF x] by blast
  have x': "x \<notin> set xs" "x \<notin> set ys" using allq_distinct [OF a] Q by auto
  have l: "qprev (quetab s x) = last (q # xs)" "qnext (quetab s x) = hd (ys @ [q + 1])"
    using allq_links [OF a Q] by auto
  have b: "0 \<le> last (q # xs)" "last (q # xs) < NQENT" "0 \<le> hd (ys @ [q + 1])"
      "hd (ys @ [q + 1]) < NQENT"
    using last_hd_bounds(1,2) [OF a Q] last_hd_bounds(3,4) [OF a, of "xs @ [x]" ys] Q by auto
  have xb: "0 \<le> x" "x < NTHREAD" using allq_range [OF a x] by auto
  have "NTHREAD \<le> q" using queues_props [OF a(2)] by simp
  then have ne: "last (q # xs) \<noteq> x" "hd (ys @ [q + 1]) \<noteq> x" "last (q # xs) \<noteq> hd (ys @ [q + 1])"
    using last_node [of q xs] hd_node [of ys "q + 1"] x' xb allq_range [OF a] allq_distinct [OF a] Q
    by (force, force, force)
  have "getitem x s = Some (x, s\<lparr>quetab := qunlink (quetab s) x\<rparr>)"
    using b xb ne by (simp add: getitem_def bounds_simps qunlink_def l del: last.simps)
  then show ?thesis
    using allq_remove [OF a Q] x' by (auto simp: Q remove1_append)
qed

lemma dequeue_ok:
  assumes a: "allq (quetab s) Q" "q \<in> queues" and Q: "Q q = x # xs"
  shows "\<exists>t'. dequeue q s = Some (x, s\<lparr>quetab := t'\<rparr>) \<and> allq t' (Q(q := xs)) \<and>
    (\<forall>i. qkey (t' i) = keys s i)"
proof -
  obtain t' where t': "getitem x s = Some (x, s\<lparr>quetab := t'\<rparr>)" "allq t' (Q(q := xs))"
      "\<forall>i. qkey (t' i) = keys s i"
    using getitem_ok [OF a, of x] Q by auto
  have x: "0 \<le> x" "x < NTHREAD" using allq_range [OF a] Q by auto
  have gf: "getfirst q s = Some (x, s\<lparr>quetab := t'\<rparr>)"
    using t' allq_ends(1) [OF a] queues_props [OF a(2)] Q
    by (simp add: getfirst_def isempty_eq [OF a] bounds_simps)
  let ?t = "t'(x := (t' x)\<lparr>qprev := EMPTY, qnext := EMPTY\<rparr>)"
  have notin: "\<forall>q'\<in>queues. x \<notin> set ((Q(q := xs)) q')"
    using allq_disjoint [OF a, of _ x] allq_distinct [OF a] Q by auto
  have "allq ?t (Q(q := xs))"
    unfolding allq_def
  proof (intro conjI ballI)
    fix q' assume q': "q' \<in> queues"
    have "x \<notin> set (q' # (Q(q := xs)) q' @ [q' + 1])"
      using notin q' x queues_props [OF q'] by auto
    then have same: "?t i = t' i" if "i \<in> set (q' # (Q(q := xs)) q' @ [q' + 1])" for i
      using that by (metis fun_upd_other)
    show "isq ?t q' ((Q(q := xs)) q')"
      by (rule isq_frame [OF allq_isq [OF t'(2) q']]) (simp_all add: same del: fun_upd_apply)
  qed (use t'(2) in \<open>auto simp: allq_def\<close>)
  then show ?thesis
    using gf t' x queues_props [OF a(2)] Q
    by (cases "isbadtid (s\<lparr>quetab := t'\<rparr>) x") (auto simp: dequeue_def isempty_eq [OF a] bounds_simps)
qed

lemma dequeue_empty:
  assumes a: "allq (quetab s) Q" "q \<in> queues" and Q: "Q q = []"
  shows "dequeue q s = Some (EMPTY, s)"
  using queues_props [OF a(2)] Q by (simp add: dequeue_def isempty_eq [OF a])

subsection \<open>Insertion by descending key\<close>

lemma ins_desc_split:
  "ins_desc K k x xs = takeWhile (\<lambda>y. k \<le> K y) xs @ x # dropWhile (\<lambda>y. k \<le> K y) xs"
  by (induction xs) auto

lemma insert_scan_chain:
  assumes "chain (quetab s) (p # ys @ [n])" "set ys \<subseteq> {0..<NTHREAD}" "0 \<le> n" "n < NQENT"
    "keys s n < k"
  shows "insert_scan s (hd (ys @ [n])) k = Some (hd (dropWhile (\<lambda>y. k \<le> keys s y) ys @ [n]))"
  using assms
proof (induction ys arbitrary: p)
  case Nil
  then show ?case by (simp add: insert_scan.simps bounds_simps)
next
  case (Cons y ys)
  have "qnext (quetab s y) = hd (ys @ [n])"
    using Cons.prems(1) by (cases ys) auto
  then show ?case
    using Cons.IH [of y] Cons.prems by (subst insert_scan.simps) (auto simp: bounds_simps)
qed

lemma insert_ok:
  assumes a: "allq (quetab s) Q" "q \<in> queues" and t: "\<not> isbadtid s tid"
    and new: "\<forall>q\<in>queues. tid \<notin> set (Q q)" and k: "MINKEY < k"
  shows "\<exists>t'. insert_q tid q k s = Some (OK, s\<lparr>quetab := t'\<rparr>) \<and>
    allq t' (Q(q := ins_desc (keys s) k tid (Q q))) \<and>
    (\<forall>i. qkey (t' i) = (if i = tid then k else keys s i))"
proof -
  define xs ys where xs: "xs = takeWhile (\<lambda>y. k \<le> keys s y) (Q q)"
    and ys: "ys = dropWhile (\<lambda>y. k \<le> keys s y) (Q q)"
  have Q: "Q q = xs @ ys" by (simp add: xs ys)
  let ?p = "last (q # xs)" and ?n = "hd (ys @ [q + 1])"
  have b: "0 \<le> ?p" "?p < NQENT" "0 \<le> ?n" "?n < NQENT" "NTHREAD \<le> q" "q + 1 < NQENT"
    using last_hd_bounds [OF a Q] queues_props [OF a(2)] by auto
  have tid: "0 \<le> tid" "tid < NTHREAD" using t by auto
  have ne: "?p \<noteq> tid" "?n \<noteq> tid" "?p \<noteq> ?n"
    using last_node [of q xs] hd_node [of ys "q + 1"] new a(2) tid b(5) allq_range [OF a]
      allq_distinct [OF a] Q by force+
  have "qprev (quetab s ?n) = ?p"
  proof (cases ys)
    case Nil
    then show ?thesis using allq_ends(2) [OF a] Q by simp
  next
    case (Cons y zs)
    then show ?thesis using allq_links(1) [OF a, of xs y zs] Q by simp
  qed
  moreover have "insert_scan s (qnext (quetab s q)) k = Some ?n"
    using insert_scan_chain [of s q "Q q" "q + 1" k] allq_isq [OF a] b k allq_ends(1) [OF a]
    by (simp add: isq_def ys)
  ultimately have eq: "insert_q tid q k s = Some (OK, s\<lparr>quetab :=
      (\<lambda>i. if i = tid then (qsplice (quetab s) ?p tid ?n i)\<lparr>qkey := k\<rparr> else qsplice (quetab s) ?p tid ?n i)\<rparr>)"
      (is "_ = Some (OK, s\<lparr>quetab := ?t\<rparr>)")
    using t b tid ne queues_props [OF a(2)]
    by (auto simp: insert_q_def bounds_simps qsplice_def fun_eq_iff simp del: last.simps)
  have "allq (qsplice (quetab s) ?p tid ?n) (Q(q := xs @ tid # ys))"
    by (rule allq_insert [OF a Q tid new])
  then have "allq ?t (Q(q := xs @ tid # ys))"
    by (rule allq_keys) (use tid in auto)
  then show ?thesis
    unfolding eq by (auto simp: ins_desc_split xs ys)
qed

lemma set_ins_desc [simp]: "set (ins_desc K k x xs) = insert x (set xs)"
  by (induction xs) auto

lemma ins_desc_not_Nil [simp]: "ins_desc K k x xs \<noteq> []"
  by (cases xs) auto

lemma sorted_ins_desc:
  assumes "sorted_wrt (\<lambda>x y. K x \<ge> K y) xs" "x \<notin> set xs" "K' x = k" "\<forall>y\<in>set xs. K' y = K y"
  shows "sorted_wrt (\<lambda>x y. K' x \<ge> K' y) (ins_desc K k x xs)"
  using assms
proof (induction xs)
  case Nil
  then show ?case by simp
next
  case (Cons a xs)
  have "sorted_wrt (\<lambda>x y. K' x \<ge> K' y) (a # xs)"
    using Cons.prems(1) by (rule sorted_wrt_mono_rel [rotated]) (use Cons.prems(4) in auto)
  then show ?case
    using Cons by auto
qed

lemma sorted_dropWhile:
  assumes "sorted_wrt (\<lambda>x y. K x \<ge> K y) xs"
  shows "\<forall>y\<in>set (dropWhile (\<lambda>y. k \<le> K y) xs). K y < (k::int)"
  using assms
proof (induction xs)
  case (Cons x xs)
  have "K y < k" if "\<not> k \<le> K x" "y \<in> set xs" for y using Cons.prems that by fastforce
  then show ?case using Cons by auto
qed simp

text \<open>With the key \<^term>\<open>MINKEY\<close> the scan runs past the tail sentinel.\<close>

lemma insert_scan_minkey:
  assumes "chain (quetab s) (p # ys @ [n])" "set ys \<subseteq> {0..<NTHREAD}" "0 \<le> n" "n < NQENT"
    "keys s n = MINKEY" "qnext (quetab s n) = EMPTY" "\<forall>y\<in>set ys. MINKEY \<le> keys s y"
  shows "insert_scan s (hd (ys @ [n])) MINKEY = None"
  using assms
proof (induction ys arbitrary: p)
  case Nil
  then show ?case by (simp add: insert_scan.simps [of s n] insert_scan.simps [of s EMPTY] bounds_simps quent_def)
next
  case (Cons y ys)
  have "qnext (quetab s y) = hd (ys @ [n])"
    using Cons.prems(1) by (cases ys) auto
  then show ?case
    using Cons.IH [of y] Cons.prems by (subst insert_scan.simps) (auto simp: bounds_simps)
qed

subsection \<open>Delta queues\<close>

text \<open>The keys after an insertion into a delta queue at the place \<^const>\<open>dsplit\<close> finds.\<close>

definition dkeys :: "(int \<Rightarrow> int) \<Rightarrow> int \<Rightarrow> int \<Rightarrow> int list \<Rightarrow> int \<Rightarrow> int" where
  "dkeys K x k' b i = (if i = x then k' else if b \<noteq> [] \<and> i = hd b then K i - k' else K i)"

lemma dsplit_props:
  assumes "dsplit K k ys = (a, b, k')" "\<forall>y\<in>set ys. 0 \<le> K y" "0 \<le> k"
  shows "ys = a @ b \<and> 0 \<le> k' \<and> k' \<le> k \<and> (b \<noteq> [] \<longrightarrow> k' < K (hd b))"
  using assms
proof (induction ys arbitrary: k a b k')
  case Nil
  then show ?case by simp
next
  case (Cons y ys)
  show ?case
  proof (cases "K y \<le> k")
    case True
    then obtain a' where a': "dsplit K (k - K y) ys = (a', b, k')" "a = y # a'"
      using Cons.prems(1) by (auto split: prod.splits)
    with Cons.IH [OF a'(1)] Cons.prems(2,3) True show ?thesis by fastforce
  next
    case False
    with Cons.prems show ?thesis by auto
  qed
qed

lemma insertd_scan_chain:
  assumes "chain (quetab s) (p # ys @ [q + 1])" "set ys \<subseteq> {0..<NTHREAD}" "NTHREAD \<le> q" "q + 1 < NQENT"
    "\<forall>y\<in>set ys. 0 \<le> keys s y" "0 \<le> k" "k \<le> INT_MAX" "dsplit (keys s) k ys = (a, b, k')"
  shows "insertd_scan s q p (hd (ys @ [q + 1])) k = Some (last (p # a), hd (b @ [q + 1]), k')"
  using assms
proof (induction ys arbitrary: p k a)
  case Nil
  then show ?case by (simp add: insertd_scan.simps bounds_simps)
next
  case (Cons y ys)
  have n: "qnext (quetab s y) = hd (ys @ [q + 1])" "chain (quetab s) (y # ys @ [q + 1])"
    using Cons.prems(1) by (cases ys; auto)+
  have y: "0 \<le> y" "y < NTHREAD" "y \<noteq> q + 1" using Cons.prems by auto
  show ?case
  proof (cases "keys s y \<le> k")
    case True
    then obtain a' where a': "dsplit (keys s) (k - keys s y) ys = (a', b, k')" "a = y # a'"
      using Cons.prems(8) by (auto split: prod.splits)
    show ?thesis
      using Cons.IH [OF n(2), of "k - keys s y" a'] Cons.prems a' True y n(1)
      by (subst insertd_scan.simps) (simp add: bounds_simps)
  next
    case False
    with Cons.prems(8) y show ?thesis by (subst insertd_scan.simps) (auto simp: bounds_simps)
  qed
qed

lemma insertd_ok:
  assumes a: "allq (quetab s) Q" "q \<in> queues" and t: "\<not> isbadtid s tid"
    and new: "\<forall>q\<in>queues. tid \<notin> set (Q q)" and k: "0 \<le> k" "k \<le> INT_MAX"
    and K: "\<forall>y\<in>set (Q q). 0 \<le> keys s y \<and> keys s y \<le> INT_MAX"
    and sp: "dsplit (keys s) k (Q q) = (xs, ys, k')"
  shows "\<exists>t'. insertd tid q k s = Some (OK, s\<lparr>quetab := t'\<rparr>) \<and> allq t' (Q(q := xs @ tid # ys)) \<and>
    (\<forall>i. qkey (t' i) = dkeys (keys s) tid k' ys i)"
proof -
  have ps: "Q q = xs @ ys" "0 \<le> k'" "k' \<le> k" "ys \<noteq> [] \<longrightarrow> k' < keys s (hd ys)"
    using dsplit_props [OF sp] K k by auto
  let ?p = "last (q # xs)" and ?n = "hd (ys @ [q + 1])"
  have b: "0 \<le> ?p" "?p < NQENT" "0 \<le> ?n" "?n < NQENT" "NTHREAD \<le> q" "q + 1 < NQENT"
    using last_hd_bounds [OF a ps(1)] queues_props [OF a(2)] by auto
  have tid: "0 \<le> tid" "tid < NTHREAD" using t by auto
  have ne: "?p \<noteq> tid" "?n \<noteq> tid" "?p \<noteq> ?n"
    using last_node [of q xs] hd_node [of ys "q + 1"] new a(2) tid b(5) allq_range [OF a]
      allq_distinct [OF a] ps(1) by force+
  have nq: "(?n = q + 1) = (ys = [])"
    using hd_node [of ys "q + 1"] allq_range [OF a] b(5) ps(1) by (cases ys) force+
  have hdt: "ys \<noteq> [] \<Longrightarrow> hd ys < NTHREAD"
    using allq_range [OF a] ps(1) by (cases ys) auto
  have nk: "ys \<noteq> [] \<Longrightarrow> 0 \<le> keys s ?n \<and> keys s ?n \<le> INT_MAX"
    using K ps(1) by (cases ys) auto
  have "insertd_scan s q q (qnext (quetab s q)) k = Some (?p, ?n, k')"
    using insertd_scan_chain [of s q "Q q" q k xs ys k'] allq_isq [OF a] b k K sp allq_ends(1) [OF a]
    by (simp add: isq_def)
  then have eq: "insertd tid q k s = Some (OK, s\<lparr>quetab :=
      (\<lambda>i. (qsplice (quetab s) ?p tid ?n i)\<lparr>qkey := dkeys (keys s) tid k' ys i\<rparr>)\<rparr>)"
      (is "_ = Some (OK, s\<lparr>quetab := ?t\<rparr>)")
    using t b tid ne queues_props [OF a(2)] nq nk ps k
    by (cases "ys = []")
      (auto simp: insertd_def bounds_simps qsplice_def fun_eq_iff dkeys_def hd_append simp del: last.simps)
  have "allq (qsplice (quetab s) ?p tid ?n) (Q(q := xs @ tid # ys))"
    by (rule allq_insert [OF a ps(1) tid new])
  then have "allq ?t (Q(q := xs @ tid # ys))"
    by (rule allq_keys) (use tid nq b(5) hdt in \<open>auto simp: dkeys_def\<close>)
  then show ?thesis
    unfolding eq by auto
qed

lemma due_cong: "\<forall>x\<in>set xs. K' x = K x \<Longrightarrow> due K' acc xs = due K acc xs"
  by (induction xs arbitrary: acc) auto

lemma dsplit_set: "dsplit K k ys = (a, b, k') \<Longrightarrow> set b \<subseteq> set ys"
  by (induction ys arbitrary: k a) (auto split: if_splits prod.splits)

lemma due_dsplit:
  assumes "dsplit K k ys = (a, b, k')" "x \<notin> set ys" "distinct ys"
  shows "due (dkeys K x k' b) acc (a @ x # b) = ins_time x (acc + k) (due K acc ys)"
  using assms
proof (induction ys arbitrary: k a acc)
  case Nil
  then show ?case by (simp add: dkeys_def)
next
  case (Cons y ys)
  show ?case
  proof (cases "K y \<le> k")
    case True
    then obtain a' where a': "dsplit K (k - K y) ys = (a', b, k')" "a = y # a'"
      using Cons.prems(1) by (auto split: prod.splits)
    have "set b \<subseteq> set ys" by (rule dsplit_set [OF a'(1)])
    then have "dkeys K x k' b y = K y"
      using Cons.prems(2,3) by (cases b) (auto simp: dkeys_def)
    then show ?thesis
      using Cons.IH [OF a'(1), of "acc + K y"] Cons.prems a'(2) True by (simp add: algebra_simps)
  next
    case False
    then have e: "a = []" "b = y # ys" "k' = k" using Cons.prems(1) by auto
    have "due (dkeys K x k' b) (acc + K y) ys = due K (acc + K y) ys"
      using Cons.prems(2,3) e by (intro due_cong) (auto simp: dkeys_def)
    moreover have "dkeys K x k' b x = k" "dkeys K x k' b y = K y - k"
      using e Cons.prems(2) by (auto simp: dkeys_def)
    ultimately show ?thesis
      using False e by simp
  qed
qed

text \<open>
  Taking \<open>x\<close> out of a delta queue and adding its key to the successor's leaves the wake-up
  time of every other thread unchanged.
\<close>

lemma due_append: "due K acc (xs @ ys) = due K acc xs @ due K (acc + (\<Sum>x\<leftarrow>xs. K x)) ys"
  by (induction xs arbitrary: acc) (auto simp: algebra_simps)

lemma due_remove:
  assumes d: "distinct (xs @ x # ys)"
    and K': "\<forall>i. i \<noteq> x \<longrightarrow> K' i = (if ys \<noteq> [] \<and> i = hd ys then K i + K x else K i)"
  shows "due K' acc (xs @ ys) = due K acc xs @ tl (due K (acc + (\<Sum>x\<leftarrow>xs. K x)) (x # ys))"
proof -
  have Kx: "\<forall>i\<in>set xs. K' i = K i"
    using d K' by (cases ys) auto
  have s: "sum_list (map K' xs) = sum_list (map K xs)" "due K' acc xs = due K acc xs"
    using Kx by (auto intro!: arg_cong [where f = sum_list] due_cong)
  show ?thesis
  proof (cases ys)
    case Nil
    with s show ?thesis by simp
  next
    case (Cons y zs)
    have "due K' b zs = due K b zs" for b
      using d K' Cons by (intro due_cong) auto
    with s Cons d K' show ?thesis by (auto simp: due_append algebra_simps)
  qed
qed

section \<open>The queue interface\<close>

text \<open>
  What the clients of the queue table (the scheduler, the semaphores, the sleep queue) rely
  on: an abstraction \<open>repr\<close> of the table to one list per queue, and the effect of each
  operation on it.
\<close>

locale thread_queues =
  fixes enq :: "int \<Rightarrow> int \<Rightarrow> 's \<Rightarrow> (int \<times> 's) option"
    and deq :: "int \<Rightarrow> 's \<Rightarrow> (int \<times> 's) option"
    and rem :: "int \<Rightarrow> 's \<Rightarrow> (int \<times> 's) option"
    and valid :: "'s \<Rightarrow> int \<Rightarrow> bool"
    and repr :: "'s \<Rightarrow> (int \<Rightarrow> int list) \<Rightarrow> bool"
    and qs :: "int set"
  assumes enq_law: "repr s Q \<Longrightarrow> q \<in> qs \<Longrightarrow> valid s t \<Longrightarrow> \<forall>q\<in>qs. t \<notin> set (Q q) \<Longrightarrow>
      \<exists>s'. enq t q s = Some (t, s') \<and> repr s' (Q(q := Q q @ [t])) \<and> valid s' = valid s"
    and deq_law: "repr s Q \<Longrightarrow> q \<in> qs \<Longrightarrow> Q q = t # ts \<Longrightarrow>
      \<exists>s'. deq q s = Some (t, s') \<and> repr s' (Q(q := ts)) \<and> valid s' = valid s"
    and deq_empty_law: "repr s Q \<Longrightarrow> q \<in> qs \<Longrightarrow> Q q = [] \<Longrightarrow> deq q s = Some (EMPTY, s)"
    and rem_law: "repr s Q \<Longrightarrow> q \<in> qs \<Longrightarrow> t \<in> set (Q q) \<Longrightarrow>
      \<exists>s'. rem t s = Some (t, s') \<and> repr s' (Q(q := remove1 t (Q q))) \<and> valid s' = valid s"
    and disjoint_law: "repr s Q \<Longrightarrow> q \<in> qs \<Longrightarrow> q' \<in> qs \<Longrightarrow> q \<noteq> q' \<Longrightarrow> set (Q q) \<inter> set (Q q') = {}"

fun enq_all :: "(int \<Rightarrow> int \<Rightarrow> 's \<Rightarrow> (int \<times> 's) option) \<Rightarrow> int list \<Rightarrow> int \<Rightarrow> 's \<Rightarrow> 's option" where
  "enq_all enq [] q s = Some s"
| "enq_all enq (t # ts) q s = do { (_, s) \<leftarrow> enq t q s; enq_all enq ts q s }"

fun deq_n :: "(int \<Rightarrow> 's \<Rightarrow> (int \<times> 's) option) \<Rightarrow> nat \<Rightarrow> int \<Rightarrow> 's \<Rightarrow> (int list \<times> 's) option" where
  "deq_n deq 0 q s = Some ([], s)"
| "deq_n deq (Suc n) q s =
     do { (t, s) \<leftarrow> deq q s; (ts, s) \<leftarrow> deq_n deq n q s; Some (t # ts, s) }"

context thread_queues
begin

lemma enq_all_law:
  assumes "repr s Q" "q \<in> qs" "\<forall>t\<in>set ts. valid s t \<and> (\<forall>q\<in>qs. t \<notin> set (Q q))" "distinct ts"
  shows "\<exists>s'. enq_all enq ts q s = Some s' \<and> repr s' (Q(q := Q q @ ts)) \<and> valid s' = valid s"
  using assms
proof (induction ts arbitrary: s Q)
  case Nil
  then show ?case by simp
next
  case (Cons t ts)
  obtain s1 where s1: "enq t q s = Some (t, s1)" "repr s1 (Q(q := Q q @ [t]))" "valid s1 = valid s"
    using enq_law [OF Cons.prems(1,2), of t] Cons.prems(3) by auto
  have "\<exists>s'. enq_all enq ts q s1 = Some s' \<and>
      repr s' ((Q(q := Q q @ [t]))(q := (Q(q := Q q @ [t])) q @ ts)) \<and> valid s' = valid s1"
    by (rule Cons.IH [OF s1(2) Cons.prems(2)]) (use Cons.prems s1(3) in auto)
  then obtain s' where "enq_all enq ts q s1 = Some s'" "repr s' (Q(q := Q q @ t # ts))" "valid s' = valid s1"
    by (auto simp del: fun_upd_apply simp: fun_upd_same)
  then show ?case by (simp add: s1 del: fun_upd_apply)
qed

lemma deq_n_law:
  assumes "repr s Q" "q \<in> qs" "Q q = ts @ us"
  shows "\<exists>s'. deq_n deq (length ts) q s = Some (ts, s') \<and> repr s' (Q(q := us)) \<and> valid s' = valid s"
  using assms
proof (induction ts arbitrary: s Q)
  case Nil
  then show ?case by (simp add: fun_upd_idem)
next
  case (Cons t ts)
  obtain s1 where s1: "deq q s = Some (t, s1)" "repr s1 (Q(q := ts @ us))" "valid s1 = valid s"
    using deq_law [OF Cons.prems(1,2)] Cons.prems(3) by auto
  have "\<exists>s'. deq_n deq (length ts) q s1 = Some (ts, s') \<and> repr s' ((Q(q := ts @ us))(q := us)) \<and>
      valid s' = valid s1"
    by (rule Cons.IH [OF s1(2) Cons.prems(2)]) simp
  then obtain s' where "deq_n deq (length ts) q s1 = Some (ts, s')" "repr s' (Q(q := us))" "valid s' = valid s1"
    by (auto simp del: fun_upd_apply simp: fun_upd_same)
  then show ?case by (simp add: s1 del: fun_upd_apply)
qed

lemma fifo:
  assumes "repr s Q" "q \<in> qs" "\<forall>t\<in>set ts. valid s t \<and> (\<forall>q\<in>qs. t \<notin> set (Q q))" "distinct ts"
    and "Q q = us"
  shows "\<exists>s1 s2. enq_all enq ts q s = Some s1 \<and>
    deq_n deq (length (us @ ts)) q s1 = Some (us @ ts, s2) \<and> repr s2 (Q(q := []))"
  using enq_all_law [OF assms(1-4)] deq_n_law [of _ "Q(q := us @ ts)" q "us @ ts" "[]"] assms(2,5)
  by fastforce

end

lemma isbadtid_quetab [frame_simps]: "isbadtid (s\<lparr>quetab := t\<rparr>) = isbadtid s"
  by (simp add: isbadtid_def fun_eq_iff)

interpretation qt: thread_queues enqueue dequeue getitem "\<lambda>s t. \<not> isbadtid s t" "\<lambda>s. allq (quetab s)" queues
proof
  fix s :: "'a kernel_scheme" and Q :: "int \<Rightarrow> int list" and q t :: int and ts :: "int list"
  assume a: "allq (quetab s) Q" "q \<in> queues"
  show "\<exists>s'. enqueue t q s = Some (t, s') \<and> allq (quetab s') (Q(q := Q q @ [t])) \<and>
      (\<lambda>t. \<not> isbadtid s' t) = (\<lambda>t. \<not> isbadtid s t)"
    if "\<not> isbadtid s t" "\<forall>q\<in>queues. t \<notin> set (Q q)"
    using enqueue_ok [OF a that] by (auto simp: frame_simps)
  show "\<exists>s'. dequeue q s = Some (t, s') \<and> allq (quetab s') (Q(q := ts)) \<and>
      (\<lambda>t. \<not> isbadtid s' t) = (\<lambda>t. \<not> isbadtid s t)" if "Q q = t # ts"
    using dequeue_ok [OF a that] by (auto simp: frame_simps)
  show "dequeue q s = Some (EMPTY, s)" if "Q q = []"
    by (rule dequeue_empty [OF a that])
  show "\<exists>s'. getitem t s = Some (t, s') \<and> allq (quetab s') (Q(q := remove1 t (Q q))) \<and>
      (\<lambda>t. \<not> isbadtid s' t) = (\<lambda>t. \<not> isbadtid s t)" if "t \<in> set (Q q)"
    using getitem_ok [OF a that] by (auto simp: frame_simps)
  show "set (Q q) \<inter> set (Q q') = {}" if "q' \<in> queues" "q \<noteq> q'" for q'
    using a that by (auto simp: allq_def)
qed

end
