(* ===== verification/Kernel_Inv.thy ===== *)
theory Kernel_Inv
  imports Queue
begin

text \<open>
  The invariant that ties the thread table, the queue table and the semaphore table together.
  \<open>Q\<close> is the abstract contents of every queue.  \<open>kinv0 Q s\<close> also holds in the middle of a
  system call, after the running thread has been given its next state and before \<^verbatim>\<open>resched\<close>;
  \<open>kinv Q s\<close> holds whenever a thread is running.
\<close>

section \<open>The queue a thread belongs to\<close>

definition home :: "'a kernel_scheme \<Rightarrow> int \<Rightarrow> int option" where
  "home s t = (case tstate (thrtab s t) of
      THRREADY \<Rightarrow> Some (readylist s)
    | THRWAIT \<Rightarrow> Some (semqueue (semtab s (uint (tsem (thrtab s t)))))
    | THRSLEEP \<Rightarrow> Some (sleepq s)
    | THRTMOUT \<Rightarrow> Some (sleepq s)
    | _ \<Rightarrow> None)"

definition tids :: "int set" where "tids = {0..<NTHREAD}"
definition sids :: "int set" where "sids = {0..<NSEM}"

definition config_ok :: "'a kernel_scheme \<Rightarrow> bool" where
  "config_ok s \<longleftrightarrow> readylist s \<in> queues \<and> sleepq s \<in> queues \<and> readylist s \<noteq> sleepq s \<and>
     (\<forall>i\<in>sids. semqueue (semtab s i) \<in> queues - {readylist s, sleepq s}) \<and>
     inj_on (\<lambda>i. semqueue (semtab s i)) sids"

definition inv_homes :: "(int \<Rightarrow> int list) \<Rightarrow> 'a kernel_scheme \<Rightarrow> bool" where
  "inv_homes Q s \<longleftrightarrow> (\<forall>q\<in>queues. \<forall>t. t \<in> set (Q q) \<longleftrightarrow> t \<in> tids \<and> home s t = Some q)"

definition inv_sems :: "(int \<Rightarrow> int list) \<Rightarrow> 'a kernel_scheme \<Rightarrow> bool" where
  "inv_sems Q s \<longleftrightarrow> (\<forall>i\<in>sids.
     int (length (Q (semqueue (semtab s i)))) = max 0 (- count (semtab s i)) \<and>
     count (semtab s i) \<le> INT_MAX \<and>
     (semstate (semtab s i) = SFREE \<longrightarrow> 0 \<le> count (semtab s i)))"

definition inv_threads :: "'a kernel_scheme \<Rightarrow> bool" where
  "inv_threads s \<longleftrightarrow>
     (\<forall>t\<in>tids. INT_MIN < prio (thrtab s t) \<and> prio (thrtab s t) \<le> INT_MAX) \<and>
     (\<forall>t\<in>tids. tstate (thrtab s t) = THRWAIT \<longrightarrow> uint (tsem (thrtab s t)) \<in> sids) \<and>
     (\<forall>t\<in>tids. tstate (thrtab s t) = THRCURR \<longrightarrow> t = thrcurrent s) \<and>
     thrcurrent s \<in> tids \<and>
     tstate (thrtab s NULLTHREAD) \<in> {THRREADY, THRCURR}"

definition inv_ready :: "(int \<Rightarrow> int list) \<Rightarrow> 'a kernel_scheme \<Rightarrow> bool" where
  "inv_ready Q s \<longleftrightarrow> sorted_wrt (\<lambda>x y. keys s x \<ge> keys s y) (Q (readylist s))"

definition inv_sleep :: "(int \<Rightarrow> int list) \<Rightarrow> 'a kernel_scheme \<Rightarrow> bool" where
  "inv_sleep Q s \<longleftrightarrow> (\<forall>x\<in>set (Q (sleepq s)). 0 \<le> keys s x) \<and>
     (\<Sum>x\<leftarrow>Q (sleepq s). keys s x) \<le> INT_MAX"

definition kinv0 :: "(int \<Rightarrow> int list) \<Rightarrow> 'a kernel_scheme \<Rightarrow> bool" where
  "kinv0 Q s \<longleftrightarrow> allq (quetab s) Q \<and> config_ok s \<and> inv_homes Q s \<and> inv_sems Q s \<and>
     inv_threads s \<and> inv_ready Q s \<and> inv_sleep Q s"

definition kinv :: "(int \<Rightarrow> int list) \<Rightarrow> 'a kernel_scheme \<Rightarrow> bool" where
  "kinv Q s \<longleftrightarrow> kinv0 Q s \<and> tstate (thrtab s (thrcurrent s)) = THRCURR \<and> resdefer s = 0"

lemmas inv_defs = inv_homes_def inv_sems_def inv_threads_def inv_ready_def inv_sleep_def

section \<open>Consequences\<close>

lemma kinv0D:
  assumes "kinv0 Q s"
  shows "allq (quetab s) Q" "config_ok s" "inv_homes Q s" "inv_sems Q s" "inv_threads s"
    "inv_ready Q s" "inv_sleep Q s"
  using assms by (auto simp: kinv0_def)

lemma config_okD:
  assumes "config_ok s"
  shows "readylist s \<in> queues" "sleepq s \<in> queues" "readylist s \<noteq> sleepq s"
    "\<And>i. i \<in> sids \<Longrightarrow> semqueue (semtab s i) \<in> queues"
    "\<And>i. i \<in> sids \<Longrightarrow> semqueue (semtab s i) \<noteq> readylist s"
    "\<And>i. i \<in> sids \<Longrightarrow> semqueue (semtab s i) \<noteq> sleepq s"
    "\<And>i j. i \<in> sids \<Longrightarrow> j \<in> sids \<Longrightarrow> i \<noteq> j \<Longrightarrow> semqueue (semtab s i) \<noteq> semqueue (semtab s j)"
  using assms by (auto simp: config_ok_def inj_on_def)

lemma tids_iff [simp]: "t \<in> tids \<longleftrightarrow> 0 \<le> t \<and> t < NTHREAD"
  by (simp add: tids_def)

lemma sids_iff [simp]: "i \<in> sids \<longleftrightarrow> 0 \<le> i \<and> i < NSEM"
  by (simp add: sids_def)

lemma config_ok_cong:
  assumes "readylist s' = readylist s" "sleepq s' = sleepq s"
    "\<forall>i. semqueue (semtab s' i) = semqueue (semtab s i)"
  shows "config_ok s' = config_ok s"
  using assms by (simp add: config_ok_def)

lemma inv_homesD:
  "inv_homes Q s \<Longrightarrow> q \<in> queues \<Longrightarrow> t \<in> set (Q q) \<longleftrightarrow> t \<in> tids \<and> home s t = Some q"
  by (simp add: inv_homes_def)

lemma home_None_notin:
  "inv_homes Q s \<Longrightarrow> home s t = None \<Longrightarrow> \<forall>q\<in>queues. t \<notin> set (Q q)"
  by (auto simp: inv_homes_def)

lemma home_queues:
  assumes "config_ok s" "inv_threads s" "t \<in> tids" "home s t = Some q"
  shows "q \<in> queues"
  using assms config_okD [OF assms(1)]
  by (auto simp: home_def inv_threads_def split: thrstate.splits)

text \<open>When nobody is running, the null thread is ready: the ready list is never empty then.\<close>

lemma ready_nonempty:
  assumes "kinv0 Q s" "tstate (thrtab s (thrcurrent s)) \<noteq> THRCURR"
  shows "Q (readylist s) \<noteq> []"
proof -
  note k = kinv0D [OF assms(1)]
  have "tstate (thrtab s NULLTHREAD) = THRREADY"
    using k(5) assms(2) by (auto simp: inv_threads_def)
  then have "NULLTHREAD \<in> set (Q (readylist s))"
    using inv_homesD [OF k(3) config_okD(1) [OF k(2)]] by (simp add: home_def)
  then show ?thesis by auto
qed

section \<open>Preservation lemmas\<close>

text \<open>Thread \<open>t\<close> changes queue: it leaves the one it was in and joins the one its new state names.\<close>

lemma inv_homes_move:
  assumes h: "inv_homes Q s" and t: "t \<in> tids"
    and same: "\<forall>u. u \<noteq> t \<longrightarrow> home s' u = home s u"
    and Q': "\<forall>q\<in>queues. set (Q' q) = (set (Q q) - {t}) \<union> (if home s' t = Some q then {t} else {})"
  shows "inv_homes Q' s'"
  using assms by (auto simp: inv_homes_def)

lemma inv_sems_frame:
  assumes "inv_sems Q s"
    and "\<forall>i\<in>sids. length (Q' (semqueue (semtab s' i))) = length (Q (semqueue (semtab s i))) \<and>
          count (semtab s' i) = count (semtab s i) \<and> semstate (semtab s' i) = semstate (semtab s i)"
  shows "inv_sems Q' s'"
  using assms by (simp add: inv_sems_def)

lemma inv_ready_frame:
  assumes "inv_ready Q s" "Q' (readylist s') = Q (readylist s)"
    "\<forall>x\<in>set (Q (readylist s)). keys s' x = keys s x"
  shows "inv_ready Q' s'"
  unfolding inv_ready_def assms(2)
  by (rule sorted_wrt_mono_rel [OF _ assms(1) [unfolded inv_ready_def]]) (use assms(3) in auto)

lemma inv_sleep_frame:
  assumes "inv_sleep Q s" "Q' (sleepq s') = Q (sleepq s)"
    "\<forall>x\<in>set (Q (sleepq s)). keys s' x = keys s x"
  shows "inv_sleep Q' s'"
proof -
  have "map (keys s') (Q (sleepq s)) = map (keys s) (Q (sleepq s))" using assms(3) by simp
  then show ?thesis using assms by (simp add: inv_sleep_def del: map_eq_conv)
qed

text \<open>The invariant does not depend on the other fields.\<close>

lemma kinv0_cong:
  assumes k: "kinv0 Q s"
    and e: "quetab s' = quetab s" "semtab s' = semtab s" "readylist s' = readylist s" "sleepq s' = sleepq s"
      "thrcurrent s' = thrcurrent s"
    and t: "\<forall>t. tstate (thrtab s' t) = tstate (thrtab s t) \<and> tsem (thrtab s' t) = tsem (thrtab s t)"
    and p: "\<forall>t\<in>tids. INT_MIN < prio (thrtab s' t) \<and> prio (thrtab s' t) \<le> INT_MAX"
  shows "kinv0 Q s'"
proof -
  have h: "home s' = home s" using e t by (simp add: home_def fun_eq_iff split: thrstate.split)
  have "inv_threads s'" using kinv0D(5) [OF k] e t p by (auto simp: inv_threads_def)
  then show ?thesis
    using k e by (simp add: kinv0_def config_ok_def inv_homes_def inv_sems_def inv_ready_def inv_sleep_def h)
qed

lemma kinv_cong:
  assumes k: "kinv Q s"
    and e: "quetab s' = quetab s" "semtab s' = semtab s" "readylist s' = readylist s" "sleepq s' = sleepq s"
      "thrcurrent s' = thrcurrent s" "resdefer s' = resdefer s"
    and t: "\<forall>t. tstate (thrtab s' t) = tstate (thrtab s t) \<and> tsem (thrtab s' t) = tsem (thrtab s t)"
    and p: "\<forall>t\<in>tids. INT_MIN < prio (thrtab s' t) \<and> prio (thrtab s' t) \<le> INT_MAX"
  shows "kinv Q s'"
  using k kinv0_cong [of Q s s', OF _ e(1-5) t p] e t by (simp add: kinv_def)

lemma prio_bounds: "inv_threads s \<Longrightarrow> t \<in> tids \<Longrightarrow> INT_MIN < prio (thrtab s t) \<and> prio (thrtab s t) \<le> INT_MAX"
  by (simp add: inv_threads_def)

text \<open>One thread changes state and queue; the general form every system call uses.\<close>

lemma kinv0_step:
  assumes k: "kinv0 Q s" and t: "t \<in> tids" and qt: "allq (quetab s') Q'"
    and e: "readylist s' = readylist s" "sleepq s' = sleepq s" "thrcurrent s' = thrcurrent s"
      "\<forall>i. semqueue (semtab s' i) = semqueue (semtab s i)"
    and thr: "\<forall>u. u \<noteq> t \<longrightarrow> thrtab s' u = thrtab s u" "prio (thrtab s' t) = prio (thrtab s t)"
    and sets: "\<forall>q\<in>queues. set (Q' q) = (set (Q q) - {t}) \<union> (if home s' t = Some q then {t} else {})"
    and sems: "inv_sems Q' s'"
    and st: "tstate (thrtab s' t) = THRWAIT \<longrightarrow> uint (tsem (thrtab s' t)) \<in> sids"
      "tstate (thrtab s' t) = THRCURR \<longrightarrow> t = thrcurrent s"
      "t = NULLTHREAD \<longrightarrow> tstate (thrtab s' t) \<in> {THRREADY, THRCURR}"
    and rdy: "inv_ready Q' s'" and slp: "inv_sleep Q' s'"
  shows "kinv0 Q' s'"
proof -
  note k = kinv0D [OF k]
  have "home s' u = home s u" if "u \<noteq> t" for u
    using that thr e by (simp add: home_def split: thrstate.split)
  then have "inv_homes Q' s'"
    using inv_homes_move [OF k(3) t _ sets] by blast
  moreover have "inv_threads s'"
  proof -
    have u: "thrtab s' u = thrtab s u \<or> u = t" for u using thr(1) by blast
    have "INT_MIN < prio (thrtab s' u) \<and> prio (thrtab s' u) \<le> INT_MAX" if "u \<in> tids" for u
      using k(5) that u [of u] thr(2) by (auto simp: inv_threads_def)
    moreover have "tstate (thrtab s' u) = THRWAIT \<longrightarrow> uint (tsem (thrtab s' u)) \<in> sids" if "u \<in> tids" for u
      using k(5) that u [of u] st(1) by (auto simp: inv_threads_def)
    moreover have "tstate (thrtab s' u) = THRCURR \<longrightarrow> u = thrcurrent s" if "u \<in> tids" for u
      using k(5) that u [of u] st(2) by (auto simp: inv_threads_def)
    moreover have "tstate (thrtab s' NULLTHREAD) \<in> {THRREADY, THRCURR}"
      using k(5) u [of NULLTHREAD] st(3) by (auto simp: inv_threads_def)
    ultimately show ?thesis using k(5) e(3) by (simp add: inv_threads_def)
  qed
  moreover have "config_ok s'" using k(2) e by (simp add: config_ok_def)
  ultimately show ?thesis
    using qt sems rdy slp by (simp add: kinv0_def)
qed

lemma length_queue_le:
  assumes "allq t Q" "q \<in> queues"
  shows "length (Q q) \<le> 100"
proof -
  have "set (Q q) \<subseteq> {0..<NTHREAD}" "distinct (Q q)" using allq_isq [OF assms] by (auto simp: isq_def)
  then have "card (set (Q q)) \<le> card {0..<NTHREAD}" by (intro card_mono) auto
  then show ?thesis using \<open>distinct (Q q)\<close> by (simp add: distinct_card)
qed

text \<open>A semaphore count is never below minus the number of threads.\<close>

lemma count_lower:
  assumes "kinv0 Q s" "i \<in> sids"
  shows "- 100 \<le> count (semtab s i)"
  using length_queue_le [OF kinv0D(1) [OF assms(1)] config_okD(4) [OF kinv0D(2) [OF assms(1)] assms(2)]]
    kinv0D(4) [OF assms(1)] assms(2) unfolding inv_sems_def by fastforce

section \<open>A sample state\<close>

text \<open>
  A small running system, used to show that the hypotheses of the properties can hold: thread 1
  runs, the null thread is ready, thread 2 is suspended, thread 3 sleeps for five ticks, thread 4
  waits on semaphore 1, thread 5 is in a timed receive for nine ticks, thread 6 in a receive.
\<close>

definition sampleQ :: "int \<Rightarrow> int list" where
  "sampleQ q = (if q = 300 then [0] else if q = 302 then [3, 5] else if q = 102 then [4] else [])"

definition sample_que :: "int \<Rightarrow> queent" where
  "sample_que i =
     (if i = 0 then \<lparr>qkey = 0, qnext = 301, qprev = 300\<rparr>
      else if i = 3 then \<lparr>qkey = 5, qnext = 5, qprev = 302\<rparr>
      else if i = 5 then \<lparr>qkey = 4, qnext = 303, qprev = 3\<rparr>
      else if i = 4 then \<lparr>qkey = 0, qnext = 103, qprev = 102\<rparr>
      else if i = 300 then \<lparr>qkey = MAXKEY, qnext = 0, qprev = EMPTY\<rparr>
      else if i = 301 then \<lparr>qkey = MINKEY, qnext = EMPTY, qprev = 0\<rparr>
      else if i = 302 then \<lparr>qkey = MAXKEY, qnext = 3, qprev = EMPTY\<rparr>
      else if i = 303 then \<lparr>qkey = MINKEY, qnext = EMPTY, qprev = 5\<rparr>
      else if i = 102 then \<lparr>qkey = MAXKEY, qnext = 4, qprev = EMPTY\<rparr>
      else if i = 103 then \<lparr>qkey = MINKEY, qnext = EMPTY, qprev = 4\<rparr>
      else if even i then \<lparr>qkey = MAXKEY, qnext = i + 1, qprev = EMPTY\<rparr>
      else \<lparr>qkey = MINKEY, qnext = EMPTY, qprev = i - 1\<rparr>)"

definition sample_thr :: "int \<Rightarrow> thrent" where
  "sample_thr t = \<lparr>tstate = (if t = 0 then THRREADY else if t = 1 then THRCURR else if t = 2 then THRSUSP
       else if t = 3 then THRSLEEP else if t = 4 then THRWAIT else if t = 5 then THRTMOUT
       else if t = 6 then THRRECV else THRFREE),
     prio = (if t = 0 then 0 else if t = 2 then 30 else 20), stkptr = 0, stkbase = 0, stklen = 0, tname = [], tsem = 1,
     parent = 1, msg = 0, hasmsg = False, tmem_next = 0, tmem_length = 0, fdesc = []\<rparr>"

definition sample_heap :: heap where
  "sample_heap = \<lparr>mem = (\<lambda>a. if a = 4100 then 4096 else 0), memlist_next = 4096, memlist_length = 4096,
     memheap = 4096, maxaddr = 8192\<rparr>"

definition sample :: kernel where
  "sample = \<lparr>quetab = sample_que, nextqid = 304, thrtab = sample_thr, thrcount = 7, thrcurrent = 1, nexttid = 6,
     semtab = (\<lambda>i. \<lparr>semstate = (if i < 2 then SUSED else SFREE), count = (if i = 0 then 1 else if i = 1 then -1 else 0),
       semqueue = 100 + 2 * i\<rparr>),
     nextsem = 1, readylist = 300, sleepq = 302, resdefer = 0, clkticks = 0, clktime = 0, kheap = sample_heap\<rparr>"

lemmas sample_simps = sample_def sampleQ_def sample_que_def sample_thr_def

lemma sample_allq: "allq sample_que sampleQ"
proof -
  have "isq sample_que q (sampleQ q)" if "q \<in> queues" for q
  proof -
    have q: "100 \<le> q" "q < 303" "even q" using that by (auto simp: queues_def)
    then have "q \<noteq> 301" "q \<noteq> 303" "q \<noteq> 103" "q + 1 \<noteq> 300" "q + 1 \<noteq> 302" "q + 1 \<noteq> 102" by auto
    then show ?thesis using q by (auto simp: isq_def sampleQ_def sample_que_def)
  qed
  then show ?thesis by (auto simp: allq_def sampleQ_def)
qed

lemma sample_kinv: "kinv sampleQ sample"
proof -
  have "config_ok sample" by (auto simp: config_ok_def sample_def queues_def inj_on_def)
  moreover have "inv_homes sampleQ sample"
    by (auto simp: inv_homes_def home_def sample_simps queues_def split: if_splits)
  moreover have "inv_sems sampleQ sample" by (auto simp: inv_sems_def sample_simps)
  moreover have "inv_threads sample" by (auto simp: inv_threads_def sample_simps split: if_splits)
  moreover have "inv_ready sampleQ sample" "inv_sleep sampleQ sample"
    by (auto simp: inv_ready_def inv_sleep_def sample_simps)
  ultimately show ?thesis using sample_allq by (simp add: kinv_def kinv0_def) (simp add: sample_simps)
qed

end
