(* ===== verification/Sched.thy ===== *)
theory Sched
  imports Kernel_Inv
begin

text \<open>
  Thread scheduling: \<^verbatim>\<open>system/ready.c\<close>, \<^verbatim>\<open>resched.c\<close>, \<^verbatim>\<open>resume.c\<close>, \<^verbatim>\<open>suspend.c\<close>,
  \<^verbatim>\<open>chprio.c\<close>, \<^verbatim>\<open>getprio.c\<close>, \<^verbatim>\<open>yield.c\<close>, \<^verbatim>\<open>gettid.c\<close>.  The context switch
  \<^verbatim>\<open>ctxsw\<close> exchanges register contexts and is visible here only as the change of
  \<^const>\<open>thrcurrent\<close>; the code a system call runs after its \<^verbatim>\<open>resched\<close> is run when the
  calling thread is dispatched again.
\<close>

section \<open>Operations\<close>

definition gettid :: "'a kernel_scheme \<Rightarrow> int" where
  "gettid s = thrcurrent s"

text \<open>The two statements \<^verbatim>\<open>thrptr->state = THRREADY; insert(tid, readylist, thrptr->prio)\<close>,
  which \<^verbatim>\<open>ready\<close>, \<^verbatim>\<open>resume\<close>, \<^verbatim>\<open>send\<close>, \<^verbatim>\<open>signal\<close>, \<^verbatim>\<open>signaln\<close> and
  \<^verbatim>\<open>semfree\<close> all contain.\<close>

definition make_ready :: "int \<Rightarrow> 'a kernel_scheme \<Rightarrow> 'a kernel_scheme option" where
  "make_ready tid s = do {
     s \<leftarrow> set_thread tid (tstate_update (\<lambda>_. THRREADY)) s;
     t \<leftarrow> thread s tid;
     (_, s) \<leftarrow> insert_q tid (readylist s) (prio t) s;
     Some s
   }"

definition ready :: "int \<Rightarrow> 'a kernel_scheme \<Rightarrow> (int \<times> 'a kernel_scheme) option" where
  "ready tid s =
     (if isbadtid s tid then Some (SYSERR, s)
      else do { s \<leftarrow> make_ready tid s; Some (OK, s) })"

definition resched :: "'a kernel_scheme \<Rightarrow> (int \<times> 'a kernel_scheme) option" where
  "resched s =
     (if resdefer s > 0
      then do { d \<leftarrow> c_int (resdefer s + 1); Some (OK, s\<lparr>resdefer := d\<rparr>) }
      else do {
        throld \<leftarrow> thread s (thrcurrent s);
        keep \<leftarrow>
          (if tstate throld = THRCURR
           then do {
             ne \<leftarrow> nonempty s (readylist s);
             if ne then do { k \<leftarrow> firstkey s (readylist s); Some (prio throld > k) } else Some False
           }
           else Some False);
        if keep then Some (OK, s)
        else do {
          s \<leftarrow> (if tstate throld = THRCURR
                then do {
                  s \<leftarrow> set_thread (thrcurrent s) (tstate_update (\<lambda>_. THRREADY)) s;
                  (_, s) \<leftarrow> insert_q (thrcurrent s) (readylist s) (prio throld) s;
                  Some s
                }
                else Some s);
          (new, s) \<leftarrow> dequeue (readylist s) s;
          let s = s\<lparr>thrcurrent := new\<rparr>;
          s \<leftarrow> set_thread new (tstate_update (\<lambda>_. THRCURR)) s;
          Some (OK, s)
        }
      })"

definition resume :: "int \<Rightarrow> 'a kernel_scheme \<Rightarrow> (int \<times> 'a kernel_scheme) option" where
  "resume tid s =
     (if isbadtid s tid \<or> tstate (thrtab s tid) \<noteq> THRSUSP then Some (SYSERR, s)
      else do {
        t \<leftarrow> thread s tid;
        s \<leftarrow> make_ready tid s;
        (_, s) \<leftarrow> resched s;
        Some (prio t, s)
      })"

text \<open>
  A call that gives up the processor before its last statement has the result \<open>None\<close>: its
  remaining statements are a definition of their own, to be run when the calling thread is
  dispatched again.  For \<^verbatim>\<open>suspend\<close> that is the final \<^verbatim>\<open>return thrptr->prio\<close>.
\<close>

definition suspend_return :: "int \<Rightarrow> 'a kernel_scheme \<Rightarrow> int option" where
  "suspend_return tid s = do { t \<leftarrow> thread s tid; Some (prio t) }"

definition suspend :: "int \<Rightarrow> 'a kernel_scheme \<Rightarrow> (int option \<times> 'a kernel_scheme) option" where
  "suspend tid s =
     (if isbadtid s tid \<or> NULLTHREAD = tid then Some (Some SYSERR, s)
      else do {
        t \<leftarrow> thread s tid;
        if tstate t \<noteq> THRCURR \<and> tstate t \<noteq> THRREADY then Some (Some SYSERR, s)
        else if tstate t = THRREADY
        then do {
          (_, s) \<leftarrow> getitem tid s;
          s \<leftarrow> set_thread tid (tstate_update (\<lambda>_. THRSUSP)) s;
          r \<leftarrow> suspend_return tid s;
          Some (Some r, s)
        }
        else do {
          s \<leftarrow> set_thread tid (tstate_update (\<lambda>_. THRSUSP)) s;
          (_, s) \<leftarrow> resched s;
          Some (None, s)
        }
      })"

definition chprio :: "int \<Rightarrow> int \<Rightarrow> 'a kernel_scheme \<Rightarrow> (int \<times> 'a kernel_scheme) option" where
  "chprio tid newprio s =
     (if isbadtid s tid then Some (SYSERR, s)
      else do {
        t \<leftarrow> thread s tid;
        s \<leftarrow> set_thread tid (prio_update (\<lambda>_. newprio)) s;
        Some (prio t, s)
      })"

definition getprio :: "int \<Rightarrow> 'a kernel_scheme \<Rightarrow> int option" where
  "getprio tid s =
     (if isbadtid s tid then Some SYSERR else do { t \<leftarrow> thread s tid; Some (prio t) })"

definition yield :: "'a kernel_scheme \<Rightarrow> (int \<times> 'a kernel_scheme) option" where
  "yield s = do { (_, s) \<leftarrow> resched s; Some (OK, s) }"

section \<open>Making a thread ready\<close>

text \<open>The state after thread \<open>t\<close> has been given the state \<open>st\<close> and the queue table \<open>qt\<close>.\<close>

abbreviation (input) restate :: "int \<Rightarrow> thrstate \<Rightarrow> (int \<Rightarrow> queent) \<Rightarrow> 'a kernel_scheme \<Rightarrow> 'a kernel_scheme" where
  "restate t st qt s \<equiv> s\<lparr>quetab := qt, thrtab := (thrtab s)(t := (thrtab s t)\<lparr>tstate := st\<rparr>)\<rparr>"

lemma home_restate_other: "u \<noteq> t \<Longrightarrow> home (restate t st qt s) u = home s u"
  by (simp add: home_def split: thrstate.split)

lemma config_ok_restate: "config_ok (restate t st qt s) = config_ok s"
  by (simp add: config_ok_def)

lemma kinv0_restate:
  assumes k: "kinv0 Q s" and t: "t \<in> tids" and qt: "allq qt Q'"
    and sets: "\<forall>q\<in>queues. set (Q' q) = (set (Q q) - {t}) \<union> (if home (restate t st qt s) t = Some q then {t} else {})"
    and sems: "\<forall>i\<in>sids. length (Q' (semqueue (semtab s i))) = length (Q (semqueue (semtab s i)))"
    and st: "st \<noteq> THRWAIT" "st = THRCURR \<longrightarrow> t = thrcurrent s" "t = NULLTHREAD \<longrightarrow> st \<in> {THRREADY, THRCURR}"
    and rdy: "inv_ready Q' (restate t st qt s)" and slp: "inv_sleep Q' (restate t st qt s)"
  shows "kinv0 Q' (restate t st qt s)"
proof -
  note k = kinv0D [OF k]
  have "inv_homes Q' (restate t st qt s)"
    by (rule inv_homes_move [OF k(3) t]) (use sets in \<open>auto simp: home_restate_other\<close>)
  moreover have "inv_sems Q' (restate t st qt s)"
    by (rule inv_sems_frame [OF k(4)]) (use sems in simp)
  moreover have "inv_threads (restate t st qt s)"
    using k(5) st by (auto simp: inv_threads_def)
  ultimately show ?thesis
    using qt rdy slp k(2) by (simp add: kinv0_def config_ok_restate)
qed

lemma make_ready_code:
  assumes a: "allq (quetab s) Q" "readylist s \<in> queues" and t: "t \<in> tids" "\<forall>q\<in>queues. t \<notin> set (Q q)"
    and p: "MINKEY < prio (thrtab s t)"
  shows "\<exists>qt. make_ready t s = Some (restate t THRREADY qt s) \<and>
    allq qt (Q(readylist s := ins_desc (keys s) (prio (thrtab s t)) t (Q (readylist s)))) \<and>
    (\<forall>i. qkey (qt i) = (if i = t then prio (thrtab s t) else keys s i))"
proof -
  let ?s = "restate t THRREADY (quetab s) s"
  have good: "\<not> isbadtid ?s t" using t(1) by (simp add: isbadtid_def)
  have e: "allq (quetab ?s) Q" "quetab ?s = quetab s" using a(1) by simp_all
  obtain qt where qt: "insert_q t (readylist s) (prio (thrtab s t)) ?s = Some (OK, ?s\<lparr>quetab := qt\<rparr>)"
      "allq qt (Q(readylist s := ins_desc (keys s) (prio (thrtab s t)) t (Q (readylist s))))"
      "\<forall>i. qkey (qt i) = (if i = t then prio (thrtab s t) else keys s i)"
    using insert_ok [OF e(1) a(2) good t(2) p] unfolding e(2) by blast
  have "make_ready t s = Some (restate t THRREADY qt s)"
    using t(1) qt(1) by (simp add: make_ready_def bounds_simps)
  with qt show ?thesis by blast
qed

lemma kinv0_make_ready:
  assumes k: "kinv0 Q s" and t: "t \<in> tids" "home s t = None"
    and qt: "allq qt (Q(readylist s := ins_desc (keys s) (prio (thrtab s t)) t (Q (readylist s))))"
      "\<forall>i. qkey (qt i) = (if i = t then prio (thrtab s t) else keys s i)"
  shows "kinv0 (Q(readylist s := ins_desc (keys s) (prio (thrtab s t)) t (Q (readylist s)))) (restate t THRREADY qt s)"
    (is "kinv0 ?Q ?s")
proof -
  note k' = kinv0D [OF k] and c = config_okD [OF kinv0D(2) [OF k]]
  have new: "\<forall>q\<in>queues. t \<notin> set (Q q)" by (rule home_None_notin [OF k'(3) t(2)])
  show ?thesis
  proof (rule kinv0_restate [OF k t(1) qt(1)])
    show "inv_ready ?Q ?s"
      using sorted_ins_desc [of "keys s" "Q (readylist s)" t "\<lambda>i. qkey (qt i)"] k'(6) new c(1) qt(2)
      by (auto simp: inv_ready_def)
    show "inv_sleep ?Q ?s"
      by (rule inv_sleep_frame [OF k'(7)]) (use c new qt(2) in auto)
  qed (use new c in \<open>auto simp: home_def\<close>)
qed

lemma make_ready_ok:
  assumes k: "kinv0 Q s" and t: "t \<in> tids" "home s t = None"
  shows "\<exists>qt. make_ready t s = Some (restate t THRREADY qt s) \<and>
    kinv0 (Q(readylist s := ins_desc (keys s) (prio (thrtab s t)) t (Q (readylist s)))) (restate t THRREADY qt s) \<and>
    (\<forall>i. qkey (qt i) = (if i = t then prio (thrtab s t) else keys s i))"
proof -
  note k' = kinv0D [OF k] and c = config_okD [OF kinv0D(2) [OF k]]
  have new: "\<forall>q\<in>queues. t \<notin> set (Q q)" by (rule home_None_notin [OF k'(3) t(2)])
  have p: "MINKEY < prio (thrtab s t)" using prio_bounds [OF k'(5) t(1)] by simp
  show ?thesis
    using make_ready_code [OF k'(1) c(1) t(1) new p] kinv0_make_ready [OF k t] by blast
qed

section \<open>Rescheduling\<close>

abbreviation (input) dispatched :: "int \<Rightarrow> (int \<Rightarrow> queent) \<Rightarrow> 'a kernel_scheme \<Rightarrow> 'a kernel_scheme" where
  "dispatched x qt s \<equiv> restate x THRCURR qt (s\<lparr>thrcurrent := x\<rparr>)"

lemma kinv0_thrcurrent:
  assumes k: "kinv0 Q s" and c: "tstate (thrtab s (thrcurrent s)) \<noteq> THRCURR" and x: "x \<in> tids"
  shows "kinv0 Q (s\<lparr>thrcurrent := x\<rparr>)"
proof -
  have h: "home (s\<lparr>thrcurrent := x\<rparr>) = home s"
    by (simp add: home_def fun_eq_iff split: thrstate.split)
  have "inv_threads (s\<lparr>thrcurrent := x\<rparr>)"
    using kinv0D(5) [OF k] c x by (auto simp: inv_threads_def)
  then show ?thesis
    using k by (simp add: kinv0_def config_ok_def inv_homes_def inv_sems_def inv_ready_def inv_sleep_def h)
qed

lemma kinv0_dispatch:
  assumes k: "kinv0 Q s" and c: "tstate (thrtab s (thrcurrent s)) \<noteq> THRCURR"
    and Q: "Q (readylist s) = x # xs" and qt: "allq qt (Q(readylist s := xs))" "\<forall>i. qkey (qt i) = keys s i"
  shows "kinv0 (Q(readylist s := xs)) (dispatched x qt s)"
proof -
  note k' = kinv0D [OF k] and cf = config_okD [OF kinv0D(2) [OF k]]
  have x: "x \<in> tids" and hx: "home s x = Some (readylist s)"
    using inv_homesD [OF k'(3) cf(1), of x] Q by auto
  have d: "x \<notin> set xs" using allq_distinct [OF k'(1) cf(1)] Q by simp
  have sets: "\<forall>q\<in>queues. set ((Q(readylist s := xs)) q) = set (Q q) - {x}"
    using inv_homesD [OF k'(3)] hx d Q by auto
  show ?thesis
  proof (rule kinv0_restate [OF kinv0_thrcurrent [OF k c x] x qt(1)])
    show "inv_ready (Q(readylist s := xs)) (dispatched x qt s)"
      using k'(6) Q qt(2) by (simp add: inv_ready_def)
    show "inv_sleep (Q(readylist s := xs)) (dispatched x qt s)"
      by (rule inv_sleep_frame [OF k'(7)]) (use cf(3) qt in simp_all)
    show "\<forall>i\<in>sids. length ((Q(readylist s := xs)) (semqueue (semtab (s\<lparr>thrcurrent := x\<rparr>) i))) =
        length (Q (semqueue (semtab (s\<lparr>thrcurrent := x\<rparr>) i)))"
      using cf(5) by simp
  qed (use sets in \<open>simp_all add: home_def\<close>)
qed

lemma resched_blocked:
  assumes k: "kinv0 Q s" and c: "tstate (thrtab s (thrcurrent s)) \<noteq> THRCURR" and r: "resdefer s = 0"
    and Q: "Q (readylist s) = x # xs"
  shows "\<exists>qt. resched s = Some (OK, dispatched x qt s) \<and>
    kinv (Q(readylist s := xs)) (dispatched x qt s) \<and> (\<forall>i. qkey (qt i) = keys s i)"
proof -
  note k' = kinv0D [OF k] and cf = config_okD [OF kinv0D(2) [OF k]]
  obtain qt where qt: "dequeue (readylist s) s = Some (x, s\<lparr>quetab := qt\<rparr>)"
      "allq qt (Q(readylist s := xs))" "\<forall>i. qkey (qt i) = keys s i"
    using dequeue_ok [OF k'(1) cf(1) Q] by blast
  have x: "x \<in> tids" using inv_homesD [OF k'(3) cf(1), of x] Q by simp
  have "thrcurrent s \<in> tids" using k'(5) by (simp add: inv_threads_def)
  then have "resched s = Some (OK, dispatched x qt s)"
    using c r x qt(1) by (simp add: resched_def bounds_simps)
  moreover have "kinv (Q(readylist s := xs)) (dispatched x qt s)"
    using kinv0_dispatch [OF k c Q qt(2,3)] r by (simp add: kinv_def)
  ultimately show ?thesis using qt(3) by blast
qed

lemma resched_keep:
  assumes k: "kinv Q s" and Q: "Q (readylist s) = x # xs" and p: "keys s x < prio (thrtab s (thrcurrent s))"
  shows "resched s = Some (OK, s)"
proof -
  have k0: "kinv0 Q s" using k by (simp add: kinv_def)
  note k' = kinv0D [OF k0] and cf = config_okD [OF kinv0D(2) [OF k0]]
  have "thrcurrent s \<in> tids" using k'(5) by (simp add: inv_threads_def)
  then show ?thesis
    using k p isempty_eq [OF k'(1) cf(1)] firstkey_eq [OF k'(1) cf(1) Q] Q
    by (simp add: resched_def kinv_def bounds_simps)
qed

lemma resched_switch:
  assumes k: "kinv Q s"
    and p: "\<forall>x xs. Q (readylist s) = x # xs \<longrightarrow> prio (thrtab s (thrcurrent s)) \<le> keys s x"
  shows "\<exists>s1. make_ready (thrcurrent s) s = Some s1 \<and> resched s = resched s1"
proof -
  have k0: "kinv0 Q s" and cur: "tstate (thrtab s (thrcurrent s)) = THRCURR" and r0: "resdefer s = 0"
    using k by (auto simp: kinv_def)
  note k' = kinv0D [OF k0] and cf = config_okD [OF kinv0D(2) [OF k0]]
  have t: "thrcurrent s \<in> tids" using k'(5) by (simp add: inv_threads_def)
  have h: "home s (thrcurrent s) = None" using cur by (simp add: home_def)
  obtain qt where mr: "make_ready (thrcurrent s) s = Some (restate (thrcurrent s) THRREADY qt s)"
    using make_ready_ok [OF k0 t h] by blast
  then obtain r where ins: "insert_q (thrcurrent s) (readylist s) (prio (thrtab s (thrcurrent s)))
      (s\<lparr>thrtab := (thrtab s)(thrcurrent s := (thrtab s (thrcurrent s))\<lparr>tstate := THRREADY\<rparr>)\<rparr>)
      = Some (r, restate (thrcurrent s) THRREADY qt s)"
    using t by (auto simp: make_ready_def bounds_simps bind_Some_iff)
  have nokeep: "(do { ne \<leftarrow> nonempty s (readylist s);
      if ne then do { k \<leftarrow> firstkey s (readylist s); Some (prio (thrtab s (thrcurrent s)) > k) } else Some False })
      = Some False"
    using isempty_eq(2) [OF k'(1) cf(1)] firstkey_eq(2) [OF k'(1) cf(1)] p
    by (cases "Q (readylist s)") auto
  have "resched s = resched (restate (thrcurrent s) THRREADY qt s)"
    using t cur r0 nokeep ins by (simp add: resched_def bounds_simps)
  with mr show ?thesis by blast
qed

text \<open>What \<^verbatim>\<open>resched\<close> leaves alone.\<close>

definition sched_frame :: "'a kernel_scheme \<Rightarrow> 'a kernel_scheme \<Rightarrow> bool" where
  "sched_frame s s' \<longleftrightarrow>
     (\<forall>t. (thrtab s' t)\<lparr>tstate := THRFREE\<rparr> = (thrtab s t)\<lparr>tstate := THRFREE\<rparr>) \<and>
     (\<forall>t. tstate (thrtab s t) \<noteq> THRREADY \<longrightarrow> tstate (thrtab s t) \<noteq> THRCURR \<longrightarrow> thrtab s' t = thrtab s t) \<and>
     (\<forall>t. tstate (thrtab s t) \<in> {THRREADY, THRCURR} \<longrightarrow> tstate (thrtab s' t) \<in> {THRREADY, THRCURR}) \<and>
     (\<forall>i. i = thrcurrent s \<and> tstate (thrtab s i) = THRCURR \<or> keys s' i = keys s i) \<and>
     s' = s\<lparr>quetab := quetab s', thrtab := thrtab s', thrcurrent := thrcurrent s'\<rparr>"

lemma sched_frame_refl [simp]: "sched_frame s s"
  by (simp add: sched_frame_def)

lemma sched_frame_dispatched:
  "tstate (thrtab s x) = THRREADY \<Longrightarrow> \<forall>i. qkey (qt i) = keys s i \<Longrightarrow> sched_frame s (dispatched x qt s)"
  by (simp add: sched_frame_def)

lemma sched_frame_trans:
  assumes a: "sched_frame s s1" "thrcurrent s1 = thrcurrent s" "\<forall>t. tstate (thrtab s1 t) = THRCURR \<longrightarrow> tstate (thrtab s t) = THRCURR"
    and b: "sched_frame s1 s'"
  shows "sched_frame s s'"
  unfolding sched_frame_def
proof (intro conjI allI impI)
  fix t
  show "(thrtab s' t)\<lparr>tstate := THRFREE\<rparr> = (thrtab s t)\<lparr>tstate := THRFREE\<rparr>"
    using a(1) b by (simp add: sched_frame_def)
  show "tstate (thrtab s t) \<noteq> THRREADY \<Longrightarrow> tstate (thrtab s t) \<noteq> THRCURR \<Longrightarrow> thrtab s' t = thrtab s t"
    using a(1) b unfolding sched_frame_def by metis
  show "tstate (thrtab s t) \<in> {THRREADY, THRCURR} \<Longrightarrow> tstate (thrtab s' t) \<in> {THRREADY, THRCURR}"
    using a(1) b unfolding sched_frame_def by metis
  show "t = thrcurrent s \<and> tstate (thrtab s t) = THRCURR \<or> keys s' t = keys s t"
    using a b unfolding sched_frame_def by metis
next
  have "s1 = s\<lparr>quetab := quetab s1, thrtab := thrtab s1, thrcurrent := thrcurrent s1\<rparr>"
    "s' = s1\<lparr>quetab := quetab s', thrtab := thrtab s', thrcurrent := thrcurrent s'\<rparr>"
    using a(1) b by (auto simp: sched_frame_def)
  then show "s' = s\<lparr>quetab := quetab s', thrtab := thrtab s', thrcurrent := thrcurrent s'\<rparr>"
    by (metis kernel.update_convs(1,3,5) kernel.surjective kernel.select_convs)
qed

lemma sched_frameD:
  assumes "sched_frame s s'"
  shows "semtab s' = semtab s" "readylist s' = readylist s" "sleepq s' = sleepq s" "kheap s' = kheap s"
    "resdefer s' = resdefer s" "thrcount s' = thrcount s" "clkticks s' = clkticks s" "clktime s' = clktime s"
    "nexttid s' = nexttid s" "nextsem s' = nextsem s" "nextqid s' = nextqid s"
    "kernel.more s' = kernel.more s" "prio (thrtab s' t) = prio (thrtab s t)"
    "hasmsg (thrtab s' t) = hasmsg (thrtab s t)" "msg (thrtab s' t) = msg (thrtab s t)"
    "tsem (thrtab s' t) = tsem (thrtab s t)" "parent (thrtab s' t) = parent (thrtab s t)"
    "stkbase (thrtab s' t) = stkbase (thrtab s t)" "stklen (thrtab s' t) = stklen (thrtab s t)"
proof -
  have e: "s' = s\<lparr>quetab := quetab s', thrtab := thrtab s', thrcurrent := thrcurrent s'\<rparr>"
    and t: "(thrtab s' t)\<lparr>tstate := THRFREE\<rparr> = (thrtab s t)\<lparr>tstate := THRFREE\<rparr>"
    using assms by (auto simp: sched_frame_def)
  show "semtab s' = semtab s" "readylist s' = readylist s" "sleepq s' = sleepq s" "kheap s' = kheap s"
    "resdefer s' = resdefer s" "thrcount s' = thrcount s" "clkticks s' = clkticks s" "clktime s' = clktime s"
    "nexttid s' = nexttid s" "nextsem s' = nextsem s" "nextqid s' = nextqid s" "kernel.more s' = kernel.more s"
    by (subst e, simp)+
  show "prio (thrtab s' t) = prio (thrtab s t)" "hasmsg (thrtab s' t) = hasmsg (thrtab s t)"
    "msg (thrtab s' t) = msg (thrtab s t)" "tsem (thrtab s' t) = tsem (thrtab s t)"
    "parent (thrtab s' t) = parent (thrtab s t)" "stkbase (thrtab s' t) = stkbase (thrtab s t)"
    "stklen (thrtab s' t) = stklen (thrtab s t)"
    using arg_cong [OF t, of prio] arg_cong [OF t, of hasmsg] arg_cong [OF t, of msg]
      arg_cong [OF t, of tsem] arg_cong [OF t, of parent] arg_cong [OF t, of stkbase]
      arg_cong [OF t, of stklen] by simp_all
qed

lemma sched_frame_keys: "sched_frame s s' \<Longrightarrow> tstate (thrtab s i) \<noteq> THRCURR \<Longrightarrow> keys s' i = keys s i"
  unfolding sched_frame_def by metis

lemma sched_frame_runnable:
  "sched_frame s s' \<Longrightarrow> tstate (thrtab s t) \<in> {THRREADY, THRCURR} \<Longrightarrow> tstate (thrtab s' t) \<in> {THRREADY, THRCURR}"
  unfolding sched_frame_def by metis

lemma sched_frame_blocked:
  "sched_frame s s' \<Longrightarrow> tstate (thrtab s t) \<notin> {THRREADY, THRCURR} \<Longrightarrow> thrtab s' t = thrtab s t"
  unfolding sched_frame_def by simp

text \<open>
  The outcome of \<^verbatim>\<open>resched\<close>: either the running thread keeps the processor, its priority
  above every ready key, or the thread at the head of the ready list is dispatched.
\<close>

definition sched_choice :: "(int \<Rightarrow> int list) \<Rightarrow> 'a kernel_scheme \<Rightarrow> 'a kernel_scheme \<Rightarrow> bool" where
  "sched_choice Q s s' \<longleftrightarrow>
     (s' = s \<and> (\<forall>y\<in>set (Q (readylist s)). keys s y < prio (thrtab s (thrcurrent s)))) \<or>
     (\<forall>y\<in>set (Q (readylist s)). keys s' y \<le> keys s' (thrcurrent s'))"

lemma resched_ok:
  assumes k: "kinv0 Q s" and r: "resdefer s = 0"
  shows "\<exists>R s'. resched s = Some (OK, s') \<and> kinv (Q(readylist s := R)) s' \<and> sched_frame s s' \<and>
    sched_choice (Q(readylist s := R)) s s'"
proof -
  have blocked: "\<exists>R s'. resched s = Some (OK, s') \<and> kinv (Q(readylist s := R)) s' \<and> sched_frame s s' \<and>
      (\<forall>y\<in>set R. keys s' y \<le> keys s' (thrcurrent s'))"
    if k: "kinv0 Q s" and c: "tstate (thrtab s (thrcurrent s)) \<noteq> THRCURR" and r: "resdefer s = 0"
    for Q and s :: "'a kernel_scheme"
  proof -
    obtain x xs where Q: "Q (readylist s) = x # xs"
      using ready_nonempty [OF k c] by (cases "Q (readylist s)") auto
    obtain qt where qt: "resched s = Some (OK, dispatched x qt s)"
        "kinv (Q(readylist s := xs)) (dispatched x qt s)" "\<forall>i. qkey (qt i) = keys s i"
      using resched_blocked [OF k c r Q] by blast
    have "tstate (thrtab s x) = THRREADY"
      using inv_homesD [OF kinv0D(3) [OF k] config_okD(1) [OF kinv0D(2) [OF k]], of x] Q
        config_okD [OF kinv0D(2) [OF k]] kinv0D(5) [OF k]
      by (auto simp: home_def inv_threads_def split: thrstate.splits)
    moreover have "\<forall>y\<in>set xs. keys s y \<le> keys s x"
      using kinv0D(6) [OF k] Q by (simp add: inv_ready_def)
    ultimately show ?thesis
      using qt sched_frame_dispatched [of s x qt] by (intro exI conjI) (auto simp del: fun_upd_apply)
  qed
  show ?thesis
  proof (cases "tstate (thrtab s (thrcurrent s)) = THRCURR")
    case False
    then show ?thesis using blocked [OF k False r] by (auto simp: sched_choice_def simp del: fun_upd_apply simp: fun_upd_same)
  next
    case True
    have ki: "kinv Q s" using k r True by (simp add: kinv_def)
    show ?thesis
    proof (cases "\<exists>x xs. Q (readylist s) = x # xs \<and> keys s x < prio (thrtab s (thrcurrent s))")
      case True
      then obtain x xs where Q: "Q (readylist s) = x # xs" and p: "keys s x < prio (thrtab s (thrcurrent s))"
        by blast
      have "\<forall>y\<in>set (Q (readylist s)). keys s y < prio (thrtab s (thrcurrent s))"
        using kinv0D(6) [OF k] p unfolding Q by (auto simp: inv_ready_def Q)
      then show ?thesis
        using resched_keep [OF ki Q p] ki
        by (intro exI [where x = "Q (readylist s)"]) (auto simp: sched_choice_def)
    next
      case False
      then have "\<forall>x xs. Q (readylist s) = x # xs \<longrightarrow> prio (thrtab s (thrcurrent s)) \<le> keys s x"
        by force
      then obtain s1 where s1: "make_ready (thrcurrent s) s = Some s1" "resched s = resched s1"
        using resched_switch [OF ki] by blast
      have t: "thrcurrent s \<in> tids" and h: "home s (thrcurrent s) = None"
        using kinv0D(5) [OF k] True by (auto simp: inv_threads_def home_def)
      obtain qt where qt: "s1 = restate (thrcurrent s) THRREADY qt s"
          "kinv0 (Q(readylist s := ins_desc (keys s) (prio (thrtab s (thrcurrent s))) (thrcurrent s) (Q (readylist s)))) s1"
          "\<forall>i. i \<noteq> thrcurrent s \<longrightarrow> qkey (qt i) = keys s i"
        using make_ready_ok [OF k t h] s1(1) by auto
      have f: "sched_frame s s1" using True qt(3) by (simp add: qt(1) sched_frame_def) metis
      obtain R s' where "resched s1 = Some (OK, s')" "kinv (Q(readylist s := R)) s'" "sched_frame s1 s'"
          "\<forall>y\<in>set R. keys s' y \<le> keys s' (thrcurrent s')"
        using blocked [OF qt(2)] r by (auto simp: qt(1) simp del: fun_upd_apply simp: fun_upd_same)
      moreover have "thrcurrent s1 = thrcurrent s" "\<forall>t. tstate (thrtab s1 t) = THRCURR \<longrightarrow> tstate (thrtab s t) = THRCURR"
        using qt(1) by simp_all
      ultimately show ?thesis
        using s1(2) sched_frame_trans [OF f]
        by (auto simp: sched_choice_def simp del: fun_upd_apply simp: fun_upd_same)
    qed
  qed
qed

section \<open>States outside every queue\<close>

definition parked :: "thrstate \<Rightarrow> bool" where
  "parked st \<longleftrightarrow> st \<in> {THRFREE, THRRECV, THRSUSP, THRMIGRATE}"

lemma home_parked: "parked (tstate (thrtab s t)) \<Longrightarrow> home s t = None"
  by (auto simp: parked_def home_def)

lemma parked_neq [simp]: "parked st \<Longrightarrow> st \<noteq> THRWAIT" "parked st \<Longrightarrow> st \<noteq> THRCURR"
  by (auto simp: parked_def)

text \<open>A thread outside every queue moves to another such state.\<close>

lemma kinv0_park:
  assumes k: "kinv0 Q s" and t: "t \<in> tids" "home s t = None" "t \<noteq> NULLTHREAD" and st: "parked st"
  shows "kinv0 Q (restate t st (quetab s) s)"
proof (rule kinv0_restate [OF k t(1) kinv0D(1) [OF k]])
  show "\<forall>q\<in>queues. set (Q q) = (set (Q q) - {t}) \<union>
      (if home (restate t st (quetab s) s) t = Some q then {t} else {})"
    using home_None_notin [OF kinv0D(3) [OF k] t(2)] st by (auto simp: home_parked)
  show "inv_ready Q (restate t st (quetab s) s)" "inv_sleep Q (restate t st (quetab s) s)"
    using kinv0D(6,7) [OF k] by (simp_all add: inv_ready_def inv_sleep_def)
qed (use st t(3) in \<open>auto simp: parked_def\<close>)

text \<open>A ready thread is taken off the ready list.\<close>

lemma kinv0_unready:
  assumes k: "kinv0 Q s" and t: "t \<in> set (Q (readylist s))" "t \<noteq> NULLTHREAD" and st: "parked st"
    and qt: "allq qt (Q(readylist s := remove1 t (Q (readylist s))))" "\<forall>i. qkey (qt i) = keys s i"
  shows "kinv0 (Q(readylist s := remove1 t (Q (readylist s)))) (restate t st qt s)"
proof -
  note k' = kinv0D [OF k] and cf = config_okD [OF kinv0D(2) [OF k]]
  have t': "t \<in> tids" "home s t = Some (readylist s)" using inv_homesD [OF k'(3) cf(1)] t(1) by auto
  have d: "distinct (Q (readylist s))" by (rule allq_distinct [OF k'(1) cf(1)])
  show ?thesis
  proof (rule kinv0_restate [OF k t'(1) qt(1)])
    show "\<forall>q\<in>queues. set ((Q(readylist s := remove1 t (Q (readylist s)))) q) = (set (Q q) - {t}) \<union>
        (if home (restate t st qt s) t = Some q then {t} else {})"
      using inv_homesD [OF k'(3)] t'(2) d st by (auto simp: home_parked)
    show "inv_ready (Q(readylist s := remove1 t (Q (readylist s)))) (restate t st qt s)"
      using k'(6) qt(2) by (auto simp: inv_ready_def remove1_split intro: sorted_wrt_remove1)
    show "inv_sleep (Q(readylist s := remove1 t (Q (readylist s)))) (restate t st qt s)"
      by (rule inv_sleep_frame [OF k'(7)]) (use cf(3) qt in simp_all)
  qed (use cf(5) st t(2) in \<open>auto simp: parked_def\<close>)
qed

section \<open>The thread calls keep the invariant\<close>

lemma kinvD:
  assumes "kinv Q s"
  shows "kinv0 Q s" "tstate (thrtab s (thrcurrent s)) = THRCURR" "resdefer s = 0" "thrcurrent s \<in> tids"
    "home s (thrcurrent s) = None"
  using assms kinv0D(5) [of Q s] by (auto simp: kinv_def inv_threads_def home_def)

lemma ready_inv:
  assumes k: "kinv Q s" and t: "t \<in> tids" "tstate (thrtab s t) \<in> {THRSUSP, THRRECV}"
  shows "\<exists>Q' s'. ready t s = Some (OK, s') \<and> kinv Q' s'"
proof -
  have h: "home s t = None" using t by (auto simp: home_def)
  obtain qt where qt: "make_ready t s = Some (restate t THRREADY qt s)"
      "kinv0 (Q(readylist s := ins_desc (keys s) (prio (thrtab s t)) t (Q (readylist s)))) (restate t THRREADY qt s)"
    using make_ready_ok [OF kinvD(1) [OF k] t(1) h] by blast
  moreover have "\<not> isbadtid s t" using t by (auto simp: isbadtid_def)
  moreover have "t \<noteq> thrcurrent s" using t kinvD(2) [OF k] by auto
  ultimately show ?thesis
    using kinvD(2,3) [OF k] by (auto simp: ready_def kinv_def simp del: fun_upd_apply simp: fun_upd_other)
qed

lemma resume_inv:
  assumes k: "kinv Q s"
  shows "\<exists>Q' r s'. resume t s = Some (r, s') \<and> kinv Q' s' \<and>
    (isbadtid s t \<or> tstate (thrtab s t) \<noteq> THRSUSP \<longrightarrow> r = SYSERR \<and> s' = s)"
proof (cases "isbadtid s t \<or> tstate (thrtab s t) \<noteq> THRSUSP")
  case True
  then show ?thesis using k by (auto simp: resume_def)
next
  case False
  then have t: "t \<in> tids" "home s t = None" by (auto simp: home_def)
  obtain qt where qt: "make_ready t s = Some (restate t THRREADY qt s)"
      "kinv0 (Q(readylist s := ins_desc (keys s) (prio (thrtab s t)) t (Q (readylist s)))) (restate t THRREADY qt s)"
    using make_ready_ok [OF kinvD(1) [OF k] t] by blast
  then obtain R s' where "resched (restate t THRREADY qt s) = Some (OK, s')" "kinv R s'"
    using resched_ok [OF qt(2)] kinvD(3) [OF k] by auto
  then show ?thesis
    using False t qt(1) by (auto simp: resume_def bounds_simps)
qed

lemma suspend_inv:
  assumes k: "kinv Q s"
  shows "\<exists>Q' r s'. suspend t s = Some (r, s') \<and> kinv Q' s'"
proof (cases "isbadtid s t \<or> t = NULLTHREAD \<or> tstate (thrtab s t) \<notin> {THRCURR, THRREADY}")
  case True
  have "t \<in> tids" if "\<not> isbadtid s t" using that by auto
  then show ?thesis using k True by (auto simp: suspend_def bounds_simps)
next
  case False
  note k' = kinv0D [OF kinvD(1) [OF k]] and cf = config_okD [OF kinv0D(2) [OF kinvD(1) [OF k]]]
  have t: "t \<in> tids" "\<not> isbadtid s t" "t \<noteq> NULLTHREAD" using False by auto
  have pk: "parked THRSUSP" by (simp add: parked_def)
  show ?thesis
  proof (cases "tstate (thrtab s t) = THRREADY")
    case True
    have tin: "t \<in> set (Q (readylist s))"
      using inv_homesD [OF k'(3) cf(1)] t True by (simp add: home_def)
    obtain qt where qt: "getitem t s = Some (t, s\<lparr>quetab := qt\<rparr>)"
        "allq qt (Q(readylist s := remove1 t (Q (readylist s))))" "\<forall>i. qkey (qt i) = keys s i"
      using getitem_ok [OF k'(1) cf(1) tin] by blast
    have "suspend t s = Some (Some (prio (thrtab s t)), restate t THRSUSP qt s)"
      using t True qt(1) by (simp add: suspend_def suspend_return_def bounds_simps)
    moreover have "kinv (Q(readylist s := remove1 t (Q (readylist s)))) (restate t THRSUSP qt s)"
      using kinv0_unready [OF kinvD(1) [OF k] tin t(3) pk qt(2,3)] kinvD(2,3) [OF k] True
      by (auto simp: kinv_def)
    ultimately show ?thesis by blast
  next
    case rdy: False
    then have cur: "tstate (thrtab s t) = THRCURR" using False by auto
    have h: "home s t = None" using cur by (simp add: home_def)
    let ?s = "restate t THRSUSP (quetab s) s"
    obtain Q' s' where r: "resched ?s = Some (OK, s')" "kinv Q' s'"
      using resched_ok [OF kinv0_park [OF kinvD(1) [OF k] t(1) h t(3) pk]] kinvD(3) [OF k] by auto
    then show ?thesis
      using t rdy cur by (auto simp: suspend_def bounds_simps)
  qed
qed

lemma chprio_inv:
  assumes k: "kinv Q s" and p: "INT_MIN < p" "p \<le> INT_MAX"
  shows "\<exists>r s'. chprio t p s = Some (r, s') \<and> kinv Q s'"
proof (cases "isbadtid s t")
  case True
  then show ?thesis using k by (simp add: chprio_def)
next
  case False
  let ?s = "s\<lparr>thrtab := (thrtab s)(t := (thrtab s t)\<lparr>prio := p\<rparr>)\<rparr>"
  note k' = kinv0D [OF kinvD(1) [OF k]]
  have "kinv Q ?s"
    by (rule kinv_cong [OF k]) (use p prio_bounds [OF k'(5)] in auto)
  then show ?thesis using False by (auto simp: chprio_def bounds_simps)
qed

lemma yield_inv: "kinv Q s \<Longrightarrow> \<exists>Q' s'. yield s = Some (OK, s') \<and> kinv Q' s'"
  using resched_ok [OF kinvD(1) kinvD(3)] by (fastforce simp: yield_def)

end
