(* ===== verification/Clock.thy ===== *)
theory Clock
  imports Sched
begin

text \<open>
  Timed waiting: \<^verbatim>\<open>system/sleep.c\<close>, \<^verbatim>\<open>unsleep.c\<close>, \<^verbatim>\<open>wakeup.c\<close> and the clock interrupt
  \<^verbatim>\<open>clkhandler.c\<close>.  The sleep queue is a delta queue: the key of a thread is its delay after
  its predecessor's wake-up; \<^const>\<open>due\<close> gives the absolute delays.
\<close>

abbreviation (input) CLKTICKS_PER_SEC :: u32 where "CLKTICKS_PER_SEC \<equiv> 1000"

section \<open>Operations\<close>

definition sleep :: "u32 \<Rightarrow> 'a kernel_scheme \<Rightarrow> (int \<times> 'a kernel_scheme) option" where
  "sleep ms s = do {
     let ticks = (ms * CLKTICKS_PER_SEC) div 1000;
     if ticks > 0
     then do {
       (r, s) \<leftarrow> insertd (thrcurrent s) (sleepq s) (to_int ticks) s;
       if r = SYSERR then Some (SYSERR, s)
       else do {
         s \<leftarrow> set_thread (thrcurrent s) (tstate_update (\<lambda>_. THRSLEEP)) s;
         (_, s) \<leftarrow> resched s;
         Some (OK, s)
       }
     }
     else do { (_, s) \<leftarrow> resched s; Some (OK, s) }
   }"

text \<open>The block that \<^verbatim>\<open>unsleep\<close> and \<^verbatim>\<open>send\<close> share: hand the thread's delay on to its
  successor and unlink it.\<close>

definition unlink_sleeper :: "int \<Rightarrow> 'a kernel_scheme \<Rightarrow> 'a kernel_scheme option" where
  "unlink_sleeper tid s = do {
     e \<leftarrow> quent s tid;
     let next = qnext e;
     s \<leftarrow> (if next < NTHREAD
           then do {
             f \<leftarrow> quent s next;
             k \<leftarrow> c_int (qkey f + qkey e);
             set_quent next (qkey_update (\<lambda>_. k)) s
           }
           else Some s);
     (_, s) \<leftarrow> getitem tid s;
     Some s
   }"

definition unsleep :: "int \<Rightarrow> 'a kernel_scheme \<Rightarrow> (int \<times> 'a kernel_scheme) option" where
  "unsleep tid s =
     (if isbadtid s tid then Some (SYSERR, s)
      else do {
        t \<leftarrow> thread s tid;
        if tstate t \<noteq> THRSLEEP \<and> tstate t \<noteq> THRTMOUT then Some (SYSERR, s)
        else do { s \<leftarrow> unlink_sleeper tid s; Some (OK, s) }
      })"

partial_function (option) wakeup_loop :: "'a kernel_scheme \<Rightarrow> 'a kernel_scheme option" where
  "wakeup_loop s = do {
     ne \<leftarrow> nonempty s (sleepq s);
     go \<leftarrow> (if ne then do { k \<leftarrow> firstkey s (sleepq s); Some (k \<le> 0) } else Some False);
     if go
     then do {
       (tid, s) \<leftarrow> dequeue (sleepq s) s;
       (_, s) \<leftarrow> ready tid s;
       wakeup_loop s
     }
     else Some s
   }"

definition wakeup :: "'a kernel_scheme \<Rightarrow> 'a kernel_scheme option" where
  "wakeup s = do { s \<leftarrow> wakeup_loop s; (_, s) \<leftarrow> resched s; Some s }"

text \<open>The interrupt handler, after \<^verbatim>\<open>clkupdate\<close> has programmed the hardware timer.\<close>

definition clkhandler :: "'a kernel_scheme \<Rightarrow> 'a kernel_scheme option" where
  "clkhandler s = do {
     let s = s\<lparr>clkticks := clkticks s + 1\<rparr>;
     let s = (if CLKTICKS_PER_SEC = clkticks s then s\<lparr>clktime := clktime s + 1, clkticks := 0\<rparr> else s);
     ne \<leftarrow> nonempty s (sleepq s);
     (go, s) \<leftarrow>
       (if ne
        then do {
          x \<leftarrow> firstid s (sleepq s);
          e \<leftarrow> quent s x;
          k \<leftarrow> c_int (qkey e - 1);
          s \<leftarrow> set_quent x (qkey_update (\<lambda>_. k)) s;
          Some (k \<le> 0, s)
        }
        else Some (False, s));
     if go then wakeup s else do { (_, s) \<leftarrow> resched s; Some s }
   }"

section \<open>Delta queue sums\<close>

lemma dsplit_sum: "dsplit K k ys = (a, b, k') \<Longrightarrow> (\<Sum>x\<leftarrow>a. K x) + k' = k"
  by (induction ys arbitrary: k a) (auto split: if_splits prod.splits, fastforce)

lemma sum_dkeys:
  assumes "dsplit K k ys = (a, b, k')" "x \<notin> set ys" "distinct ys" "ys = a @ b"
  shows "(\<Sum>i\<leftarrow>a @ x # b. dkeys K x k' b i) = (if b = [] then k else (\<Sum>i\<leftarrow>ys. K i))"
proof -
  have a: "sum_list (map (dkeys K x k' b) a) = sum_list (map K a)"
    using assms(2-4) by (cases b) (auto simp: dkeys_def intro!: arg_cong [where f = sum_list])
  have x: "dkeys K x k' b x = k'" by (simp add: dkeys_def)
  show ?thesis
  proof (cases b)
    case Nil
    with a x dsplit_sum [OF assms(1)] show ?thesis by simp
  next
    case (Cons y zs)
    have "sum_list (map (dkeys K x k' b) zs) = sum_list (map K zs)" "dkeys K x k' b y = K y - k'"
      using assms(2-4) Cons by (auto simp: dkeys_def intro!: arg_cong [where f = sum_list])
    with a x Cons assms(4) show ?thesis by simp
  qed
qed

lemma sum_remove_sleeper:
  fixes K :: "int \<Rightarrow> int"
  assumes "distinct (xs @ x # ys)" "0 \<le> K x"
    "\<forall>i\<in>set (xs @ ys). K' i = (if ys \<noteq> [] \<and> i = hd ys then K i + K x else K i)"
  shows "(\<Sum>i\<leftarrow>xs @ ys. K' i) \<le> (\<Sum>i\<leftarrow>xs @ x # ys. K i)"
proof -
  have a: "sum_list (map K' xs) = sum_list (map K xs)"
    using assms(1,3) by (cases ys) (auto intro!: arg_cong [where f = sum_list])
  show ?thesis
  proof (cases ys)
    case Nil
    with a assms(2) show ?thesis by simp
  next
    case (Cons y zs)
    have "sum_list (map K' zs) = sum_list (map K zs)" "K' y = K y + K x"
      using assms(1,3) Cons by (auto intro!: arg_cong [where f = sum_list])
    with a Cons show ?thesis by simp
  qed
qed

lemma inv_sleepD:
  assumes "inv_sleep Q s" "x \<in> set (Q (sleepq s))"
  shows "0 \<le> keys s x" "keys s x \<le> INT_MAX"
proof -
  show "0 \<le> keys s x" using assms by (simp add: inv_sleep_def)
  have "keys s x \<le> (\<Sum>x\<leftarrow>Q (sleepq s). keys s x)"
    using assms by (intro member_le_sum_list) (auto simp: inv_sleep_def)
  then show "keys s x \<le> INT_MAX" using assms(1) by (simp add: inv_sleep_def)
qed

section \<open>Going to sleep\<close>

definition timed :: "thrstate \<Rightarrow> bool" where
  "timed st \<longleftrightarrow> st \<in> {THRSLEEP, THRTMOUT}"

lemma home_timed: "timed (tstate (thrtab s t)) \<Longrightarrow> home s t = Some (sleepq s)"
  by (auto simp: timed_def home_def)

lemma kinv0_sleep_attach:
  assumes k: "kinv Q s" and cur: "thrcurrent s \<noteq> NULLTHREAD" and d: "0 \<le> k" "k \<le> INT_MAX"
    and sp: "dsplit (keys s) k (Q (sleepq s)) = (xs, ys, k')"
    and qt: "allq qt (Q(sleepq s := xs @ thrcurrent s # ys))" "\<forall>i. qkey (qt i) = dkeys (keys s) (thrcurrent s) k' ys i"
    and st: "timed st"
  shows "kinv0 (Q(sleepq s := xs @ thrcurrent s # ys)) (restate (thrcurrent s) st qt s)"
    (is "kinv0 ?Q ?s")
proof -
  note k0 = kinvD(1) [OF k] and k' = kinv0D [OF kinvD(1) [OF k]]
    and cf = config_okD [OF kinv0D(2) [OF kinvD(1) [OF k]]]
  have new: "\<forall>q\<in>queues. thrcurrent s \<notin> set (Q q)"
    by (rule home_None_notin [OF k'(3) kinvD(5) [OF k]])
  have K: "\<forall>y\<in>set (Q (sleepq s)). 0 \<le> keys s y" using inv_sleepD(1) [OF k'(7)] by blast
  have ps: "Q (sleepq s) = xs @ ys" "0 \<le> k'" "ys \<noteq> [] \<longrightarrow> k' < keys s (hd ys)"
    using dsplit_props [OF sp K d(1)] by auto
  have dis: "distinct (Q (sleepq s))" by (rule allq_distinct [OF k'(1) cf(2)])
  show ?thesis
  proof (rule kinv0_restate [OF k0 kinvD(4) [OF k] qt(1)])
    show "\<forall>q\<in>queues. set (?Q q) = (set (Q q) - {thrcurrent s}) \<union>
        (if home ?s (thrcurrent s) = Some q then {thrcurrent s} else {})"
      using new ps(1) st home_timed [of ?s "thrcurrent s"] by auto
    have "hd ys \<notin> set (Q (readylist s))" if "ys \<noteq> []"
      using allq_disjoint [OF k'(1) cf(2,1), of "hd ys"] cf(3) ps(1) that by auto
    then show "inv_ready ?Q ?s"
      using new cf(1,3) qt(2) by (intro inv_ready_frame [OF k'(6)]) (auto simp: dkeys_def)
    have "(\<Sum>i\<leftarrow>xs @ thrcurrent s # ys. qkey (qt i)) \<le> INT_MAX"
      using sum_dkeys [OF sp _ dis ps(1), of "thrcurrent s"] new cf(2) qt(2) k'(7) d(2)
      by (simp add: inv_sleep_def split: if_splits)
    moreover have "\<forall>i\<in>set (xs @ thrcurrent s # ys). 0 \<le> qkey (qt i)"
      using K ps qt(2) by (auto simp: dkeys_def)
    ultimately show "inv_sleep ?Q ?s" by (simp add: inv_sleep_def)
  qed (use cf(6) cur st in \<open>auto simp: timed_def\<close>)
qed

lemma sleep_insert_ok:
  assumes k: "kinv Q s" and cur: "thrcurrent s \<noteq> NULLTHREAD" and d: "0 \<le> k" "k \<le> INT_MAX" and st: "timed st"
  shows "\<exists>ys qt. insertd (thrcurrent s) (sleepq s) k s = Some (OK, s\<lparr>quetab := qt\<rparr>) \<and>
    kinv0 (Q(sleepq s := ys)) (restate (thrcurrent s) st qt s) \<and>
    due (\<lambda>i. qkey (qt i)) 0 ys = ins_time (thrcurrent s) k (due (keys s) 0 (Q (sleepq s)))"
proof -
  note k' = kinv0D [OF kinvD(1) [OF k]] and cf = config_okD [OF kinv0D(2) [OF kinvD(1) [OF k]]]
  have new: "\<forall>q\<in>queues. thrcurrent s \<notin> set (Q q)"
    by (rule home_None_notin [OF k'(3) kinvD(5) [OF k]])
  have good: "\<not> isbadtid s (thrcurrent s)" using kinvD(2,4) [OF k] by (simp add: isbadtid_def)
  obtain xs ys k' where sp: "dsplit (keys s) k (Q (sleepq s)) = (xs, ys, k')" by (metis surj_pair)
  have K: "\<forall>y\<in>set (Q (sleepq s)). 0 \<le> keys s y \<and> keys s y \<le> INT_MAX" using inv_sleepD [OF k'(7)] by blast
  obtain qt where qt: "insertd (thrcurrent s) (sleepq s) k s = Some (OK, s\<lparr>quetab := qt\<rparr>)"
      "allq qt (Q(sleepq s := xs @ thrcurrent s # ys))" "\<forall>i. qkey (qt i) = dkeys (keys s) (thrcurrent s) k' ys i"
    using insertd_ok [OF k'(1) cf(2) good new d K sp] by blast
  have e: "(\<lambda>i. qkey (qt i)) = dkeys (keys s) (thrcurrent s) k' ys" using qt(3) by auto
  have "thrcurrent s \<notin> set (Q (sleepq s))" using new cf(2) by blast
  then have "due (\<lambda>i. qkey (qt i)) 0 (xs @ thrcurrent s # ys) = ins_time (thrcurrent s) k (due (keys s) 0 (Q (sleepq s)))"
    using due_dsplit [OF sp _ allq_distinct [OF k'(1) cf(2)], of "thrcurrent s" 0] unfolding e by simp
  then show ?thesis
    using qt(1) kinv0_sleep_attach [OF k cur d sp qt(2,3) st] by blast
qed

section \<open>Leaving the sleep queue\<close>

lemma unlink_sleeper_ok:
  assumes a: "allq (quetab s) Q" "q \<in> queues" and Q: "Q q = xs @ x # ys"
    and K: "ys \<noteq> [] \<longrightarrow> INT_MIN \<le> keys s (hd ys) + keys s x \<and> keys s (hd ys) + keys s x \<le> INT_MAX"
  shows "\<exists>qt. unlink_sleeper x s = Some (s\<lparr>quetab := qt\<rparr>) \<and> allq qt (Q(q := xs @ ys)) \<and>
    (\<forall>i. qkey (qt i) = (if ys \<noteq> [] \<and> i = hd ys then keys s i + keys s x else keys s i))"
proof -
  have x: "x \<in> set (Q q)" "0 \<le> x" "x < NTHREAD" using Q allq_range [OF a] by auto
  have dis: "distinct (xs @ x # ys)" using allq_distinct [OF a] Q by simp
  have l: "qnext (quetab s x) = hd (ys @ [q + 1])" using allq_links [OF a Q] by simp
  have r: "remove1 x (Q q) = xs @ ys" using Q dis by (simp add: remove1_append)
  show ?thesis
  proof (cases ys)
    case Nil
    then have "\<not> qnext (quetab s x) < NTHREAD" using l queues_props [OF a(2)] by simp
    then show ?thesis
      using getitem_ok [OF a x(1)] x r Nil by (auto simp: unlink_sleeper_def bounds_simps)
  next
    case (Cons y zs)
    let ?k = "keys s y + keys s x"
    let ?t = "(quetab s)(y := (quetab s y)\<lparr>qkey := ?k\<rparr>)"
    have y: "0 \<le> y" "y < NTHREAD" using allq_range [OF a, of y] Q Cons by auto
    have "allq ?t Q" by (rule allq_keys [OF a(1)]) (use y in auto)
    then have a': "allq (quetab (s\<lparr>quetab := ?t\<rparr>)) Q" by simp
    obtain qt where qt: "getitem x (s\<lparr>quetab := ?t\<rparr>) = Some (x, s\<lparr>quetab := qt\<rparr>)"
        "allq qt (Q(q := xs @ ys))" "\<forall>i. qkey (qt i) = qkey (?t i)"
      using getitem_ok [OF a' a(2) x(1)] r by auto
    have "unlink_sleeper x s = Some (s\<lparr>quetab := qt\<rparr>)"
      using x y l K Cons qt(1) by (simp add: unlink_sleeper_def bounds_simps)
    then show ?thesis using qt(2,3) Cons by auto
  qed
qed

lemma kinv0_sleep_detach:
  assumes k: "kinv0 Q s" and Q: "Q (sleepq s) = xs @ x # ys" and qt: "allq qt (Q(sleepq s := xs @ ys))"
    and rk: "\<forall>i\<in>set (Q (readylist s)). qkey (qt i) = keys s i"
    and sk: "\<forall>i\<in>set (xs @ ys). 0 \<le> qkey (qt i)" "(\<Sum>i\<leftarrow>xs @ ys. qkey (qt i)) \<le> INT_MAX"
    and st: "parked st"
  shows "kinv0 (Q(sleepq s := xs @ ys)) (restate x st qt s)" (is "kinv0 ?Q ?s")
proof -
  note k' = kinv0D [OF k] and cf = config_okD [OF kinv0D(2) [OF k]]
  have x: "x \<in> tids" "home s x = Some (sleepq s)" using inv_homesD [OF k'(3) cf(2), of x] Q by auto
  have dis: "distinct (xs @ x # ys)" using allq_distinct [OF k'(1) cf(2)] Q by simp
  have null: "x \<noteq> NULLTHREAD" using k'(5) x cf(3) by (auto simp: inv_threads_def home_def)
  show ?thesis
  proof (rule kinv0_restate [OF k x(1) qt])
    show "\<forall>q\<in>queues. set (?Q q) = (set (Q q) - {x}) \<union> (if home ?s x = Some q then {x} else {})"
      using inv_homesD [OF k'(3)] x(2) dis Q st by (auto simp: home_parked)
    show "inv_ready ?Q ?s" by (rule inv_ready_frame [OF k'(6)]) (use cf(3) rk in auto)
    show "inv_sleep ?Q ?s" using sk by (simp add: inv_sleep_def)
  qed (use cf(6) null st in \<open>auto simp: parked_def\<close>)
qed

text \<open>A thread that has just left the sleep queue is made ready.\<close>

lemma kinv0_sleep_ready:
  assumes k: "kinv0 Q s" and Q: "Q (sleepq s) = xs @ x # ys" and qt: "allq qt (Q(sleepq s := xs @ ys))"
    and rk: "\<forall>i\<in>set (Q (readylist s)). qkey (qt i) = keys s i"
    and sk: "\<forall>i\<in>set (xs @ ys). 0 \<le> qkey (qt i)" "(\<Sum>i\<leftarrow>xs @ ys. qkey (qt i)) \<le> INT_MAX"
  shows "\<exists>R qt'. make_ready x (s\<lparr>quetab := qt\<rparr>) = Some (restate x THRREADY qt' s) \<and>
    kinv0 (Q(sleepq s := xs @ ys, readylist s := R)) (restate x THRREADY qt' s) \<and>
    (\<forall>i. i \<noteq> x \<longrightarrow> qkey (qt' i) = qkey (qt i))"
proof -
  note k' = kinv0D [OF k] and cf = config_okD [OF kinv0D(2) [OF k]]
  let ?s = "s\<lparr>quetab := qt\<rparr>" and ?Q = "Q(sleepq s := xs @ ys)"
  have x: "x \<in> tids" "home s x = Some (sleepq s)" using inv_homesD [OF k'(3) cf(2), of x] Q by auto
  have g: "kinv0 ?Q (restate x THRSUSP qt s)" (is "kinv0 _ ?g")
    by (rule kinv0_sleep_detach [OF k Q qt rk sk]) (simp add: parked_def)
  have gh: "home ?g x = None" by (simp add: home_def)
  have new: "\<forall>q\<in>queues. x \<notin> set (?Q q)" by (rule home_None_notin [OF kinv0D(3) [OF g] gh])
  have "allq (quetab ?s) ?Q" "readylist ?s \<in> queues" "MINKEY < prio (thrtab ?s x)"
    using qt cf(1) prio_bounds [OF k'(5) x(1)] by simp_all
  then obtain qt' where mr: "make_ready x ?s = Some (restate x THRREADY qt' ?s)"
      "allq qt' (?Q(readylist s := ins_desc (keys ?s) (prio (thrtab s x)) x (?Q (readylist s))))"
      "\<forall>i. qkey (qt' i) = (if i = x then prio (thrtab s x) else qkey (qt i))"
    using make_ready_code [of ?s ?Q x] x(1) new by auto
  have "kinv0 (?Q(readylist s := ins_desc (keys ?s) (prio (thrtab s x)) x (?Q (readylist s)))) (restate x THRREADY qt' ?g)"
    using kinv0_make_ready [OF g x(1) gh, of qt'] mr(2,3) by simp
  then have "kinv0 (?Q(readylist s := ins_desc (keys ?s) (prio (thrtab s x)) x (?Q (readylist s)))) (restate x THRREADY qt' s)"
    by simp
  moreover have "make_ready x ?s = Some (restate x THRREADY qt' s)" "\<forall>i. i \<noteq> x \<longrightarrow> qkey (qt' i) = qkey (qt i)"
    using mr(1,3) by simp_all
  ultimately show ?thesis by blast
qed

text \<open>One round of the loop of \<^verbatim>\<open>wakeup\<close>.  The key of the first thread may differ from the one
  the invariant speaks of, because the clock interrupt has decremented it.\<close>

lemma wakeup_round:
  assumes k: "kinv0 Q s" and Q: "Q (sleepq s) = x # ys"
    and t: "allq t Q" "\<forall>i. i \<noteq> x \<longrightarrow> qkey (t i) = keys s i" "qkey (t x) \<le> 0"
  shows "\<exists>R qt'. wakeup_loop (s\<lparr>quetab := t\<rparr>) = wakeup_loop (restate x THRREADY qt' s) \<and>
    kinv0 (Q(sleepq s := ys, readylist s := R)) (restate x THRREADY qt' s) \<and>
    (\<forall>i. i \<noteq> x \<longrightarrow> qkey (qt' i) = keys s i)"
proof -
  note k' = kinv0D [OF k] and cf = config_okD [OF kinv0D(2) [OF k]]
  let ?s = "s\<lparr>quetab := t\<rparr>"
  have x: "x \<in> tids" "home s x = Some (sleepq s)" using inv_homesD [OF k'(3) cf(2), of x] Q by auto
  have dis: "distinct (x # ys)" using allq_distinct [OF k'(1) cf(2)] Q by simp
  have a: "allq (quetab ?s) Q" using t(1) by simp
  obtain qt where qt: "dequeue (sleepq s) ?s = Some (x, s\<lparr>quetab := qt\<rparr>)" "allq qt (Q(sleepq s := ys))"
      "\<forall>i. qkey (qt i) = qkey (t i)"
    using dequeue_ok [OF a cf(2) Q] by auto
  have "x \<notin> set (Q (readylist s))"
    using allq_disjoint [OF k'(1) cf(2,1), of x] cf(3) Q by auto
  then have rk: "\<forall>i\<in>set (Q (readylist s)). qkey (qt i) = keys s i" using qt(3) t(2) by metis
  have yk: "\<forall>i\<in>set ys. qkey (qt i) = keys s i" using qt(3) t(2) dis by auto
  then have "sum_list (map (\<lambda>i. qkey (qt i)) ys) = sum_list (map (keys s) ys)"
    by (intro arg_cong [where f = sum_list]) simp
  then have "sum_list (map (\<lambda>i. qkey (qt i)) ys) \<le> INT_MAX"
    using k'(7) Q by (simp add: inv_sleep_def)
  moreover have "\<forall>i\<in>set ys. 0 \<le> qkey (qt i)" using yk k'(7) Q by (simp add: inv_sleep_def)
  ultimately obtain R qt' where mr: "make_ready x (s\<lparr>quetab := qt\<rparr>) = Some (restate x THRREADY qt' s)"
      "kinv0 (Q(sleepq s := ys, readylist s := R)) (restate x THRREADY qt' s)"
      "\<forall>i. i \<noteq> x \<longrightarrow> qkey (qt' i) = qkey (qt i)"
    using kinv0_sleep_ready [OF k, of "[]" x ys qt] Q qt(2) rk by auto
  have st: "tstate (thrtab s x) \<noteq> THRFREE" using x(2) by (auto simp: home_def)
  have "nonempty ?s (sleepq s) = Some True" "firstkey ?s (sleepq s) = Some (qkey (t x))"
    using isempty_eq(2) [OF a cf(2)] firstkey_eq(2) [OF a cf(2) Q] Q by simp_all
  then have "wakeup_loop ?s = wakeup_loop (restate x THRREADY qt' s)"
    using t(3) qt(1) mr(1) x(1) st
    by (subst wakeup_loop.simps) (simp add: ready_def isbadtid_def)
  moreover have "\<forall>i. i \<noteq> x \<longrightarrow> qkey (qt' i) = keys s i" using mr(3) qt(3) t(2) by simp
  ultimately show ?thesis using mr(2) by blast
qed

text \<open>The loop makes every thread ready whose remaining delay is zero, and only those.\<close>

lemma wakeup_loop_ok:
  assumes "kinv0 Q s"
  shows "\<exists>Q' qt tt. wakeup_loop s = Some (s\<lparr>quetab := qt, thrtab := tt\<rparr>) \<and>
    kinv0 Q' (s\<lparr>quetab := qt, thrtab := tt\<rparr>) \<and> Q' (sleepq s) = dropWhile (\<lambda>i. keys s i = 0) (Q (sleepq s)) \<and>
    (\<forall>i\<in>set (Q' (sleepq s)). qkey (qt i) = keys s i) \<and>
    (\<forall>t. tt t = (if t \<in> set (takeWhile (\<lambda>i. keys s i = 0) (Q (sleepq s)))
      then (thrtab s t)\<lparr>tstate := THRREADY\<rparr> else thrtab s t))"
  using assms
proof (induction "Q (sleepq s)" arbitrary: Q s)
  case Nil
  note k' = kinv0D [OF Nil.prems] and cf = config_okD [OF kinv0D(2) [OF Nil.prems]]
  have "nonempty s (sleepq s) = Some False" using isempty_eq(2) [OF k'(1) cf(2)] Nil.hyps by simp
  then have "wakeup_loop s = Some (s\<lparr>quetab := quetab s, thrtab := thrtab s\<rparr>)"
    by (subst wakeup_loop.simps) simp
  then show ?case
    using Nil by (intro exI [of _ Q] exI [of _ "quetab s"] exI [of _ "thrtab s"]) simp
next
  case (Cons x ys)
  note Q = Cons.hyps(2) [symmetric]
  note k' = kinv0D [OF Cons.prems] and cf = config_okD [OF kinv0D(2) [OF Cons.prems]]
  have dis: "x \<notin> set ys" using allq_distinct [OF k'(1) cf(2)] Q by simp
  show ?case
  proof (cases "keys s x = 0")
    case False
    then have "keys s x > 0" using k'(7) Q unfolding inv_sleep_def by force
    then have "wakeup_loop s = Some (s\<lparr>quetab := quetab s, thrtab := thrtab s\<rparr>)"
      using isempty_eq(2) [OF k'(1) cf(2)] firstkey_eq(2) [OF k'(1) cf(2) Q]
      by (subst wakeup_loop.simps) simp
    then show ?thesis
      using Cons.prems False Q by (intro exI [of _ Q] exI [of _ "quetab s"] exI [of _ "thrtab s"]) simp
  next
    case True
    obtain R qt where r: "wakeup_loop s = wakeup_loop (restate x THRREADY qt s)"
        "kinv0 (Q(sleepq s := ys, readylist s := R)) (restate x THRREADY qt s)"
        "\<forall>i. i \<noteq> x \<longrightarrow> qkey (qt i) = keys s i"
      using wakeup_round [OF Cons.prems Q k'(1)] True by auto
    let ?s = "restate x THRREADY qt s" and ?Q = "Q(sleepq s := ys, readylist s := R)"
    have ys: "ys = ?Q (sleepq ?s)" using cf(3) by simp
    obtain Q' qt' tt where IH: "wakeup_loop ?s = Some (s\<lparr>quetab := qt', thrtab := tt\<rparr>)"
      "kinv0 Q' (s\<lparr>quetab := qt', thrtab := tt\<rparr>)" "Q' (sleepq s) = dropWhile (\<lambda>i. qkey (qt i) = 0) ys"
      "\<forall>i\<in>set (Q' (sleepq s)). qkey (qt' i) = qkey (qt i)"
      "\<forall>t. tt t = (if t \<in> set (takeWhile (\<lambda>i. qkey (qt i) = 0) ys)
        then (thrtab ?s t)\<lparr>tstate := THRREADY\<rparr> else thrtab ?s t)"
      using Cons.hyps(1) [OF ys r(2)] ys [symmetric] by auto
    have e: "takeWhile (\<lambda>i. qkey (qt i) = 0) ys = takeWhile (\<lambda>i. keys s i = 0) ys"
        "dropWhile (\<lambda>i. qkey (qt i) = 0) ys = dropWhile (\<lambda>i. keys s i = 0) ys"
      using r(3) dis by (auto intro!: takeWhile_cong dropWhile_cong)
    have sub: "set (Q' (sleepq s)) \<subseteq> set ys" using IH(3) set_dropWhileD by fastforce
    show ?thesis
    proof (intro exI conjI)
      show "wakeup_loop s = Some (s\<lparr>quetab := qt', thrtab := tt\<rparr>)" using r(1) IH(1) by simp
      show "kinv0 Q' (s\<lparr>quetab := qt', thrtab := tt\<rparr>)" by (rule IH(2))
      show "Q' (sleepq s) = dropWhile (\<lambda>i. keys s i = 0) (Q (sleepq s))" using IH(3) e(2) True Q by simp
      show "\<forall>i\<in>set (Q' (sleepq s)). qkey (qt' i) = keys s i"
        using IH(4) r(3) sub dis by (metis subsetD)
      show "\<forall>t. tt t = (if t \<in> set (takeWhile (\<lambda>i. keys s i = 0) (Q (sleepq s)))
          then (thrtab s t)\<lparr>tstate := THRREADY\<rparr> else thrtab s t)"
        using IH(5) e(1) True Q by auto
    qed
  qed
qed

section \<open>The calls\<close>

text \<open>A sleeping thread joins the delta queue with the requested delay, in order of wake-up time.\<close>

lemma sleep_ticks:
  fixes ms :: u32
  assumes "unat ms * 1000 < 4294967296"
  shows "(ms * CLKTICKS_PER_SEC) div 1000 = ms"
proof -
  have "unat (ms * 1000) = unat ms * 1000" using assms by (simp add: unat_word_ariths)
  then show ?thesis by (simp add: word_unat_eq_iff unat_div)
qed

lemma sched_frame_due:
  assumes k: "kinv0 Q s" and f: "sched_frame s s'"
  shows "due (keys s') a (Q (sleepq s)) = due (keys s) a (Q (sleepq s))"
proof (intro due_cong ballI)
  fix x assume "x \<in> set (Q (sleepq s))"
  then have "home s x = Some (sleepq s)"
    using inv_homesD [OF kinv0D(3) [OF k] config_okD(2) [OF kinv0D(2) [OF k]]] by simp
  then have "tstate (thrtab s x) \<noteq> THRCURR" by (auto simp: home_def)
  then show "keys s' x = keys s x" by (rule sched_frame_keys [OF f])
qed

text \<open>The common part of \<^verbatim>\<open>sleep\<close> and \<^verbatim>\<open>recvtime\<close>: join the delta queue and reschedule.\<close>

lemma timed_block_ok:
  assumes k: "kinv Q s" and cur: "thrcurrent s \<noteq> NULLTHREAD" and d: "0 \<le> k" "k \<le> INT_MAX" and st: "timed st"
  shows "\<exists>Q' qt s'. insertd (thrcurrent s) (sleepq s) k s = Some (OK, s\<lparr>quetab := qt\<rparr>) \<and>
    resched (restate (thrcurrent s) st qt s) = Some (OK, s') \<and> kinv Q' s' \<and>
    thrtab s' (thrcurrent s) = (thrtab s (thrcurrent s))\<lparr>tstate := st\<rparr> \<and> sleepq s' = sleepq s \<and>
    due (keys s') 0 (Q' (sleepq s)) = ins_time (thrcurrent s) k (due (keys s) 0 (Q (sleepq s)))"
proof -
  note cf = config_okD [OF kinv0D(2) [OF kinvD(1) [OF k]]]
  obtain ys qt where i: "insertd (thrcurrent s) (sleepq s) k s = Some (OK, s\<lparr>quetab := qt\<rparr>)"
      "kinv0 (Q(sleepq s := ys)) (restate (thrcurrent s) st qt s)"
      "due (\<lambda>i. qkey (qt i)) 0 ys = ins_time (thrcurrent s) k (due (keys s) 0 (Q (sleepq s)))"
    using sleep_insert_ok [OF k cur d st] by blast
  let ?s = "restate (thrcurrent s) st qt s"
  obtain R s' where r: "resched ?s = Some (OK, s')" "kinv (Q(sleepq s := ys, readylist s := R)) s'" "sched_frame ?s s'"
    using resched_ok [OF i(2)] kinvD(3) [OF k] by auto
  have "due (keys s') 0 ys = due (\<lambda>i. qkey (qt i)) 0 ys"
    using sched_frame_due [OF i(2) r(3), of 0] by simp
  moreover have "thrtab s' (thrcurrent s) = thrtab ?s (thrcurrent s)"
    by (rule sched_frame_blocked [OF r(3)]) (use st in \<open>auto simp: timed_def\<close>)
  ultimately show ?thesis
    using i(1,3) r sched_frameD(3) [OF r(3)] cf(3)
    by (intro exI [of _ "Q(sleepq s := ys, readylist s := R)"] exI [of _ qt] exI [of _ s']) simp
qed

lemma sleep_bound: "uint (((ms::u32) * CLKTICKS_PER_SEC) div 1000) < 4294968"
  using uint_lt2p [of "ms * 1000"] by (simp add: uint_div div_less_iff_less_mult)

lemma sleep_ok:
  assumes k: "kinv Q s" and cur: "thrcurrent s \<noteq> NULLTHREAD" and tk: "ticks = (ms * CLKTICKS_PER_SEC) div 1000" "0 < ticks"
  shows "\<exists>Q' s'. sleep ms s = Some (OK, s') \<and> kinv Q' s' \<and> tstate (thrtab s' (thrcurrent s)) = THRSLEEP \<and>
    due (keys s') 0 (Q' (sleepq s)) = ins_time (thrcurrent s) (uint ticks) (due (keys s) 0 (Q (sleepq s)))"
proof -
  have b: "uint ticks < 4294968" using sleep_bound [of ms] tk(1) by simp
  have "to_int ticks = uint ticks"
    using b by (simp add: to_int_small)
  then obtain Q' qt s' where r: "insertd (thrcurrent s) (sleepq s) (to_int ticks) s = Some (OK, s\<lparr>quetab := qt\<rparr>)"
    "resched (restate (thrcurrent s) THRSLEEP qt s) = Some (OK, s')" "kinv Q' s'"
    "tstate (thrtab s' (thrcurrent s)) = THRSLEEP"
    "due (keys s') 0 (Q' (sleepq s)) = ins_time (thrcurrent s) (uint ticks) (due (keys s) 0 (Q (sleepq s)))"
    using timed_block_ok [OF k cur, of "uint ticks" THRSLEEP] b by (auto simp: timed_def)
  have "sleep ms s = Some (OK, s')"
    using tk r(1,2) kinvD(4) [OF k] by (simp add: sleep_def bounds_simps)
  then show ?thesis using r(3-5) by blast
qed

lemma sleep_inv:
  assumes k: "kinv Q s" and cur: "thrcurrent s \<noteq> NULLTHREAD"
  shows "\<exists>Q' s'. sleep ms s = Some (OK, s') \<and> kinv Q' s'"
proof (cases "0 < (ms * CLKTICKS_PER_SEC) div 1000")
  case True
  then show ?thesis using sleep_ok [OF k cur refl] by blast
next
  case False
  then show ?thesis using resched_ok [OF kinvD(1,3) [OF k]] by (fastforce simp: sleep_def)
qed

text \<open>
  \<^verbatim>\<open>unsleep\<close> takes the thread off the sleep queue and moves no other wake-up time.  The thread's
  state is left for the caller to change.
\<close>

lemma sleeper_split:
  assumes k: "kinv0 Q s" and t: "t \<in> tids" "timed (tstate (thrtab s t))"
  obtains xs ys where "Q (sleepq s) = xs @ t # ys"
proof -
  have "t \<in> set (Q (sleepq s))"
    using inv_homesD [OF kinv0D(3) [OF k] config_okD(2) [OF kinv0D(2) [OF k]]] t home_timed by blast
  then show ?thesis using that by (meson split_list)
qed

lemma due_filter_other: "t \<notin> set xs \<Longrightarrow> filter (\<lambda>(u, w). u \<noteq> t) (due K a xs) = due K a xs"
  by (induction xs arbitrary: a) auto

lemma sleeper_unlink:
  assumes k: "kinv0 Q s" and Q: "Q (sleepq s) = xs @ t # ys"
  shows "\<exists>qt. unlink_sleeper t s = Some (s\<lparr>quetab := qt\<rparr>) \<and> allq qt (Q(sleepq s := xs @ ys)) \<and>
    (\<forall>i. qkey (qt i) = (if ys \<noteq> [] \<and> i = hd ys then keys s i + keys s t else keys s i)) \<and>
    (\<forall>i\<in>set (xs @ ys). 0 \<le> qkey (qt i)) \<and> (\<Sum>i\<leftarrow>xs @ ys. qkey (qt i)) \<le> INT_MAX \<and>
    (\<forall>i\<in>set (Q (readylist s)). qkey (qt i) = keys s i) \<and>
    due (\<lambda>i. qkey (qt i)) 0 (xs @ ys) = filter (\<lambda>(u, w). u \<noteq> t) (due (keys s) 0 (Q (sleepq s)))"
proof -
  note k' = kinv0D [OF k] and cf = config_okD [OF kinv0D(2) [OF k]]
  have dis: "distinct (xs @ t # ys)" using allq_distinct [OF k'(1) cf(2)] Q by simp
  have nn: "\<forall>i\<in>set (xs @ t # ys). 0 \<le> keys s i" and sm: "(\<Sum>i\<leftarrow>xs @ t # ys. keys s i) \<le> INT_MAX"
    using k'(7) Q by (simp_all add: inv_sleep_def)
  have "keys s (hd ys) + keys s t \<le> INT_MAX" if "ys \<noteq> []"
  proof -
    have "0 \<le> (\<Sum>i\<leftarrow>xs. keys s i)" "0 \<le> (\<Sum>i\<leftarrow>tl ys. keys s i)"
      using nn that by (cases ys; auto intro!: sum_list_nonneg)+
    then show ?thesis using sm that by (cases ys) auto
  qed
  moreover have "0 \<le> keys s (hd ys) + keys s t" if "ys \<noteq> []" using nn that by auto
  ultimately obtain qt where qt: "unlink_sleeper t s = Some (s\<lparr>quetab := qt\<rparr>)" "allq qt (Q(sleepq s := xs @ ys))"
      "\<forall>i. qkey (qt i) = (if ys \<noteq> [] \<and> i = hd ys then keys s i + keys s t else keys s i)"
    using unlink_sleeper_ok [OF k'(1) cf(2) Q] by force
  have "(\<Sum>i\<leftarrow>xs @ ys. qkey (qt i)) \<le> INT_MAX"
    using sum_remove_sleeper [OF dis, of "keys s" "\<lambda>i. qkey (qt i)"] qt(3) nn sm by simp
  moreover have "\<forall>i\<in>set (xs @ ys). 0 \<le> qkey (qt i)" using qt(3) nn by simp
  moreover have "\<forall>i\<in>set (Q (readylist s)). qkey (qt i) = keys s i"
  proof -
    have "hd ys \<notin> set (Q (readylist s))" if "ys \<noteq> []"
      using allq_disjoint [OF k'(1) cf(2,1), of "hd ys"] cf(3) Q that by auto
    then show ?thesis using qt(3) by metis
  qed
  moreover have "due (\<lambda>i. qkey (qt i)) 0 (xs @ ys) = filter (\<lambda>(u, w). u \<noteq> t) (due (keys s) 0 (Q (sleepq s)))"
    using due_remove [OF dis, of "\<lambda>i. qkey (qt i)" "keys s" 0] qt(3) dis Q by (simp add: due_append due_filter_other)
  ultimately show ?thesis using qt by blast
qed

lemma unsleep_ok:
  assumes k: "kinv0 Q s" and t: "t \<in> tids" "timed (tstate (thrtab s t))"
  shows "\<exists>ys qt. unsleep t s = Some (OK, s\<lparr>quetab := qt\<rparr>) \<and> allq qt (Q(sleepq s := ys)) \<and>
    due (\<lambda>i. qkey (qt i)) 0 ys = filter (\<lambda>(u, w). u \<noteq> t) (due (keys s) 0 (Q (sleepq s)))"
proof -
  obtain xs ys where Q: "Q (sleepq s) = xs @ t # ys" by (rule sleeper_split [OF k t])
  obtain qt where qt: "unlink_sleeper t s = Some (s\<lparr>quetab := qt\<rparr>)" "allq qt (Q(sleepq s := xs @ ys))"
     "due (\<lambda>i. qkey (qt i)) 0 (xs @ ys) = filter (\<lambda>(u, w). u \<noteq> t) (due (keys s) 0 (Q (sleepq s)))"
    using sleeper_unlink [OF k Q] by blast
  have "unsleep t s = Some (OK, s\<lparr>quetab := qt\<rparr>)"
    using t qt(1) by (auto simp: unsleep_def isbadtid_def timed_def bounds_simps)
  then show ?thesis using qt(2,3) by blast
qed

section \<open>The clock interrupt\<close>

lemma due_shift: "due K (a + c) xs = map (\<lambda>(t, w). (t, w + c)) (due K a xs)"
proof (induction xs arbitrary: a)
  case (Cons x xs)
  show ?case using Cons.IH [of "a + K x"] by (simp add: add.assoc add.commute [of c])
qed simp

lemma due_lower: "\<forall>i\<in>set xs. 0 \<le> K i \<Longrightarrow> (t, w) \<in> set (due K a xs) \<Longrightarrow> a \<le> w"
  by (induction xs arbitrary: a) force+

text \<open>The first threads with key zero are exactly those due now.\<close>

lemma due_dropWhile:
  assumes "\<forall>i\<in>set xs. 0 \<le> K i"
  shows "filter (\<lambda>(t, w). a < w) (due K a xs) = due K a (dropWhile (\<lambda>i. K i = 0) xs)"
    and "t \<in> set (takeWhile (\<lambda>i. K i = 0) xs) \<longleftrightarrow> (t, a) \<in> set (due K a xs)"
proof -
  show "filter (\<lambda>(t, w). a < w) (due K a xs) = due K a (dropWhile (\<lambda>i. K i = 0) xs)"
    using assms
  proof (induction xs)
    case (Cons x xs)
    have "filter (\<lambda>(t, w). a < w) (due K (a + K x) xs) = due K (a + K x) xs" if "K x > 0"
      using that due_lower [of xs K _ _ "a + K x"] Cons.prems by (intro filter_True) force
    then show ?case using Cons by auto
  qed simp
  show "t \<in> set (takeWhile (\<lambda>i. K i = 0) xs) \<longleftrightarrow> (t, a) \<in> set (due K a xs)"
    using assms
  proof (induction xs)
    case (Cons x xs)
    have "(t, a) \<notin> set (due K (a + K x) xs)" if "K x > 0"
      using that due_lower [of xs K t a "a + K x"] Cons.prems by force
    moreover have "K x = 0 \<or> K x > 0" using Cons.prems by force
    ultimately show ?case using Cons by auto
  qed simp
qed

text \<open>The first part of the handler: the two clock variables.\<close>

definition clk_count :: "'a kernel_scheme \<Rightarrow> 'a kernel_scheme" where
  "clk_count s = (let s = s\<lparr>clkticks := clkticks s + 1\<rparr> in
     if CLKTICKS_PER_SEC = clkticks s then s\<lparr>clktime := clktime s + 1, clkticks := 0\<rparr> else s)"

lemma clk_count_frame [simp]:
  "quetab (clk_count s) = quetab s" "thrtab (clk_count s) = thrtab s" "semtab (clk_count s) = semtab s"
  "readylist (clk_count s) = readylist s" "sleepq (clk_count s) = sleepq s"
  "thrcurrent (clk_count s) = thrcurrent s" "resdefer (clk_count s) = resdefer s"
  by (simp_all add: clk_count_def Let_def)

lemma kinv_clk_count:
  assumes "kinv Q s"
  shows "kinv Q (clk_count s)"
  by (rule kinv_cong [OF assms]) (use prio_bounds [OF kinv0D(5) [OF kinvD(1) [OF assms]]] in auto)

lemma clkhandler_idle:
  assumes k: "kinv Q s" and Q: "Q (sleepq s) = []"
  shows "clkhandler s = do { (_, s) \<leftarrow> resched (clk_count s); Some s }"
proof -
  have k1: "kinv Q (clk_count s)" by (rule kinv_clk_count [OF k])
  have "nonempty (clk_count s) (sleepq s) = Some False"
    using isempty_eq(2) [OF kinv0D(1) [OF kinvD(1) [OF k1]], of "sleepq s"] Q
      config_okD(2) [OF kinv0D(2) [OF kinvD(1) [OF k]]] by simp
  then show ?thesis unfolding clkhandler_def clk_count_def [symmetric, unfolded Let_def] Let_def by simp
qed

lemma clkhandler_busy:
  assumes k: "kinv Q s" and Q: "Q (sleepq s) = x # ys"
  shows "clkhandler s = (let k = keys s x - 1; s1 = (clk_count s)\<lparr>quetab := (quetab s)(x := (quetab s x)\<lparr>qkey := k\<rparr>)\<rparr>
    in if k \<le> 0 then wakeup s1 else do { (_, s) \<leftarrow> resched s1; Some s })"
proof -
  have k1: "kinv Q (clk_count s)" by (rule kinv_clk_count [OF k])
  note k' = kinv0D [OF kinvD(1) [OF k1]] and cf = config_okD(2) [OF kinv0D(2) [OF kinvD(1) [OF k]]]
  have "nonempty (clk_count s) (sleepq s) = Some True" "firstid (clk_count s) (sleepq s) = Some x"
    using isempty_eq(2) [OF k'(1) cf] firstkey_eq(1) [OF k'(1) cf Q] Q by simp_all
  moreover have "0 \<le> x" "x < NTHREAD" using allq_range [OF k'(1) cf, of x] Q by auto
  moreover have "0 \<le> keys s x" "keys s x \<le> INT_MAX"
    using inv_sleepD [OF kinv0D(7) [OF kinvD(1) [OF k]], of x] Q by auto
  ultimately show ?thesis
    unfolding clkhandler_def clk_count_def [symmetric, unfolded Let_def] Let_def by (simp add: bounds_simps)
qed

text \<open>
  The effect of a tick on the sleep queue: \<open>after\<close> is what \<open>due\<close> lists afterwards.  When the
  first key is positive, every remaining delay goes down by one and the threads whose delay was
  one are woken.
\<close>

lemma tick_wake:
  assumes k: "kinv Q s" and Q: "Q (sleepq s) = x # ys" and K: "keys s x \<le> 1"
  shows "\<exists>Q' s'. clkhandler s = Some s' \<and> kinv Q' s' \<and>
    due (keys s') 0 (Q' (sleepq s)) = map (\<lambda>(t, w). (t, w - keys s x)) (filter (\<lambda>(t, w). keys s x < w) (due (keys s) 0 (Q (sleepq s)))) \<and>
    (\<forall>t. (t, keys s x) \<in> set (due (keys s) 0 (Q (sleepq s))) \<longrightarrow> tstate (thrtab s' t) \<in> {THRREADY, THRCURR})"
proof -
  have k1: "kinv Q (clk_count s)" by (rule kinv_clk_count [OF k])
  note k' = kinv0D [OF kinvD(1) [OF k]] and cf = config_okD [OF kinv0D(2) [OF kinvD(1) [OF k]]]
  let ?c = "clk_count s"
  define t where "t = (quetab s)(x := (quetab s x)\<lparr>qkey := keys s x - 1\<rparr>)"
  have x: "x \<in> tids" using allq_range [OF k'(1) cf(2), of x] Q by auto
  have dis: "x \<notin> set ys" using allq_distinct [OF k'(1) cf(2)] Q by simp
  have t: "allq t Q" "\<forall>i. i \<noteq> x \<longrightarrow> qkey (t i) = keys ?c i" "qkey (t x) \<le> 0" "Q (sleepq ?c) = x # ys"
    using allq_keys [OF k'(1), of t] x K Q by (auto simp: t_def)
  obtain R qt where r: "wakeup_loop (?c\<lparr>quetab := t\<rparr>) = wakeup_loop (restate x THRREADY qt ?c)"
      "kinv0 (Q(sleepq s := ys, readylist s := R)) (restate x THRREADY qt ?c)"
      "\<forall>i. i \<noteq> x \<longrightarrow> qkey (qt i) = keys s i"
    using wakeup_round [OF kinvD(1) [OF k1] t(4,1,2,3)] by auto
  let ?s1 = "restate x THRREADY qt ?c" and ?Q1 = "Q(sleepq s := ys, readylist s := R)"
  have Q1: "?Q1 (sleepq ?s1) = ys" using cf(3) by simp
  obtain Q' qt' tt where w: "wakeup_loop ?s1 = Some (?c\<lparr>quetab := qt', thrtab := tt\<rparr>)"
      "kinv0 Q' (?c\<lparr>quetab := qt', thrtab := tt\<rparr>)" "Q' (sleepq s) = dropWhile (\<lambda>i. qkey (qt i) = 0) ys"
      "\<forall>i\<in>set (Q' (sleepq s)). qkey (qt' i) = qkey (qt i)"
      "\<forall>u. tt u = (if u \<in> set (takeWhile (\<lambda>i. qkey (qt i) = 0) ys)
        then (thrtab ?s1 u)\<lparr>tstate := THRREADY\<rparr> else thrtab ?s1 u)"
    using wakeup_loop_ok [OF r(2)] Q1 by auto
  let ?s2 = "?c\<lparr>quetab := qt', thrtab := tt\<rparr>"
  obtain R' s' where rs: "resched ?s2 = Some (OK, s')" "kinv (Q'(readylist s := R')) s'" "sched_frame ?s2 s'"
    using resched_ok [OF w(2)] kinvD(3) [OF k] by auto
  have "clkhandler s = Some s'"
    using clkhandler_busy [OF k Q] K r(1) w(1) rs(1) by (simp add: wakeup_def t_def Let_def)
  moreover have "due (keys s') 0 (Q' (sleepq s)) = map (\<lambda>(t, w). (t, w - keys s x)) (filter (\<lambda>(t, w). keys s x < w) (due (keys s) 0 (Q (sleepq s))))"
  proof -
    have ky: "\<forall>i\<in>set ys. qkey (qt i) = keys s i" using r(3) dis by auto
    have nn: "\<forall>i\<in>set ys. 0 \<le> qkey (qt i)" using ky k'(7) Q by (auto simp: inv_sleep_def)
    have "due (keys s') 0 (Q' (sleepq s)) = due (\<lambda>i. qkey (qt' i)) 0 (Q' (sleepq s))"
      using sched_frame_due [OF w(2) rs(3), of 0] by simp
    also have "\<dots> = due (\<lambda>i. qkey (qt i)) 0 (dropWhile (\<lambda>i. qkey (qt i) = 0) ys)"
      using w(3,4) by (simp add: due_cong)
    also have "\<dots> = filter (\<lambda>(t, w). 0 < w) (due (\<lambda>i. qkey (qt i)) 0 ys)"
      using due_dropWhile(1) [OF nn] by simp
    also have "\<dots> = filter (\<lambda>(t, w). 0 < w) (due (keys s) 0 ys)"
      using due_cong [OF ky] by simp
    also have "due (keys s) 0 ys = map (\<lambda>(t, w). (t, w - keys s x)) (due (keys s) (keys s x) ys)"
      using due_shift [of "keys s" "keys s x" "- keys s x" ys] by simp
    finally show ?thesis
      using Q by (simp add: filter_map o_def case_prod_unfold)
  qed
  moreover have "tstate (thrtab s' u) \<in> {THRREADY, THRCURR}" if "(u, keys s x) \<in> set (due (keys s) 0 (Q (sleepq s)))" for u
  proof -
    have ky: "\<forall>i\<in>set ys. qkey (qt i) = keys s i" using r(3) dis by auto
    have nn: "\<forall>i\<in>set ys. 0 \<le> qkey (qt i)" using ky k'(7) Q by (auto simp: inv_sleep_def)
    have "u = x \<or> (u, keys s x) \<in> set (due (keys s) (keys s x) ys)" using that Q by simp
    then have "u = x \<or> u \<in> set (takeWhile (\<lambda>i. qkey (qt i) = 0) ys)"
      using due_dropWhile(2) [OF nn, of u "keys s x"] due_cong [OF ky] by simp
    then have "tstate (tt u) = THRREADY" using w(5) by auto
    then show ?thesis using sched_frame_runnable [OF rs(3), of u] by simp
  qed
  ultimately show ?thesis using rs(2) cf(3) by (intro exI [of _ "Q'(readylist s := R')"] exI [of _ s']) simp
qed

lemma kinv_first_key:
  assumes k: "kinv Q s" and Q: "Q (sleepq s) = x # ys" and K: "0 \<le> k" "k \<le> keys s x"
  shows "kinv Q (s\<lparr>quetab := (quetab s)(x := (quetab s x)\<lparr>qkey := k\<rparr>)\<rparr>)" (is "kinv Q ?s")
proof -
  note k' = kinv0D [OF kinvD(1) [OF k]] and cf = config_okD [OF kinv0D(2) [OF kinvD(1) [OF k]]]
  have x: "x \<in> tids" using allq_range [OF k'(1) cf(2), of x] Q by auto
  have dis: "x \<notin> set ys" using allq_distinct [OF k'(1) cf(2)] Q by simp
  have nr: "x \<notin> set (Q (readylist s))" using allq_disjoint [OF k'(1) cf(2,1), of x] cf(3) Q by auto
  have h: "home ?s = home s" by (simp add: home_def fun_eq_iff split: thrstate.split)
  have "allq (quetab ?s) Q" by (rule allq_keys [OF k'(1)]) (use x in auto)
  moreover have "inv_ready Q ?s" by (rule inv_ready_frame [OF k'(6)]) (use nr in auto)
  moreover have "inv_sleep Q ?s"
  proof -
    have "sum_list (map (\<lambda>i. keys ?s i) ys) = sum_list (map (keys s) ys)"
      using dis by (intro arg_cong [where f = sum_list]) auto
    then show ?thesis using k'(7) Q K by (auto simp: inv_sleep_def)
  qed
  ultimately show ?thesis
    using k k' by (simp add: kinv_def kinv0_def inv_homes_def inv_threads_def inv_sems_def config_ok_def h)
qed

lemma tick_wait:
  assumes k: "kinv Q s" and Q: "Q (sleepq s) = x # ys" and K: "1 < keys s x"
  shows "\<exists>Q' s'. clkhandler s = Some s' \<and> kinv Q' s' \<and>
    due (keys s') 0 (Q' (sleepq s)) = map (\<lambda>(t, w). (t, w - 1)) (due (keys s) 0 (Q (sleepq s)))"
proof -
  let ?s = "(clk_count s)\<lparr>quetab := (quetab s)(x := (quetab s x)\<lparr>qkey := keys s x - 1\<rparr>)\<rparr>"
  note k' = kinv0D [OF kinvD(1) [OF k]] and cf = config_okD [OF kinv0D(2) [OF kinvD(1) [OF k]]]
  have dis: "x \<notin> set ys" using allq_distinct [OF k'(1) cf(2)] Q by simp
  have k1: "kinv Q ?s" using kinv_first_key [OF kinv_clk_count [OF k], of x ys "keys s x - 1"] Q K by simp
  obtain R s' where r: "resched ?s = Some (OK, s')" "kinv (Q(readylist s := R)) s'" "sched_frame ?s s'"
    using resched_ok [OF kinvD(1,3) [OF k1]] by auto
  have "clkhandler s = Some s'" using clkhandler_busy [OF k Q] K r(1) by (simp add: Let_def)
  moreover have "due (keys s') 0 (Q (sleepq s)) = map (\<lambda>(t, w). (t, w - 1)) (due (keys s) 0 (Q (sleepq s)))"
  proof -
    have "due (keys s') 0 (Q (sleepq s)) = due (keys ?s) 0 (Q (sleepq s))"
      using sched_frame_due [OF kinvD(1) [OF k1] r(3), of 0] by simp
    also have "\<dots> = (x, keys s x - 1) # due (keys ?s) (keys s x - 1) ys" using Q by simp
    also have "due (keys ?s) (keys s x - 1) ys = due (keys s) (keys s x - 1) ys"
      using dis by (intro due_cong) auto
    also have "\<dots> = map (\<lambda>(t, w). (t, w - 1)) (due (keys s) (keys s x) ys)"
      using due_shift [of "keys s" "keys s x" "-1" ys] by simp
    finally show ?thesis unfolding Q by auto
  qed
  ultimately show ?thesis using r(2) cf(3) by (intro exI [of _ "Q(readylist s := R)"] exI [of _ s']) simp
qed

lemma clkhandler_ok:
  assumes k: "kinv Q s" and pos: "\<forall>x ys. Q (sleepq s) = x # ys \<longrightarrow> 0 < keys s x"
  shows "\<exists>Q' s'. clkhandler s = Some s' \<and> kinv Q' s' \<and>
    due (keys s') 0 (Q' (sleepq s)) =
      map (\<lambda>(t, w). (t, w - 1)) (filter (\<lambda>(t, w). 1 < w) (due (keys s) 0 (Q (sleepq s)))) \<and>
    (\<forall>t. (t, 1) \<in> set (due (keys s) 0 (Q (sleepq s))) \<longrightarrow> tstate (thrtab s' t) \<in> {THRREADY, THRCURR})"
proof (cases "Q (sleepq s)")
  case Nil
  have k1: "kinv Q (clk_count s)" by (rule kinv_clk_count [OF k])
  obtain R s' where r: "resched (clk_count s) = Some (OK, s')" "kinv (Q(readylist s := R)) s'"
    using resched_ok [OF kinvD(1,3) [OF k1]] by auto
  have "clkhandler s = Some s'" using clkhandler_idle [OF k Nil] r(1) by simp
  moreover have "sleepq s \<noteq> readylist s" using config_okD(3) [OF kinv0D(2) [OF kinvD(1) [OF k]]] by simp
  ultimately show ?thesis using r(2) Nil by (intro exI [of _ "Q(readylist s := R)"] exI [of _ s']) simp
next
  case (Cons x ys)
  have nn: "\<forall>i\<in>set ys. 0 \<le> keys s i"
    using kinv0D(7) [OF kinvD(1) [OF k]] Cons by (simp add: inv_sleep_def)
  show ?thesis
  proof (cases "1 < keys s x")
    case True
    then have "\<forall>(t, w)\<in>set (due (keys s) 0 (Q (sleepq s))). 1 < w"
      using due_lower [OF nn, of _ _ "keys s x"] Cons by fastforce
    then have "filter (\<lambda>(t, w). 1 < w) (due (keys s) 0 (Q (sleepq s))) = due (keys s) 0 (Q (sleepq s))"
        "\<forall>t. (t, 1) \<notin> set (due (keys s) 0 (Q (sleepq s)))"
      by (auto intro!: filter_True)
    then show ?thesis using tick_wait [OF k Cons True] by simp
  next
    case False
    then have "keys s x = 1" using pos Cons by force
    then show ?thesis using tick_wake [OF k Cons] by simp
  qed
qed

lemma clkhandler_inv:
  assumes k: "kinv Q s"
  shows "\<exists>Q' s'. clkhandler s = Some s' \<and> kinv Q' s'"
proof (cases "\<forall>x ys. Q (sleepq s) = x # ys \<longrightarrow> 0 < keys s x")
  case True
  then show ?thesis using clkhandler_ok [OF k] by blast
next
  case False
  then obtain x ys where "Q (sleepq s) = x # ys" "keys s x \<le> 1" by force
  then show ?thesis using tick_wake [OF k] by blast
qed

end
