(* ===== verification/Message.thy ===== *)
theory Message
  imports Clock
begin

text \<open>
  One-word messages between threads: \<^verbatim>\<open>system/send.c\<close>, \<^verbatim>\<open>receive.c\<close>, \<^verbatim>\<open>recvclr.c\<close>,
  \<^verbatim>\<open>recvtime.c\<close>.  A thread has one message slot, with the flag \<^const>\<open>hasmsg\<close>.
\<close>

section \<open>Operations\<close>

definition send :: "int \<Rightarrow> int \<Rightarrow> 'a kernel_scheme \<Rightarrow> (int \<times> 'a kernel_scheme) option" where
  "send tid m s =
     (if isbadtid s tid then Some (SYSERR, s)
      else do {
        t \<leftarrow> thread s tid;
        if tstate t = THRFREE \<or> hasmsg t then Some (SYSERR, s)
        else do {
          s \<leftarrow> set_thread tid (\<lambda>t. t\<lparr>msg := m, hasmsg := True\<rparr>) s;
          if tstate t = THRRECV
          then do {
            s \<leftarrow> make_ready tid s;
            (_, s) \<leftarrow> resched s;
            Some (OK, s)
          }
          else if tstate t = THRTMOUT
          then do {
            s \<leftarrow> unlink_sleeper tid s;
            s \<leftarrow> make_ready tid s;
            (_, s) \<leftarrow> resched s;
            Some (OK, s)
          }
          else Some (OK, s)
        }
      })"

text \<open>The last statements of \<^verbatim>\<open>receive\<close>: \<open>tid\<close> is the thread that made the call.\<close>

definition receive_take :: "int \<Rightarrow> 'a kernel_scheme \<Rightarrow> (int \<times> 'a kernel_scheme) option" where
  "receive_take tid s = do {
     t \<leftarrow> thread s tid;
     s \<leftarrow> set_thread tid (hasmsg_update (\<lambda>_. False)) s;
     Some (msg t, s)
   }"

definition receive :: "'a kernel_scheme \<Rightarrow> (int option \<times> 'a kernel_scheme) option" where
  "receive s = do {
     let tid = thrcurrent s;
     t \<leftarrow> thread s tid;
     if \<not> hasmsg t
     then do {
       s \<leftarrow> set_thread tid (tstate_update (\<lambda>_. THRRECV)) s;
       (_, s) \<leftarrow> resched s;
       Some (None, s)
     }
     else do { (m, s) \<leftarrow> receive_take tid s; Some (Some m, s) }
   }"

definition recvclr :: "'a kernel_scheme \<Rightarrow> (int \<times> 'a kernel_scheme) option" where
  "recvclr s = do {
     let tid = thrcurrent s;
     t \<leftarrow> thread s tid;
     let m = (if hasmsg t then msg t else NOMSG);
     s \<leftarrow> set_thread tid (hasmsg_update (\<lambda>_. False)) s;
     Some (m, s)
   }"

definition recvtime_take :: "int \<Rightarrow> 'a kernel_scheme \<Rightarrow> (int \<times> 'a kernel_scheme) option" where
  "recvtime_take tid s = do {
     t \<leftarrow> thread s tid;
     if hasmsg t
     then do { s \<leftarrow> set_thread tid (hasmsg_update (\<lambda>_. False)) s; Some (msg t, s) }
     else Some (TIMEOUT, s)
   }"

definition recvtime :: "int \<Rightarrow> 'a kernel_scheme \<Rightarrow> (int option \<times> 'a kernel_scheme) option" where
  "recvtime maxwait s =
     (if maxwait < 0 then Some (Some SYSERR, s)
      else do {
        let tid = thrcurrent s;
        t \<leftarrow> thread s tid;
        if \<not> hasmsg t
        then do {
          (r, s) \<leftarrow> insertd tid (sleepq s) maxwait s;
          if r = SYSERR then Some (Some SYSERR, s)
          else do {
            s \<leftarrow> set_thread tid (tstate_update (\<lambda>_. THRTMOUT)) s;
            (_, s) \<leftarrow> resched s;
            Some (None, s)
          }
        }
        else do { (m, s) \<leftarrow> recvtime_take tid s; Some (Some m, s) }
      })"

section \<open>Sending\<close>

abbreviation (input) deposit :: "int \<Rightarrow> int \<Rightarrow> 'a kernel_scheme \<Rightarrow> 'a kernel_scheme" where
  "deposit t m s \<equiv> s\<lparr>thrtab := (thrtab s)(t := (thrtab s t)\<lparr>msg := m, hasmsg := True\<rparr>)\<rparr>"

lemma kinv_message:
  assumes k: "kinv Q s" and e: "s' = s\<lparr>thrtab := (thrtab s)(t := (thrtab s t)\<lparr>msg := m, hasmsg := h\<rparr>)\<rparr>"
  shows "kinv Q s'"
  by (rule kinv_cong [OF k]) (use e prio_bounds [OF kinv0D(5) [OF kinvD(1) [OF k]]] in auto)

lemma send_error:
  assumes "isbadtid s t \<or> hasmsg (thrtab s t)"
  shows "send t m s = Some (SYSERR, s)"
  using assms by (cases "isbadtid s t") (auto simp: send_def bounds_simps)

lemma send_nonblocked:
  assumes "\<not> isbadtid s t" "\<not> hasmsg (thrtab s t)" "tstate (thrtab s t) \<notin> {THRRECV, THRTMOUT}"
  shows "send t m s = Some (OK, deposit t m s)"
  using assms by (auto simp: send_def bounds_simps)

lemma send_receiver:
  assumes k: "kinv Q s" and t: "\<not> isbadtid s t" "\<not> hasmsg (thrtab s t)" "tstate (thrtab s t) = THRRECV"
  shows "\<exists>Q' s'. send t m s = Some (OK, s') \<and> kinv Q' s' \<and> hasmsg (thrtab s' t) \<and> msg (thrtab s' t) = m \<and>
    tstate (thrtab s' t) \<in> {THRREADY, THRCURR}"
proof -
  let ?s = "deposit t m s"
  have k1: "kinv Q ?s" by (rule kinv_message [OF k refl])
  have t': "t \<in> tids" "home ?s t = None" using t by (auto simp: home_def)
  obtain Q1 qt where r: "make_ready t ?s = Some (restate t THRREADY qt ?s)" "kinv0 Q1 (restate t THRREADY qt ?s)"
    using make_ready_ok [OF kinvD(1) [OF k1] t'] by blast
  obtain Q' s' where rs: "resched (restate t THRREADY qt ?s) = Some (OK, s')" "kinv Q' s'" "sched_frame (restate t THRREADY qt ?s) s'"
    using resched_ok [OF r(2)] kinvD(3) [OF k] by auto
  have "send t m s = Some (OK, s')"
    using t t'(1) r(1) rs(1) by (simp add: send_def bounds_simps)
  then show ?thesis
    using rs(2) sched_frameD(14,15) [OF rs(3), of t] sched_frame_runnable [OF rs(3), of t] by auto
qed

lemma send_timed:
  assumes k: "kinv Q s" and t: "\<not> isbadtid s t" "\<not> hasmsg (thrtab s t)" "tstate (thrtab s t) = THRTMOUT"
  shows "\<exists>Q' s'. send t m s = Some (OK, s') \<and> kinv Q' s' \<and> hasmsg (thrtab s' t) \<and> msg (thrtab s' t) = m \<and>
    tstate (thrtab s' t) \<in> {THRREADY, THRCURR} \<and>
    due (keys s') 0 (Q' (sleepq s)) = filter (\<lambda>(u, w). u \<noteq> t) (due (keys s) 0 (Q (sleepq s)))"
proof -
  let ?s = "deposit t m s"
  have k1: "kinv0 Q ?s" by (rule kinvD(1) [OF kinv_message [OF k refl]])
  note cf = config_okD [OF kinv0D(2) [OF kinvD(1) [OF k]]]
  have t': "t \<in> tids" "timed (tstate (thrtab ?s t))" using t by (auto simp: timed_def)
  obtain xs ys where Q: "Q (sleepq ?s) = xs @ t # ys" by (rule sleeper_split [OF k1 t'])
  obtain qt where qt: "unlink_sleeper t ?s = Some (?s\<lparr>quetab := qt\<rparr>)" "allq qt (Q(sleepq ?s := xs @ ys))"
     "\<forall>i\<in>set (xs @ ys). 0 \<le> qkey (qt i)" "(\<Sum>i\<leftarrow>xs @ ys. qkey (qt i)) \<le> INT_MAX"
     "\<forall>i\<in>set (Q (readylist ?s)). qkey (qt i) = keys ?s i"
     "due (\<lambda>i. qkey (qt i)) 0 (xs @ ys) = filter (\<lambda>(u, w). u \<noteq> t) (due (keys ?s) 0 (Q (sleepq ?s)))"
    using sleeper_unlink [OF k1 Q] by blast
  obtain R qt' where r: "make_ready t (?s\<lparr>quetab := qt\<rparr>) = Some (restate t THRREADY qt' ?s)"
      "kinv0 (Q(sleepq ?s := xs @ ys, readylist ?s := R)) (restate t THRREADY qt' ?s)"
      "\<forall>i. i \<noteq> t \<longrightarrow> qkey (qt' i) = qkey (qt i)"
    using kinv0_sleep_ready [OF k1 Q qt(2,5,3,4)] by blast
  let ?s2 = "restate t THRREADY qt' ?s"
  obtain R' s' where rs: "resched ?s2 = Some (OK, s')" "kinv (Q(sleepq s := xs @ ys, readylist s := R')) s'" "sched_frame ?s2 s'"
    using resched_ok [OF r(2)] kinvD(3) [OF k] by auto
  have "send t m s = Some (OK, s')"
    using t t'(1) qt(1) r(1) rs(1) by (simp add: send_def bounds_simps)
  moreover have "due (keys s') 0 (xs @ ys) = filter (\<lambda>(u, w). u \<noteq> t) (due (keys s) 0 (Q (sleepq s)))"
  proof -
    have "t \<notin> set (xs @ ys)" using allq_distinct [OF kinv0D(1) [OF k1] cf(2)] Q by simp
    then have "due (\<lambda>i. qkey (qt' i)) 0 (xs @ ys) = due (\<lambda>i. qkey (qt i)) 0 (xs @ ys)"
      using r(3) by (intro due_cong) auto
    then show ?thesis using sched_frame_due [OF r(2) rs(3), of 0] qt(6) cf(3) by simp
  qed
  ultimately show ?thesis
    using rs(2) sched_frameD(14,15) [OF rs(3), of t] sched_frame_runnable [OF rs(3), of t] cf(3)
    by (intro exI [of _ "Q(sleepq s := xs @ ys, readylist s := R')"] exI [of _ s']) simp
qed

lemma send_inv:
  assumes k: "kinv Q s"
  shows "\<exists>Q' r s'. send t m s = Some (r, s') \<and> kinv Q' s'"
proof (cases "isbadtid s t \<or> hasmsg (thrtab s t)")
  case True
  then show ?thesis using send_error [OF True] k by blast
next
  case False
  then have t: "\<not> isbadtid s t" "\<not> hasmsg (thrtab s t)" by auto
  show ?thesis
    using send_nonblocked [OF t] send_receiver [OF k t] send_timed [OF k t] kinv_message [OF k refl]
    by (cases "tstate (thrtab s t) \<in> {THRRECV, THRTMOUT}") blast+
qed

section \<open>Receiving\<close>

lemma receive_take_ok:
  assumes k: "kinv Q s" and t: "t \<in> tids"
  shows "receive_take t s = Some (msg (thrtab s t), s\<lparr>thrtab := (thrtab s)(t := (thrtab s t)\<lparr>hasmsg := False\<rparr>)\<rparr>)"
    and "kinv Q (s\<lparr>thrtab := (thrtab s)(t := (thrtab s t)\<lparr>hasmsg := False\<rparr>)\<rparr>)"
proof -
  show "receive_take t s = Some (msg (thrtab s t), s\<lparr>thrtab := (thrtab s)(t := (thrtab s t)\<lparr>hasmsg := False\<rparr>)\<rparr>)"
    using t by (simp add: receive_take_def bounds_simps)
  show "kinv Q (s\<lparr>thrtab := (thrtab s)(t := (thrtab s t)\<lparr>hasmsg := False\<rparr>)\<rparr>)"
    by (rule kinv_message [OF k, where t = t and m = "msg (thrtab s t)" and h = False]) simp
qed

lemma receive_block:
  assumes k: "kinv Q s" and cur: "thrcurrent s \<noteq> NULLTHREAD" and h: "\<not> hasmsg (thrtab s (thrcurrent s))"
  shows "\<exists>Q' s'. receive s = Some (None, s') \<and> kinv Q' s' \<and> tstate (thrtab s' (thrcurrent s)) = THRRECV \<and>
    thrcurrent s' \<noteq> thrcurrent s"
proof -
  let ?s = "restate (thrcurrent s) THRRECV (quetab s) s"
  have k1: "kinv0 Q ?s"
    by (rule kinv0_park [OF kinvD(1,4,5) [OF k] cur]) (simp add: parked_def)
  obtain Q' s' where r: "resched ?s = Some (OK, s')" "kinv Q' s'" "sched_frame ?s s'"
    using resched_ok [OF k1] kinvD(3) [OF k] by auto
  have "receive s = Some (None, s')"
    using kinvD(4) [OF k] h r(1) by (simp add: receive_def bounds_simps)
  moreover have "tstate (thrtab s' (thrcurrent s)) = THRRECV"
    using sched_frame_blocked [OF r(3), of "thrcurrent s"] by simp
  moreover have "thrcurrent s' \<noteq> thrcurrent s" using calculation(2) kinvD(2) [OF r(2)] by auto
  ultimately show ?thesis using r(2) by blast
qed

lemma receive_inv:
  assumes k: "kinv Q s" and cur: "thrcurrent s \<noteq> NULLTHREAD"
  shows "\<exists>Q' r s'. receive s = Some (r, s') \<and> kinv Q' s'"
proof (cases "hasmsg (thrtab s (thrcurrent s))")
  case True
  then show ?thesis
    using receive_take_ok [OF k kinvD(4) [OF k]] kinvD(4) [OF k] by (auto simp: receive_def bounds_simps)
next
  case False
  then show ?thesis using receive_block [OF k cur] by blast
qed

lemma recvclr_inv:
  assumes k: "kinv Q s"
  shows "\<exists>s'. recvclr s = Some (if hasmsg (thrtab s (thrcurrent s)) then msg (thrtab s (thrcurrent s)) else NOMSG, s') \<and>
    kinv Q s' \<and> \<not> hasmsg (thrtab s' (thrcurrent s))"
  using receive_take_ok(2) [OF k kinvD(4) [OF k]] kinvD(4) [OF k] by (simp add: recvclr_def bounds_simps)

lemma recvtime_take_inv:
  assumes k: "kinv Q s" and t: "t \<in> tids"
  shows "\<exists>r s'. recvtime_take t s = Some (r, s') \<and> kinv Q s'"
  using receive_take_ok(2) [OF k t] k t by (simp add: recvtime_take_def bounds_simps)

lemma recvtime_block:
  assumes k: "kinv Q s" and cur: "thrcurrent s \<noteq> NULLTHREAD" and h: "\<not> hasmsg (thrtab s (thrcurrent s))"
    and w: "0 \<le> maxwait" "maxwait \<le> INT_MAX"
  shows "\<exists>Q' s'. recvtime maxwait s = Some (None, s') \<and> kinv Q' s' \<and> tstate (thrtab s' (thrcurrent s)) = THRTMOUT \<and>
    due (keys s') 0 (Q' (sleepq s)) = ins_time (thrcurrent s) maxwait (due (keys s) 0 (Q (sleepq s)))"
proof -
  obtain Q' qt s' where r: "insertd (thrcurrent s) (sleepq s) maxwait s = Some (OK, s\<lparr>quetab := qt\<rparr>)"
    "resched (restate (thrcurrent s) THRTMOUT qt s) = Some (OK, s')" "kinv Q' s'"
    "tstate (thrtab s' (thrcurrent s)) = THRTMOUT"
    "due (keys s') 0 (Q' (sleepq s)) = ins_time (thrcurrent s) maxwait (due (keys s) 0 (Q (sleepq s)))"
    using timed_block_ok [OF k cur w, of THRTMOUT] by (auto simp: timed_def)
  have "recvtime maxwait s = Some (None, s')"
    using w h r(1,2) kinvD(4) [OF k] by (simp add: recvtime_def bounds_simps)
  then show ?thesis using r(3-5) by blast
qed

lemma recvtime_inv:
  assumes k: "kinv Q s" and cur: "thrcurrent s \<noteq> NULLTHREAD" and w: "maxwait \<le> INT_MAX"
  shows "\<exists>Q' r s'. recvtime maxwait s = Some (r, s') \<and> kinv Q' s'"
proof -
  consider "maxwait < 0" | "0 \<le> maxwait" "hasmsg (thrtab s (thrcurrent s))"
    | "0 \<le> maxwait" "\<not> hasmsg (thrtab s (thrcurrent s))" by linarith
  then show ?thesis
  proof cases
    case 1
    then show ?thesis using k by (auto simp: recvtime_def)
  next
    case 2
    then show ?thesis
      using receive_take_ok(2) [OF k kinvD(4) [OF k]] kinvD(4) [OF k]
      by (auto simp: recvtime_def recvtime_take_def bounds_simps)
  next
    case 3
    then show ?thesis using recvtime_block [OF k cur _ _ w] by blast
  qed
qed

end
