(* ===== verification/Slot_Table.thy ===== *)
theory Slot_Table
  imports Kernel_State
begin

text \<open>
  The kernel allocates entries of its fixed tables (threads, semaphores, monitors, mailboxes)
  with the same round-robin search: advance a static cursor by one, modulo the table size, and
  test the entry, at most once for every entry.  The locale states that contract once; the
  component theories interpret it on their own loops.
\<close>

locale slot_table =
  fixes scan :: "nat \<Rightarrow> 's \<Rightarrow> (int option \<times> 's) option"
    and pos :: "'s \<Rightarrow> int"
    and setpos :: "int \<Rightarrow> 's \<Rightarrow> 's"
    and isfree :: "'s \<Rightarrow> int \<Rightarrow> bool"
    and N :: int
  assumes N_pos: "0 < N"
    and pos_setpos: "pos (setpos p s) = p"
    and setpos_setpos: "setpos p (setpos q s) = setpos p s"
    and setpos_pos: "setpos (pos s) s = s"
    and isfree_setpos: "isfree (setpos p s) i = isfree s i"
    and scan_0: "scan 0 s = Some (None, s)"
    and scan_Suc: "0 \<le> pos s \<Longrightarrow> pos s < N \<Longrightarrow> scan (Suc n) s =
      (let p = (pos s + 1) mod N; s1 = setpos p s in if isfree s1 p then Some (Some p, s1) else scan n s1)"
begin

text \<open>The loop inspects the \<open>n\<close> entries after the cursor in cyclic order.\<close>

lemma scan_found:
  assumes "0 \<le> pos s" "pos s < N" "k < n" "isfree s ((pos s + 1 + int k) mod N)"
    and "\<forall>j<k. \<not> isfree s ((pos s + 1 + int j) mod N)"
  shows "scan n s = Some (Some ((pos s + 1 + int k) mod N), setpos ((pos s + 1 + int k) mod N) s)"
  using assms
proof (induction n arbitrary: s k)
  case 0
  then show ?case by simp
next
  case (Suc n)
  let ?p = "(pos s + 1) mod N"
  show ?case
  proof (cases k)
    case 0
    with Suc.prems show ?thesis by (simp add: scan_Suc isfree_setpos Let_def)
  next
    case (Suc k')
    have "\<not> isfree s ?p" using Suc.prems(5) Suc by force
    then have "scan (Suc n) s = scan n (setpos ?p s)"
      using Suc.prems(1,2) by (simp add: scan_Suc isfree_setpos)
    also have "\<dots> = Some (Some ((?p + 1 + int k') mod N), setpos ((?p + 1 + int k') mod N) (setpos ?p s))"
    proof -
      have m: "(?p + 1 + int j) mod N = (pos s + 1 + int (Suc j)) mod N" for j
        by (metis add.assoc add.commute mod_add_left_eq of_nat_Suc)
      have "isfree (setpos ?p s) ((pos (setpos ?p s) + 1 + int k') mod N)"
        "\<forall>j<k'. \<not> isfree (setpos ?p s) ((pos (setpos ?p s) + 1 + int j) mod N)"
        using Suc.prems(4,5) Suc by (auto simp: pos_setpos isfree_setpos m simp del: of_nat_Suc)
      then show ?thesis
        using Suc.IH [of "setpos ?p s" k'] Suc.prems(3) Suc N_pos by (simp add: pos_setpos)
    qed
    also have "(?p + 1 + int k') mod N = (pos s + 1 + int k) mod N"
      using Suc by (metis add.assoc add.commute mod_add_left_eq of_nat_Suc)
    finally show ?thesis by (simp add: setpos_setpos)
  qed
qed

lemma scan_none:
  assumes "0 \<le> pos s" "pos s < N" "\<forall>j<n. \<not> isfree s ((pos s + 1 + int j) mod N)"
  shows "scan n s = Some (None, setpos ((pos s + int n) mod N) s)"
  using assms
proof (induction n arbitrary: s)
  case 0
  then show ?case by (simp add: scan_0 setpos_pos)
next
  case (Suc n)
  let ?p = "(pos s + 1) mod N"
  have m: "(?p + 1 + int j) mod N = (pos s + 1 + int (Suc j)) mod N" for j
    by (metis add.assoc add.commute mod_add_left_eq of_nat_Suc)
  have "\<not> isfree s ?p" using Suc.prems(3) by force
  moreover have "\<forall>j<n. \<not> isfree (setpos ?p s) ((pos (setpos ?p s) + 1 + int j) mod N)"
    using Suc.prems(3) by (auto simp: pos_setpos isfree_setpos m simp del: of_nat_Suc)
  ultimately have "scan (Suc n) s = Some (None, setpos ((?p + int n) mod N) s)"
    using Suc.IH [of "setpos ?p s"] Suc.prems(1,2) N_pos
    by (simp add: scan_Suc isfree_setpos pos_setpos setpos_setpos)
  then show ?case by (simp add: mod_add_left_eq add.assoc)
qed

lemma slot_offset:
  assumes "0 \<le> i" "i < N"
  shows "\<exists>k<nat N. (p + 1 + int k) mod N = i"
proof (intro exI conjI)
  show "nat ((i - p - 1) mod N) < nat N" using N_pos by simp
  have "(p + 1 + (i - p - 1) mod N) mod N = i mod N" by (simp add: mod_simps)
  then show "(p + 1 + int (nat ((i - p - 1) mod N))) mod N = i" using N_pos assms by simp
qed

text \<open>A full round finds a free entry exactly when there is one.\<close>

lemma scan_complete:
  assumes p: "0 \<le> pos s" "pos s < N"
  shows "if \<exists>i. 0 \<le> i \<and> i < N \<and> isfree s i
    then \<exists>i. 0 \<le> i \<and> i < N \<and> isfree s i \<and> scan (nat N) s = Some (Some i, setpos i s)
    else scan (nat N) s = Some (None, s)"
proof (cases "\<exists>i. 0 \<le> i \<and> i < N \<and> isfree s i")
  case True
  then obtain k where k: "k < nat N \<and> isfree s ((pos s + 1 + int k) mod N)"
    using slot_offset [of _ "pos s"] by metis
  define m where "m = (LEAST k. k < nat N \<and> isfree s ((pos s + 1 + int k) mod N))"
  have m: "m < nat N \<and> isfree s ((pos s + 1 + int m) mod N)" "\<forall>j<m. \<not> isfree s ((pos s + 1 + int j) mod N)"
    using LeastI [of "\<lambda>k. k < nat N \<and> isfree s ((pos s + 1 + int k) mod N)", OF k]
      not_less_Least [of _ "\<lambda>k. k < nat N \<and> isfree s ((pos s + 1 + int k) mod N)"]
    unfolding m_def by (auto intro: less_trans)
  then show ?thesis
    using True scan_found [OF p, of m "nat N"] N_pos by (auto intro!: exI [of _ "(pos s + 1 + int m) mod N"])
next
  case False
  then have "\<forall>j<nat N. \<not> isfree s ((pos s + 1 + int j) mod N)" using N_pos by (simp add: pos_mod_bound)
  then show ?thesis
    using False scan_none [OF p, of "nat N"] p N_pos by (simp add: setpos_pos)
qed

end

end
