(* ===== verification/Semaphore.thy ===== *)
theory Semaphore
  imports Sched Slot_Table
begin

text \<open>
  Counting semaphores: \<^verbatim>\<open>system/wait.c\<close>, \<^verbatim>\<open>signal.c\<close>, \<^verbatim>\<open>signaln.c\<close>,
  \<^verbatim>\<open>semcreate.c\<close>, \<^verbatim>\<open>semfree.c\<close>, \<^verbatim>\<open>semcount.c\<close>.  A negative count is minus the
  number of waiting threads.
\<close>

section \<open>Operations\<close>

definition wait :: "u32 \<Rightarrow> 'a kernel_scheme \<Rightarrow> (int \<times> 'a kernel_scheme) option" where
  "wait sem s =
     (if isbadsem s sem then Some (SYSERR, s)
      else do {
        e \<leftarrow> sem_ent s (uint sem);
        c \<leftarrow> c_int (count e - 1);
        s \<leftarrow> set_sem (uint sem) (count_update (\<lambda>_. c)) s;
        if c < 0
        then do {
          s \<leftarrow> set_thread (thrcurrent s) (\<lambda>t. t\<lparr>tstate := THRWAIT, tsem := sem\<rparr>) s;
          (_, s) \<leftarrow> enqueue (thrcurrent s) (semqueue e) s;
          (_, s) \<leftarrow> resched s;
          Some (OK, s)
        }
        else Some (OK, s)
      })"

text \<open>The block that \<^verbatim>\<open>signal\<close>, \<^verbatim>\<open>signaln\<close> and \<^verbatim>\<open>semfree\<close> share: dequeue a waiting
  thread and make it ready if its id is still valid.\<close>

definition release_waiter :: "int \<Rightarrow> 'a kernel_scheme \<Rightarrow> 'a kernel_scheme option" where
  "release_waiter q s = do {
     (tid, s) \<leftarrow> dequeue q s;
     if \<not> isbadtid s tid then make_ready tid s else Some s
   }"

text \<open>One round of \<^verbatim>\<open>if ((semptr->count++) < 0) ...\<close>; the Boolean tells whether the branch was taken.\<close>

definition signal_once :: "u32 \<Rightarrow> 'a kernel_scheme \<Rightarrow> (bool \<times> 'a kernel_scheme) option" where
  "signal_once sem s = do {
     e \<leftarrow> sem_ent s (uint sem);
     c \<leftarrow> c_int (count e + 1);
     s \<leftarrow> set_sem (uint sem) (count_update (\<lambda>_. c)) s;
     if count e < 0 then do { s \<leftarrow> release_waiter (semqueue e) s; Some (True, s) }
     else Some (False, s)
   }"

definition signal :: "u32 \<Rightarrow> 'a kernel_scheme \<Rightarrow> (int \<times> 'a kernel_scheme) option" where
  "signal sem s =
     (if isbadsem s sem then Some (SYSERR, s)
      else do {
        (released, s) \<leftarrow> signal_once sem s;
        if released then do { (_, s) \<leftarrow> resched s; Some (OK, s) } else Some (OK, s)
      })"

fun signaln_loop :: "nat \<Rightarrow> u32 \<Rightarrow> 'a kernel_scheme \<Rightarrow> 'a kernel_scheme option" where
  "signaln_loop 0 sem s = Some s"
| "signaln_loop (Suc n) sem s = do { (_, s) \<leftarrow> signal_once sem s; signaln_loop n sem s }"

definition signaln :: "u32 \<Rightarrow> int \<Rightarrow> 'a kernel_scheme \<Rightarrow> (int \<times> 'a kernel_scheme) option" where
  "signaln sem cnt s =
     (if isbadsem s sem \<or> cnt \<le> 0 then Some (SYSERR, s)
      else do {
        s \<leftarrow> signaln_loop (nat cnt) sem s;
        (_, s) \<leftarrow> resched s;
        Some (OK, s)
      })"

fun sem_scan :: "nat \<Rightarrow> 'a kernel_scheme \<Rightarrow> (int option \<times> 'a kernel_scheme) option" where
  "sem_scan 0 s = Some (None, s)"
| "sem_scan (Suc n) s = do {
     let nx = nextsem s + 1;
     let nx = (if nx \<ge> NSEM then 0 else nx);
     let s = s\<lparr>nextsem := nx\<rparr>;
     e \<leftarrow> sem_ent s nx;
     if semstate e = SFREE then Some (Some nx, s) else sem_scan n s
   }"

definition semalloc :: "'a kernel_scheme \<Rightarrow> (u32 \<times> 'a kernel_scheme) option" where
  "semalloc s = do {
     (r, s) \<leftarrow> sem_scan (nat NSEM) s;
     case r of
       None \<Rightarrow> Some (SYSERR_u, s)
     | Some i \<Rightarrow> do { s \<leftarrow> set_sem i (semstate_update (\<lambda>_. SUSED)) s; Some (to_u32 i, s) }
   }"

definition semcreate :: "int \<Rightarrow> 'a kernel_scheme \<Rightarrow> (u32 \<times> 'a kernel_scheme) option" where
  "semcreate cnt s =
     (if cnt < 0 then Some (SYSERR_u, s)
      else do {
        (sem, s) \<leftarrow> semalloc s;
        if sem \<noteq> SYSERR_u
        then do { s \<leftarrow> set_sem (uint sem) (count_update (\<lambda>_. cnt)) s; Some (sem, s) }
        else Some (sem, s)
      })"

partial_function (option) semfree_loop :: "int \<Rightarrow> 'a kernel_scheme \<Rightarrow> 'a kernel_scheme option" where
  "semfree_loop q s = do {
     ne \<leftarrow> nonempty s q;
     if ne then do { s \<leftarrow> release_waiter q s; semfree_loop q s } else Some s
   }"

definition semfree :: "u32 \<Rightarrow> 'a kernel_scheme \<Rightarrow> (int \<times> 'a kernel_scheme) option" where
  "semfree sem s =
     (if isbadsem s sem then Some (SYSERR, s)
      else do {
        e \<leftarrow> sem_ent s (uint sem);
        s \<leftarrow> semfree_loop (semqueue e) s;
        s \<leftarrow> set_sem (uint sem) (\<lambda>e. e\<lparr>count := 0, semstate := SFREE\<rparr>) s;
        Some (OK, s)
      })"

definition semcount :: "u32 \<Rightarrow> 'a kernel_scheme \<Rightarrow> int option" where
  "semcount sem s =
     (if isbadsem s sem then Some SYSERR else do { e \<leftarrow> sem_ent s (uint sem); Some (count e) })"

section \<open>Allocation\<close>

interpretation sem_slots: slot_table sem_scan nextsem "\<lambda>p s. s\<lparr>nextsem := p\<rparr>"
  "\<lambda>s i. semstate (semtab s i) = SFREE" NSEM
proof
  fix s :: "'a kernel_scheme" and n
  assume p: "0 \<le> nextsem s" "nextsem s < NSEM"
  let ?p = "(nextsem s + 1) mod NSEM"
  have "(if nextsem s + 1 \<ge> NSEM then 0 else nextsem s + 1) = ?p"
    using p by (cases "nextsem s = 99") auto
  moreover have "0 \<le> ?p" "?p < NSEM" by simp_all
  ultimately show "sem_scan (Suc n) s = (let p = ?p; s1 = s\<lparr>nextsem := p\<rparr>
      in if semstate (semtab s1 p) = SFREE then Some (Some p, s1) else sem_scan n s1)"
    by (simp add: bounds_simps del: One_nat_def)
qed simp_all

section \<open>Waiting and releasing\<close>

text \<open>The running thread is put at the tail of a semaphore's queue.\<close>

lemma kinv0_sem_attach:
  assumes k: "kinv Q s" and i: "uint sem \<in> sids" and c: "count (semtab s (uint sem)) \<le> 0"
    and used: "semstate (semtab s (uint sem)) = SUSED" and cur: "thrcurrent s \<noteq> NULLTHREAD"
    and q: "q = semqueue (semtab s (uint sem))" and qt: "allq qt (Q(q := Q q @ [thrcurrent s]))"
    and K: "\<forall>i. qkey (qt i) = keys s i"
    and s': "s' = s\<lparr>semtab := (semtab s)(uint sem := (semtab s (uint sem))\<lparr>count := count (semtab s (uint sem)) - 1\<rparr>),
      thrtab := (thrtab s)(thrcurrent s := (thrtab s (thrcurrent s))\<lparr>tstate := THRWAIT, tsem := sem\<rparr>), quetab := qt\<rparr>"
  shows "kinv0 (Q(q := Q q @ [thrcurrent s])) s'"
proof -
  note k0 = kinvD(1) [OF k] and k' = kinv0D [OF kinvD(1) [OF k]]
    and cf = config_okD [OF kinv0D(2) [OF kinvD(1) [OF k]]]
  let ?Q = "Q(q := Q q @ [thrcurrent s])"
  have qq: "q \<in> queues" "q \<noteq> readylist s" "q \<noteq> sleepq s" using cf i q by auto
  have new: "\<forall>q\<in>queues. thrcurrent s \<notin> set (Q q)"
    by (rule home_None_notin [OF k'(3) kinvD(5) [OF k]])
  show ?thesis
  proof (rule kinv0_step [OF k0 kinvD(4) [OF k]])
    have "home s' (thrcurrent s) = Some q" by (simp add: s' home_def q)
    then show "\<forall>q'\<in>queues. set (?Q q') = (set (Q q') - {thrcurrent s}) \<union>
        (if home s' (thrcurrent s) = Some q' then {thrcurrent s} else {})"
      using new by auto
    have "semqueue (semtab s j) \<noteq> q" if "j \<in> sids" "j \<noteq> uint sem" for j
      using cf(7) [of j "uint sem"] that i q by auto
    then show "inv_sems ?Q s'"
      using k'(4) i c used q unfolding inv_sems_def s' by (auto split: if_splits)
    show "inv_ready ?Q s'" by (rule inv_ready_frame [OF k'(6)]) (use qq K s' in auto)
    show "inv_sleep ?Q s'" by (rule inv_sleep_frame [OF k'(7)]) (use qq K s' in auto)
  qed (use qt i cur s' in auto)
qed

text \<open>A thread leaves a semaphore's queue and the count goes up.\<close>

lemma kinv0_sem_detach:
  assumes k: "kinv0 Q s" and i: "i \<in> sids" and q: "q = semqueue (semtab s i)" and t: "t \<in> set (Q q)"
    and qt: "allq qt (Q(q := remove1 t (Q q)))" and K: "\<forall>i. qkey (qt i) = keys s i" and st: "parked st"
    and s': "s' = (restate t st qt s)\<lparr>semtab := (semtab s)(i := (semtab s i)\<lparr>count := count (semtab s i) + 1\<rparr>)\<rparr>"
  shows "kinv0 (Q(q := remove1 t (Q q))) s'"
proof -
  note k' = kinv0D [OF k] and cf = config_okD [OF kinv0D(2) [OF k]]
  let ?Q = "Q(q := remove1 t (Q q))"
  have qq: "q \<in> queues" "q \<noteq> readylist s" "q \<noteq> sleepq s" using cf i q by auto
  have t': "t \<in> tids" "home s t = Some q" using inv_homesD [OF k'(3) qq(1)] t by auto
  have d: "distinct (Q q)" by (rule allq_distinct [OF k'(1) qq(1)])
  have null: "t \<noteq> NULLTHREAD"
    using k'(5) t' qq by (auto simp: inv_threads_def home_def)
  show ?thesis
  proof (rule kinv0_step [OF k t'(1)])
    have "home s' t = None" using st by (auto simp: s' parked_def home_def)
    then show "\<forall>q'\<in>queues. set (?Q q') = (set (Q q') - {t}) \<union> (if home s' t = Some q' then {t} else {})"
      using inv_homesD [OF k'(3)] t'(2) d by auto
    have ne: "semqueue (semtab s j) \<noteq> q" if "j \<in> sids" "j \<noteq> i" for j
      using cf(7) [of j i] that i q by auto
    have "length (Q q) > 0" using t by auto
    then have "int (length (remove1 t (Q q))) = int (length (Q q)) - 1" using t by (simp add: length_remove1 of_nat_diff Suc_leI)
    moreover have "int (length (Q q)) = max 0 (- count (semtab s i))"
      using k'(4) i q by (simp add: inv_sems_def)
    moreover have "count (semtab s i) < 0" using calculation(2) \<open>length (Q q) > 0\<close> by linarith
    ultimately show "inv_sems ?Q s'"
      using k'(4) i q ne unfolding inv_sems_def s' by (auto split: if_splits)
    show "inv_ready ?Q s'" by (rule inv_ready_frame [OF k'(6)]) (use qq K s' in auto)
    show "inv_sleep ?Q s'" by (rule inv_sleep_frame [OF k'(7)]) (use qq K s' in auto)
  qed (use qt st null s' in \<open>auto simp: parked_def\<close>)
qed

abbreviation (input) recount :: "int \<Rightarrow> int \<Rightarrow> 'a kernel_scheme \<Rightarrow> 'a kernel_scheme" where
  "recount i c s \<equiv> s\<lparr>semtab := (semtab s)(i := (semtab s i)\<lparr>count := c\<rparr>)\<rparr>"

text \<open>The queue contents after the first waiter of \<open>q\<close> has been moved to the ready list.\<close>

definition released :: "(int \<Rightarrow> int list) \<Rightarrow> int \<Rightarrow> 'a kernel_scheme \<Rightarrow> int \<Rightarrow> int list" where
  "released Q q s = (case Q q of [] \<Rightarrow> Q
     | x # xs \<Rightarrow> Q(q := xs, readylist s := ins_desc (keys s) (prio (thrtab s x)) x (Q (readylist s))))"

lemma sem_queue_head:
  assumes k: "kinv0 Q s" and i: "i \<in> sids" and c: "count (semtab s i) < 0"
  obtains x xs where "Q (semqueue (semtab s i)) = x # xs" "x \<in> tids" "tstate (thrtab s x) = THRWAIT"
proof -
  note k' = kinv0D [OF k] and cf = config_okD [OF kinv0D(2) [OF k]]
  have "int (length (Q (semqueue (semtab s i)))) = max 0 (- count (semtab s i))"
    using k'(4) i by (simp add: inv_sems_def)
  with c obtain x xs where Q: "Q (semqueue (semtab s i)) = x # xs" by (cases "Q (semqueue (semtab s i))") auto
  have "x \<in> tids" "home s x = Some (semqueue (semtab s i))"
    using inv_homesD [OF k'(3) cf(4) [OF i], of x] Q by auto
  moreover have "tstate (thrtab s x) = THRWAIT"
    using calculation cf(5,6) [OF i] by (auto simp: home_def split: thrstate.splits)
  ultimately show ?thesis using Q that by blast
qed

lemma release_waiter_code:
  assumes a: "allq (quetab s) Q" "readylist s \<in> queues" "q \<in> queues" "q \<noteq> readylist s" and Q: "Q q = x # xs"
    and t: "tstate (thrtab s x) \<noteq> THRFREE" "MINKEY < prio (thrtab s x)"
  shows "\<exists>qt. release_waiter q s = Some (restate x THRREADY qt s) \<and> allq qt (released Q q s) \<and>
    (\<forall>i. qkey (qt i) = (if i = x then prio (thrtab s x) else keys s i))"
proof -
  obtain qt where qt: "dequeue q s = Some (x, s\<lparr>quetab := qt\<rparr>)" "allq qt (Q(q := xs))"
      "\<forall>i. qkey (qt i) = keys s i"
    using dequeue_ok [OF a(1,3) Q] by blast
  let ?s2 = "s\<lparr>quetab := qt\<rparr>"
  have x: "x \<in> tids" using allq_range [OF a(1,3), of x] Q by simp
  have new: "\<forall>q'\<in>queues. x \<notin> set ((Q(q := xs)) q')"
    using allq_disjoint [OF a(1,3), of _ x] allq_distinct [OF a(1,3)] Q by auto
  have "MINKEY < prio (thrtab ?s2 x)" "allq (quetab ?s2) (Q(q := xs))" "readylist ?s2 \<in> queues"
    using t(2) qt(2) a(2) by simp_all
  then obtain qt' where mr: "make_ready x ?s2 = Some (restate x THRREADY qt' ?s2)"
      "allq qt' ((Q(q := xs))(readylist ?s2 := ins_desc (keys ?s2) (prio (thrtab ?s2 x)) x ((Q(q := xs)) (readylist ?s2))))"
      "\<forall>i. qkey (qt' i) = (if i = x then prio (thrtab ?s2 x) else keys ?s2 i)"
    using make_ready_code [of ?s2 "Q(q := xs)" x] x new by blast
  then have "release_waiter q s = Some (restate x THRREADY qt' s)"
    using qt(1) x t by (simp add: release_waiter_def isbadtid_def)
  then show ?thesis
    using mr(2,3) Q a(4) qt(3) by (auto simp: released_def simp del: fun_upd_apply simp: fun_upd_other)
qed

lemma kinv0_release:
  assumes k: "kinv0 Q s" and i: "i \<in> sids" and q: "q = semqueue (semtab s i)" and Q: "Q q = x # xs"
    and qt: "allq qt (released Q q s)" "\<forall>i. qkey (qt i) = (if i = x then prio (thrtab s x) else keys s i)"
    and s': "s' = (restate x THRREADY qt s)\<lparr>semtab := (semtab s)(i := (semtab s i)\<lparr>count := count (semtab s i) + 1\<rparr>)\<rparr>"
  shows "kinv0 (released Q q s) s'"
proof -
  note k' = kinv0D [OF k] and cf = config_okD [OF kinv0D(2) [OF k]]
  have qq: "q \<in> queues" "q \<noteq> readylist s" using cf i q by auto
  have x: "x \<in> tids" using inv_homesD [OF k'(3) qq(1), of x] Q by auto
  obtain gt where gt: "dequeue q s = Some (x, s\<lparr>quetab := gt\<rparr>)" "allq gt (Q(q := xs))"
      "\<forall>i. qkey (gt i) = keys s i"
    using dequeue_ok [OF k'(1) qq(1) Q] by blast
  let ?g = "(restate x THRSUSP gt s)\<lparr>semtab := (semtab s)(i := (semtab s i)\<lparr>count := count (semtab s i) + 1\<rparr>)\<rparr>"
  have g: "kinv0 (Q(q := xs)) ?g"
    using kinv0_sem_detach [OF k i q, of x gt THRSUSP ?g] gt Q by (simp add: parked_def)
  have e: "Q(q := xs, readylist ?g := ins_desc (keys ?g) (prio (thrtab ?g x)) x ((Q(q := xs)) (readylist ?g)))
      = released Q q s"
    using Q qq(2) gt(3) by (simp add: released_def)
  have g1: "home ?g x = None" by (simp add: home_def)
  have g2: "\<forall>i. qkey (qt i) = (if i = x then prio (thrtab ?g x) else keys ?g i)" using qt(2) gt(3) by simp
  have "kinv0 (released Q q s) (restate x THRREADY qt ?g)"
    using kinv0_make_ready [OF g x g1 _ g2] qt(1) unfolding e by blast
  then show ?thesis
    by (rule kinv0_cong) (use prio_bounds [OF k'(5)] in \<open>auto simp: s'\<close>)
qed

lemma kinv0_recount:
  assumes k: "kinv0 Q s" and i: "i \<in> sids" and c: "0 \<le> count (semtab s i)" "0 \<le> c" "c \<le> INT_MAX"
  shows "kinv0 Q (recount i c s)"
proof -
  note k' = kinv0D [OF k]
  have h: "home (recount i c s) = home s" by (simp add: home_def fun_eq_iff split: thrstate.split)
  have "inv_sems Q (recount i c s)" using k'(4) i c by (auto simp: inv_sems_def)
  moreover have "config_ok (recount i c s)" using k'(2) config_ok_cong [of "recount i c s" s] by simp
  ultimately show ?thesis
    using k' by (simp add: kinv0_def inv_homes_def inv_threads_def inv_ready_def inv_sleep_def h)
qed

text \<open>The effect of one signal, with or without a waiting thread.\<close>

lemma signal_once_ok:
  assumes k: "kinv0 Q s" and i: "uint sem \<in> sids" and c: "count (semtab s (uint sem)) < INT_MAX"
  shows "\<exists>Q' s'. signal_once sem s = Some (count (semtab s (uint sem)) < 0, s') \<and> kinv0 Q' s' \<and>
    Q' = (if count (semtab s (uint sem)) < 0 then released Q (semqueue (semtab s (uint sem))) s else Q) \<and>
    semtab s' = (semtab s)(uint sem := (semtab s (uint sem))\<lparr>count := count (semtab s (uint sem)) + 1\<rparr>) \<and>
    thrcurrent s' = thrcurrent s \<and> resdefer s' = resdefer s \<and> kheap s' = kheap s \<and> nextsem s' = nextsem s \<and>
    nexttid s' = nexttid s \<and> kernel.more s' = kernel.more s \<and> readylist s' = readylist s \<and>
    (\<forall>t. tstate (thrtab s t) \<noteq> THRWAIT \<longrightarrow> thrtab s' t = thrtab s t)"
proof (cases "count (semtab s (uint sem)) < 0")
  case True
  obtain x xs where x: "Q (semqueue (semtab s (uint sem))) = x # xs" "x \<in> tids" "tstate (thrtab s x) = THRWAIT"
    using sem_queue_head [OF k i True] by blast
  let ?s1 = "recount (uint sem) (count (semtab s (uint sem)) + 1) s" and ?q = "semqueue (semtab s (uint sem))"
  note k' = kinv0D [OF k] and cf = config_okD [OF kinv0D(2) [OF k]]
  have "released Q ?q ?s1 = released Q ?q s" by (simp add: released_def split: list.split)
  then obtain qt where qt: "release_waiter ?q ?s1 = Some (restate x THRREADY qt ?s1)" "allq qt (released Q ?q s)"
      "\<forall>i. qkey (qt i) = (if i = x then prio (thrtab s x) else keys s i)"
    using release_waiter_code [of ?s1 Q ?q x xs] k'(1) cf(1,4,5) i x prio_bounds [OF k'(5) x(2)] by auto
  have inv: "kinv0 (released Q ?q s) (restate x THRREADY qt ?s1)"
    by (rule kinv0_cong [OF kinv0_release [OF k i refl x(1) qt(2,3) refl]])
      (use prio_bounds [OF k'(5)] in auto)
  have "signal_once sem s = Some (True, restate x THRREADY qt ?s1)"
    using i c True count_lower [OF k i] qt(1) by (simp add: signal_once_def bounds_simps)
  then show ?thesis using True inv x by auto
next
  case False
  then have "signal_once sem s = Some (False, recount (uint sem) (count (semtab s (uint sem)) + 1) s)"
    using i c by (simp add: signal_once_def bounds_simps)
  then show ?thesis
    using False kinv0_recount [OF k i, of "count (semtab s (uint sem)) + 1"] c by auto
qed

section \<open>The semaphore calls\<close>

lemma wait_no_block:
  assumes k: "kinv Q s" and b: "\<not> isbadsem s sem" and c: "0 < count (semtab s (uint sem))"
  shows "wait sem s = Some (OK, recount (uint sem) (count (semtab s (uint sem)) - 1) s)"
    and "kinv Q (recount (uint sem) (count (semtab s (uint sem)) - 1) s)"
proof -
  have i: "uint sem \<in> sids" using b by auto
  have m: "count (semtab s (uint sem)) \<le> INT_MAX"
    using kinv0D(4) [OF kinvD(1) [OF k]] i by (simp add: inv_sems_def)
  show "wait sem s = Some (OK, recount (uint sem) (count (semtab s (uint sem)) - 1) s)"
    using b i c m by (simp add: wait_def bounds_simps)
  show "kinv Q (recount (uint sem) (count (semtab s (uint sem)) - 1) s)"
    using kinv0_recount [OF kinvD(1) [OF k] i, of "count (semtab s (uint sem)) - 1"] c m kinvD(2,3) [OF k]
    by (simp add: kinv_def)
qed

lemma signal_free:
  assumes k: "kinv Q s" and b: "\<not> isbadsem s sem" and c: "0 \<le> count (semtab s (uint sem))" "count (semtab s (uint sem)) < INT_MAX"
  shows "signal sem s = Some (OK, recount (uint sem) (count (semtab s (uint sem)) + 1) s)"
    "kinv Q (recount (uint sem) (count (semtab s (uint sem)) + 1) s)"
proof -
  have i: "uint sem \<in> sids" using b by auto
  show "signal sem s = Some (OK, recount (uint sem) (count (semtab s (uint sem)) + 1) s)"
    using b c i by (simp add: signal_def signal_once_def bounds_simps)
  show "kinv Q (recount (uint sem) (count (semtab s (uint sem)) + 1) s)"
    using kinv0_recount [OF kinvD(1) [OF k] i c(1)] c kinvD(2,3) [OF k] by (simp add: kinv_def)
qed

lemma semcount_ok: "\<not> isbadsem s sem \<Longrightarrow> semcount sem s = Some (count (semtab s (uint sem)))"
proof -
  assume b: "\<not> isbadsem s sem"
  then have "uint sem \<in> sids" by auto
  then show ?thesis using b by (simp add: semcount_def bounds_simps)
qed

lemma wait_block:
  assumes k: "kinv Q s" and b: "\<not> isbadsem s sem" and c: "count (semtab s (uint sem)) \<le> 0"
    and cur: "thrcurrent s \<noteq> NULLTHREAD"
  shows "\<exists>R s'. wait sem s = Some (OK, s') \<and>
    kinv (Q(semqueue (semtab s (uint sem)) := Q (semqueue (semtab s (uint sem))) @ [thrcurrent s], readylist s := R)) s' \<and>
    semtab s' = (semtab s)(uint sem := (semtab s (uint sem))\<lparr>count := count (semtab s (uint sem)) - 1\<rparr>) \<and>
    tstate (thrtab s' (thrcurrent s)) = THRWAIT \<and> kheap s' = kheap s \<and> nextsem s' = nextsem s \<and>
    nexttid s' = nexttid s \<and> kernel.more s' = kernel.more s"
proof -
  note k' = kinv0D [OF kinvD(1) [OF k]] and cf = config_okD [OF kinv0D(2) [OF kinvD(1) [OF k]]]
  let ?i = "uint sem" and ?q = "semqueue (semtab s (uint sem))" and ?t = "thrcurrent s"
  have i: "?i \<in> sids" "semstate (semtab s ?i) = SUSED" using b by auto
  have t: "?t \<in> tids" by (rule kinvD(4) [OF k])
  have new: "\<forall>q\<in>queues. ?t \<notin> set (Q q)" by (rule home_None_notin [OF k'(3) kinvD(5) [OF k]])
  let ?s1 = "s\<lparr>semtab := (semtab s)(?i := (semtab s ?i)\<lparr>count := count (semtab s ?i) - 1\<rparr>),
      thrtab := (thrtab s)(?t := (thrtab s ?t)\<lparr>tstate := THRWAIT, tsem := sem\<rparr>)\<rparr>"
  have a1: "allq (quetab ?s1) Q" "\<not> isbadtid ?s1 ?t" using k'(1) t by (simp_all add: isbadtid_def)
  obtain qt where qt: "enqueue ?t ?q ?s1 = Some (?t, ?s1\<lparr>quetab := qt\<rparr>)" "allq qt (Q(?q := Q ?q @ [?t]))"
      "\<forall>i. qkey (qt i) = keys s i"
    using enqueue_ok [OF a1(1) cf(4) [OF i(1)] a1(2) new] by auto
  let ?s2 = "?s1\<lparr>quetab := qt\<rparr>"
  have k2: "kinv0 (Q(?q := Q ?q @ [?t])) ?s2"
    by (rule kinv0_sem_attach [OF k i(1) c i(2) cur refl qt(2,3) refl])
  obtain R s' where r: "resched ?s2 = Some (OK, s')" "kinv (Q(?q := Q ?q @ [?t], readylist s := R)) s'" "sched_frame ?s2 s'"
    using resched_ok [OF k2] kinvD(3) [OF k] by auto
  have "wait sem s = Some (OK, s')"
    using b i t c qt(1) r(1) count_lower [OF kinvD(1) [OF k] i(1)] by (simp add: wait_def bounds_simps)
  moreover have "thrtab s' ?t = thrtab ?s2 ?t"
    using r(3) unfolding sched_frame_def by auto
  ultimately show ?thesis
    using r(2) sched_frameD(1,4,9,10,12) [OF r(3)] by (intro exI [of _ R] exI [of _ s']) simp
qed

lemma wait_inv:
  assumes k: "kinv Q s" and cur: "thrcurrent s \<noteq> NULLTHREAD"
  shows "\<exists>Q' r s'. wait sem s = Some (r, s') \<and> kinv Q' s'"
proof (cases "isbadsem s sem")
  case True
  then show ?thesis using k by (auto simp: wait_def)
next
  case False
  then show ?thesis
    using wait_no_block [OF k False] wait_block [OF k False _ cur] by (cases "0 < count (semtab s (uint sem))") force+
qed

lemma signal_inv:
  assumes k: "kinv Q s" and c: "count (semtab s (uint sem)) < INT_MAX"
  shows "\<exists>Q' r s'. signal sem s = Some (r, s') \<and> kinv Q' s'"
proof (cases "isbadsem s sem")
  case True
  then show ?thesis using k by (auto simp: signal_def)
next
  case False
  have i: "uint sem \<in> sids" using False by auto
  obtain Q' s1 where s1: "signal_once sem s = Some (count (semtab s (uint sem)) < 0, s1)" "kinv0 Q' s1"
      "thrcurrent s1 = thrcurrent s" "resdefer s1 = resdefer s"
      "\<forall>t. tstate (thrtab s t) \<noteq> THRWAIT \<longrightarrow> thrtab s1 t = thrtab s t"
    using signal_once_ok [OF kinvD(1) [OF k] i c] by blast
  have k1: "kinv Q' s1" using s1 kinvD(2,3) [OF k] by (simp add: kinv_def)
  show ?thesis
  proof (cases "count (semtab s (uint sem)) < 0")
    case True
    obtain R s' where "resched s1 = Some (OK, s')" "kinv R s'"
      using resched_ok [OF kinvD(1,3) [OF k1]] by blast
    then have "signal sem s = Some (OK, s')" using s1(1) True False by (simp add: signal_def)
    then show ?thesis using \<open>kinv R s'\<close> by blast
  next
    case nf: False
    then show ?thesis using s1(1) k1 False by (auto simp: signal_def)
  qed
qed

text \<open>Whatever the count, a signal leaves the state beyond the kernel alone.\<close>

lemma signal_more:
  assumes k: "kinv Q s" and b: "\<not> isbadsem s sem" and c: "count (semtab s (uint sem)) < INT_MAX"
  shows "\<exists>Q' s'. signal sem s = Some (OK, s') \<and> kinv Q' s' \<and> kernel.more s' = kernel.more s \<and>
    semtab s' = (semtab s)(uint sem := (semtab s (uint sem))\<lparr>count := count (semtab s (uint sem)) + 1\<rparr>)"
proof -
  have i: "uint sem \<in> sids" using b by auto
  obtain Q1 s1 where s1: "signal_once sem s = Some (count (semtab s (uint sem)) < 0, s1)" "kinv0 Q1 s1"
      "thrcurrent s1 = thrcurrent s" "resdefer s1 = resdefer s" "kernel.more s1 = kernel.more s"
      "semtab s1 = (semtab s)(uint sem := (semtab s (uint sem))\<lparr>count := count (semtab s (uint sem)) + 1\<rparr>)"
      "\<forall>t. tstate (thrtab s t) \<noteq> THRWAIT \<longrightarrow> thrtab s1 t = thrtab s t"
    using signal_once_ok [OF kinvD(1) [OF k] i c] by blast
  show ?thesis
  proof (cases "count (semtab s (uint sem)) < 0")
    case True
    obtain R s' where r: "resched s1 = Some (OK, s')" "kinv (Q1(readylist s1 := R)) s'" "sched_frame s1 s'"
      using resched_ok [OF s1(2)] s1(4) kinvD(3) [OF k] by auto
    then have "signal sem s = Some (OK, s')" using b s1(1) True by (simp add: signal_def)
    then show ?thesis using r(2) sched_frameD(1,12) [OF r(3)] s1(5,6) by (intro exI conjI) auto
  next
    case False
    have "kinv Q1 s1" using s1 kinvD(2,3) [OF k] by (simp add: kinv_def)
    moreover have "signal sem s = Some (OK, s1)" using b s1(1) False by (simp add: signal_def)
    ultimately show ?thesis using s1(5,6) by blast
  qed
qed

lemma signal_wakes:
  assumes k: "kinv Q s" and b: "\<not> isbadsem s sem" and c: "count (semtab s (uint sem)) < 0"
  shows "\<exists>x xs R s'. Q (semqueue (semtab s (uint sem))) = x # xs \<and> tstate (thrtab s x) = THRWAIT \<and>
    signal sem s = Some (OK, s') \<and> kinv (Q(semqueue (semtab s (uint sem)) := xs, readylist s := R)) s' \<and>
    tstate (thrtab s' x) \<in> {THRREADY, THRCURR} \<and>
    semtab s' = (semtab s)(uint sem := (semtab s (uint sem))\<lparr>count := count (semtab s (uint sem)) + 1\<rparr>)"
proof -
  let ?q = "semqueue (semtab s (uint sem))"
  have i: "uint sem \<in> sids" and c': "count (semtab s (uint sem)) < INT_MAX" using b c by auto
  obtain x xs where x: "Q ?q = x # xs" "x \<in> tids" "tstate (thrtab s x) = THRWAIT"
    using sem_queue_head [OF kinvD(1) [OF k] i c] by blast
  have rq: "readylist s \<in> queues" using config_okD(1) [OF kinv0D(2) [OF kinvD(1) [OF k]]] .
  obtain s1 where s1: "signal_once sem s = Some (True, s1)" "kinv0 (released Q ?q s) s1"
      "semtab s1 = (semtab s)(uint sem := (semtab s (uint sem))\<lparr>count := count (semtab s (uint sem)) + 1\<rparr>)"
      "thrcurrent s1 = thrcurrent s" "resdefer s1 = resdefer s" "readylist s1 = readylist s"
      "\<forall>t. tstate (thrtab s t) \<noteq> THRWAIT \<longrightarrow> thrtab s1 t = thrtab s t"
    using signal_once_ok [OF kinvD(1) [OF k] i c'] c by auto
  have "x \<in> set (released Q ?q s (readylist s))" by (simp add: released_def x(1))
  then have "home s1 x = Some (readylist s1)" using inv_homesD [OF kinv0D(3) [OF s1(2)] rq] s1(6) by simp
  moreover have "config_ok s1" "inv_threads s1" using kinv0D(2,5) [OF s1(2)] by auto
  ultimately have rdy: "tstate (thrtab s1 x) = THRREADY"
    using config_okD(3,5) [of s1] x(2) by (auto simp: home_def inv_threads_def split: thrstate.splits)
  obtain R s' where r: "resched s1 = Some (OK, s')" "kinv ((released Q ?q s)(readylist s1 := R)) s'" "sched_frame s1 s'"
    using resched_ok [OF s1(2)] s1(5) kinvD(3) [OF k] by auto
  have "signal sem s = Some (OK, s')" using s1(1) b r(1) by (simp add: signal_def)
  moreover have "(released Q ?q s)(readylist s1 := R) = Q(?q := xs, readylist s := R)"
    by (simp add: released_def x(1) s1(6))
  ultimately show ?thesis
    using x(1,3) r(2) sched_frame_runnable [OF r(3)] rdy sched_frameD(1) [OF r(3)] s1(3)
    by (intro exI [of _ x] exI [of _ xs] exI [of _ R] exI [of _ s']) simp
qed

lemma signaln_loop_ok:
  assumes "kinv Q s" "uint sem \<in> sids" "count (semtab s (uint sem)) + int n \<le> INT_MAX"
  shows "\<exists>Q' s'. signaln_loop n sem s = Some s' \<and> kinv Q' s' \<and>
    semtab s' = (semtab s)(uint sem := (semtab s (uint sem))\<lparr>count := count (semtab s (uint sem)) + int n\<rparr>)"
  using assms
proof (induction n arbitrary: Q s)
  case 0
  then show ?case by auto
next
  case (Suc n)
  have c: "count (semtab s (uint sem)) < INT_MAX" using Suc.prems(3) by simp
  obtain Q' s1 where s1: "signal_once sem s = Some (count (semtab s (uint sem)) < 0, s1)" "kinv0 Q' s1"
      "semtab s1 = (semtab s)(uint sem := (semtab s (uint sem))\<lparr>count := count (semtab s (uint sem)) + 1\<rparr>)"
      "thrcurrent s1 = thrcurrent s" "resdefer s1 = resdefer s"
      "\<forall>t. tstate (thrtab s t) \<noteq> THRWAIT \<longrightarrow> thrtab s1 t = thrtab s t"
    using signal_once_ok [OF kinvD(1) [OF Suc.prems(1)] Suc.prems(2) c] by blast
  have k1: "kinv Q' s1" using s1 kinvD(2,3) [OF Suc.prems(1)] by (simp add: kinv_def)
  have "count (semtab s1 (uint sem)) + int n \<le> INT_MAX" using s1(3) Suc.prems(3) by simp
  then obtain Q'' s' where s': "signaln_loop n sem s1 = Some s'" "kinv Q'' s'"
      "semtab s' = (semtab s1)(uint sem := (semtab s1 (uint sem))\<lparr>count := count (semtab s1 (uint sem)) + int n\<rparr>)"
    using Suc.IH [OF k1 Suc.prems(2)] by blast
  have "signaln_loop (Suc n) sem s = Some s'" using s1(1) s'(1) by simp
  moreover have "semtab s' = (semtab s)(uint sem := (semtab s (uint sem))\<lparr>count := count (semtab s (uint sem)) + int (Suc n)\<rparr>)"
    using s'(3) s1(3) by (simp add: algebra_simps)
  ultimately show ?case using s'(2) by blast
qed

lemma signaln_inv:
  assumes k: "kinv Q s" and c: "count (semtab s (uint sem)) + cnt \<le> INT_MAX"
  shows "\<exists>Q' r s'. signaln sem cnt s = Some (r, s') \<and> kinv Q' s'"
proof (cases "isbadsem s sem \<or> cnt \<le> 0")
  case True
  then show ?thesis using k by (auto simp: signaln_def)
next
  case False
  then have i: "uint sem \<in> sids" by auto
  obtain Q' s1 where s1: "signaln_loop (nat cnt) sem s = Some s1" "kinv Q' s1"
    using signaln_loop_ok [OF k i, of "nat cnt"] c False by auto
  obtain R s' where "resched s1 = Some (OK, s')" "kinv R s'"
    using resched_ok [OF kinvD(1,3) [OF s1(2)]] by blast
  then have "signaln sem cnt s = Some (OK, s')" using s1(1) False by (simp add: signaln_def)
  then show ?thesis using \<open>kinv R s'\<close> by blast
qed

section \<open>Creating and freeing\<close>

lemma kinv0_semtab_state:
  assumes k: "kinv0 Q s" and i: "i \<in> sids" and c: "0 \<le> count (semtab s i)" "0 \<le> count e" "count e \<le> INT_MAX"
    and e: "semqueue e = semqueue (semtab s i)"
  shows "kinv0 Q (s\<lparr>nextsem := n, semtab := (semtab s)(i := e)\<rparr>)"
    (is "kinv0 Q ?s")
proof -
  note k' = kinv0D [OF k]
  have h: "home ?s = home s" using e by (simp add: home_def fun_eq_iff split: thrstate.split)
  have "inv_sems Q ?s" using k'(4) i c e by (auto simp: inv_sems_def)
  moreover have "config_ok ?s" using k'(2) config_ok_cong [of ?s s] e by simp
  ultimately show ?thesis
    using k' by (simp add: kinv0_def inv_homes_def inv_threads_def inv_ready_def inv_sleep_def h)
qed

lemma semcreate_ok:
  assumes k: "kinv Q s" and n: "nextsem s \<in> sids" and c: "0 \<le> cnt" "cnt \<le> INT_MAX"
  shows "if \<exists>i\<in>sids. semstate (semtab s i) = SFREE
    then \<exists>i s'. i \<in> sids \<and> semstate (semtab s i) = SFREE \<and> semcreate cnt s = Some (to_u32 i, s') \<and> kinv Q s' \<and>
      s' = s\<lparr>nextsem := i, semtab := (semtab s)(i := (semtab s i)\<lparr>semstate := SUSED, count := cnt\<rparr>)\<rparr>
    else semcreate cnt s = Some (SYSERR_u, s)"
proof (cases "\<exists>i\<in>sids. semstate (semtab s i) = SFREE")
  case True
  then obtain i where i: "i \<in> sids" "semstate (semtab s i) = SFREE"
      "sem_scan (nat NSEM) s = Some (Some i, s\<lparr>nextsem := i\<rparr>)"
    using sem_slots.scan_complete [of s] n by (auto split: if_splits)
  let ?s = "s\<lparr>nextsem := i, semtab := (semtab s)(i := (semtab s i)\<lparr>semstate := SUSED, count := cnt\<rparr>)\<rparr>"
  have u: "uint (to_u32 i) = i" using i(1) by (simp add: to_u32_def uint_word_of_int)
  then have "to_u32 i \<noteq> SYSERR_u" using i(1) by (auto simp: unsigned_minus_1_eq_mask mask_eq_exp_minus_1)
  then have "semcreate cnt s = Some (to_u32 i, ?s)"
    using c i u by (simp add: semcreate_def semalloc_def bounds_simps)
  moreover have "kinv Q ?s"
    using kinv0_semtab_state [OF kinvD(1) [OF k] i(1), of "(semtab s i)\<lparr>semstate := SUSED, count := cnt\<rparr>" i] c kinv0D(4) [OF kinvD(1) [OF k]] i kinvD(2,3) [OF k]
    by (simp add: kinv_def inv_sems_def)
  ultimately show ?thesis using True i by auto
next
  case False
  then have "sem_scan (nat NSEM) s = Some (None, s)"
    using sem_slots.scan_complete [of s] n by (auto split: if_splits)
  then show ?thesis using False c by (simp add: semcreate_def semalloc_def)
qed

text \<open>
  The loop of \<^verbatim>\<open>semfree\<close> does not count up, so the invariant holds of the state in which the
  count is minus the number of threads still queued.
\<close>

lemma semfree_loop_ok:
  assumes "kinv0 Q (recount i (- int (length (Q (semqueue (semtab s i))))) s)" "i \<in> sids"
  shows "\<exists>Q' qt tt. semfree_loop (semqueue (semtab s i)) s = Some (s\<lparr>quetab := qt, thrtab := tt\<rparr>) \<and>
    kinv0 Q' (recount i 0 (s\<lparr>quetab := qt, thrtab := tt\<rparr>)) \<and> Q' (semqueue (semtab s i)) = [] \<and>
    (\<forall>t. tt t = (if t \<in> set (Q (semqueue (semtab s i))) then (thrtab s t)\<lparr>tstate := THRREADY\<rparr> else thrtab s t))"
  using assms
proof (induction "Q (semqueue (semtab s i))" arbitrary: Q s)
  case Nil
  let ?q = "semqueue (semtab s i)"
  have "allq (quetab s) Q" "?q \<in> queues"
    using kinv0D(1) [OF Nil.prems(1)] config_okD(4) [OF kinv0D(2) [OF Nil.prems(1)] Nil.prems(2)] by simp_all
  then have "nonempty s ?q = Some False" using isempty_eq(2) Nil.hyps by force
  then have "semfree_loop ?q s = Some (s\<lparr>quetab := quetab s, thrtab := thrtab s\<rparr>)"
    by (subst semfree_loop.simps) simp
  then show ?case
    using Nil.prems(1) Nil.hyps by (intro exI [of _ Q] exI [of _ "quetab s"] exI [of _ "thrtab s"]) simp
next
  case (Cons x xs)
  let ?q = "semqueue (semtab s i)" and ?g = "recount i (- int (length (x # xs))) s"
  have g: "kinv0 Q ?g" using Cons.prems(1) Cons.hyps(2) by simp
  note k' = kinv0D [OF g] and cf = config_okD [OF kinv0D(2) [OF g]]
  have Qg: "Q (semqueue (semtab ?g i)) = x # xs" using Cons.hyps(2) by simp
  have "count (semtab ?g i) < 0" by simp
  then have x: "x \<in> tids" "tstate (thrtab s x) = THRWAIT"
    using sem_queue_head [OF g Cons.prems(2)] Qg by (metis list.inject kernel.select_convs(3) kernel.surjective kernel.update_convs(7))+
  have q: "allq (quetab s) Q" "readylist s \<in> queues" "?q \<in> queues" "?q \<noteq> readylist s"
    using k'(1) cf(1) cf(4,5) [OF Cons.prems(2)] by simp_all
  have r: "released Q ?q ?g = released Q ?q s" by (simp add: released_def split: list.split)
  obtain qt where qt: "release_waiter ?q s = Some (restate x THRREADY qt s)" "allq qt (released Q ?q s)"
      "\<forall>i. qkey (qt i) = (if i = x then prio (thrtab s x) else keys s i)"
    using release_waiter_code [OF q Cons.hyps(2) [symmetric]] x prio_bounds [OF k'(5) x(1)] by auto
  let ?s1 = "restate x THRREADY qt s"
  have Q1: "released Q ?q s ?q = xs" using q(4) unfolding released_def Cons.hyps(2) [symmetric] by simp
  have "kinv0 (released Q ?q ?g) (recount i (- int (length xs)) ?s1)"
  proof -
    have "allq qt (released Q (semqueue (semtab ?g i)) ?g)"
      "\<forall>i. qkey (qt i) = (if i = x then prio (thrtab ?g x) else keys ?g i)"
      using qt(2,3) r by simp_all
    then show ?thesis
      using kinv0_release [OF g Cons.prems(2) refl Qg _ _ refl] by simp
  qed
  then have "kinv0 (released Q ?q s) (recount i (- int (length (released Q ?q s (semqueue (semtab ?s1 i))))) ?s1)"
    using Q1 r by simp
  then obtain Q' qt' tt where IH: "semfree_loop ?q ?s1 = Some (s\<lparr>quetab := qt', thrtab := tt\<rparr>)"
      "kinv0 Q' (recount i 0 (s\<lparr>quetab := qt', thrtab := tt\<rparr>))" "Q' ?q = []"
      "\<forall>t. tt t = (if t \<in> set xs then (thrtab ?s1 t)\<lparr>tstate := THRREADY\<rparr> else thrtab ?s1 t)"
    using Cons.hyps(1) [of "released Q ?q s" ?s1] Q1 Cons.prems(2) by auto
  have "nonempty s ?q = Some True" using isempty_eq(2) [OF q(1,3)] Cons.hyps(2) by force
  then have "semfree_loop ?q s = Some (s\<lparr>quetab := qt', thrtab := tt\<rparr>)"
    using qt(1) IH(1) by (subst semfree_loop.simps) simp
  moreover have "\<forall>t. tt t = (if t \<in> set (Q ?q) then (thrtab s t)\<lparr>tstate := THRREADY\<rparr> else thrtab s t)"
    using IH(4) Cons.hyps(2) [symmetric] by auto
  ultimately show ?case using IH(2,3) by blast
qed

lemma semfree_ok:
  assumes k: "kinv Q s" and b: "\<not> isbadsem s sem"
  shows "\<exists>Q' qt tt s'. semfree sem s = Some (OK, s') \<and> kinv Q' s' \<and>
    s' = s\<lparr>quetab := qt, thrtab := tt,
      semtab := (semtab s)(uint sem := (semtab s (uint sem))\<lparr>count := 0, semstate := SFREE\<rparr>)\<rparr> \<and>
    (\<forall>t. tt t = (if t \<in> set (Q (semqueue (semtab s (uint sem)))) then (thrtab s t)\<lparr>tstate := THRREADY\<rparr> else thrtab s t))"
proof -
  let ?i = "uint sem" and ?q = "semqueue (semtab s (uint sem))"
  note k' = kinv0D [OF kinvD(1) [OF k]]
  have i: "?i \<in> sids" using b by auto
  have len: "int (length (Q ?q)) = max 0 (- count (semtab s ?i))" using k'(4) i by (simp add: inv_sems_def)
  have "kinv0 Q (recount ?i (- int (length (Q ?q))) s)"
  proof (cases "count (semtab s ?i) < 0")
    case True
    then have "- int (length (Q ?q)) = count (semtab s ?i)" using len by simp
    then show ?thesis using kinvD(1) [OF k] by simp
  next
    case False
    then show ?thesis using kinv0_recount [OF kinvD(1) [OF k] i, of 0] len by simp
  qed
  then obtain Q' qt tt where l: "semfree_loop ?q s = Some (s\<lparr>quetab := qt, thrtab := tt\<rparr>)"
      "kinv0 Q' (recount ?i 0 (s\<lparr>quetab := qt, thrtab := tt\<rparr>))"
      "\<forall>t. tt t = (if t \<in> set (Q ?q) then (thrtab s t)\<lparr>tstate := THRREADY\<rparr> else thrtab s t)"
    using semfree_loop_ok [OF _ i] by blast
  let ?s' = "s\<lparr>quetab := qt, thrtab := tt,
      semtab := (semtab s)(?i := (semtab s ?i)\<lparr>count := 0, semstate := SFREE\<rparr>)\<rparr>"
  have "semfree sem s = Some (OK, ?s')"
    using b i l(1) by (simp add: semfree_def bounds_simps)
  moreover have "thrcurrent s \<notin> set (Q ?q)"
    using home_None_notin [OF k'(3) kinvD(5) [OF k]] config_okD(4) [OF k'(2) i] by blast
  then have "kinv Q' ?s'"
    using kinv0_semtab_state [OF l(2) i, of "(semtab s ?i)\<lparr>count := 0, semstate := SFREE\<rparr>" "nextsem s"] l(3) kinvD(2,3) [OF k] by (simp add: kinv_def)
  ultimately show ?thesis using l(3) by blast
qed

lemma semfree_inv:
  assumes k: "kinv Q s"
  shows "\<exists>Q' r s'. semfree sem s = Some (r, s') \<and> kinv Q' s'"
proof (cases "isbadsem s sem")
  case True
  then show ?thesis using k by (auto simp: semfree_def)
next
  case False
  then show ?thesis using semfree_ok [OF k False] by blast
qed

end
