(* ===== verification/Heap.thy ===== *)
theory Heap
  imports Kernel_State
begin

text \<open>
  The kernel's heap: \<^verbatim>\<open>system/memget.c\<close>, \<^verbatim>\<open>memfree.c\<close>, \<^verbatim>\<open>stkget.c\<close> and the macros of
  \<^verbatim>\<open>include/memory.h\<close>.  Free memory is an address-ordered list of blocks threaded through the
  free memory itself.  A pointer \<^verbatim>\<open>prev\<close> to a list node is an \<open>option\<close>: \<open>None\<close> is
  \<^verbatim>\<open>&memlist\<close>.  A load or store outside the heap or off a word boundary is \<open>None\<close>.
\<close>

section \<open>Operations\<close>

definition roundmb :: "u32 \<Rightarrow> u32" where
  "roundmb x = (7 + x) AND NOT 7"

definition truncmb :: "u32 \<Rightarrow> u32" where
  "truncmb x = x AND NOT 7"

definition in_heap :: "heap \<Rightarrow> u32 \<Rightarrow> bool" where
  "in_heap h a \<longleftrightarrow> memheap h \<le> a \<and> unat a + 4 \<le> unat (maxaddr h) \<and> 4 dvd unat a"

definition ld :: "u32 \<Rightarrow> heap \<Rightarrow> u32 option" where
  "ld a h = (if in_heap h a then Some (mem h a) else None)"

definition st :: "u32 \<Rightarrow> u32 \<Rightarrow> heap \<Rightarrow> heap option" where
  "st a v h = (if in_heap h a then Some (h\<lparr>mem := (mem h)(a := v)\<rparr>) else None)"

definition set_next :: "u32 option \<Rightarrow> u32 \<Rightarrow> heap \<Rightarrow> heap option" where
  "set_next p v h = (case p of None \<Rightarrow> Some (h\<lparr>memlist_next := v\<rparr>) | Some a \<Rightarrow> st a v h)"

partial_function (option) memget_loop :: "u32 \<Rightarrow> u32 option \<Rightarrow> u32 \<Rightarrow> heap \<Rightarrow> (u32 \<times> heap) option" where
  "memget_loop nbytes prev cur h =
     (if cur = 0 then Some (SYSERR_u, h)
      else do {
        len \<leftarrow> ld (cur + 4) h;
        if len = nbytes
        then do {
          n \<leftarrow> ld cur h;
          h \<leftarrow> set_next prev n h;
          Some (cur, h\<lparr>memlist_length := memlist_length h - nbytes\<rparr>)
        }
        else if len > nbytes
        then do {
          let leftover = cur + nbytes;
          h \<leftarrow> set_next prev leftover h;
          n \<leftarrow> ld cur h;
          h \<leftarrow> st leftover n h;
          l \<leftarrow> ld (cur + 4) h;
          h \<leftarrow> st (leftover + 4) (l - nbytes) h;
          Some (cur, h\<lparr>memlist_length := memlist_length h - nbytes\<rparr>)
        }
        else do { n \<leftarrow> ld cur h; memget_loop nbytes (Some cur) n h }
      })"

definition memget :: "u32 \<Rightarrow> heap \<Rightarrow> (u32 \<times> heap) option" where
  "memget nbytes h =
     (if 0 = nbytes then Some (SYSERR_u, h)
      else memget_loop (roundmb nbytes) None (memlist_next h) h)"

text \<open>The scan of \<^verbatim>\<open>stkget\<close> returns \<^verbatim>\<open>fits\<close> and \<^verbatim>\<open>fitsprev\<close>; \<open>fits = 0\<close> is \<^verbatim>\<open>NULL\<close>.\<close>

partial_function (option) stkget_loop ::
    "u32 \<Rightarrow> u32 option \<Rightarrow> u32 \<Rightarrow> u32 \<Rightarrow> u32 option \<Rightarrow> heap \<Rightarrow> (u32 \<times> u32 option) option" where
  "stkget_loop nbytes prev next fits fitsprev h =
     (if next = 0 then Some (fits, fitsprev)
      else do {
        len \<leftarrow> ld (next + 4) h;
        n \<leftarrow> ld next h;
        if len \<ge> nbytes then stkget_loop nbytes (Some next) n next prev h
        else stkget_loop nbytes (Some next) n fits fitsprev h
      })"

definition stkget :: "u32 \<Rightarrow> heap \<Rightarrow> (u32 \<times> heap) option" where
  "stkget nbytes h =
     (if 0 = nbytes then Some (SYSERR_u, h)
      else do {
        let nbytes = roundmb nbytes;
        (fits, fitsprev) \<leftarrow> stkget_loop nbytes None (memlist_next h) 0 None h;
        if 0 = fits then Some (SYSERR_u, h)
        else do {
          len \<leftarrow> ld (fits + 4) h;
          (fits, h) \<leftarrow>
            (if nbytes = len
             then do { n \<leftarrow> ld fits h; h \<leftarrow> set_next fitsprev n h; Some (fits, h) }
             else do { h \<leftarrow> st (fits + 4) (len - nbytes) h; Some (fits + (len - nbytes), h) });
          Some (fits + nbytes - 4, h\<lparr>memlist_length := memlist_length h - nbytes\<rparr>)
        }
      })"

partial_function (option) memfree_loop :: "u32 \<Rightarrow> u32 option \<Rightarrow> u32 \<Rightarrow> heap \<Rightarrow> (u32 option \<times> u32) option" where
  "memfree_loop block prev next h =
     (if next \<noteq> 0 \<and> next < block then do { n \<leftarrow> ld next h; memfree_loop block (Some next) n h }
      else Some (prev, next))"

text \<open>The last part of \<^verbatim>\<open>memfree\<close>: merge the block with the next one if they are adjacent.\<close>

definition memfree_join :: "u32 \<Rightarrow> u32 \<Rightarrow> heap \<Rightarrow> (int \<times> heap) option" where
  "memfree_join block next h = do {
     bl \<leftarrow> ld (block + 4) h;
     if block + bl = next
     then do {
       nl \<leftarrow> ld (next + 4) h;
       h \<leftarrow> st (block + 4) (bl + nl) h;
       nn \<leftarrow> ld next h;
       h \<leftarrow> st block nn h;
       Some (OK, h)
     }
     else Some (OK, h)
   }"

text \<open>The part before it: extend the previous block if it ends where the freed one starts,
  else link a new block.\<close>

definition memfree_link :: "u32 option \<Rightarrow> u32 \<Rightarrow> u32 \<Rightarrow> u32 \<Rightarrow> u32 \<Rightarrow> heap \<Rightarrow> (u32 \<times> heap) option" where
  "memfree_link prev ptop block next nbytes h =
     (if ptop = block
      then (case prev of
              None \<Rightarrow> None
            | Some p \<Rightarrow> do { l \<leftarrow> ld (p + 4) h; h \<leftarrow> st (p + 4) (l + nbytes) h; Some (p, h) })
      else do {
        h \<leftarrow> st block next h;
        h \<leftarrow> st (block + 4) nbytes h;
        h \<leftarrow> set_next prev block h;
        Some (block, h)
      })"

definition memfree :: "u32 \<Rightarrow> u32 \<Rightarrow> heap \<Rightarrow> (int \<times> heap) option" where
  "memfree memptr nbytes h =
     (if 0 = nbytes \<or> memptr < memheap h \<or> memptr > maxaddr h then Some (SYSERR, h)
      else do {
        let block = memptr;
        let nbytes = roundmb nbytes;
        (prev, next) \<leftarrow> memfree_loop block None (memlist_next h) h;
        ptop \<leftarrow> (case prev of None \<Rightarrow> Some 0 | Some p \<Rightarrow> do { l \<leftarrow> ld (p + 4) h; Some (p + l) });
        if ptop > block \<or> (next \<noteq> 0 \<and> block + nbytes > next) then Some (SYSERR, h)
        else do {
          let h = h\<lparr>memlist_length := memlist_length h + nbytes\<rparr>;
          (block, h) \<leftarrow> memfree_link prev ptop block next nbytes h;
          memfree_join block next h
        }
      })"

definition stkfree :: "u32 \<Rightarrow> u32 \<Rightarrow> heap \<Rightarrow> (int \<times> heap) option" where
  "stkfree p len h = memfree (p - roundmb len + 4) (roundmb len) h"

section \<open>The free list\<close>

text \<open>
  A heap represents a list of free blocks (address, length), in increasing address order with a
  gap between neighbours: adjacent blocks are always merged.
\<close>

fun lseg :: "heap \<Rightarrow> u32 \<Rightarrow> (nat \<times> nat) list \<Rightarrow> u32 \<Rightarrow> bool" where
  "lseg h p [] q \<longleftrightarrow> p = q"
| "lseg h p ((a, l) # fs) q \<longleftrightarrow> unat p = a \<and> unat (mem h (p + 4)) = l \<and> lseg h (mem h p) fs q"

abbreviation (input) links :: "heap \<Rightarrow> u32 \<Rightarrow> (nat \<times> nat) list \<Rightarrow> bool" where
  "links h p fs \<equiv> lseg h p fs 0"

fun blocks :: "nat \<Rightarrow> nat \<Rightarrow> (nat \<times> nat) list \<Rightarrow> bool" where
  "blocks lo hi [] \<longleftrightarrow> True"
| "blocks lo hi ((a, l) # fs) \<longleftrightarrow>
     lo \<le> a \<and> 8 \<le> l \<and> 8 dvd a \<and> 8 dvd l \<and> a + l \<le> hi \<and> blocks (a + l + 1) hi fs"

definition bytes :: "(nat \<times> nat) list \<Rightarrow> nat set" where
  "bytes fs = (\<Union>(a, l)\<in>set fs. {a..<a + l})"

definition heap_ok :: "heap \<Rightarrow> (nat \<times> nat) list \<Rightarrow> bool" where
  "heap_ok h fs \<longleftrightarrow> links h (memlist_next h) fs \<and> blocks (unat (memheap h)) (unat (maxaddr h)) fs \<and>
     0 < memheap h \<and> unat (memlist_length h) = (\<Sum>(a, l)\<leftarrow>fs. l)"

text \<open>First fit, and last fit taken from the top, on the list.\<close>

fun first_fit :: "nat \<Rightarrow> (nat \<times> nat) list \<Rightarrow> (nat \<times> (nat \<times> nat) list) option" where
  "first_fit n [] = None"
| "first_fit n ((a, l) # fs) =
     (if l = n then Some (a, fs)
      else if n < l then Some (a, (a + n, l - n) # fs)
      else map_option (\<lambda>(b, gs). (b, (a, l) # gs)) (first_fit n fs))"

fun last_fit :: "nat \<Rightarrow> (nat \<times> nat) list \<Rightarrow> (nat \<times> (nat \<times> nat) list) option" where
  "last_fit n [] = None"
| "last_fit n ((a, l) # fs) =
     (case last_fit n fs of
        Some (b, gs) \<Rightarrow> Some (b, (a, l) # gs)
      | None \<Rightarrow> if l = n then Some (a, fs)
                else if n < l then Some (a + (l - n), (a, l - n) # fs) else None)"

text \<open>Putting a block back: join it with the block above it, and with the one below.\<close>

fun join_next :: "nat \<Rightarrow> nat \<Rightarrow> (nat \<times> nat) list \<Rightarrow> (nat \<times> nat) list" where
  "join_next b n [] = [(b, n)]"
| "join_next b n ((c, m) # fs) = (if b + n = c then (b, n + m) # fs else (b, n) # (c, m) # fs)"

fun put_block :: "nat \<Rightarrow> nat \<Rightarrow> (nat \<times> nat) list \<Rightarrow> (nat \<times> nat) list" where
  "put_block b n [] = [(b, n)]"
| "put_block b n ((a, l) # fs) =
     (if a < b then (if a + l = b then join_next a (l + n) fs else (a, l) # put_block b n fs)
      else join_next b n ((a, l) # fs))"

section \<open>Rounding\<close>

lemma unat_truncmb: "unat (truncmb x) = unat x div 8 * 8"
proof -
  have "(7::u32) = mask 3" by (simp add: mask_eq_exp_minus_1)
  have "truncmb x = push_bit 3 (drop_bit 3 x)"
    unfolding truncmb_def \<open>7 = mask 3\<close> by (intro bit_word_eqI) (auto simp: bit_simps bit_mask_iff)
  moreover have "unat (push_bit 3 (drop_bit 3 x)) = unat x div 8 * 8 mod 2 ^ 32"
    by (simp add: push_bit_eq_mult drop_bit_eq_div unat_div unat_word_ariths)
  moreover have "unat x div 8 * 8 < 2 ^ 32"
    using unsigned_less [of x, where ?'a = nat] div_times_less_eq_dividend [of "unat x" 8] by (simp del: div_times_less_eq_dividend)
  ultimately show ?thesis by simp
qed

lemma roundmb_truncmb: "roundmb x = truncmb (7 + x)"
  by (simp add: roundmb_def truncmb_def)

lemma unat_roundmb:
  assumes "unat x \<le> 4294967288"
  shows "unat (roundmb x) = (unat x + 7) div 8 * 8"
proof -
  have "unat (7 + x) = 7 + unat x" using assms by (simp add: unat_word_ariths)
  then show ?thesis by (simp add: roundmb_truncmb unat_truncmb add.commute)
qed

lemma roundmb_dvd: "8 dvd unat (roundmb x)"
  by (simp add: roundmb_truncmb unat_truncmb)

lemma roundmb_ge:
  assumes "unat x \<le> 4294967288"
  shows "unat x \<le> unat (roundmb x)" "unat (roundmb x) < unat x + 8"
  using unat_roundmb [OF assms] by presburger+

lemma roundmb_pos:
  assumes "0 < x" "unat x \<le> 4294967288"
  shows "8 \<le> unat (roundmb x)"
proof -
  have "0 < unat (roundmb x)" using roundmb_ge(1) [OF assms(2)] assms(1) by (simp add: word_less_nat_alt)
  then show ?thesis using roundmb_dvd [of x] by (auto dest: dvd_imp_le)
qed

lemma roundmb_id: "8 dvd unat x \<Longrightarrow> roundmb x = x"
proof -
  assume d: "8 dvd unat x"
  have "unat x < 4294967296" using unsigned_less [of x, where ?'a = nat] by simp
  then have "unat x \<le> 4294967288" using d by presburger
  then have "unat (roundmb x) = unat x" using roundmb_ge [of x] roundmb_dvd [of x] d by presburger
  then show "roundmb x = x" by (simp add: word_unat_eq_iff)
qed

section \<open>Blocks\<close>

lemma in_heap_update [simp]:
  "in_heap (h\<lparr>mem := m\<rparr>) = in_heap h" "in_heap (h\<lparr>memlist_next := n\<rparr>) = in_heap h"
  "in_heap (h\<lparr>memlist_length := l\<rparr>) = in_heap h"
  by (simp_all add: in_heap_def fun_eq_iff)

lemma bytes_simps [simp]: "bytes [] = {}" "bytes ((a, l) # fs) = {a..<a + l} \<union> bytes fs"
  by (auto simp: bytes_def)

lemma bytesI: "(a, l) \<in> set fs \<Longrightarrow> a \<le> x \<Longrightarrow> x < a + l \<Longrightarrow> x \<in> bytes fs"
  unfolding bytes_def by (rule UN_I [of "(a, l)"]) simp_all

lemma blocks_mono: "blocks lo hi fs \<Longrightarrow> lo' \<le> lo \<Longrightarrow> blocks lo' hi fs"
  by (cases fs) auto

lemma blocks_bytes: "blocks lo hi fs \<Longrightarrow> x \<in> bytes fs \<Longrightarrow> lo \<le> x \<and> x < hi"
  by (induction lo hi fs rule: blocks.induct) fastforce+

lemma unat_plus4: "unat (p::u32) + 4 < 4294967296 \<Longrightarrow> unat (p + 4) = unat p + 4"
  by (simp add: unat_word_ariths)

lemma hi_bound: "unat (maxaddr h) < 4294967296"
  using unsigned_less [of "maxaddr h", where ?'a = nat] by simp

text \<open>The two fields of a block's header can be accessed, and lie in the block.\<close>

lemma block_access:
  assumes "unat p = a" "unat (memheap h) \<le> a" "8 dvd a" "8 \<le> l" "a + l \<le> unat (maxaddr h)" "0 < memheap h"
  shows "p \<noteq> 0" "unat (p + 4) = a + 4" "p + 4 \<noteq> p" "in_heap h p" "in_heap h (p + 4)"
proof -
  have u: "unat (p + 4) = a + 4" using assms(1,4,5) hi_bound [of h] unat_plus4 [of p] by simp
  have d: "4 dvd a" using assms(3) by (rule dvd_trans [rotated]) simp
  show "p \<noteq> 0" using assms(1,2,6) by (auto simp: word_less_nat_alt)
  show "unat (p + 4) = a + 4" by (rule u)
  show "p + 4 \<noteq> p" by simp
  show "in_heap h p" "in_heap h (p + 4)"
    using assms u d by (auto simp: in_heap_def word_le_nat_alt)
qed

lemma lseg_length [simp]: "lseg (h\<lparr>memlist_length := m\<rparr>) p fs q = lseg h p fs q"
  by (induction fs arbitrary: p) auto

lemma lseg_append: "lseg h p (fs @ gs) q \<longleftrightarrow> (\<exists>r. lseg h p fs r \<and> lseg h r gs q)"
  by (induction fs arbitrary: p) auto

lemma lseg_frame:
  assumes "lseg h p fs q" "\<forall>(a, l)\<in>set fs. 8 \<le> l \<and> a + l < 4294967296"
    "\<forall>x. unat x \<in> bytes fs \<longrightarrow> mem h' x = mem h x"
  shows "lseg h' p fs q"
  using assms
proof (induction h p fs q rule: lseg.induct)
  case (2 h p a l fs q)
  have p: "unat p = a" "8 \<le> l" "a + l < 4294967296" using "2.prems" by auto
  then have u: "unat (p + 4) = a + 4" using unat_plus4 [of p] by simp
  have "mem h' p = mem h p" "mem h' (p + 4) = mem h (p + 4)"
    using "2.prems"(3) p u by auto
  moreover have "lseg h' (mem h p) fs q" using 2 by auto
  ultimately show ?case using "2.prems"(1) by auto
qed simp

lemma blocks_sized: "blocks lo hi fs \<Longrightarrow> hi < 4294967296 \<Longrightarrow> \<forall>(a, l)\<in>set fs. 8 \<le> l \<and> a + l < 4294967296"
  by (induction lo hi fs rule: blocks.induct) auto

lemma links_frame:
  assumes "links h p fs" "blocks lo hi fs" "hi < 4294967296" "\<forall>x. unat x \<in> bytes fs \<longrightarrow> mem h' x = mem h x"
  shows "links h' p fs"
  by (rule lseg_frame [OF assms(1) blocks_sized [OF assms(2,3)] assms(4)])

lemma heap_ok_frame:
  assumes "heap_ok h fs" "\<forall>x. unat x \<in> bytes fs \<longrightarrow> m x = mem h x"
  shows "heap_ok (h\<lparr>mem := m\<rparr>) fs"
proof -
  have "links (h\<lparr>mem := m\<rparr>) (memlist_next h) fs"
    by (rule links_frame [where h = h and lo = "unat (memheap h)" and hi = "unat (maxaddr h)"])
      (use assms hi_bound [of h] in \<open>auto simp: heap_ok_def\<close>)
  then show ?thesis using assms(1) by (simp add: heap_ok_def)
qed

section \<open>Allocation\<close>

definition next_of :: "u32 option \<Rightarrow> heap \<Rightarrow> u32" where
  "next_of p h = (case p of None \<Rightarrow> memlist_next h | Some a \<Rightarrow> mem h a)"

text \<open>The list pointer \<open>p\<close> is \<^verbatim>\<open>&memlist\<close> or a block header below address \<open>lo\<close>.\<close>

definition prev_ok :: "heap \<Rightarrow> nat \<Rightarrow> u32 option \<Rightarrow> bool" where
  "prev_ok h lo p \<longleftrightarrow> (case p of None \<Rightarrow> True | Some a \<Rightarrow> in_heap h a \<and> unat a < lo)"

lemma prev_ok_neq: "prev_ok h lo p \<Longrightarrow> lo \<le> unat x \<Longrightarrow> p \<noteq> Some x"
  by (auto simp: prev_ok_def)

definition same_layout :: "heap \<Rightarrow> heap \<Rightarrow> bool" where
  "same_layout h h' \<longleftrightarrow> memheap h' = memheap h \<and> maxaddr h' = maxaddr h"

lemma set_next_ok:
  assumes "prev_ok h lo p"
  shows "\<exists>h'. set_next p v h = Some h' \<and> next_of p h' = v \<and> same_layout h h' \<and> memlist_length h' = memlist_length h \<and>
    (\<forall>x. p \<noteq> Some x \<longrightarrow> mem h' x = mem h x) \<and> (p \<noteq> None \<longrightarrow> memlist_next h' = memlist_next h)"
  using assms by (auto simp: prev_ok_def set_next_def st_def next_of_def same_layout_def split: option.splits)

text \<open>What the search for a block achieves, started behind the pointer \<open>prev\<close>.\<close>

definition took :: "u32 option \<Rightarrow> nat set \<Rightarrow> u32 \<Rightarrow> (nat \<times> nat) list \<Rightarrow> heap \<Rightarrow> heap \<Rightarrow> bool" where
  "took prev B n gs h h' \<longleftrightarrow> links h' (next_of prev h') gs \<and> same_layout h h' \<and>
     memlist_length h' = memlist_length h - n \<and> (prev \<noteq> None \<longrightarrow> memlist_next h' = memlist_next h) \<and>
     (\<forall>x. unat x \<notin> B \<longrightarrow> prev \<noteq> Some x \<longrightarrow> mem h' x = mem h x)"

lemma memget_exact:
  assumes l: "links h p ((a, l) # fs)" and b: "blocks lo (unat (maxaddr h)) ((a, l) # fs)"
    and lo: "unat (memheap h) \<le> lo" "0 < memheap h" and pv: "prev_ok h lo prev" and n: "unat n = l"
  shows "\<exists>h'. memget_loop n prev p h = Some (p, h') \<and> took prev (bytes ((a, l) # fs)) n fs h h'"
proof -
  have p: "unat p = a" "unat (mem h (p + 4)) = l" "links h (mem h p) fs" using l by auto
  have ac: "p \<noteq> 0" "in_heap h p" "in_heap h (p + 4)"
    using block_access [of p a h l] p b lo by auto
  obtain h' where h': "set_next prev (mem h p) h = Some h'" "next_of prev h' = mem h p" "same_layout h h'"
      "memlist_length h' = memlist_length h" "\<forall>x. prev \<noteq> Some x \<longrightarrow> mem h' x = mem h x"
      "prev \<noteq> None \<longrightarrow> memlist_next h' = memlist_next h"
    using set_next_ok [OF pv] by blast
  let ?h = "h'\<lparr>memlist_length := memlist_length h' - n\<rparr>"
  have "mem h (p + 4) = n" using p(2) n by (simp add: word_unat_eq_iff)
  then have "memget_loop n prev p h = Some (p, ?h)"
    using ac h'(1) by (subst memget_loop.simps) (simp add: ld_def)
  moreover have "links ?h (next_of prev ?h) fs"
  proof -
    have "mem ?h x = mem h x" if "unat x \<in> bytes fs" for x
    proof -
      have "blocks (a + l + 1) (unat (maxaddr h)) fs" using b by simp
      then have "lo < unat x" using blocks_bytes that b by fastforce
      then show ?thesis using h'(5) prev_ok_neq [OF pv, of x] by simp
    qed
    moreover have "next_of prev ?h = mem h p" using h'(2) by (simp add: next_of_def split: option.splits)
    ultimately show ?thesis using links_frame [OF p(3), of "a + l + 1" "unat (maxaddr h)" ?h] b hi_bound [of h] by simp
  qed
  ultimately show ?thesis using h' by (auto simp: took_def same_layout_def)
qed

lemma memget_split:
  assumes l: "links h p ((a, l) # fs)" and b: "blocks lo (unat (maxaddr h)) ((a, l) # fs)"
    and lo: "unat (memheap h) \<le> lo" "0 < memheap h" and pv: "prev_ok h lo prev"
    and n: "unat n < l" "8 dvd unat n" "8 \<le> unat n"
  shows "\<exists>h'. memget_loop n prev p h = Some (p, h') \<and>
    took prev (bytes ((a, l) # fs)) n ((a + unat n, l - unat n) # fs) h h'"
proof -
  have p: "unat p = a" "unat (mem h (p + 4)) = l" "links h (mem h p) fs" using l by auto
  have al: "a + l \<le> unat (maxaddr h)" "lo \<le> a" "8 dvd a" "8 dvd l" using b by auto
  have ac: "p \<noteq> 0" "in_heap h p" "in_heap h (p + 4)" "unat (p + 4) = a + 4"
    using block_access [of p a h l] p b lo by auto
  let ?q = "p + n"
  have uq: "unat ?q = a + unat n" using p(1) n al hi_bound [of h] by (simp add: unat_word_ariths)
  have l8: "8 \<le> l - unat n" using n al(4) by presburger
  have aq: "in_heap h ?q" "in_heap h (?q + 4)" "unat (?q + 4) = a + unat n + 4"
    using block_access [of ?q "a + unat n" h "l - unat n"] uq l8 al lo n by auto
  have ne: "?q \<noteq> p" "?q \<noteq> p + 4" "?q + 4 \<noteq> p" "?q + 4 \<noteq> p + 4" "?q + 4 \<noteq> ?q"
    by (rule notI, drule arg_cong [where f = unat], use uq aq(3) ac(4) p(1) n in linarith)+
  obtain h1 where h1: "set_next prev ?q h = Some h1" "next_of prev h1 = ?q" "same_layout h h1"
      "memlist_length h1 = memlist_length h" "\<forall>x. prev \<noteq> Some x \<longrightarrow> mem h1 x = mem h x"
      "prev \<noteq> None \<longrightarrow> memlist_next h1 = memlist_next h"
    using set_next_ok [OF pv] by blast
  have ge: "prev \<noteq> Some x" if "a \<le> unat x" for x using prev_ok_neq [OF pv, of x] that al(2) by simp
  have eq1: "mem h1 p = mem h p" "mem h1 (p + 4) = mem h (p + 4)"
    using h1(5) ge [of p] ge [of "p + 4"] ac(4) p(1) by auto
  have ih: "in_heap h1 x = in_heap h x" for x using h1(3) by (simp add: in_heap_def same_layout_def)
  let ?h = "h1\<lparr>mem := (mem h1)(?q := mem h p, ?q + 4 := mem h (p + 4) - n), memlist_length := memlist_length h - n\<rparr>"
  have len: "mem h (p + 4) \<noteq> n" "n < mem h (p + 4)" using p(2) n by (auto simp: word_less_nat_alt)
  have run: "memget_loop n prev p h = Some (p, ?h)"
    using ac aq h1(1,4) len ih eq1 ne
    by (subst memget_loop.simps) (simp add: ld_def st_def Let_def)
  have nx: "next_of prev ?h = ?q"
    using h1(2) ge [of ?q] ge [of "?q + 4"] uq aq(3) by (auto simp: next_of_def split: option.splits)
  have out: "mem ?h x = mem h x" if "x \<noteq> ?q" "x \<noteq> ?q + 4" "prev \<noteq> Some x" for x
    using h1(5) that by simp
  have "mem ?h x = mem h x" if "unat x \<in> bytes fs" for x
  proof -
    have "blocks (a + l + 1) (unat (maxaddr h)) fs" using b by simp
    then have "a + l < unat x" using blocks_bytes that by fastforce
    then show ?thesis using out [of x] ge [of x] uq aq(3) n l8 by auto
  qed
  then have "links ?h (mem h p) fs"
    using links_frame [OF p(3), of "a + l + 1" "unat (maxaddr h)" ?h] b hi_bound [of h] by simp
  moreover have "unat (mem h (p + 4) - n) = l - unat n"
    using p(2) n by (simp add: unat_sub word_le_nat_alt)
  ultimately have "links ?h (next_of prev ?h) ((a + unat n, l - unat n) # fs)"
    using nx uq ne by simp
  moreover have "mem ?h x = mem h x" if "unat x \<notin> bytes ((a, l) # fs)" "prev \<noteq> Some x" for x
    using out [of x] that uq aq(3) n l8 by auto
  ultimately have "took prev (bytes ((a, l) # fs)) n ((a + unat n, l - unat n) # fs) h ?h"
    using h1(3,6) by (simp add: took_def same_layout_def)
  with run show ?thesis by blast
qed

text \<open>\<^verbatim>\<open>memget\<close> is first fit on the free list.\<close>

lemma memget_loop_ok:
  assumes "links h p fs" "blocks lo (unat (maxaddr h)) fs" "unat (memheap h) \<le> lo" "0 < memheap h"
    "prev_ok h lo prev" "next_of prev h = p" "8 dvd unat n" "8 \<le> unat n"
  shows "case first_fit (unat n) fs of
      None \<Rightarrow> memget_loop n prev p h = Some (SYSERR_u, h)
    | Some (a, gs) \<Rightarrow> \<exists>h' r. memget_loop n prev p h = Some (r, h') \<and> unat r = a \<and> took prev (bytes fs) n gs h h'"
  using assms
proof (induction fs arbitrary: p lo prev)
  case Nil
  then show ?case by (simp add: memget_loop.simps)
next
  case (Cons x fs)
  obtain a l where x: "x = (a, l)" by fastforce
  note pr = Cons.prems [unfolded x]
  have up: "unat p = a" using pr(1) by simp
  consider "l = unat n" | "unat n < l" | "l < unat n" by linarith
  then show ?case
  proof cases
    case 1
    then show ?thesis using memget_exact [OF pr(1-5)] up x by fastforce
  next
    case 2
    then show ?thesis using memget_split [OF pr(1-5) 2 pr(7,8)] up x by fastforce
  next
    case 3
    have al: "lo \<le> a" "8 \<le> l" "8 dvd a" "a + l \<le> unat (maxaddr h)" "blocks (a + l + 1) (unat (maxaddr h)) fs"
      using pr(2) by auto
    have p: "links h (mem h p) fs" "unat (mem h (p + 4)) = l" using pr(1) by auto
    have ac: "p \<noteq> 0" "unat (p + 4) = a + 4" "in_heap h p" "in_heap h (p + 4)"
      using block_access [of p a h l] up al pr(3,4) by auto
    have run: "memget_loop n prev p h = memget_loop n (Some p) (mem h p) h"
      using ac 3 p(2) by (subst memget_loop.simps) (auto simp: ld_def word_less_nat_alt)
    have lo': "unat (memheap h) \<le> a + l + 1" "prev_ok h (a + l + 1) (Some p)" "next_of (Some p) h = mem h p"
      using al(1) pr(3) ac(3) up by (auto simp: prev_ok_def next_of_def)
    note IH = Cons.IH [OF p(1) al(5) lo'(1) pr(4) lo'(2,3) pr(7,8)]
    show ?thesis
    proof (cases "first_fit (unat n) fs")
      case None
      then show ?thesis using IH run 3 x by simp
    next
      case (Some bg)
      obtain b gs where bg: "bg = (b, gs)" by fastforce
      obtain h' r where h': "memget_loop n (Some p) (mem h p) h = Some (r, h')" "unat r = b"
          "took (Some p) (bytes fs) n gs h h'"
        using IH Some bg by auto
      have lk: "links h' (mem h' p) gs" "memlist_next h' = memlist_next h" "same_layout h h'"
          "memlist_length h' = memlist_length h - n"
        and fr: "\<And>y. unat y \<notin> bytes fs \<Longrightarrow> y \<noteq> p \<Longrightarrow> mem h' y = mem h y"
        using h'(3) by (auto simp: took_def next_of_def)
      have low: "unat y \<notin> bytes fs" if "unat y \<le> a + l" for y
        using blocks_bytes [OF al(5)] that by fastforce
      have "mem h' (p + 4) = mem h (p + 4)" using fr [of "p + 4"] low [of "p + 4"] ac(2) al(2) by auto
      moreover have "next_of prev h' = p"
      proof (cases prev)
        case None
        then show ?thesis using lk(2) pr(6) by (simp add: next_of_def)
      next
        case (Some q)
        then have "unat q < a" using pr(5) al(1) by (simp add: prev_ok_def)
        then have "mem h' q = mem h q" using fr [of q] low [of q] up by auto
        then show ?thesis using Some pr(6) by (simp add: next_of_def)
      qed
      ultimately have "links h' (next_of prev h') ((a, l) # gs)" using lk(1) up p(2) by simp
      moreover have "mem h' y = mem h y" if "unat y \<notin> bytes (x # fs)" for y
        using fr [of y] that x up al(2) by (cases "y = p") auto
      ultimately have "took prev (bytes (x # fs)) n ((a, l) # gs) h h'"
        using lk by (simp add: took_def)
      then show ?thesis using Some bg x 3 run h'(1,2) by auto
    qed
  qed
qed

lemma blocks_first_fit:
  assumes "blocks lo hi fs" "first_fit n fs = Some (a, gs)" "8 dvd n" "8 \<le> n"
  shows "blocks lo hi gs" "lo \<le> a" "a + n \<le> hi" "8 dvd a" "{a..<a + n} \<subseteq> bytes fs" "bytes gs = bytes fs - {a..<a + n}"
    "(\<Sum>(a, l)\<leftarrow>gs. l) + n = (\<Sum>(a, l)\<leftarrow>fs. l)"
proof -
  have "blocks lo hi gs \<and> lo \<le> a \<and> a + n \<le> hi \<and> 8 dvd a \<and> {a..<a + n} \<subseteq> bytes fs \<and> bytes gs = bytes fs - {a..<a + n} \<and>
    (\<Sum>(a, l)\<leftarrow>gs. l) + n = (\<Sum>(a, l)\<leftarrow>fs. l)"
    using assms
  proof (induction fs arbitrary: lo gs)
    case (Cons x fs)
    obtain b l where x: "x = (b, l)" by fastforce
    have bl: "lo \<le> b" "8 \<le> l" "8 dvd b" "8 dvd l" "b + l \<le> hi" "blocks (b + l + 1) hi fs"
      using Cons.prems(1) x by auto
    have disj: "bytes fs \<inter> {b..<b + l} = {}" using blocks_bytes [OF bl(6)] by fastforce
    consider "l = n" | "n < l" | "l < n" by linarith
    then show ?case
    proof cases
      case 1
      then have "a = b" "gs = fs" using Cons.prems(2) x by auto
      then show ?thesis using 1 bl x disj blocks_mono [OF bl(6), of lo] by auto
    next
      case 2
      then have "a = b" "gs = (b + n, l - n) # fs" using Cons.prems(2) x by auto
      moreover have "8 \<le> l - n" "8 dvd l - n" using 2 bl(4) Cons.prems(3) by presburger+
      ultimately show ?thesis using 2 bl x disj Cons.prems(3) by auto
    next
      case 3
      then obtain gs' where g: "first_fit n fs = Some (a, gs')" "gs = (b, l) # gs'" using Cons.prems(2) x by auto
      have IH: "blocks (b + l + 1) hi gs'" "b + l + 1 \<le> a" "a + n \<le> hi" "8 dvd a" "{a..<a + n} \<subseteq> bytes fs"
          "bytes gs' = bytes fs - {a..<a + n}" "(\<Sum>(a, l)\<leftarrow>gs'. l) + n = (\<Sum>(a, l)\<leftarrow>fs. l)"
        using Cons.IH [OF bl(6) g(1) Cons.prems(3,4)] by auto
      have "{b..<b + l} \<inter> {a..<a + n} = {}" using IH(2) by auto
      then show ?thesis using IH g(2) bl x by auto
    qed
  qed simp
  then show "blocks lo hi gs" "lo \<le> a" "a + n \<le> hi" "8 dvd a" "{a..<a + n} \<subseteq> bytes fs"
    "bytes gs = bytes fs - {a..<a + n}" "(\<Sum>(a, l)\<leftarrow>gs. l) + n = (\<Sum>(a, l)\<leftarrow>fs. l)" by blast+
qed

lemma memget_ok:
  assumes k: "heap_ok h fs" and n: "0 < nbytes" "unat nbytes \<le> 4294967288"
  shows "case first_fit (unat (roundmb nbytes)) fs of
      None \<Rightarrow> memget nbytes h = Some (SYSERR_u, h)
    | Some (a, gs) \<Rightarrow> \<exists>h' r. memget nbytes h = Some (r, h') \<and> unat r = a \<and> heap_ok h' gs \<and> same_layout h h' \<and>
        (\<forall>x. unat x \<notin> bytes fs \<longrightarrow> mem h' x = mem h x)"
proof -
  let ?n = "roundmb nbytes"
  have k': "links h (memlist_next h) fs" "blocks (unat (memheap h)) (unat (maxaddr h)) fs" "0 < memheap h"
      "unat (memlist_length h) = (\<Sum>(a, l)\<leftarrow>fs. l)"
    using k by (auto simp: heap_ok_def)
  have n': "8 dvd unat ?n" "8 \<le> unat ?n" using roundmb_dvd roundmb_pos [OF n] by auto
  have run: "memget nbytes h = memget_loop ?n None (memlist_next h) h" using n(1) by (auto simp: memget_def)
  have c: "case first_fit (unat ?n) fs of
      None \<Rightarrow> memget_loop ?n None (memlist_next h) h = Some (SYSERR_u, h)
    | Some (a, gs) \<Rightarrow> \<exists>h' r. memget_loop ?n None (memlist_next h) h = Some (r, h') \<and> unat r = a \<and> took None (bytes fs) ?n gs h h'"
    by (rule memget_loop_ok [OF k'(1,2) order_refl k'(3) _ _ n']) (auto simp: prev_ok_def next_of_def)
  show ?thesis
  proof (cases "first_fit (unat ?n) fs")
    case None
    then show ?thesis using c run by simp
  next
    case (Some ag)
    obtain a gs where ag: "ag = (a, gs)" by fastforce
    obtain h' r where h': "memget_loop ?n None (memlist_next h) h = Some (r, h')" "unat r = a" "took None (bytes fs) ?n gs h h'"
      using c Some ag by auto
    note ff = blocks_first_fit [OF k'(2) _ n', of a gs]
    have s: "(\<Sum>(a, l)\<leftarrow>gs. l) + unat ?n = (\<Sum>(a, l)\<leftarrow>fs. l)" using ff(7) Some ag by blast
    then have "?n \<le> memlist_length h" using k'(4) by (simp add: word_le_nat_alt)
    then have "unat (memlist_length h - ?n) = (\<Sum>(a, l)\<leftarrow>gs. l)"
      using s k'(4) by (simp add: unat_sub)
    then have "heap_ok h' gs"
      using h'(3) ff(1) k'(3) Some ag by (auto simp: heap_ok_def took_def next_of_def same_layout_def)
    then show ?thesis using Some ag run h' by (auto simp: took_def)
  qed
qed

section \<open>Freeing\<close>

lemma memfree_loop_ok:
  assumes "links h p fs" "blocks lo (unat (maxaddr h)) fs" "unat (memheap h) \<le> lo" "0 < memheap h"
  shows "\<exists>q. memfree_loop b prev p h =
      Some (if takeWhile (\<lambda>(a, l). a < unat b) fs = [] then prev
            else Some (of_nat (fst (last (takeWhile (\<lambda>(a, l). a < unat b) fs)))), q) \<and>
    lseg h p (takeWhile (\<lambda>(a, l). a < unat b) fs) q \<and> links h q (dropWhile (\<lambda>(a, l). a < unat b) fs)"
  using assms
proof (induction fs arbitrary: p lo prev)
  case Nil
  then show ?case by (simp add: memfree_loop.simps)
next
  case (Cons x fs)
  obtain a l where x: "x = (a, l)" by fastforce
  have p: "unat p = a" "unat (mem h (p + 4)) = l" "links h (mem h p) fs" using Cons.prems(1) x by auto
  have ac: "p \<noteq> 0" "in_heap h p" "blocks (a + l + 1) (unat (maxaddr h)) fs" "unat (memheap h) \<le> a + l + 1"
    using block_access [of p a h l] p Cons.prems x by auto
  show ?case
  proof (cases "a < unat b")
    case True
    then have "memfree_loop b prev p h = memfree_loop b (Some p) (mem h p) h"
      using ac p(1) by (subst memfree_loop.simps) (simp add: ld_def word_less_nat_alt)
    moreover have "of_nat a = p" using p(1) by auto
    ultimately show ?thesis
      using Cons.IH [OF p(3) ac(3,4) Cons.prems(4), of "Some p"] True x p by auto
  next
    case False
    then have "memfree_loop b prev p h = Some (prev, p)"
      using p(1) by (subst memfree_loop.simps) (simp add: word_less_nat_alt)
    then show ?thesis using False x Cons.prems(1) by simp
  qed
qed

lemma memfree_join_ok:
  assumes l: "lseg h (memlist_next h) pre blk" "unat blk = a" "unat (mem h (blk + 4)) = l" "links h (mem h blk) post"
    and b: "unat (memheap h) \<le> a" "0 < memheap h" "8 dvd a" "8 \<le> l" "a + l \<le> unat (maxaddr h)"
      "blocks (a + l) (unat (maxaddr h)) post" "\<forall>(a, l)\<in>set pre. 8 \<le> l \<and> a + l < 4294967296"
      "bytes pre \<inter> {a..<a + 8} = {}"
  shows "\<exists>h'. memfree_join blk (mem h blk) h = Some (OK, h') \<and> links h' (memlist_next h') (pre @ join_next a l post) \<and>
    same_layout h h' \<and> memlist_length h' = memlist_length h \<and>
    (\<forall>x. unat x \<notin> {a..<a + 8} \<longrightarrow> mem h' x = mem h x)"
proof -
  have ac: "blk \<noteq> 0" "unat (blk + 4) = a + 4" "blk + 4 \<noteq> blk" "in_heap h blk" "in_heap h (blk + 4)"
    using block_access [OF l(2) b(1,3,4,5,2)] by auto
  have top: "unat (blk + mem h (blk + 4)) = a + l"
    using l(2,3) b(5) hi_bound [of h] by (simp add: unat_word_ariths)
  show ?thesis
  proof (cases "\<exists>c m ps. post = (c, m) # ps \<and> a + l = c")
    case False
    have "blk + mem h (blk + 4) \<noteq> mem h blk"
      using False l(4) top b(4) by (cases post) auto
    then have "memfree_join blk (mem h blk) h = Some (OK, h)" using ac(5) by (simp add: memfree_join_def ld_def)
    moreover have "join_next a l post = (a, l) # post" using False by (cases post) auto
    ultimately show ?thesis using l lseg_append by (auto simp: same_layout_def)
  next
    case True
    then obtain m ps where post: "post = (a + l, m) # ps" by auto
    let ?q = "mem h blk"
    have q: "unat ?q = a + l" "unat (mem h (?q + 4)) = m" "links h (mem h ?q) ps" using l(4) post by auto
    have m: "8 \<le> m" "8 dvd m" "a + l + m \<le> unat (maxaddr h)" "8 dvd a + l" "blocks (a + l + m + 1) (unat (maxaddr h)) ps"
      using b(6) post by auto
    have aq: "in_heap h ?q" "in_heap h (?q + 4)"
      using block_access [of ?q "a + l" h m] q(1) b(1,2) m by auto
    let ?h = "h\<lparr>mem := (mem h)(blk + 4 := mem h (blk + 4) + mem h (?q + 4), blk := mem h ?q)\<rparr>"
    have ne: "?q \<noteq> blk + 4" "?q + 4 \<noteq> blk + 4"
      using q(1) ac(2) b(4) l(2) by auto
    have "blk + mem h (blk + 4) = ?q" using top q(1) by (metis unsigned_word_eqI)
    then have run: "memfree_join blk ?q h = Some (OK, ?h)"
      using ac aq ne by (simp add: memfree_join_def ld_def st_def)
    have out: "mem ?h x = mem h x" if "unat x \<notin> {a..<a + 8}" for x
      using that ac(2) l(2) by auto
    have "lseg ?h (memlist_next h) pre blk"
      by (rule lseg_frame [OF l(1) b(7)]) (use out b(8) in blast)
    moreover have "links ?h (mem h ?q) ps"
    proof (rule links_frame [OF q(3) m(5) hi_bound])
      show "\<forall>x. unat x \<in> bytes ps \<longrightarrow> mem ?h x = mem h x"
        using out blocks_bytes [OF m(5)] b(4) by fastforce
    qed
    moreover have "unat (mem h (blk + 4) + mem h (?q + 4)) = l + m"
      using l(3) q(2) m(3) hi_bound [of h] by (simp add: unat_word_ariths)
    ultimately have "links ?h (memlist_next ?h) (pre @ join_next a l post)"
      using l(2) post ac(3) by (auto simp: lseg_append)
    then show ?thesis using run out by (intro exI [of _ ?h]) (auto simp: same_layout_def)
  qed
qed

lemma join_next_props:
  assumes "lo \<le> b" "8 dvd b" "8 \<le> n" "8 dvd n" "b + n \<le> hi" "blocks (b + n) hi fs"
  shows "blocks lo hi (join_next b n fs)" "bytes (join_next b n fs) = {b..<b + n} \<union> bytes fs"
    "(\<Sum>(a, l)\<leftarrow>join_next b n fs. l) = n + (\<Sum>(a, l)\<leftarrow>fs. l)"
proof -
  have u: "{b..<b + n} \<union> {b + n..<b + n + m} = {b..<b + (n + m)}" for m by auto
  show "(\<Sum>(a, l)\<leftarrow>join_next b n fs. l) = n + (\<Sum>(a, l)\<leftarrow>fs. l)"
    by (cases fs) auto
  show "blocks lo hi (join_next b n fs)"
  proof (cases fs)
    case (Cons x gs)
    obtain c m where x: "x = (c, m)" by fastforce
    have c: "b + n \<le> c" "8 \<le> m" "8 dvd c" "8 dvd m" "c + m \<le> hi" "blocks (c + m + 1) hi gs"
      using assms(6) Cons x by auto
    have "8 dvd n + m" using c(4) assms(4) by simp
    moreover have "blocks (Suc (b + (n + m))) hi gs" if "b + n = c" using that c(6) by (simp add: add.assoc [symmetric])
    ultimately show ?thesis using Cons x c assms(1-5) by (cases "b + n = c") simp_all
  qed (use assms in simp)
  show "bytes (join_next b n fs) = {b..<b + n} \<union> bytes fs"
  proof (cases fs)
    case (Cons x gs)
    obtain c m where x: "x = (c, m)" by fastforce
    have "{b..<b + (n + m)} \<union> bytes gs = {b..<b + n} \<union> ({c..<c + m} \<union> bytes gs)" if "b + n = c"
      unfolding u [of m, symmetric] that by (rule Un_assoc)
    then show ?thesis using Cons x by simp
  qed simp
qed

lemma interval_apart:
  fixes a b :: nat
  assumes "{b..<b + n} \<inter> {a..<a + l} = {}" "0 < n" "0 < l"
  shows "a + l \<le> b \<or> b + n \<le> a"
proof (rule ccontr)
  assume "\<not> ?thesis"
  then have "max a b \<in> {b..<b + n} \<inter> {a..<a + l}" using assms(2,3) by auto
  with assms(1) show False by blast
qed

lemma put_block_props:
  assumes "blocks lo hi fs" "lo \<le> b" "8 dvd b" "8 \<le> n" "8 dvd n" "b + n \<le> hi" "{b..<b + n} \<inter> bytes fs = {}"
  shows "blocks lo hi (put_block b n fs) \<and> bytes (put_block b n fs) = {b..<b + n} \<union> bytes fs \<and>
    (\<Sum>(a, l)\<leftarrow>put_block b n fs. l) = n + (\<Sum>(a, l)\<leftarrow>fs. l)"
  using assms
proof (induction fs arbitrary: lo)
  case (Cons x fs)
  obtain a l where x: "x = (a, l)" by fastforce
  have al: "lo \<le> a" "8 \<le> l" "8 dvd a" "8 dvd l" "a + l \<le> hi" "blocks (a + l + 1) hi fs"
    using Cons.prems(1) x by auto
  have d1: "{b..<b + n} \<inter> {a..<a + l} = {}" and d2: "{b..<b + n} \<inter> bytes fs = {}"
    using Cons.prems(7) unfolding x bytes_simps by blast+
  show ?case
  proof (cases "a < b")
    case True
    then have le: "a + l \<le> b" using interval_apart [OF d1] al(2) Cons.prems(4) by auto
    show ?thesis
    proof (cases "a + l = b")
      case adj: True
      have bl: "blocks (a + (l + n)) hi fs"
      proof (cases fs)
        case (Cons y gs)
        obtain c m where y: "y = (c, m)" by fastforce
        have "b < c" "8 \<le> m" using al(6) Cons y adj by auto
        moreover have "c \<notin> {b..<b + n}" using d2 Cons y \<open>8 \<le> m\<close> by auto
        ultimately show ?thesis using al(6) Cons y adj by auto
      qed simp
      have "a + (l + n) \<le> hi" "8 \<le> l + n" "8 dvd l + n" using adj Cons.prems(4-6) al(2,4) by auto
      note jp = join_next_props [OF al(1,3) this(2,3,1) bl]
      have "put_block b n (x # fs) = join_next a (l + n) fs" using x True adj by simp
      moreover have "{a..<a + (l + n)} = {b..<b + n} \<union> {a..<a + l}" using adj by auto
      ultimately show ?thesis using jp x by (simp add: Un_assoc)
    next
      case False
      then have "a + l + 1 \<le> b" using le by simp
      note IH = Cons.IH [OF al(6) this Cons.prems(3-6) d2]
      have "put_block b n (x # fs) = (a, l) # put_block b n fs" using x True False by simp
      then show ?thesis using IH x al by (simp add: Un_left_commute)
    qed
  next
    case False
    then have "b + n \<le> a" using interval_apart [OF d1] al(2) Cons.prems(4) by auto
    then have "blocks (b + n) hi (x # fs)" using x al by auto
    note jp = join_next_props [OF Cons.prems(2,3,4,5,6) this]
    have "put_block b n (x # fs) = join_next b n (x # fs)" using x False by simp
    then show ?thesis using jp by simp
  qed
qed simp

lemma put_block_skip:
  assumes "\<forall>(a, l)\<in>set pre. a + l < b"
  shows "put_block b n (pre @ rest) = pre @ put_block b n rest"
  using assms by (induction pre) auto

lemma put_block_post:
  assumes "fs = [] \<or> b \<le> fst (hd fs)"
  shows "put_block b n fs = join_next b n fs"
  using assms by (cases fs) auto

lemma blocks_append: "blocks lo hi (fs @ gs) \<longleftrightarrow>
    blocks lo hi fs \<and> blocks (if fs = [] then lo else fst (last fs) + snd (last fs) + 1) hi gs"
  by (induction fs arbitrary: lo) auto

lemma blocks_before: "blocks lo hi (fs @ [(a, l)]) \<Longrightarrow> \<forall>(c, m)\<in>set fs. c + m < a"
proof (induction fs arbitrary: lo)
  case (Cons x fs)
  obtain c m where x: "x = (c, m)" by fastforce
  have b: "blocks (c + m + 1) hi (fs @ [(a, l)])" using Cons.prems x by simp
  have "8 \<le> l" using Cons.prems blocks_append [of lo hi "x # fs" "[(a, l)]"] by simp
  then have "a \<in> bytes (fs @ [(a, l)])" by (auto simp: bytes_def)
  then have "c + m < a" using blocks_bytes [OF b, of a] by simp
  then show ?case using Cons.IH [OF b] x by simp
qed simp

text \<open>The first half of \<^verbatim>\<open>memfree\<close>: the block becomes part of the list.\<close>

lemma memfree_new_node:
  assumes l: "lseg h (memlist_next h) pre q0" "links h q0 post"
    and pv: "prev = (if pre = [] then None else Some (of_nat (fst (last pre))))"
    and sz: "blocks (unat (memheap h)) (unat (maxaddr h)) (pre @ post)" "0 < memheap h"
    and blk: "unat blk = b" "unat (memheap h) \<le> b" "8 dvd b" "8 \<le> unat n" "b + unat n \<le> unat (maxaddr h)"
      "{b..<b + unat n} \<inter> bytes (pre @ post) = {}"
  shows "\<exists>h'. do { h \<leftarrow> st blk q0 h; h \<leftarrow> st (blk + 4) n h; set_next prev blk h } = Some h' \<and>
    lseg h' (memlist_next h') pre blk \<and> mem h' blk = q0 \<and> mem h' (blk + 4) = n \<and> links h' q0 post \<and> same_layout h h' \<and>
    memlist_length h' = memlist_length h \<and> (\<forall>x. unat x \<notin> {b..<b + 8} \<union> bytes (pre @ post) \<longrightarrow> mem h' x = mem h x)"
proof -
  have ac: "blk \<noteq> 0" "unat (blk + 4) = b + 4" "blk + 4 \<noteq> blk" "in_heap h blk" "in_heap h (blk + 4)"
    using block_access [OF blk(1,2,3,4,5) sz(2)] by auto
  let ?h1 = "h\<lparr>mem := (mem h)(blk := q0, blk + 4 := n)\<rparr>"
  have run: "do { h \<leftarrow> st blk q0 h; h \<leftarrow> st (blk + 4) n h; set_next prev blk h } = set_next prev blk ?h1"
    using ac by (simp add: st_def)
  have out: "mem ?h1 x = mem h x" if "unat x \<notin> {b..<b + 8}" for x
    using that ac(2) blk(1) by auto
  have far: "unat x \<notin> {b..<b + 8}" if "unat x \<in> bytes (pre @ post)" for x
  proof -
    have "{b..<b + 8} \<subseteq> {b..<b + unat n}" using blk(4) by auto
    then show ?thesis using blk(6) that by blast
  qed
  have szd: "\<forall>(a, l)\<in>set (pre @ post). 8 \<le> l \<and> a + l < 4294967296" by (rule blocks_sized [OF sz(1) hi_bound])
  have bp: "bytes (pre @ post) = bytes pre \<union> bytes post" by (auto simp: bytes_def)
  show ?thesis
  proof (cases pre rule: rev_cases)
    case Nil
    let ?h = "?h1\<lparr>memlist_next := blk\<rparr>"
    have "links ?h q0 post"
    proof (rule lseg_frame [OF l(2)])
      show "\<forall>x. unat x \<in> bytes post \<longrightarrow> mem ?h x = mem h x" 
      proof (intro allI impI)
        fix x :: u32 assume "unat x \<in> bytes post"
        then have "unat x \<notin> {b..<b + 8}" using far bp by blast
        then show "mem ?h x = mem h x" using out [of x] by simp
      qed
    qed (use szd in auto)
    then show ?thesis
      using run Nil pv ac(3) out by (intro exI [of _ ?h]) (auto simp: set_next_def same_layout_def)
  next
    case (snoc ps al)
    obtain a0 l0 where al: "al = (a0, l0)" by fastforce
    obtain p0 where p0: "lseg h (memlist_next h) ps p0" "unat p0 = a0" "unat (mem h (p0 + 4)) = l0" "mem h p0 = q0"
      using l(1) snoc al by (auto simp: lseg_append)
    have prev: "prev = Some p0" using pv snoc al p0(2) by auto
    have b0: "blocks (unat (memheap h)) (unat (maxaddr h)) (ps @ [(a0, l0)])"
      "blocks (a0 + l0 + 1) (unat (maxaddr h)) post" "8 \<le> l0" "8 dvd a0" "a0 + l0 \<le> unat (maxaddr h)"
      using sz(1) snoc al by (auto simp: blocks_append)
    have "a0 \<in> bytes (ps @ [(a0, l0)])" using b0(3) by (auto simp: bytes_def)
    then have ge: "unat (memheap h) \<le> a0" using blocks_bytes [OF b0(1)] by blast
    have a4: "unat (p0 + 4) = a0 + 4" "p0 + 4 \<noteq> p0" "in_heap h p0"
      using block_access [OF p0(2) ge b0(4,3,5) sz(2)] by auto
    have in0: "unat p0 \<in> bytes (pre @ post)" "unat (p0 + 4) \<in> bytes (pre @ post)"
      using p0(2) a4(1) b0(3) snoc al by (auto simp: bytes_def)
    let ?h = "?h1\<lparr>mem := (mem ?h1)(p0 := blk)\<rparr>"
    have o2: "mem ?h x = mem h x" if "unat x \<notin> {b..<b + 8}" "x \<noteq> p0" for x using out [of x] that by simp
    have n0: "unat x \<noteq> a0" if "unat x \<in> bytes ps \<or> unat x \<in> bytes post" for x
    proof -
      have "unat x < a0" if "unat x \<in> bytes ps"
        using that blocks_before [OF b0(1)] by (fastforce simp: bytes_def)
      moreover have "a0 < unat x" if "unat x \<in> bytes post" using blocks_bytes [OF b0(2) that] by simp
      ultimately show ?thesis using that by auto
    qed
    have bps: "bytes pre = bytes ps \<union> {a0..<a0 + l0}" using snoc al by (auto simp: bytes_def)
    have "links ?h q0 post"
    proof (rule lseg_frame [OF l(2)])
      show "\<forall>x. unat x \<in> bytes post \<longrightarrow> mem ?h x = mem h x" using o2 far bp n0 p0(2) by blast
    qed (use szd in auto)
    moreover have "lseg ?h (memlist_next ?h) ps p0"
    proof -
      have "lseg ?h (memlist_next h) ps p0"
      proof (rule lseg_frame [OF p0(1)])
        show "\<forall>x. unat x \<in> bytes ps \<longrightarrow> mem ?h x = mem h x" using o2 far bp bps n0 p0(2) by blast
      qed (use szd snoc in auto)
      then show ?thesis by simp
    qed
    moreover have "mem ?h (p0 + 4) = mem h (p0 + 4)" using o2 far [OF in0(2)] a4(2) by blast
    moreover have "mem ?h blk = q0" "mem ?h (blk + 4) = n"
      using far [OF in0(1)] blk(1) ac(2,3) by auto
    ultimately show ?thesis
      using run prev p0 snoc al a4(3) o2 in0(1)
      by (intro exI [of _ ?h]) (auto simp: set_next_def st_def same_layout_def lseg_append)
  qed
qed

text \<open>The other case: the block extends the one below it.\<close>

lemma memfree_extend:
  assumes l: "lseg h (memlist_next h) ps p0" "unat p0 = a0" "unat (mem h (p0 + 4)) = l0" "links h (mem h p0) post"
    and sz: "blocks (unat (memheap h)) (unat (maxaddr h)) (ps @ (a0, l0) # post)" "0 < memheap h"
    and n: "a0 + l0 + unat n \<le> unat (maxaddr h)"
    and h': "h' = h\<lparr>mem := (mem h)(p0 + 4 := mem h (p0 + 4) + n)\<rparr>"
  shows "in_heap h (p0 + 4)" "lseg h' (memlist_next h') ps p0" "unat (mem h' (p0 + 4)) = l0 + unat n" "mem h' p0 = mem h p0"
    "links h' (mem h' p0) post"
proof -
  have b0: "blocks (unat (memheap h)) (unat (maxaddr h)) (ps @ [(a0, l0)])"
    "blocks (a0 + l0 + 1) (unat (maxaddr h)) post" "8 \<le> l0" "8 dvd a0" "a0 + l0 \<le> unat (maxaddr h)"
    using sz(1) by (auto simp: blocks_append)
  have "a0 \<in> bytes (ps @ [(a0, l0)])" using b0(3) by (auto simp: bytes_def)
  then have ge: "unat (memheap h) \<le> a0" using blocks_bytes [OF b0(1)] by blast
  have a4: "unat (p0 + 4) = a0 + 4" "p0 + 4 \<noteq> p0" "in_heap h (p0 + 4)"
    using block_access [OF l(2) ge b0(4,3,5) sz(2)] by auto
  show "in_heap h (p0 + 4)" by (rule a4(3))
  show "mem h' p0 = mem h p0" using a4(2) h' by simp
  show "unat (mem h' (p0 + 4)) = l0 + unat n"
    using l(3) n hi_bound [of h] h' by (simp add: unat_word_ariths)
  have ne: "x \<noteq> p0 + 4" if "unat x \<in> bytes ps \<or> unat x \<in> bytes post" for x
  proof -
    have "unat x < a0" if "unat x \<in> bytes ps"
      using that blocks_before [OF b0(1)] by (fastforce simp: bytes_def)
    moreover have "a0 + l0 < unat x" if "unat x \<in> bytes post" using blocks_bytes [OF b0(2) that] by simp
    ultimately show ?thesis using that a4(1) b0(3) by auto
  qed
  have szd: "\<forall>(a, l)\<in>set ps. 8 \<le> l \<and> a + l < 4294967296"
    using blocks_sized [OF sz(1) hi_bound] by auto
  have "lseg h' (memlist_next h) ps p0"
    by (rule lseg_frame [OF l(1) szd]) (use ne h' in auto)
  then show "lseg h' (memlist_next h') ps p0" using h' by simp
  have "links h' (mem h p0) post"
    by (rule links_frame [OF l(4) b0(2) hi_bound]) (use ne h' in auto)
  then show "links h' (mem h' p0) post" using a4(2) h' by simp
qed

lemma blocks_sum: "blocks lo hi fs \<Longrightarrow> fs \<noteq> [] \<Longrightarrow> lo + (\<Sum>(a, l)\<leftarrow>fs. l) \<le> hi"
proof (induction lo hi fs rule: blocks.induct)
  case (2 lo hi a l fs)
  then show ?case by (cases "fs = []") auto
qed simp

lemma put_block_nonempty: "put_block b n fs \<noteq> []"
proof -
  have "join_next b n gs \<noteq> []" for b n gs by (cases gs) (auto split: if_splits)
  then show ?thesis by (cases fs) (auto simp del: join_next.simps split: if_splits)
qed

text \<open>The scan of \<^verbatim>\<open>memfree\<close> stops between the blocks below and above the freed one.\<close>

lemma free_position:
  assumes "blocks lo hi fs" "{b..<b + n} \<inter> bytes fs = {}" "8 \<le> n"
    and "pre = takeWhile (\<lambda>(a, l). a < b) fs" "post = dropWhile (\<lambda>(a, l). a < b) fs"
  shows "fs = pre @ post" "\<forall>(a, l)\<in>set pre. a + l \<le> b" "post \<noteq> [] \<Longrightarrow> b + n \<le> fst (hd post)"
proof -
  show fs: "fs = pre @ post" using assms(4,5) by simp
  have ap: "a + l \<le> b \<or> b + n \<le> a" if "(a, l) \<in> set fs" for a l
  proof -
    have "8 \<le> l" using assms(1) that by (induction lo hi fs rule: blocks.induct) auto
    moreover have "{b..<b + n} \<inter> {a..<a + l} = {}"
    proof -
      have "{a..<a + l} \<subseteq> bytes fs" using that by (auto simp: bytes_def)
      then show ?thesis using assms(2) by blast
    qed
    ultimately show ?thesis using interval_apart [of b n a l] assms(3) by auto
  qed
  show "\<forall>(a, l)\<in>set pre. a + l \<le> b"
  proof (clarify)
    fix a l assume "(a, l) \<in> set pre"
    then have "a < b" "(a, l) \<in> set fs" using assms(4) set_takeWhileD by fastforce+
    then show "a + l \<le> b" using ap by fastforce
  qed
  show "b + n \<le> fst (hd post)" if "post \<noteq> []"
  proof -
    obtain a l where hd: "hd post = (a, l)" by fastforce
    have "\<not> a < b" using hd_dropWhile [of "\<lambda>(a, l). a < b" fs] that hd assms(5) by simp
    moreover have "(a, l) \<in> set fs" using that hd fs by (metis Un_iff hd_in_set set_append)
    moreover have "8 \<le> l" using assms(1) calculation(2) by (induction lo hi fs rule: blocks.induct) auto
    ultimately show ?thesis using ap [of a l] hd by fastforce
  qed
qed

text \<open>The state between the two parts of \<^verbatim>\<open>memfree\<close>: the list is \<open>pre\<close>, the block \<open>(a, l)\<close> with
  header \<open>blk\<close>, and \<open>post\<close>, which may start right behind it.\<close>

definition linked :: "heap \<Rightarrow> u32 \<Rightarrow> (nat \<times> nat) list \<Rightarrow> nat \<Rightarrow> nat \<Rightarrow> (nat \<times> nat) list \<Rightarrow> bool" where
  "linked h blk pre a l post \<longleftrightarrow>
     lseg h (memlist_next h) pre blk \<and> unat blk = a \<and> unat (mem h (blk + 4)) = l \<and> links h (mem h blk) post \<and>
     unat (memheap h) \<le> a \<and> 0 < memheap h \<and> 8 dvd a \<and> 8 \<le> l \<and> a + l \<le> unat (maxaddr h) \<and>
     blocks (a + l) (unat (maxaddr h)) post \<and> (\<forall>(a, l)\<in>set pre. 8 \<le> l \<and> a + l < 4294967296) \<and>
     bytes pre \<inter> {a..<a + 8} = {}"

lemma blocks_last:
  assumes "blocks lo hi (ps @ (a, l) # post)"
  shows "blocks lo hi (ps @ [(a, l)])" "blocks (a + l + 1) hi post" "8 \<le> l" "8 dvd a" "8 dvd l" "a + l \<le> hi" "lo \<le> a"
    "bytes ps \<inter> {a..<a + 8} = {}" "\<forall>(c, m)\<in>set ps. c + m < a"
proof -
  show b: "blocks lo hi (ps @ [(a, l)])" "blocks (a + l + 1) hi post" "8 \<le> l" "8 dvd a" "8 dvd l" "a + l \<le> hi"
    using assms by (auto simp: blocks_append)
  have "a \<in> bytes (ps @ [(a, l)])" using b(3) by (auto simp: bytes_def)
  then show "lo \<le> a" using blocks_bytes [OF b(1)] by blast
  show "\<forall>(c, m)\<in>set ps. c + m < a" by (rule blocks_before [OF b(1)])
  then show "bytes ps \<inter> {a..<a + 8} = {}" by (fastforce simp: bytes_def)
qed

lemma memfree_link_extend:
  assumes l: "lseg h (memlist_next h) (ps @ [(a0, l0)]) q" "links h q post"
    and sz: "blocks (unat (memheap h)) (unat (maxaddr h)) (ps @ (a0, l0) # post)" "0 < memheap h"
    and n: "a0 + l0 = unat blk" "unat blk + unat n \<le> unat (maxaddr h)" "post \<noteq> [] \<Longrightarrow> unat blk + unat n \<le> fst (hd post)"
  shows "\<exists>h'. memfree_link (Some (of_nat a0)) blk blk q n h = Some (of_nat a0, h') \<and>
    linked h' (of_nat a0) ps a0 (l0 + unat n) post \<and> mem h' (of_nat a0) = q \<and> same_layout h h' \<and>
    memlist_length h' = memlist_length h \<and> (\<forall>x. unat x \<notin> {a0..<a0 + l0} \<longrightarrow> mem h' x = mem h x)"
proof -
  note bl = blocks_last [OF sz(1)]
  obtain p0 where p0: "lseg h (memlist_next h) ps p0" "unat p0 = a0" "unat (mem h (p0 + 4)) = l0" "mem h p0 = q"
    using l(1) by (auto simp: lseg_append)
  have e: "of_nat a0 = p0" using p0(2) by auto
  let ?h1 = "h\<lparr>mem := (mem h)(p0 + 4 := mem h (p0 + 4) + n)\<rparr>"
  have "links h (mem h p0) post" "a0 + l0 + unat n \<le> unat (maxaddr h)" using p0(4) l(2) n(1,2) by auto
  note ex = memfree_extend [OF p0(1-3) this(1) sz this(2) refl]
  have run: "memfree_link (Some p0) blk blk q n h = Some (p0, ?h1)"
    using ex(1) by (simp add: memfree_link_def ld_def st_def)
  have "blocks (a0 + (l0 + unat n)) (unat (maxaddr h)) post"
    using bl(2) n(1,3) by (cases post) auto
  moreover have "\<forall>(a, l)\<in>set ps. 8 \<le> l \<and> a + l < 4294967296"
    using blocks_sized [OF bl(1) hi_bound] by auto
  ultimately have "linked ?h1 p0 ps a0 (l0 + unat n) post"
    using ex p0(2) bl(3,4,7,8) sz(2) n(1,2) by (simp add: linked_def)
  moreover have "mem ?h1 x = mem h x" if "unat x \<notin> {a0..<a0 + l0}" for x
    using that p0(2) unat_plus4 [of p0] n(1,2) bl(3) hi_bound [of h] by auto
  ultimately show ?thesis
    using run ex(4) p0(4) unfolding e by (intro exI [of _ ?h1]) (auto simp: same_layout_def)
qed

lemma memfree_link_new:
  assumes l: "lseg h (memlist_next h) pre q" "links h q post"
    and pv: "prev = (if pre = [] then None else Some (of_nat (fst (last pre))))"
    and sz: "blocks (unat (memheap h)) (unat (maxaddr h)) (pre @ post)" "0 < memheap h"
    and blk: "unat (memheap h) \<le> unat blk" "8 dvd unat blk" "8 \<le> unat n" "unat blk + unat n \<le> unat (maxaddr h)"
      "{unat blk..<unat blk + unat n} \<inter> bytes (pre @ post) = {}" "post \<noteq> [] \<Longrightarrow> unat blk + unat n \<le> fst (hd post)"
    and tp: "ptop \<noteq> blk"
  shows "\<exists>h'. memfree_link prev ptop blk q n h = Some (blk, h') \<and>
    linked h' blk pre (unat blk) (unat n) post \<and> mem h' blk = q \<and> same_layout h h' \<and>
    memlist_length h' = memlist_length h \<and>
    (\<forall>x. unat x \<notin> {unat blk..<unat blk + unat n} \<union> bytes (pre @ post) \<longrightarrow> mem h' x = mem h x)"
proof -
  obtain h' where h': "do { h \<leftarrow> st blk q h; h \<leftarrow> st (blk + 4) n h; set_next prev blk h } = Some h'"
      "lseg h' (memlist_next h') pre blk" "mem h' blk = q" "mem h' (blk + 4) = n" "links h' q post" "same_layout h h'"
      "memlist_length h' = memlist_length h"
      "\<forall>x. unat x \<notin> {unat blk..<unat blk + 8} \<union> bytes (pre @ post) \<longrightarrow> mem h' x = mem h x"
    using memfree_new_node [OF l pv sz refl blk(1-5)] by blast
  have "memfree_link prev ptop blk q n h = Some (blk, h')"
    using h'(1) tp by (auto simp: memfree_link_def bind_Some_iff)
  moreover have "linked h' blk pre (unat blk) (unat n) post"
  proof -
    have "\<forall>(a, l)\<in>set pre. 8 \<le> l \<and> a + l < 4294967296" using blocks_sized [OF sz(1) hi_bound] by auto
    moreover have "bytes pre \<inter> {unat blk..<unat blk + 8} = {}"
    proof -
      have "{unat blk..<unat blk + 8} \<subseteq> {unat blk..<unat blk + unat n}" "bytes pre \<subseteq> bytes (pre @ post)"
        using blk(3) by (auto simp: bytes_def)
      then show ?thesis using blk(5) by blast
    qed
    moreover have "blocks (unat blk + unat n) (unat (maxaddr h)) post"
    proof (cases post)
      case (Cons y ys)
      then show ?thesis using blk(6) sz(1) by (cases y) (auto simp: blocks_append)
    qed simp
    ultimately show ?thesis using h' blk sz(2) by (simp add: linked_def same_layout_def)
  qed
  moreover have "mem h' x = mem h x" if "unat x \<notin> {unat blk..<unat blk + unat n} \<union> bytes (pre @ post)" for x
    using h'(8) that blk(3) by auto
  ultimately show ?thesis using h'(3,6,7) by blast
qed

lemma put_block_split:
  assumes "fs = pre @ post" "\<forall>(a, l)\<in>set pre. a + l < b" "post \<noteq> [] \<Longrightarrow> b \<le> fst (hd post)"
  shows "put_block b n fs = pre @ join_next b n post"
  using assms put_block_skip [of pre b n post] put_block_post [of post b n] by auto

lemma put_block_adjacent:
  assumes "fs = ps @ (a0, l0) # post" "\<forall>(a, l)\<in>set ps. a + l < b" "a0 + l0 = b" "0 < l0"
  shows "put_block b n fs = ps @ join_next a0 (l0 + n) post"
  using assms put_block_skip [of ps b n "(a0, l0) # post"] by simp

text \<open>Both cases of the linking step.\<close>

lemma memfree_link_ok:
  assumes l: "lseg h (memlist_next h) pre q" "links h q post" and pv: "prev = (if pre = [] then None else Some (of_nat (fst (last pre))))"
    and sz: "blocks (unat (memheap h)) (unat (maxaddr h)) (pre @ post)" "0 < memheap h"
    and blk: "unat (memheap h) \<le> unat blk" "8 dvd unat blk" "8 \<le> unat n" "unat blk + unat n \<le> unat (maxaddr h)"
      "{unat blk..<unat blk + unat n} \<inter> bytes (pre @ post) = {}" "post \<noteq> [] \<Longrightarrow> unat blk + unat n \<le> fst (hd post)"
      "\<forall>(a, l)\<in>set pre. a + l \<le> unat blk"
  obtains tp blk' pre' a l h' where
    "(case prev of None \<Rightarrow> Some 0 | Some p \<Rightarrow> do { l \<leftarrow> ld (p + 4) h; Some (p + l) }) = Some tp" "\<not> tp > blk"
    "memfree_link prev tp blk q n (h\<lparr>memlist_length := m\<rparr>) = Some (blk', h')" "linked h' blk' pre' a l post" "mem h' blk' = q"
    "same_layout h h'" "memlist_length h' = m"
    "put_block (unat blk) (unat n) (pre @ post) = pre' @ join_next a l post"
    "{a..<a + 8} \<subseteq> {unat blk..<unat blk + unat n} \<union> bytes (pre @ post)"
    "\<forall>x. unat x \<notin> {unat blk..<unat blk + unat n} \<union> bytes (pre @ post) \<longrightarrow> mem h' x = mem h x"
proof -
  let ?h = "h\<lparr>memlist_length := m\<rparr>"
  have l': "lseg ?h (memlist_next ?h) pre q" "links ?h q post" using l by simp_all
  have post8: "post \<noteq> [] \<Longrightarrow> unat blk \<le> fst (hd post)" using blk(6) by linarith
  show ?thesis
  proof (cases pre rule: rev_cases)
    case Nil
    have z: "(0::u32) \<noteq> blk" using blk(1) sz(2) by (auto simp: word_less_nat_alt)
    obtain h' where "memfree_link prev 0 blk q n ?h = Some (blk, h')" "linked h' blk pre (unat blk) (unat n) post"
        "mem h' blk = q" "same_layout ?h h'" "memlist_length h' = memlist_length ?h"
        "\<forall>x. unat x \<notin> {unat blk..<unat blk + unat n} \<union> bytes (pre @ post) \<longrightarrow> mem h' x = mem ?h x"
      using memfree_link_new [of ?h, OF l' pv _ _ _ blk(2,3) _ blk(5,6) z] sz blk(1,4) by auto
    moreover have "put_block (unat blk) (unat n) (pre @ post) = pre @ join_next (unat blk) (unat n) post"
      by (rule put_block_split [OF refl]) (use Nil post8 in auto)
    moreover have "{unat blk..<unat blk + 8} \<subseteq> {unat blk..<unat blk + unat n} \<union> bytes (pre @ post)" using blk(3) by auto
    ultimately show ?thesis
      by (intro that [of 0 blk h' pre "unat blk" "unat n"]) (use Nil pv in \<open>simp_all add: same_layout_def\<close>)
  next
    case (snoc ps al)
    obtain a0 l0 where al: "al = (a0, l0)" by fastforce
    have szs: "blocks (unat (memheap h)) (unat (maxaddr h)) (ps @ (a0, l0) # post)" using sz(1) snoc al by simp
    note bl = blocks_last [OF szs]
    obtain p0 where p0: "unat p0 = a0" "unat (mem h (p0 + 4)) = l0" using l(1) snoc al by (auto simp: lseg_append)
    have e0: "of_nat a0 = p0" using p0(1) by auto
    have prev: "prev = Some p0" using pv snoc al e0 by simp
    have ac: "in_heap h (p0 + 4)" using block_access(5) [OF p0(1) bl(7,4,3,6) sz(2)] .
    have le: "a0 + l0 \<le> unat blk" using blk(7) snoc al by simp
    have tp: "unat (p0 + mem h (p0 + 4)) = a0 + l0"
      using p0 bl(6) hi_bound [of h] by (simp add: unat_word_ariths)
    have top: "(case prev of None \<Rightarrow> Some 0 | Some p \<Rightarrow> do { l \<leftarrow> ld (p + 4) h; Some (p + l) }) = Some (p0 + mem h (p0 + 4))"
        "\<not> p0 + mem h (p0 + 4) > blk"
      using prev ac tp le by (simp_all add: ld_def word_less_nat_alt)
    have sub: "{a0..<a0 + l0} \<subseteq> bytes (pre @ post)" using snoc al by (auto simp: bytes_def)
    show ?thesis
    proof (cases "a0 + l0 = unat blk")
      case True
      then have tb: "p0 + mem h (p0 + 4) = blk" using tp by (metis unsigned_word_eqI)
      have "lseg ?h (memlist_next ?h) (ps @ [(a0, l0)]) q" using l'(1) snoc al by simp
      then obtain h' where h': "memfree_link prev blk blk q n ?h = Some (p0, h')" "linked h' p0 ps a0 (l0 + unat n) post"
          "mem h' p0 = q" "same_layout ?h h'" "memlist_length h' = memlist_length ?h"
          "\<forall>x. unat x \<notin> {a0..<a0 + l0} \<longrightarrow> mem h' x = mem ?h x"
        using memfree_link_extend [of ?h ps a0 l0 q post blk n] l'(2) szs sz(2) True blk(4,6) prev e0 by auto
      moreover have "put_block (unat blk) (unat n) (pre @ post) = ps @ join_next a0 (l0 + unat n) post"
        using put_block_adjacent [of "pre @ post" ps a0 l0 post "unat blk"] snoc al bl(3,9) True by force
      moreover have "{a0..<a0 + 8} \<subseteq> {unat blk..<unat blk + unat n} \<union> bytes (pre @ post)"
      proof -
        have "{a0..<a0 + 8} \<subseteq> {a0..<a0 + l0}" using bl(3) by auto
        then show ?thesis using sub by blast
      qed
      moreover have "mem h' x = mem h x" if "unat x \<notin> {unat blk..<unat blk + unat n} \<union> bytes (pre @ post)" for x
      proof -
        have "unat x \<notin> {a0..<a0 + l0}" using sub that by blast
        then show ?thesis using h'(6) by simp
      qed
      moreover note top [unfolded tb]
      ultimately show ?thesis
        by (intro that [of blk p0 h' ps a0 "l0 + unat n"]) (simp_all add: same_layout_def)
    next
      case False
      then have tb: "p0 + mem h (p0 + 4) \<noteq> blk" using tp by auto
      obtain h' where h': "memfree_link prev (p0 + mem h (p0 + 4)) blk q n ?h = Some (blk, h')" "linked h' blk pre (unat blk) (unat n) post"
          "mem h' blk = q" "same_layout ?h h'" "memlist_length h' = memlist_length ?h"
          "\<forall>x. unat x \<notin> {unat blk..<unat blk + unat n} \<union> bytes (pre @ post) \<longrightarrow> mem h' x = mem ?h x"
        using memfree_link_new [of ?h, OF l' pv _ _ _ blk(2,3) _ blk(5,6) tb] sz blk(1,4) by auto
      have "\<forall>(a, l)\<in>set pre. a + l < unat blk" using snoc al bl(9) le False by fastforce
      then have "put_block (unat blk) (unat n) (pre @ post) = pre @ join_next (unat blk) (unat n) post"
        by (rule put_block_split [OF refl _ post8])
      moreover have "{unat blk..<unat blk + 8} \<subseteq> {unat blk..<unat blk + unat n} \<union> bytes (pre @ post)" using blk(3) by auto
      moreover note top h'
      ultimately show ?thesis
        by (intro that [of "p0 + mem h (p0 + 4)" blk h' pre "unat blk" "unat n"]) (simp_all add: same_layout_def)
    qed
  qed
qed

text \<open>
  \<^verbatim>\<open>memfree\<close> of a block that lies in the heap and overlaps no free block succeeds, merges it
  with its neighbours, and writes to no memory outside the free blocks and the freed one.
\<close>

lemma memfree_ok:
  assumes k: "heap_ok h fs" and n: "0 < nbytes" "unat nbytes \<le> 4294967288"
    and b: "unat (memheap h) \<le> unat p" "8 dvd unat p" "unat p + unat (roundmb nbytes) \<le> unat (maxaddr h)"
      "{unat p..<unat p + unat (roundmb nbytes)} \<inter> bytes fs = {}"
  shows "\<exists>h'. memfree p nbytes h = Some (OK, h') \<and> heap_ok h' (put_block (unat p) (unat (roundmb nbytes)) fs) \<and>
    same_layout h h' \<and>
    (\<forall>x. unat x \<notin> {unat p..<unat p + unat (roundmb nbytes)} \<union> bytes fs \<longrightarrow> mem h' x = mem h x)"
proof -
  let ?n = "roundmb nbytes" and ?b = "unat p"
  define pre post where pp: "pre = takeWhile (\<lambda>(a, l). a < ?b) fs" "post = dropWhile (\<lambda>(a, l). a < ?b) fs"
  have k': "links h (memlist_next h) fs" "blocks (unat (memheap h)) (unat (maxaddr h)) fs" "0 < memheap h"
      "unat (memlist_length h) = (\<Sum>(a, l)\<leftarrow>fs. l)"
    using k by (auto simp: heap_ok_def)
  have n': "8 dvd unat ?n" "8 \<le> unat ?n" using roundmb_dvd roundmb_pos [OF n] by auto
  note fp = free_position [OF k'(2) b(4) n'(2) pp]
  note props = put_block_props [OF k'(2) b(1,2) n'(2,1) b(3,4)]
  let ?prev = "if pre = [] then None else Some (of_nat (fst (last pre)) :: u32)"
  obtain q0 where q0: "memfree_loop p None (memlist_next h) h = Some (?prev, q0)"
      "lseg h (memlist_next h) pre q0" "links h q0 post"
    using memfree_loop_ok [OF k'(1,2) order_refl k'(3), of p None] pp by auto
  have sz: "blocks (unat (memheap h)) (unat (maxaddr h)) (pre @ post)"
    "{?b..<?b + unat ?n} \<inter> bytes (pre @ post) = {}" using k'(2) b(4) fp(1) by simp_all
  obtain tp blk' pre' a l h1 where lk:
      "(case ?prev of None \<Rightarrow> Some 0 | Some p \<Rightarrow> do { l \<leftarrow> ld (p + 4) h; Some (p + l) }) = Some tp" "\<not> tp > p"
      "memfree_link ?prev tp p q0 ?n (h\<lparr>memlist_length := memlist_length h + ?n\<rparr>) = Some (blk', h1)"
      "linked h1 blk' pre' a l post" "mem h1 blk' = q0" "same_layout h h1" "memlist_length h1 = memlist_length h + ?n"
      "put_block ?b (unat ?n) (pre @ post) = pre' @ join_next a l post"
      "{a..<a + 8} \<subseteq> {?b..<?b + unat ?n} \<union> bytes (pre @ post)"
      "\<forall>x. unat x \<notin> {?b..<?b + unat ?n} \<union> bytes (pre @ post) \<longrightarrow> mem h1 x = mem h x"
    by (rule memfree_link_ok [OF q0(2,3) refl sz(1) k'(3) b(1,2) n'(2) b(3) sz(2) fp(3,2), where m = "memlist_length h + ?n"])
  have "\<exists>h'. memfree_join blk' (mem h1 blk') h1 = Some (OK, h') \<and> links h' (memlist_next h') (pre' @ join_next a l post) \<and>
      same_layout h1 h' \<and> memlist_length h' = memlist_length h1 \<and> (\<forall>x. unat x \<notin> {a..<a + 8} \<longrightarrow> mem h' x = mem h1 x)"
    using lk(4) unfolding linked_def by (elim conjE) (rule memfree_join_ok)
  then obtain h' where h': "memfree_join blk' q0 h1 = Some (OK, h')" "links h' (memlist_next h') (pre' @ join_next a l post)"
      "same_layout h1 h'" "memlist_length h' = memlist_length h1" "\<forall>x. unat x \<notin> {a..<a + 8} \<longrightarrow> mem h' x = mem h1 x"
    using lk(5) by auto
  have "unat (p + ?n) = ?b + unat ?n" using b(3) hi_bound [of h] by (simp add: unat_word_ariths)
  then have nx: "\<not> (q0 \<noteq> 0 \<and> p + ?n > q0)"
    using fp(3) q0(3) by (cases post) (auto simp: word_less_nat_alt)
  have head: "0 \<noteq> nbytes" "\<not> p < memheap h" "\<not> p > maxaddr h"
    using n(1) b(1,3) by (auto simp: word_less_nat_alt)
  have run: "memfree p nbytes h = Some (OK, h')"
    unfolding memfree_def Let_def using head nx q0(1) lk(1,2,3) h'(1) by simp
  have "(\<Sum>(a, l)\<leftarrow>put_block ?b (unat ?n) fs. l) < 4294967296"
    using blocks_sum [OF conjunct1 [OF props] put_block_nonempty] hi_bound [of h] by linarith
  then have "unat (memlist_length h + ?n) = (\<Sum>(a, l)\<leftarrow>put_block ?b (unat ?n) fs. l)"
    using conjunct2 [OF conjunct2 [OF props]] k'(4) unat_add_no_wrap [of "memlist_length h" ?n] by linarith
  then have "heap_ok h' (put_block ?b (unat ?n) fs)"
    using h'(2-4) lk(6-8) props k'(3) fp(1) by (simp add: heap_ok_def same_layout_def)
  moreover have "mem h' x = mem h x" if "unat x \<notin> {?b..<?b + unat ?n} \<union> bytes fs" for x
  proof -
    have "unat x \<notin> {?b..<?b + unat ?n} \<union> bytes (pre @ post)" using that fp(1) by simp
    then have "mem h1 x = mem h x" "unat x \<notin> {a..<a + 8}" using lk(10) subsetD [OF lk(9), of "unat x"] by auto
    then show ?thesis using h'(5) by simp
  qed
  ultimately show ?thesis using run lk(6) h'(3) by (auto simp: same_layout_def)
qed

text \<open>A block that overlaps free memory is rejected and nothing changes: a double free is detected.\<close>

lemma memfree_reject:
  assumes k: "heap_ok h fs" and n: "0 < nbytes"
    and b: "memheap h \<le> p" "p \<le> maxaddr h" "unat p + unat (roundmb nbytes) < 4294967296"
      "{unat p..<unat p + unat (roundmb nbytes)} \<inter> bytes fs \<noteq> {}"
  shows "memfree p nbytes h = Some (SYSERR, h)"
proof -
  let ?n = "roundmb nbytes" and ?b = "unat p"
  define pre post where pp: "pre = takeWhile (\<lambda>(a, l). a < ?b) fs" "post = dropWhile (\<lambda>(a, l). a < ?b) fs"
  have k': "links h (memlist_next h) fs" "blocks (unat (memheap h)) (unat (maxaddr h)) fs" "0 < memheap h"
    using k by (auto simp: heap_ok_def)
  have fs: "fs = pre @ post" using pp by simp
  let ?prev = "if pre = [] then None else Some (of_nat (fst (last pre)) :: u32)"
  obtain q0 where q0: "memfree_loop p None (memlist_next h) h = Some (?prev, q0)"
      "lseg h (memlist_next h) pre q0" "links h q0 post"
    using memfree_loop_ok [OF k'(1,2) order_refl k'(3), of p None] pp by auto
  have pn: "unat (p + ?n) = ?b + unat ?n" using b(3) by (simp add: unat_word_ariths)
  obtain x a l where x: "(a, l) \<in> set fs" "?b \<le> x" "x < ?b + unat ?n" "a \<le> x" "x < a + l"
    using b(4) by (auto simp: bytes_def)
  have "\<exists>tp. (case ?prev of None \<Rightarrow> Some 0 | Some p \<Rightarrow> do { l \<leftarrow> ld (p + 4) h; Some (p + l) }) = Some tp \<and>
      (tp > p \<or> (q0 \<noteq> 0 \<and> p + ?n > q0))"
  proof -
    have post: "q0 \<noteq> 0 \<and> p + ?n > q0" if "(a, l) \<in> set post"
    proof -
      obtain c m ps where cm: "post = (c, m) # ps" using \<open>(a, l) \<in> set post\<close> by (cases post) auto
      have "blocks (if pre = [] then unat (memheap h) else fst (last pre) + snd (last pre) + 1) (unat (maxaddr h)) post"
        using k'(2) fs blocks_append by metis
      then have c: "8 \<le> m" "unat (memheap h) \<le> c" "blocks (c + m + 1) (unat (maxaddr h)) ps" "blocks (c + m + 1) (unat (maxaddr h)) ps"
        using cm blocks_bytes [OF k'(2), of c] fs by (auto simp: bytes_def split: if_splits)
      have "c \<le> a"
      proof (cases "(a, l) = (c, m)")
        case False
        then have "(a, l) \<in> set ps" using that cm by auto
        then have "a \<in> bytes ps" using x(4,5) by (intro bytesI [of a l]) auto
        then show ?thesis using blocks_bytes [OF c(3)] by fastforce
      qed simp
      moreover have "unat q0 = c" using q0(3) cm by simp
      ultimately show ?thesis using x pn c(2) k'(3) by (auto simp: word_less_nat_alt)
    qed
    show ?thesis
    proof (cases pre rule: rev_cases)
      case Nil
      then show ?thesis using post x(1) fs by simp
    next
      case (snoc ps al)
      obtain a0 l0 where al: "al = (a0, l0)" by fastforce
      have "blocks (unat (memheap h)) (unat (maxaddr h)) (ps @ (a0, l0) # post)" using k'(2) fs snoc al by simp
      note bl = blocks_last [OF this]
      obtain p0 where p0: "unat p0 = a0" "unat (mem h (p0 + 4)) = l0" using q0(2) snoc al by (auto simp: lseg_append)
      have "in_heap h (p0 + 4)" by (rule block_access(5) [OF p0(1) bl(7,4,3,6) k'(3)])
      moreover have "?prev = Some p0" using snoc al p0(1) by auto
      moreover have "unat (p0 + mem h (p0 + 4)) = a0 + l0" using p0 bl(6) hi_bound [of h] by (simp add: unat_word_ariths)
      moreover have "a0 + l0 > ?b" if "(a, l) \<notin> set post"
      proof -
        have "(a0, l0) \<in> set (takeWhile (\<lambda>(a, l). a < ?b) fs)" unfolding pp(1) [symmetric] snoc al by simp
        then have "a0 < ?b" using set_takeWhileD by fastforce
        moreover have "(a, l) = (a0, l0) \<or> a + l < a0" using that x(1) fs snoc al bl(9) by fastforce
        ultimately show ?thesis using x by auto
      qed
      ultimately show ?thesis using post by (auto simp: ld_def word_less_nat_alt)
    qed
  qed
  then obtain tp where tp: "(case ?prev of None \<Rightarrow> Some 0 | Some p \<Rightarrow> do { l \<leftarrow> ld (p + 4) h; Some (p + l) }) = Some tp"
      "tp > p \<or> (q0 \<noteq> 0 \<and> p + ?n > q0)" by blast
  have "0 \<noteq> nbytes" "\<not> p < memheap h" "\<not> p > maxaddr h" using n b(1,2) by auto
  then show ?thesis unfolding memfree_def Let_def using q0(1) tp by simp
qed

section \<open>Allocating and freeing again\<close>

lemma put_first_fit:
  assumes "blocks lo hi fs" "first_fit n fs = Some (a, gs)" "8 dvd n" "8 \<le> n"
  shows "put_block a n gs = fs"
  using assms
proof (induction fs arbitrary: lo gs)
  case (Cons x fs)
  obtain b l where x: "x = (b, l)" by fastforce
  have bl: "lo \<le> b" "8 \<le> l" "blocks (b + l + 1) hi fs" using Cons.prems(1) x by auto
  consider "l = n" | "n < l" | "l < n" by linarith
  then show ?case
  proof cases
    case 1
    then have e: "a = b" "gs = fs" using Cons.prems(2) x by auto
    show ?thesis
    proof (cases fs)
      case (Cons y ys)
      then show ?thesis using e 1 x bl(3) by (cases y) auto
    qed (use e 1 x in simp)
  next
    case 2
    then show ?thesis using Cons.prems(2) x by auto
  next
    case 3
    then obtain gs' where g: "first_fit n fs = Some (a, gs')" "gs = (b, l) # gs'" using Cons.prems(2) x by auto
    have "b + l + 1 \<le> a" using blocks_first_fit(2) [OF bl(3) g(1) Cons.prems(3,4)] .
    then show ?thesis using Cons.IH [OF bl(3) g(1) Cons.prems(3,4)] g(2) x by simp
  qed
qed simp

text \<open>\<^verbatim>\<open>memfree\<close> undoes \<^verbatim>\<open>memget\<close>: the free list is the one from before.\<close>

lemma memget_memfree:
  assumes k: "heap_ok h fs" and n: "0 < nbytes" "unat nbytes \<le> 4294967288" and g: "memget nbytes h = Some (p, h1)" "p \<noteq> SYSERR_u"
  shows "\<exists>h2. memfree p nbytes h1 = Some (OK, h2) \<and> heap_ok h2 fs"
proof -
  let ?n = "roundmb nbytes"
  have bl: "blocks (unat (memheap h)) (unat (maxaddr h)) fs" using k by (simp add: heap_ok_def)
  have n': "8 dvd unat ?n" "8 \<le> unat ?n" using roundmb_dvd roundmb_pos [OF n] by auto
  obtain a gs where ff: "first_fit (unat ?n) fs = Some (a, gs)"
    using memget_ok [OF k n] g by (cases "first_fit (unat ?n) fs") auto
  then have m: "unat p = a" "heap_ok h1 gs" "same_layout h h1" using memget_ok [OF k n] g by auto
  note bf = blocks_first_fit [OF bl ff n']
  have "\<exists>h2. memfree p nbytes h1 = Some (OK, h2) \<and> heap_ok h2 (put_block (unat p) (unat ?n) gs)"
    using memfree_ok [OF m(2) n, of p] bf m(1,3) by (fastforce simp: same_layout_def)
  then show ?thesis using put_first_fit [OF bl ff n'] m(1) by simp
qed

section \<open>Stacks\<close>

text \<open>The scan of \<^verbatim>\<open>stkget\<close> finds the last block that is large enough.\<close>

lemma stkget_loop_none:
  assumes "links h p fs" "blocks lo (unat (maxaddr h)) fs" "unat (memheap h) \<le> lo" "0 < memheap h"
    "\<forall>(a, l)\<in>set fs. l < unat n"
  shows "stkget_loop n prev p f fp h = Some (f, fp)"
  using assms
proof (induction fs arbitrary: p lo prev)
  case Nil
  then show ?case by (simp add: stkget_loop.simps)
next
  case (Cons x fs)
  obtain a l where x: "x = (a, l)" by fastforce
  have p: "unat p = a" "unat (mem h (p + 4)) = l" "links h (mem h p) fs" using Cons.prems(1) x by auto
  have ac: "p \<noteq> 0" "in_heap h p" "in_heap h (p + 4)" "blocks (a + l + 1) (unat (maxaddr h)) fs" "unat (memheap h) \<le> a + l + 1"
    using block_access [of p a h l] p Cons.prems x by auto
  have "stkget_loop n prev p f fp h = stkget_loop n (Some p) (mem h p) f fp h"
    using ac(1-3) p(2) Cons.prems(5) x by (subst stkget_loop.simps) (simp add: ld_def word_le_nat_alt)
  then show ?case using Cons.IH [OF p(3) ac(4,5) Cons.prems(4)] Cons.prems(5) by simp
qed

lemma stkget_loop_find:
  assumes "links h p (pre @ (a, l) # post)" "blocks lo (unat (maxaddr h)) (pre @ (a, l) # post)" "unat (memheap h) \<le> lo"
    "0 < memheap h" "unat n \<le> l" "\<forall>(a, l)\<in>set post. l < unat n"
  shows "stkget_loop n prev p f fp h = Some (of_nat a, if pre = [] then prev else Some (of_nat (fst (last pre))))"
  using assms
proof (induction pre arbitrary: p lo prev f fp)
  case Nil
  have p: "unat p = a" "unat (mem h (p + 4)) = l" "links h (mem h p) post" using Nil.prems(1) by auto
  have ac: "p \<noteq> 0" "in_heap h p" "in_heap h (p + 4)" "blocks (a + l + 1) (unat (maxaddr h)) post" "unat (memheap h) \<le> a + l + 1"
    using block_access [of p a h l] p Nil.prems by auto
  have "stkget_loop n prev p f fp h = stkget_loop n (Some p) (mem h p) p prev h"
    using ac(1-3) p(2) Nil.prems(5) by (subst stkget_loop.simps) (simp add: ld_def word_le_nat_alt)
  moreover have "of_nat a = p" using p(1) by auto
  ultimately show ?case using stkget_loop_none [OF p(3) ac(4,5) Nil.prems(4,6)] by simp
next
  case (Cons x pre)
  obtain b m where x: "x = (b, m)" by fastforce
  have p: "unat p = b" "unat (mem h (p + 4)) = m" "links h (mem h p) (pre @ (a, l) # post)" using Cons.prems(1) x by auto
  have ac: "p \<noteq> 0" "in_heap h p" "in_heap h (p + 4)" "blocks (b + m + 1) (unat (maxaddr h)) (pre @ (a, l) # post)" "unat (memheap h) \<le> b + m + 1"
    using block_access [of p b h m] p Cons.prems x by auto
  have e: "of_nat b = p" using p(1) by auto
  have "stkget_loop n prev p f fp h = (if mem h (p + 4) \<ge> n then stkget_loop n (Some p) (mem h p) p prev h
      else stkget_loop n (Some p) (mem h p) f fp h)"
    using ac(1-3) by (subst stkget_loop.simps) (simp add: ld_def)
  then show ?case
    using Cons.IH [OF p(3) ac(4,5) Cons.prems(4,5,6), of "Some p"] x e by simp
qed

lemma last_fit_split:
  "last_fit n fs = Some (a, gs) \<Longrightarrow> \<exists>pre b l post. fs = pre @ (b, l) # post \<and> n \<le> l \<and> (\<forall>(a, l)\<in>set post. l < n) \<and>
     a = b + (l - n) \<and> gs = pre @ (if l = n then post else (b, l - n) # post)"
proof (induction fs arbitrary: gs)
  case (Cons x fs)
  obtain c m where x: "x = (c, m)" by fastforce
  have small: "last_fit n fs = None \<Longrightarrow> \<forall>(a, l)\<in>set fs. l < n" for fs
    by (induction fs) (auto split: option.splits if_splits)
  show ?case
  proof (cases "last_fit n fs")
    case None
    then show ?thesis using Cons.prems x small [OF None]
      by (intro exI [of _ "[]"] exI [of _ c] exI [of _ m] exI [of _ fs]) (auto split: if_splits)
  next
    case (Some bg)
    then obtain gs' where g: "last_fit n fs = Some (a, gs')" "gs = x # gs'" using Cons.prems x by (cases bg) auto
    obtain pre b l post where "fs = pre @ (b, l) # post" "n \<le> l" "\<forall>(a, l)\<in>set post. l < n"
        "a = b + (l - n)" "gs' = pre @ (if l = n then post else (b, l - n) # post)"
      using Cons.IH [OF g(1)] by blast
    then show ?thesis using g(2) by (intro exI [of _ "x # pre"] exI [of _ b] exI [of _ l] exI [of _ post]) simp
  qed
qed simp

lemma last_fit_none: "last_fit n fs = None \<Longrightarrow> \<forall>(a, l)\<in>set fs. l < n"
  by (induction fs) (auto split: option.splits if_splits)

lemma stkget_exact:
  assumes l: "links h (memlist_next h) (pre @ (b, l) # post)" and sz: "blocks (unat (memheap h)) (unat (maxaddr h)) (pre @ (b, l) # post)" "0 < memheap h"
    and p: "p = of_nat b" "prev = (if pre = [] then None else Some (of_nat (fst (last pre))))"
  shows "\<exists>h'. do { n \<leftarrow> ld p h; set_next prev n h } = Some h' \<and> links h' (memlist_next h') (pre @ post) \<and> same_layout h h' \<and>
    memlist_length h' = memlist_length h \<and> (\<forall>x. unat x \<notin> bytes pre \<longrightarrow> mem h' x = mem h x)"
proof -
  note bl = blocks_last [OF sz(1)]
  obtain q where q: "lseg h (memlist_next h) pre q" "unat q = b" "links h (mem h q) post" using l by (auto simp: lseg_append)
  have e: "p = q" using p(1) q(2) by auto
  have ac: "in_heap h q" by (rule block_access(4) [OF q(2) bl(7,4,3,6) sz(2)])
  have up: "unat x \<notin> bytes pre" if "unat x \<in> bytes post" for x
  proof
    assume "unat x \<in> bytes pre"
    then have "unat x < b" using bl(9) by (fastforce simp: bytes_def)
    then show False using blocks_bytes [OF bl(2) that] by simp
  qed
  show ?thesis
  proof (cases pre rule: rev_cases)
    case Nil
    let ?h = "h\<lparr>memlist_next := mem h q\<rparr>"
    have "links ?h (mem h q) post" by (rule links_frame [OF q(3) bl(2) hi_bound]) simp
    then show ?thesis using Nil p(2) e ac by (intro exI [of _ ?h]) (simp add: ld_def set_next_def same_layout_def)
  next
    case (snoc ps al)
    obtain a0 l0 where al: "al = (a0, l0)" by fastforce
    obtain p0 where p0: "lseg h (memlist_next h) ps p0" "unat p0 = a0" "unat (mem h (p0 + 4)) = l0"
      using q(1) snoc al by (auto simp: lseg_append)
    have prev: "prev = Some p0" using p(2) snoc al p0(2) by auto
    have "blocks (unat (memheap h)) (unat (maxaddr h)) (ps @ (a0, l0) # (b, l) # post)" using sz(1) snoc al by simp
    note b0 = blocks_last [OF this]
    have a0: "in_heap h p0" "p0 + 4 \<noteq> p0" using block_access [OF p0(2) b0(7,4,3,6) sz(2)] by auto
    have pin: "unat p0 \<in> bytes pre" by (rule bytesI [of a0 l0]) (use snoc al p0(2) b0(3) in auto)
    let ?h = "h\<lparr>mem := (mem h)(p0 := mem h q)\<rparr>"
    have "lseg ?h (memlist_next h) ps p0"
    proof (rule lseg_frame [OF p0(1)])
      have "unat p0 \<notin> bytes ps" using b0(8) p0(2) by auto
      then show "\<forall>x. unat x \<in> bytes ps \<longrightarrow> mem ?h x = mem h x" by auto
    qed (use blocks_sized [OF sz(1) hi_bound] snoc in auto)
    moreover have "links ?h (mem h q) post"
      by (rule links_frame [OF q(3) bl(2) hi_bound]) (use up pin in auto)
    ultimately have "links ?h (memlist_next ?h) (pre @ post)" using snoc al p0(2,3) a0(2) by (auto simp: lseg_append)
    then show ?thesis using prev e ac a0(1) pin
      by (intro exI [of _ ?h]) (auto simp: ld_def set_next_def st_def same_layout_def)
  qed
qed

lemma stkget_cut:
  assumes l: "links h (memlist_next h) (pre @ (b, l) # post)" and sz: "blocks (unat (memheap h)) (unat (maxaddr h)) (pre @ (b, l) # post)" "0 < memheap h"
    and p: "p = of_nat b" and n: "unat n < l"
  shows "mem h (p + 4) = of_nat l" "\<exists>h'. st (p + 4) (of_nat l - n) h = Some h' \<and> links h' (memlist_next h') (pre @ (b, l - unat n) # post) \<and>
    same_layout h h' \<and> memlist_length h' = memlist_length h \<and> (\<forall>x. unat x \<notin> {b..<b + 8} \<longrightarrow> mem h' x = mem h x)"
    "in_heap h p" "in_heap h (p + 4)" "p \<noteq> 0"
proof -
  note bl = blocks_last [OF sz(1)]
  obtain q where q: "lseg h (memlist_next h) pre q" "unat q = b" "unat (mem h (q + 4)) = l" "links h (mem h q) post"
    using l by (auto simp: lseg_append)
  have e: "p = q" using p q(2) by auto
  note ac = block_access [OF q(2) bl(7,4,3,6) sz(2)]
  show "mem h (p + 4) = of_nat l" "in_heap h p" "in_heap h (p + 4)" "p \<noteq> 0" using q(3) e ac by auto
  let ?h = "h\<lparr>mem := (mem h)(q + 4 := of_nat l - n)\<rparr>"
  have out: "mem ?h x = mem h x" if "unat x \<notin> {b..<b + 8}" for x using that ac(2) by auto
  have len: "unat (of_nat l - n) = l - unat n"
  proof -
    have ol: "of_nat l = mem h (q + 4)" using q(3) by auto
    have "n \<le> mem h (q + 4)" using n q(3) by (simp add: word_le_nat_alt)
    then show ?thesis unfolding ol using q(3) by (simp add: unat_sub)
  qed
  have "lseg ?h (memlist_next h) pre q"
  proof (rule lseg_frame [OF q(1)])
    show "\<forall>x. unat x \<in> bytes pre \<longrightarrow> mem ?h x = mem h x"
    proof (intro allI impI)
      fix x :: u32 assume "unat x \<in> bytes pre"
      then have "unat x \<notin> {b..<b + 8}" using bl(8) by blast
      then show "mem ?h x = mem h x" by (rule out)
    qed
  qed (use blocks_sized [OF sz(1) hi_bound] in auto)
  moreover have "links ?h (mem h q) post"
  proof (rule links_frame [OF q(4) bl(2) hi_bound])
    show "\<forall>x. unat x \<in> bytes post \<longrightarrow> mem ?h x = mem h x"
    proof (intro allI impI)
      fix x :: u32 assume "unat x \<in> bytes post"
      then have "b + l < unat x" using blocks_bytes [OF bl(2)] by fastforce
      then show "mem ?h x = mem h x" using out [of x] bl(3) by auto
    qed
  qed
  ultimately have "links ?h (memlist_next ?h) (pre @ (b, l - unat n) # post)"
    using q(2) len ac(3) by (auto simp: lseg_append)
  then show "\<exists>h'. st (p + 4) (of_nat l - n) h = Some h' \<and> links h' (memlist_next h') (pre @ (b, l - unat n) # post) \<and>
    same_layout h h' \<and> memlist_length h' = memlist_length h \<and> (\<forall>x. unat x \<notin> {b..<b + 8} \<longrightarrow> mem h' x = mem h x)"
    using e ac(5) out by (intro exI [of _ ?h]) (simp add: st_def same_layout_def)
qed

lemma last_fit_props:
  assumes "blocks lo hi (pre @ (b, l) # post)" "n \<le> l" "8 dvd n" "8 \<le> n"
  shows "blocks lo hi (pre @ (if l = n then post else (b, l - n) # post))"
    "bytes (pre @ (if l = n then post else (b, l - n) # post)) = bytes (pre @ (b, l) # post) - {b + (l - n)..<b + l}"
proof -
  note bl = blocks_last [OF assms(1)]
  have pre: "blocks lo hi pre" "blocks (if pre = [] then lo else fst (last pre) + snd (last pre) + 1) hi ((b, l) # post)"
    using assms(1) by (simp_all add: blocks_append)
  have l8: "8 \<le> l - n" "8 dvd l - n" if "l \<noteq> n" using that assms(2,3) bl(5) by presburger+
  show "blocks lo hi (pre @ (if l = n then post else (b, l - n) # post))"
  proof (cases "l = n")
    case True
    have "blocks (if pre = [] then lo else fst (last pre) + snd (last pre) + 1) hi post"
      by (rule blocks_mono [OF bl(2)]) (use pre(2) in simp)
    then show ?thesis using pre(1) True by (simp add: blocks_append)
  next
    case False
    have "blocks (b + (l - n) + 1) hi post" by (rule blocks_mono [OF bl(2)]) simp
    moreover have "b + (l - n) \<le> hi" using bl(6) by linarith
    ultimately show ?thesis using pre l8 [OF False] False by (simp add: blocks_append del: diff_is_0_eq)
  qed
  have B: "bytes (xs @ ys) = bytes xs \<union> bytes ys" for xs ys by (auto simp: bytes_def)
  have d: "bytes pre \<inter> {b + (l - n)..<b + l} = {}"
    using bl(9) by (fastforce simp: bytes_def)
  have d2: "bytes post \<inter> {b + (l - n)..<b + l} = {}" using blocks_bytes [OF bl(2)] by fastforce
  have i: "{b..<b + l} - {b + (l - n)..<b + l} = {b..<b + (l - n)}" by auto
  show "bytes (pre @ (if l = n then post else (b, l - n) # post)) = bytes (pre @ (b, l) # post) - {b + (l - n)..<b + l}"
    unfolding B using d d2 i by (cases "l = n") (simp_all add: Un_Diff Diff_triv)
qed

lemma last_fit_sum:
  "n \<le> l \<Longrightarrow> (\<Sum>(a, l)\<leftarrow>pre @ (if l = n then post else (b, l - n) # post). l) + n = (\<Sum>(a, l)\<leftarrow>pre @ (b, l) # post. l)"
  for n l :: nat
  by simp

text \<open>\<^verbatim>\<open>stkget\<close> takes the top of the last block that is large enough.\<close>

lemma stkget_ok:
  assumes k: "heap_ok h fs" and n: "0 < nbytes" "unat nbytes \<le> 4294967288"
  shows "case last_fit (unat (roundmb nbytes)) fs of
      None \<Rightarrow> stkget nbytes h = Some (SYSERR_u, h)
    | Some (a, gs) \<Rightarrow> \<exists>h' r. stkget nbytes h = Some (r, h') \<and> unat r = a + unat (roundmb nbytes) - 4 \<and>
        a + unat (roundmb nbytes) \<le> unat (maxaddr h) \<and> unat (memheap h) \<le> a \<and> 8 dvd a \<and>
        heap_ok h' gs \<and> same_layout h h' \<and> {a..<a + unat (roundmb nbytes)} \<subseteq> bytes fs \<and>
        bytes gs = bytes fs - {a..<a + unat (roundmb nbytes)} \<and>
        (\<forall>x. unat x \<notin> bytes fs \<longrightarrow> mem h' x = mem h x)"
proof -
  let ?n = "roundmb nbytes"
  have k': "links h (memlist_next h) fs" "blocks (unat (memheap h)) (unat (maxaddr h)) fs" "0 < memheap h"
      "unat (memlist_length h) = (\<Sum>(a, l)\<leftarrow>fs. l)"
    using k by (auto simp: heap_ok_def)
  have n': "8 dvd unat ?n" "8 \<le> unat ?n" using roundmb_dvd roundmb_pos [OF n] by auto
  have n0: "0 \<noteq> nbytes" using n(1) by auto
  show ?thesis
  proof (cases "last_fit (unat ?n) fs")
    case None
    then show ?thesis
      using stkget_loop_none [OF k'(1,2) order_refl k'(3) last_fit_none [OF None], of None 0 None] n0
      by (simp add: stkget_def Let_def)
  next
    case (Some ag)
    obtain a gs where ag: "ag = (a, gs)" by fastforce
    obtain pre b l post where f: "fs = pre @ (b, l) # post" "unat ?n \<le> l" "\<forall>(a, l)\<in>set post. l < unat ?n"
        "a = b + (l - unat ?n)" "gs = pre @ (if l = unat ?n then post else (b, l - unat ?n) # post)"
      using last_fit_split [OF Some [unfolded ag]] by blast
    note kf = k'(1,2) [unfolded f(1)] and bl = blocks_last [OF k'(2) [unfolded f(1)]]
    let ?p = "of_nat b :: u32" and ?prev = "if pre = [] then None else Some (of_nat (fst (last pre)) :: u32)"
    have lp: "stkget_loop ?n None (memlist_next h) 0 None h = Some (?p, ?prev)"
      using stkget_loop_find [OF kf order_refl k'(3) f(2,3), of None 0 None] by simp
    obtain q where q: "unat q = b" "unat (mem h (q + 4)) = l" using kf(1) by (auto simp: lseg_append)
    have e: "?p = q" using q(1) by auto
    note ac = block_access [OF q(1) bl(7,4,3,6) k'(3)]
    have lm: "mem h (q + 4) = of_nat l" using q(2) by auto
    have "\<exists>h1 r. stkget nbytes h = Some (r, h1\<lparr>memlist_length := memlist_length h1 - ?n\<rparr>) \<and> unat r = a + unat ?n - 4 \<and>
        links h1 (memlist_next h1) gs \<and> same_layout h h1 \<and> memlist_length h1 = memlist_length h \<and>
        (\<forall>x. unat x \<notin> bytes fs \<longrightarrow> mem h1 x = mem h x)"
    proof (cases "l = unat ?n")
      case True
      obtain h1 where h1: "do { n \<leftarrow> ld q h; set_next ?prev n h } = Some h1" "links h1 (memlist_next h1) (pre @ post)"
          "same_layout h h1" "memlist_length h1 = memlist_length h" "\<forall>x. unat x \<notin> bytes pre \<longrightarrow> mem h1 x = mem h x"
        using stkget_exact [OF kf k'(3) e [symmetric] refl] by blast
      have "mem h (q + 4) = ?n" using True q(2) by (metis unsigned_word_eqI)
      then have "stkget nbytes h = Some (q + ?n - 4, h1\<lparr>memlist_length := memlist_length h1 - ?n\<rparr>)"
        using n0 lp e ac(1,5) h1(1) by (auto simp: stkget_def Let_def ld_def bind_Some_iff split: if_splits)
      moreover have "unat (q + ?n - 4) = a + unat ?n - 4"
        using q(1) True f(4) bl(3,6) n'(2) hi_bound [of h] by (simp add: unat_sub unat_word_ariths word_le_nat_alt)
      moreover have "bytes pre \<subseteq> bytes fs" using f(1) by (auto simp: bytes_def)
      ultimately show ?thesis using h1 f(5) True by (intro exI [of _ h1] exI [of _ "q + ?n - 4"]) auto
    next
      case False
      then have lt: "unat ?n < l" using f(2) by simp
      obtain h1 where h1: "st (q + 4) (of_nat l - ?n) h = Some h1" "links h1 (memlist_next h1) (pre @ (b, l - unat ?n) # post)"
          "same_layout h h1" "memlist_length h1 = memlist_length h" "\<forall>x. unat x \<notin> {b..<b + 8} \<longrightarrow> mem h1 x = mem h x"
        using stkget_cut(2) [OF kf k'(3) e [symmetric] lt] by blast
      have ne: "?n \<noteq> of_nat l" using False lm q(2) by auto
      have run: "stkget nbytes h = Some (q + (of_nat l - ?n) + ?n - 4, h1\<lparr>memlist_length := memlist_length h1 - ?n\<rparr>)"
        using n0 lp e ac(1,5) h1(1) lm ne by (simp add: stkget_def Let_def ld_def)
      moreover have "unat (q + (of_nat l - ?n) + ?n - 4) = a + unat ?n - 4"
      proof -
        have "unat (q + mem h (q + 4)) = b + l" using q bl(6) hi_bound [of h] by (simp add: unat_word_ariths)
        then have "unat (q + of_nat l - 4) = b + l - 4"
          unfolding lm using bl(3) by (simp add: unat_sub word_le_nat_alt)
        then show ?thesis using f(2,4) by (simp add: algebra_simps)
      qed
      moreover have "mem h1 x = mem h x" if "unat x \<notin> bytes fs" for x
      proof -
        have "{b..<b + 8} \<subseteq> bytes fs" using f(1) bl(3) by (auto intro!: bytesI [of b l])
        then have "unat x \<notin> {b..<b + 8}" using that by blast
        then show ?thesis using h1(5) by simp
      qed
      ultimately show ?thesis using h1 f(5) False by (intro exI [of _ h1] exI [of _ "q + (of_nat l - ?n) + ?n - 4"]) auto
    qed
    then obtain h1 r where h1: "stkget nbytes h = Some (r, h1\<lparr>memlist_length := memlist_length h1 - ?n\<rparr>)" "unat r = a + unat ?n - 4"
        "links h1 (memlist_next h1) gs" "same_layout h h1" "memlist_length h1 = memlist_length h"
        "\<forall>x. unat x \<notin> bytes fs \<longrightarrow> mem h1 x = mem h x" by blast
    let ?h = "h1\<lparr>memlist_length := memlist_length h1 - ?n\<rparr>"
    have sum: "(\<Sum>(a, l)\<leftarrow>gs. l) + unat ?n = (\<Sum>(a, l)\<leftarrow>fs. l)"
      unfolding f(1,5) by (rule last_fit_sum [OF f(2)])
    then have "?n \<le> memlist_length h" using k'(4) by (simp add: word_le_nat_alt)
    then have "unat (memlist_length h - ?n) = (\<Sum>(a, l)\<leftarrow>gs. l)" using sum k'(4) by (simp add: unat_sub)
    then have "heap_ok ?h gs"
      using h1(3-5) last_fit_props(1) [OF kf(2) f(2) n'] k'(3) f(5) by (simp add: heap_ok_def same_layout_def)
    moreover have sub: "{a..<a + unat ?n} \<subseteq> bytes fs" using f(1,2,4) by (auto intro!: bytesI [of b l])
    moreover have "bytes gs = bytes fs - {a..<a + unat ?n}"
      using last_fit_props(2) [OF kf(2) f(2) n'] f(1,2,4,5) by simp
    moreover have "a + unat ?n \<le> unat (maxaddr h)" "unat (memheap h) \<le> a" "8 dvd a"
      using f(2,4) bl(4-7) n'(1) by auto
    ultimately show ?thesis using Some ag h1 by (auto simp: same_layout_def)
  qed
qed

lemma put_last_fit:
  assumes "blocks lo hi (pre @ (b, l) # post)" "n \<le> l" "8 \<le> n"
  shows "put_block (b + (l - n)) n (pre @ (if l = n then post else (b, l - n) # post)) = pre @ (b, l) # post"
proof -
  note bl = blocks_last [OF assms(1)]
  have skip: "\<forall>(a, m)\<in>set pre. a + m < b + (l - n)" using bl(9) by fastforce
  have j: "join_next b l post = (b, l) # post" using bl(2) by (cases post) auto
  show ?thesis
  proof (cases "l = n")
    case True
    have "post = [] \<or> b \<le> fst (hd post)" using bl(2) by (cases post) auto
    then show ?thesis using put_block_skip [OF skip] put_block_post [of post b n] j True by simp
  next
    case False
    then obtain d where "l = n + d" "0 < d" using assms(2) by (metis le_eq_less_or_eq less_imp_add_positive)
    then show ?thesis using put_block_skip [OF skip] j by (simp add: add.commute)
  qed
qed

lemma stkget_stkfree:
  assumes k: "heap_ok h fs" and n: "0 < nbytes" "unat nbytes \<le> 4294967288" and g: "stkget nbytes h = Some (p, h1)" "p \<noteq> SYSERR_u"
  shows "\<exists>h2. stkfree p nbytes h1 = Some (OK, h2) \<and> heap_ok h2 fs"
proof -
  let ?n = "roundmb nbytes"
  have bl: "blocks (unat (memheap h)) (unat (maxaddr h)) fs" using k by (simp add: heap_ok_def)
  have n': "8 dvd unat ?n" "8 \<le> unat ?n" using roundmb_dvd roundmb_pos [OF n] by auto
  obtain a gs where ff: "last_fit (unat ?n) fs = Some (a, gs)"
    using stkget_ok [OF k n] g by (cases "last_fit (unat ?n) fs") auto
  then have m: "unat p = a + unat ?n - 4" "heap_ok h1 gs" "same_layout h h1" "a + unat ?n \<le> unat (maxaddr h)"
      "unat (memheap h) \<le> a" "8 dvd a" "bytes gs = bytes fs - {a..<a + unat ?n}"
    using stkget_ok [OF k n] g by auto
  have rr: "roundmb ?n = ?n" by (rule roundmb_id [OF n'(1)])
  have pa: "unat (p - ?n + 4) = a"
  proof -
    have "p = of_nat (a + unat ?n - 4)" unfolding m(1) [symmetric] by simp
    also have "\<dots> = of_nat a + ?n - 4" using n'(2) by (simp add: of_nat_diff)
    finally have "p - ?n + 4 = of_nat a" by simp
    then show ?thesis using m(4) hi_bound [of h] by (simp add: unat_of_nat take_bit_eq_mod)
  qed
  have nn: "0 < ?n" "unat ?n \<le> 4294967288"
  proof -
    show "0 < ?n" using n'(2) by (simp add: word_less_nat_alt)
    have "unat ?n < 4294967296" using unsigned_less [of ?n, where ?'a = nat] by simp
    then show "unat ?n \<le> 4294967288" using n'(1) by presburger
  qed
  obtain h2 where "memfree (p - ?n + 4) ?n h1 = Some (OK, h2)" "heap_ok h2 (put_block a (unat ?n) gs)"
    using memfree_ok [OF m(2) nn, of "p - ?n + 4"] m(3-7) pa rr by (auto simp: same_layout_def)
  moreover have "put_block a (unat ?n) gs = fs"
    using last_fit_split [OF ff] put_last_fit [OF _ _ n'(2)] bl by fastforce
  ultimately show ?thesis by (auto simp: stkfree_def)
qed

section \<open>The allocator interface\<close>

text \<open>
  What the clients of the two allocators rely on.  \<open>repr s F\<close> is the abstraction to a free
  list, \<open>avail F\<close> the free addresses, \<open>region p n\<close> the addresses of the block that was asked
  for with size \<open>n\<close> and returned as \<open>p\<close>.
\<close>

locale allocator =
  fixes get :: "u32 \<Rightarrow> 's \<Rightarrow> (u32 \<times> 's) option"
    and put :: "u32 \<Rightarrow> u32 \<Rightarrow> 's \<Rightarrow> (int \<times> 's) option"
    and repr :: "'s \<Rightarrow> 'f \<Rightarrow> bool"
    and avail :: "'f \<Rightarrow> nat set"
    and region :: "u32 \<Rightarrow> u32 \<Rightarrow> nat set"
    and maxsize :: nat
  assumes get_law: "repr s F \<Longrightarrow> 0 < n \<Longrightarrow> unat n \<le> maxsize \<Longrightarrow>
      get n s = Some (SYSERR_u, s) \<or>
      (\<exists>p s' F'. get n s = Some (p, s') \<and> p \<noteq> SYSERR_u \<and> repr s' F' \<and> region p n \<subseteq> avail F \<and>
        avail F' = avail F - region p n)"
    and put_law: "repr s F \<Longrightarrow> 0 < n \<Longrightarrow> unat n \<le> maxsize \<Longrightarrow> get n s = Some (p, s') \<Longrightarrow> p \<noteq> SYSERR_u \<Longrightarrow>
      \<exists>s''. put p n s' = Some (OK, s'') \<and> repr s'' F"
begin

text \<open>Requests for the sizes \<open>ns\<close> in turn; a request that fails leaves no block.\<close>

fun get_all :: "u32 list \<Rightarrow> 's \<Rightarrow> ((u32 \<times> u32) list \<times> 's) option" where
  "get_all [] s = Some ([], s)"
| "get_all (n # ns) s = do {
     (p, s) \<leftarrow> get n s;
     (bs, s) \<leftarrow> get_all ns s;
     Some (if p = SYSERR_u then bs else (p, n) # bs, s)
   }"

lemma get_all_law:
  assumes "repr s F" "\<forall>n\<in>set ns. 0 < n \<and> unat n \<le> maxsize"
  shows "\<exists>bs s' F'. get_all ns s = Some (bs, s') \<and> repr s' F' \<and> avail F' = avail F - (\<Union>(p, n)\<in>set bs. region p n) \<and>
    (\<forall>(p, n)\<in>set bs. region p n \<subseteq> avail F) \<and> sorted_wrt (\<lambda>(p, n) (q, m). region p n \<inter> region q m = {}) bs"
  using assms
proof (induction ns arbitrary: s F)
  case Nil
  then show ?case by auto
next
  case (Cons n ns)
  have n: "0 < n" "unat n \<le> maxsize" and ns: "\<forall>n\<in>set ns. 0 < n \<and> unat n \<le> maxsize" using Cons.prems(2) by auto
  consider "get n s = Some (SYSERR_u, s)"
    | p s1 F1 where "get n s = Some (p, s1)" "p \<noteq> SYSERR_u" "repr s1 F1" "region p n \<subseteq> avail F" "avail F1 = avail F - region p n"
    using get_law [OF Cons.prems(1) n] by blast
  then show ?case
  proof cases
    case 1
    then show ?thesis using Cons.IH [OF Cons.prems(1) ns] by auto
  next
    case 2
    obtain bs s' F' where IH: "get_all ns s1 = Some (bs, s')" "repr s' F'" "avail F' = avail F1 - (\<Union>(p, n)\<in>set bs. region p n)"
        "\<forall>(p, n)\<in>set bs. region p n \<subseteq> avail F1" "sorted_wrt (\<lambda>(p, n) (q, m). region p n \<inter> region q m = {}) bs"
      using Cons.IH [OF 2(3) ns] by blast
    have "get_all (n # ns) s = Some ((p, n) # bs, s')" using 2(1,2) IH(1) by simp
    moreover have "avail F' = avail F - (\<Union>(p, n)\<in>set ((p, n) # bs). region p n)" using IH(3) 2(5) by auto
    moreover have "\<forall>(p, n)\<in>set ((p, n) # bs). region p n \<subseteq> avail F" using IH(4) 2(4,5) by auto
    moreover have "sorted_wrt (\<lambda>(p, n) (q, m). region p n \<inter> region q m = {}) ((p, n) # bs)" using IH(4,5) 2(5) by fastforce
    ultimately show ?thesis using IH(2) by blast
  qed
qed

end

lemma aligned_not_SYSERR:
  assumes "4 dvd unat p"
  shows "p \<noteq> SYSERR_u"
proof
  assume "p = SYSERR_u"
  then have "unat p = 4294967295" by (simp add: unsigned_minus_1_eq_mask mask_eq_exp_minus_1)
  then show False using assms by simp
qed

lemma dvd8_dvd4: "8 dvd (n::nat) \<Longrightarrow> 4 dvd n"
  by presburger

text \<open>The client's view of one block: it may write to the block as it likes, and freeing the block restores
  the free list.\<close>

lemma memget_client:
  assumes k: "heap_ok h fs" and n: "0 < nbytes" "unat nbytes \<le> 4294967288"
  shows "memget nbytes h = Some (SYSERR_u, h) \<or>
    (\<exists>p h' gs. memget nbytes h = Some (p, h') \<and> p \<noteq> SYSERR_u \<and> heap_ok h' gs \<and> same_layout h h' \<and>
      memheap h \<le> p \<and> 8 dvd unat p \<and> unat p + unat (roundmb nbytes) \<le> unat (maxaddr h) \<and>
      {unat p..<unat p + unat (roundmb nbytes)} \<inter> bytes gs = {} \<and>
      (\<forall>m. (\<forall>x. \<not> (unat p \<le> unat x \<and> unat x < unat p + unat (roundmb nbytes)) \<longrightarrow> m x = mem h' x) \<longrightarrow>
        heap_ok (h'\<lparr>mem := m\<rparr>) gs \<and> (\<exists>h2. memfree p nbytes (h'\<lparr>mem := m\<rparr>) = Some (OK, h2) \<and> heap_ok h2 fs)))"
proof (cases "first_fit (unat (roundmb nbytes)) fs")
  case None
  then show ?thesis using memget_ok [OF k n] by simp
next
  case (Some ag)
  let ?n = "unat (roundmb nbytes)"
  obtain a gs where ag: "ag = (a, gs)" by fastforce
  obtain h' p where h': "memget nbytes h = Some (p, h')" "unat p = a" "heap_ok h' gs" "same_layout h h'"
    using memget_ok [OF k n] Some ag by auto
  have n': "8 dvd ?n" "8 \<le> ?n" using roundmb_dvd roundmb_pos [OF n] by auto
  have bl: "blocks (unat (memheap h)) (unat (maxaddr h)) fs" using k by (simp add: heap_ok_def)
  note bf = blocks_first_fit [OF bl Some [unfolded ag] n']
  have dj: "{unat p..<unat p + ?n} \<inter> bytes gs = {}" using bf(6) h'(2) by auto
  have ne: "p \<noteq> SYSERR_u" using aligned_not_SYSERR [of p] dvd8_dvd4 bf(4) h'(2) by blast
  have lo: "memheap h \<le> p" using bf(2) h'(2) by (simp add: word_le_nat_alt)
  have "heap_ok (h'\<lparr>mem := m\<rparr>) gs \<and> (\<exists>h2. memfree p nbytes (h'\<lparr>mem := m\<rparr>) = Some (OK, h2) \<and> heap_ok h2 fs)"
    if m: "\<forall>x. \<not> (unat p \<le> unat x \<and> unat x < unat p + ?n) \<longrightarrow> m x = mem h' x" for m
  proof
    show hk: "heap_ok (h'\<lparr>mem := m\<rparr>) gs" by (rule heap_ok_frame [OF h'(3)]) (use m dj in \<open>auto simp: disjoint_iff\<close>)
    have "\<exists>h2. memfree p nbytes (h'\<lparr>mem := m\<rparr>) = Some (OK, h2) \<and> heap_ok h2 (put_block (unat p) ?n gs)"
      using memfree_ok [OF hk n, of p] bf(2-4) h'(2,4) dj by (fastforce simp: same_layout_def)
    then show "\<exists>h2. memfree p nbytes (h'\<lparr>mem := m\<rparr>) = Some (OK, h2) \<and> heap_ok h2 fs"
      using put_first_fit [OF bl Some [unfolded ag] n'] h'(2) by simp
  qed
  then show ?thesis
    using h' ne lo bf(3,4) dj by (intro disjI2 exI [of _ p] exI [of _ h'] exI [of _ gs]) simp
qed

interpretation mem_alloc: allocator memget memfree heap_ok bytes "\<lambda>p n. {unat p..<unat p + unat (roundmb n)}" 4294967288
proof
  fix h F n
  assume k: "heap_ok h F" and n: "0 < (n::u32)" "unat n \<le> 4294967288"
  have n': "8 dvd unat (roundmb n)" "8 \<le> unat (roundmb n)" using roundmb_dvd roundmb_pos [OF n] by auto
  show "memget n h = Some (SYSERR_u, h) \<or> (\<exists>p h' F'. memget n h = Some (p, h') \<and> p \<noteq> SYSERR_u \<and> heap_ok h' F' \<and>
      {unat p..<unat p + unat (roundmb n)} \<subseteq> bytes F \<and> bytes F' = bytes F - {unat p..<unat p + unat (roundmb n)})"
  proof (cases "first_fit (unat (roundmb n)) F")
    case None
    then show ?thesis using memget_ok [OF k n] by simp
  next
    case (Some ag)
    obtain a gs where ag: "ag = (a, gs)" by fastforce
    obtain h' p where h': "memget n h = Some (p, h')" "unat p = a" "heap_ok h' gs" using memget_ok [OF k n] Some ag by auto
    have "blocks (unat (memheap h)) (unat (maxaddr h)) F" using k by (simp add: heap_ok_def)
    note bf = blocks_first_fit [OF this Some [unfolded ag] n']
    show ?thesis using h' bf(4-6) aligned_not_SYSERR [of p] dvd8_dvd4 by blast
  qed
qed (rule memget_memfree)

interpretation stk_alloc: allocator stkget stkfree heap_ok bytes
  "\<lambda>p n. {unat p + 4 - unat (roundmb n)..<unat p + 4}" 4294967288
proof
  fix h F n
  assume k: "heap_ok h F" and n: "0 < (n::u32)" "unat n \<le> 4294967288"
  have n': "8 dvd unat (roundmb n)" "8 \<le> unat (roundmb n)" using roundmb_dvd roundmb_pos [OF n] by auto
  show "stkget n h = Some (SYSERR_u, h) \<or> (\<exists>p h' F'. stkget n h = Some (p, h') \<and> p \<noteq> SYSERR_u \<and> heap_ok h' F' \<and>
      {unat p + 4 - unat (roundmb n)..<unat p + 4} \<subseteq> bytes F \<and> bytes F' = bytes F - {unat p + 4 - unat (roundmb n)..<unat p + 4})"
  proof (cases "last_fit (unat (roundmb n)) F")
    case None
    then show ?thesis using stkget_ok [OF k n] by simp
  next
    case (Some ag)
    obtain a gs where ag: "ag = (a, gs)" by fastforce
    obtain h' p where h': "stkget n h = Some (p, h')" "unat p = a + unat (roundmb n) - 4" "heap_ok h' gs" "8 dvd a"
        "{a..<a + unat (roundmb n)} \<subseteq> bytes F" "bytes gs = bytes F - {a..<a + unat (roundmb n)}"
      using stkget_ok [OF k n] Some ag by auto
    have e: "unat p + 4 = a + unat (roundmb n)" using h'(2) n'(2) by simp
    have "4 dvd unat p" using e n'(1) h'(4) by presburger
    then show ?thesis using h' e aligned_not_SYSERR [of p] by (intro disjI2 exI [of _ p] exI [of _ h'] exI [of _ gs]) simp
  qed
qed (rule stkget_stkfree)

end
