(* ===== verification/Thread.thy ===== *)
theory Thread
  imports Message Semaphore Heap
begin

text \<open>
  The life of a thread: \<^verbatim>\<open>system/create.c\<close>, \<^verbatim>\<open>system/kill.c\<close>, \<^verbatim>\<open>system/userret.c\<close>,
  \<^verbatim>\<open>system/xdone.c\<close> and the ARM stack set-up
  (\<^verbatim>\<open>system/platforms/arm-rpi/setupStack.c\<close>, \<^verbatim>\<open>system/arch/arm/setupStack.c\<close>).
\<close>

section \<open>The initial stack\<close>

abbreviation (input) CONTEXT_WORDS :: nat where "CONTEXT_WORDS \<equiv> 15"
abbreviation (input) MAX_REG_ARGS :: u32 where "MAX_REG_ARGS \<equiv> 4"
abbreviation (input) ARM_MODE_SYS :: u32 where "ARM_MODE_SYS \<equiv> 0x1F"
abbreviation (input) ARM_F_BIT :: u32 where "ARM_F_BIT \<equiv> 0x40"

text \<open>A loop that stores consecutive words.\<close>

fun store_words :: "u32 \<Rightarrow> u32 list \<Rightarrow> heap \<Rightarrow> heap option" where
  "store_words a [] h = Some h"
| "store_words a (v # vs) h = do { h \<leftarrow> st a v h; store_words (a + 4) vs h }"

text \<open>
  \<open>ap\<close> lists the arguments that \<^verbatim>\<open>va_arg\<close> yields; reading past its end is undefined.  \<open>fpu\<close>
  holds the words the platform puts in front of the context record (\<^verbatim>\<open>fpexc\<close>, \<^verbatim>\<open>fpscr\<close>),
  and \<open>fw\<close> is \<^verbatim>\<open>FPU_WORDS\<close>: 34 with a floating point unit, else 0.
\<close>

definition setupStack :: "nat \<Rightarrow> u32 list \<Rightarrow> u32 \<Rightarrow> u32 \<Rightarrow> u32 \<Rightarrow> u32 \<Rightarrow> u32 list \<Rightarrow> heap \<Rightarrow> (u32 \<times> heap) option" where
  "setupStack fw fpu stackaddr procaddr retaddr nargs ap h =
     (let (spilled, reg, saddr) =
        (if nargs > MAX_REG_ARGS
         then (nargs - MAX_REG_ARGS, MAX_REG_ARGS, stackaddr - 4 * (nargs - MAX_REG_ARGS))
         else (0, nargs, stackaddr));
          saddr = (if saddr AND 4 \<noteq> 0 then saddr - 4 else saddr);
          saddr = saddr - 4 * of_nat (CONTEXT_WORDS + fw);
          word = (\<lambda>i. saddr + 4 * of_nat i)
      in if length ap < unat nargs then None
         else do {
           h \<leftarrow> store_words saddr fpu h;
           h \<leftarrow> store_words (word fw) (take (unat reg) ap) h;
           h \<leftarrow> store_words (word (unat reg + fw)) (replicate (CONTEXT_WORDS + fw - 3 - unat reg) 0) h;
           h \<leftarrow> store_words (word (CONTEXT_WORDS + fw - 3)) [ARM_MODE_SYS OR ARM_F_BIT, retaddr, procaddr] h;
           h \<leftarrow> store_words (word (CONTEXT_WORDS + fw)) (take (unat spilled) (drop (unat reg) ap)) h;
           Some (saddr, h)
         })"

definition setupStack_arm :: "u32 \<Rightarrow> u32 \<Rightarrow> u32 \<Rightarrow> u32 \<Rightarrow> u32 list \<Rightarrow> heap \<Rightarrow> (u32 \<times> heap) option" where
  "setupStack_arm = setupStack 0 []"

section \<open>Creating a thread\<close>

fun thrnew_scan :: "nat \<Rightarrow> 'a kernel_scheme \<Rightarrow> (int option \<times> 'a kernel_scheme) option" where
  "thrnew_scan 0 s = Some (None, s)"
| "thrnew_scan (Suc n) s = do {
     let nx = (nexttid s + 1) mod NTHREAD;
     let s = s\<lparr>nexttid := nx\<rparr>;
     t \<leftarrow> thread s nx;
     if tstate t = THRFREE then Some (Some nx, s) else thrnew_scan n s
   }"

definition thrnew :: "'a kernel_scheme \<Rightarrow> (int \<times> 'a kernel_scheme) option" where
  "thrnew s = do {
     (r, s) \<leftarrow> thrnew_scan (nat NTHREAD) s;
     Some (case r of None \<Rightarrow> SYSERR | Some t \<Rightarrow> t, s)
   }"

text \<open>\<open>setup\<close> is the platform's \<^verbatim>\<open>setupStack\<close>, \<open>initret\<close> the address of \<^verbatim>\<open>userret\<close>.\<close>

definition create ::
  "(u32 \<Rightarrow> u32 \<Rightarrow> u32 \<Rightarrow> u32 \<Rightarrow> u32 list \<Rightarrow> heap \<Rightarrow> (u32 \<times> heap) option) \<Rightarrow> u32 \<Rightarrow>
   u32 \<Rightarrow> u32 \<Rightarrow> int \<Rightarrow> string \<Rightarrow> u32 \<Rightarrow> u32 list \<Rightarrow> 'a kernel_scheme \<Rightarrow> (int \<times> 'a kernel_scheme) option" where
  "create setup initret procaddr ssize priority name nargs ap s = do {
     let ssize = (if ssize < MINSTK then MINSTK else ssize);
     (saddr, h) \<leftarrow> stkget ssize (kheap s);
     if saddr = SYSERR_u then Some (SYSERR, s\<lparr>kheap := h\<rparr>)
     else do {
       (tid, s) \<leftarrow> thrnew (s\<lparr>kheap := h\<rparr>);
       if tid = SYSERR
       then do {
         (_, h) \<leftarrow> stkfree saddr ssize (kheap s);
         Some (SYSERR, s\<lparr>kheap := h\<rparr>)
       }
       else do {
         n \<leftarrow> c_int (thrcount s + 1);
         let s = s\<lparr>thrcount := n\<rparr>;
         s \<leftarrow> set_thread tid (\<lambda>t. t\<lparr>tstate := THRSUSP, prio := priority, stkbase := saddr, stklen := ssize,
              tname := take (TNMLEN - 1) name, parent := gettid s, hasmsg := False,
              tmem_next := 0, tmem_length := 0, fdesc := [CONSOLE, CONSOLE, CONSOLE, SERIAL0, SERIAL0]\<rparr>) s;
         (sp, h) \<leftarrow> setup saddr procaddr initret nargs ap (kheap s);
         s \<leftarrow> set_thread tid (stkptr_update (\<lambda>_. sp)) (s\<lparr>kheap := h\<rparr>);
         Some (tid, s)
       }
     }
   }"

section \<open>Killing a thread\<close>

text \<open>
  The outcome of \<^verbatim>\<open>kill\<close>: it returns, it gives up the processor (the remaining statements are
  \<open>kill_finish\<close>, run when the caller is dispatched again), or \<^verbatim>\<open>xdone\<close> halts the machine.
\<close>

datatype outcome = Return int | Switched | Halted

definition kill_free :: "int \<Rightarrow> 'a kernel_scheme \<Rightarrow> (outcome \<times> 'a kernel_scheme) option" where
  "kill_free tid s = do {
     s \<leftarrow> set_thread tid (tstate_update (\<lambda>_. THRFREE)) s;
     Some (Return OK, s)
   }"

definition kill_ready :: "int \<Rightarrow> 'a kernel_scheme \<Rightarrow> (outcome \<times> 'a kernel_scheme) option" where
  "kill_ready tid s = do { (_, s) \<leftarrow> getitem tid s; kill_free tid s }"

definition kill_wait :: "int \<Rightarrow> 'a kernel_scheme \<Rightarrow> (outcome \<times> 'a kernel_scheme) option" where
  "kill_wait tid s = do {
     t \<leftarrow> thread s tid;
     e \<leftarrow> sem_ent s (uint (tsem t));
     c \<leftarrow> c_int (count e + 1);
     s \<leftarrow> set_sem (uint (tsem t)) (count_update (\<lambda>_. c)) s;
     kill_ready tid s
   }"

text \<open>
  A thread that frees itself is never dispatched again, so its call does not get past
  \<^verbatim>\<open>resched\<close>, unless rescheduling is deferred; then the code falls through to the next cases.
\<close>

definition kill_finish :: "int \<Rightarrow> 'a kernel_scheme \<Rightarrow> (outcome \<times> 'a kernel_scheme) option" where
  "kill_finish tid s = do {
     t \<leftarrow> thread s tid;
     (_, h) \<leftarrow> stkfree (stkbase t) (stklen t) (kheap s);
     let s = s\<lparr>kheap := h\<rparr>;
     case tstate t of
       THRSLEEP \<Rightarrow> do { (_, s) \<leftarrow> unsleep tid s; kill_free tid s }
     | THRCURR \<Rightarrow> do {
         s \<leftarrow> set_thread tid (tstate_update (\<lambda>_. THRFREE)) s;
         (_, s') \<leftarrow> resched s;
         if resdefer s > 0 then kill_wait tid s' else Some (Switched, s')
       }
     | THRWAIT \<Rightarrow> kill_wait tid s
     | THRREADY \<Rightarrow> kill_ready tid s
     | _ \<Rightarrow> kill_free tid s
   }"

definition kill :: "int \<Rightarrow> 'a kernel_scheme \<Rightarrow> (outcome \<times> 'a kernel_scheme) option" where
  "kill tid s =
     (if isbadtid s tid \<or> NULLTHREAD = tid then Some (Return SYSERR, s)
      else do {
        t \<leftarrow> thread s tid;
        n \<leftarrow> c_int (thrcount s - 1);
        let s = s\<lparr>thrcount := n\<rparr>;
        if n \<le> 1 then Some (Halted, s)
        else do {
          (_, s') \<leftarrow> send (parent t) tid s;
          if thrcurrent s' = thrcurrent s then kill_finish tid s' else Some (Switched, s')
        }
      })"

definition userret :: "'a kernel_scheme \<Rightarrow> (outcome \<times> 'a kernel_scheme) option" where
  "userret s = kill (gettid s) s"

section \<open>The stack holds the context\<close>

lemma store_words_ok:
  assumes "unat a + 4 * length vs \<le> unat (maxaddr h)" "memheap h \<le> a" "4 dvd unat a"
  shows "\<exists>m. store_words a vs h = Some (h\<lparr>mem := m\<rparr>) \<and>
    (\<forall>i<length vs. m (a + 4 * of_nat i) = vs ! i) \<and>
    (\<forall>x. \<not> (unat a \<le> unat x \<and> unat x < unat a + 4 * length vs) \<longrightarrow> m x = mem h x)"
  using assms
proof (induction vs arbitrary: a h)
  case Nil
  then show ?case by (intro exI [of _ "mem h"]) simp
next
  case (Cons v vs)
  have b: "unat a + 4 + 4 * length vs \<le> unat (maxaddr h)" "unat (maxaddr h) < 4294967296"
    using Cons.prems(1) hi_bound [of h] by auto
  have a4: "unat (a + 4) = unat a + 4" using unat_plus4 [of a] b by simp
  let ?h = "h\<lparr>mem := (mem h)(a := v)\<rparr>"
  have ih: "in_heap h a" using Cons.prems b by (simp add: in_heap_def)
  have "memheap ?h \<le> a + 4" "4 dvd unat (a + 4)" using Cons.prems a4 by (auto simp: word_le_nat_alt)
  then obtain m where m: "store_words (a + 4) vs ?h = Some (?h\<lparr>mem := m\<rparr>)" "\<forall>i<length vs. m (a + 4 + 4 * of_nat i) = vs ! i"
      "\<forall>x. \<not> (unat (a + 4) \<le> unat x \<and> unat x < unat (a + 4) + 4 * length vs) \<longrightarrow> m x = mem ?h x"
    using Cons.IH [of "a + 4" ?h] a4 b by auto
  have "m a = v" using m(3) a4 by auto
  moreover have "m (a + 4 * of_nat i) = (v # vs) ! i" if "i < length (v # vs)" for i
  proof (cases i)
    case 0
    then show ?thesis using \<open>m a = v\<close> by simp
  next
    case (Suc j)
    then show ?thesis using m(2) that by (simp add: algebra_simps)
  qed
  moreover have "m x = mem h x" if "\<not> (unat a \<le> unat x \<and> unat x < unat a + 4 * length (v # vs))" for x
    using m(3) that a4 by auto
  ultimately show ?case using m(1) ih by (auto simp: st_def)
qed

lemma store_words_append:
  "store_words a (vs @ ws) h = do { h \<leftarrow> store_words a vs h; store_words (a + 4 * of_nat (length vs)) ws h }"
proof (induction vs arbitrary: a h)
  case (Cons v vs)
  have "a + 4 + 4 * of_nat (length vs) = a + 4 * of_nat (length (v # vs))" by (simp add: algebra_simps)
  then show ?case using Cons.IH [of "a + 4"] by (cases "st a v h") (simp_all add: add.assoc)
qed simp

text \<open>The words of the context record and the spilled arguments behind it.\<close>

definition context_words :: "u32 \<Rightarrow> u32 \<Rightarrow> u32 list \<Rightarrow> u32 list" where
  "context_words procaddr retaddr args = take 4 args @ replicate (12 - length (take 4 args)) 0 @
     [ARM_MODE_SYS OR ARM_F_BIT, retaddr, procaddr] @ drop 4 args"

lemma length_context_words: "length (context_words p r args) = 15 + (length args - 4)"
  by (simp add: context_words_def)

definition stack_top :: "u32 \<Rightarrow> nat \<Rightarrow> u32" where
  "stack_top stackaddr n = (let a = stackaddr - 4 * of_nat (n - 4) in (if a AND 4 \<noteq> 0 then a - 4 else a) - 60)"

lemma setupStack_words:
  assumes "length ap = unat nargs"
  shows "setupStack_arm stackaddr procaddr retaddr nargs ap h = do {
    h \<leftarrow> store_words (stack_top stackaddr (length ap)) (context_words procaddr retaddr ap) h;
    Some (stack_top stackaddr (length ap), h) }"
proof (cases "nargs > MAX_REG_ARGS")
  case True
  have n4: "unat (4::u32) = 4" by simp
  from True have n: "4 < length ap" "unat (nargs - 4) = length ap - 4" "of_nat (length ap - 4) = nargs - 4"
    using assms by (auto simp: word_less_nat_alt unat_sub word_le_nat_alt of_nat_diff)
  then show ?thesis
    using True assms n4
    by (simp add: setupStack_arm_def setupStack_def stack_top_def context_words_def store_words_append Let_def algebra_simps
        del: unsigned_numeral)
next
  case False
  then have n: "length ap \<le> 4" using assms by (simp add: word_less_nat_alt)
  then have "12 - min (length ap) 4 = 12 - length ap" "take 4 ap = ap" by simp_all
  then show ?thesis
    using False assms n by (simp add: setupStack_arm_def setupStack_def stack_top_def context_words_def store_words_append Let_def algebra_simps)
qed

lemma and_4_odd: "((a::u32) AND 4 \<noteq> 0) = odd (unat a div 4)"
proof -
  have "(a AND 2 ^ 2 = 0) = (\<not> bit a 2)" by (rule and_exp_eq_0_iff_not_bit)
  then have "(a AND 4 \<noteq> 0) = bit (unat a) 2" by (simp add: bit_unsigned_iff)
  then show ?thesis by (simp add: bit_iff_odd)
qed

lemma stack_top_unat:
  assumes "4 dvd unat stackaddr" "64 + 4 * (n - 4) \<le> unat stackaddr"
  shows "unat stackaddr - (64 + 4 * (n - 4)) \<le> unat (stack_top stackaddr n)"
    "unat (stack_top stackaddr n) + 60 + 4 * (n - 4) \<le> unat stackaddr" "8 dvd unat (stack_top stackaddr n) + 60"
proof -
  let ?a = "stackaddr - 4 * of_nat (n - 4)"
  have lt: "unat stackaddr < 4294967296" using unsigned_less [of stackaddr, where ?'a = nat] by simp
  have u4: "unat (4 * of_nat (n - 4) :: u32) = 4 * (n - 4)"
    using assms(2) lt by (simp add: unat_word_ariths unat_of_nat take_bit_eq_mod)
  have ua: "unat ?a = unat stackaddr - 4 * (n - 4)"
    using assms(2) u4 by (subst unat_sub) (simp_all add: word_le_nat_alt)
  have d: "4 dvd unat ?a" unfolding ua using assms(1) by (intro dvd_diff_nat) simp_all
  have round: "A - 4 \<le> A div 8 * 8 \<and> A div 8 * 8 \<le> A \<and> (odd (A div 4) \<longrightarrow> A - 4 = A div 8 * 8) \<and> (even (A div 4) \<longrightarrow> A = A div 8 * 8)"
    if d4: "4 dvd A" for A :: nat
  proof -
    obtain k where k: "A = 4 * k" using d4 by (auto simp: dvd_def)
    show ?thesis
    proof (cases "even k")
      case True
      then obtain j where "k = 2 * j" by blast
      then have "A = 8 * j" "A div 4 = 2 * j" using k by simp_all
      then show ?thesis by simp
    next
      case False
      then obtain j where "k = 2 * j + 1" using oddE by blast
      then have "A = 8 * j + 4" "A div 4 = 2 * j + 1" using k by simp_all
      then show ?thesis by simp
    qed
  qed
  have bit: "(?a AND 4 \<noteq> 0) = odd (unat ?a div 4)" by (rule and_4_odd)
  let ?b = "if ?a AND 4 \<noteq> 0 then ?a - 4 else ?a"
  define q where "q = unat ?a div 8 * 8"
  have q: "unat ?a - 4 \<le> q" "q \<le> unat ?a" "odd (unat ?a div 4) \<Longrightarrow> unat ?a - 4 = q" "even (unat ?a div 4) \<Longrightarrow> unat ?a = q" "8 dvd q"
    using round [OF d] by (auto simp: q_def)
  have a64: "64 \<le> unat ?a" using ua assms(2) by linarith
  then have "unat (?a - 4) = unat ?a - 4" by (subst unat_sub) (simp_all add: word_le_nat_alt)
  then have ub: "unat ?b = q" using bit q(3,4) by simp
  have "60 \<le> q" using q(1) a64 by linarith
  then have "unat (?b - 60) = q - 60" using ub by (subst unat_sub) (simp_all add: word_le_nat_alt)
  then have top: "unat (stack_top stackaddr n) + 60 = q" using \<open>60 \<le> q\<close> by (simp add: stack_top_def Let_def)
  show "unat stackaddr - (64 + 4 * (n - 4)) \<le> unat (stack_top stackaddr n)"
    "unat (stack_top stackaddr n) + 60 + 4 * (n - 4) \<le> unat stackaddr"
    using top ua q(1,2) assms(2) by linarith+
  show "8 dvd unat (stack_top stackaddr n) + 60" using top q(5) by simp
qed

text \<open>
  The new thread's stack pointer addresses the context record; the stack is 8-byte aligned once it is
  popped; nothing outside the stack is written.
\<close>

lemma setupStack_ok:
  assumes n: "length ap = unat nargs" and a: "4 dvd unat stackaddr" "unat stackaddr \<le> unat (maxaddr h)"
    and room: "unat (memheap h) + 64 + 4 * length ap \<le> unat stackaddr"
  shows "\<exists>sp m. setupStack_arm stackaddr procaddr retaddr nargs ap h = Some (sp, h\<lparr>mem := m\<rparr>) \<and>
    (\<forall>i<length (context_words procaddr retaddr ap). m (sp + 4 * of_nat i) = context_words procaddr retaddr ap ! i) \<and>
    8 dvd unat sp + 60 \<and> unat stackaddr - (64 + 4 * length ap) \<le> unat sp \<and>
    unat sp + 4 * length (context_words procaddr retaddr ap) \<le> unat stackaddr \<and>
    (\<forall>x. \<not> (unat sp \<le> unat x \<and> unat x < unat stackaddr) \<longrightarrow> m x = mem h x)"
proof -
  let ?sp = "stack_top stackaddr (length ap)" and ?W = "context_words procaddr retaddr ap"
  have r: "64 + 4 * (length ap - 4) \<le> unat stackaddr" using room by linarith
  note st = stack_top_unat [OF a(1) r]
  have b: "unat ?sp + 4 * length ?W \<le> unat stackaddr" using st(2) by (simp add: length_context_words)
  have lo: "unat stackaddr - (64 + 4 * length ap) \<le> unat ?sp" using st(1) by linarith
  have p: "unat ?sp + 4 * length ?W \<le> unat (maxaddr h)" "memheap h \<le> ?sp" "4 dvd unat ?sp"
    using b a(2) lo room st(3) by (auto simp: word_le_nat_alt) presburger
  obtain m where "store_words ?sp ?W h = Some (h\<lparr>mem := m\<rparr>)" "\<forall>i<length ?W. m (?sp + 4 * of_nat i) = ?W ! i"
      "\<forall>x. \<not> (unat ?sp \<le> unat x \<and> unat x < unat ?sp + 4 * length ?W) \<longrightarrow> m x = mem h x"
    using store_words_ok [OF p] by blast
  then show ?thesis
    using setupStack_words [OF n] st(3) lo b by (intro exI [of _ ?sp] exI [of _ m]) auto
qed

section \<open>Creation\<close>

interpretation thr_slots: slot_table thrnew_scan nexttid "\<lambda>p s. s\<lparr>nexttid := p\<rparr>"
  "\<lambda>s i. tstate (thrtab s i) = THRFREE" NTHREAD
  by unfold_locales (simp_all add: bounds_simps)

lemma thrnew_ok:
  assumes "nexttid s \<in> tids"
  shows "if \<exists>t\<in>tids. tstate (thrtab s t) = THRFREE
    then \<exists>t\<in>tids. tstate (thrtab s t) = THRFREE \<and> thrnew s = Some (t, s\<lparr>nexttid := t\<rparr>)
    else thrnew s = Some (SYSERR, s)"
proof (cases "\<exists>t\<in>tids. tstate (thrtab s t) = THRFREE")
  case True
  then obtain t where "t \<in> tids" "tstate (thrtab s t) = THRFREE" "thrnew_scan (nat NTHREAD) s = Some (Some t, s\<lparr>nexttid := t\<rparr>)"
    using thr_slots.scan_complete [of s] assms by (auto split: if_splits)
  then show ?thesis using True by (auto simp: thrnew_def)
next
  case False
  then have "thrnew_scan (nat NTHREAD) s = Some (None, s)"
    using thr_slots.scan_complete [of s] assms by (auto split: if_splits)
  then show ?thesis using False by (auto simp: thrnew_def)
qed

text \<open>The thread table entry that \<^verbatim>\<open>create\<close> fills in.\<close>

abbreviation (input) new_entry :: "u32 \<Rightarrow> u32 \<Rightarrow> int \<Rightarrow> string \<Rightarrow> int \<Rightarrow> thrent \<Rightarrow> thrent" where
  "new_entry saddr ssize priority name par t \<equiv> t\<lparr>tstate := THRSUSP, prio := priority, stkbase := saddr, stklen := ssize,
     tname := take (TNMLEN - 1) name, parent := par, hasmsg := False,
     tmem_next := 0, tmem_length := 0, fdesc := [CONSOLE, CONSOLE, CONSOLE, SERIAL0, SERIAL0]\<rparr>"

lemma kinv_new_thread:
  assumes k: "kinv Q s" and t: "t \<in> tids" "tstate (thrtab s t) = THRFREE" and p: "INT_MIN < p" "p \<le> INT_MAX"
    and s': "quetab s' = quetab s" "semtab s' = semtab s" "readylist s' = readylist s" "sleepq s' = sleepq s"
      "thrcurrent s' = thrcurrent s" "resdefer s' = resdefer s" "\<forall>u. u \<noteq> t \<longrightarrow> thrtab s' u = thrtab s u"
      "tstate (thrtab s' t) = THRSUSP" "prio (thrtab s' t) = p" "tsem (thrtab s' t) = tsem (thrtab s t)"
  shows "kinv Q s'"
proof -
  let ?g = "s'\<lparr>thrtab := (thrtab s')(t := (thrtab s' t)\<lparr>tstate := THRFREE\<rparr>)\<rparr>"
  have pb: "INT_MIN < prio (thrtab s' u) \<and> prio (thrtab s' u) \<le> INT_MAX" if "u \<in> tids" for u
    using s'(7,9) p prio_bounds [OF kinv0D(5) [OF kinvD(1) [OF k]] that] by (cases "u = t") auto
  have g: "kinv Q ?g" by (rule kinv_cong [OF k]) (use s' t pb p prio_bounds [OF kinv0D(5) [OF kinvD(1) [OF k]]] in auto)
  have "t \<noteq> NULLTHREAD" using kinv0D(5) [OF kinvD(1) [OF k]] t(2) by (auto simp: inv_threads_def)
  then have "kinv0 Q (restate t THRSUSP (quetab ?g) ?g)"
    using kinv0_park [OF kinvD(1) [OF g] t(1)] by (simp add: home_def parked_def)
  then have "kinv0 Q s'"
    by (rule kinv0_cong) (use s' pb in auto)
  moreover have "t \<noteq> thrcurrent s" using t(2) kinvD(2) [OF k] by auto
  then have "tstate (thrtab s' (thrcurrent s')) = THRCURR" "resdefer s' = 0"
    using s'(5-7) kinvD(2,3) [OF k] by simp_all
  ultimately show ?thesis by (simp add: kinv_def)
qed

text \<open>
  A successful \<^verbatim>\<open>create\<close> allocates a stack, takes a free table entry and leaves the new thread
  suspended with its context record on the stack; if there is no free entry, the stack is given back.
\<close>

lemma create_ok:
  assumes k: "kinv Q s" and nt: "nexttid s \<in> tids" and h: "heap_ok (kheap s) fs"
    and p: "INT_MIN < priority" "priority \<le> INT_MAX" and c: "0 \<le> thrcount s" "thrcount s < INT_MAX"
    and sz: "sz = (if ssize < MINSTK then MINSTK else ssize)" "unat sz \<le> 4294967288"
    and n: "length ap = unat nargs" "4 * length ap + 68 \<le> unat sz"
  shows "\<exists>r s'. create setupStack_arm initret procaddr ssize priority name nargs ap s = Some (r, s') \<and> kinv Q s' \<and>
    (if r = SYSERR then heap_ok (kheap s') fs \<and> thrtab s' = thrtab s \<and> thrcount s' = thrcount s
     else r \<in> tids \<and> tstate (thrtab s r) = THRFREE \<and> thrcount s' = thrcount s + 1 \<and> (\<exists>gs. heap_ok (kheap s') gs) \<and>
       (\<exists>sb sp. thrtab s' = (thrtab s)(r := (new_entry sb sz priority name (thrcurrent s) (thrtab s r))\<lparr>stkptr := sp\<rparr>) \<and>
         (\<forall>i<length (context_words procaddr initret ap).
            mem (kheap s') (sp + 4 * of_nat i) = context_words procaddr initret ap ! i)))"
proof -
  let ?n = "roundmb sz" and ?c = "create setupStack_arm initret procaddr ssize priority name nargs ap s"
  have sz0: "0 < sz" using sz(1) by (cases "ssize < MINSTK") (auto simp: word_less_nat_alt)
  have n8: "8 dvd unat ?n" "unat sz \<le> unat ?n" using roundmb_dvd roundmb_ge(1) [OF sz(2)] by auto
  have kc: "kinv Q (s\<lparr>kheap := h\<rparr>)" for h
    by (rule kinv_cong [OF k]) (use prio_bounds [OF kinv0D(5) [OF kinvD(1) [OF k]]] in auto)
  note sk = stkget_ok [OF h sz0 sz(2)]
  show ?thesis
  proof (cases "last_fit (unat ?n) fs")
    case None
    then have "stkget sz (kheap s) = Some (SYSERR_u, kheap s)" using sk by simp
    then have "?c = Some (SYSERR, s)" using sz(1) by (simp add: create_def Let_def)
    then show ?thesis using k h by simp
  next
    case (Some ag)
    obtain a gs where ag: "ag = (a, gs)" by fastforce
    obtain h1 sb where sb: "stkget sz (kheap s) = Some (sb, h1)" "unat sb = a + unat ?n - 4" "a + unat ?n \<le> unat (maxaddr (kheap s))"
        "unat (memheap (kheap s)) \<le> a" "8 dvd a" "heap_ok h1 gs" "same_layout (kheap s) h1"
        "bytes gs = bytes fs - {a..<a + unat ?n}"
      using sk Some ag by auto
    have s4: "4 dvd unat sb" using sb(2,5) n8 n(2) by presburger
    have ne: "sb \<noteq> SYSERR_u" by (rule aligned_not_SYSERR [OF s4])
    let ?s1 = "s\<lparr>kheap := h1\<rparr>"
    show ?thesis
    proof (cases "\<exists>t\<in>tids. tstate (thrtab s t) = THRFREE")
      case False
      then have tn: "thrnew ?s1 = Some (SYSERR, ?s1)" using thrnew_ok [of ?s1] nt by auto
      obtain h2 where h2: "stkfree sb sz h1 = Some (OK, h2)" "heap_ok h2 fs"
        using stkget_stkfree [OF h sz0 sz(2) sb(1) ne] by blast
      have "?c = Some (SYSERR, s\<lparr>kheap := h2\<rparr>)"
        using sz(1) sb(1) ne tn h2(1) by (simp add: create_def Let_def)
      then show ?thesis using kc h2(2) by simp
    next
      case True
      then obtain t where t: "t \<in> tids" "tstate (thrtab s t) = THRFREE" "thrnew ?s1 = Some (t, ?s1\<lparr>nexttid := t\<rparr>)"
        using thrnew_ok [of ?s1] nt by auto
      have "unat (memheap h1) + 64 + 4 * length ap \<le> unat sb" "unat sb \<le> unat (maxaddr h1)"
        using sb(2-4,7) n(2) n8(2) by (auto simp: same_layout_def)
      then obtain sp m where sp: "setupStack_arm sb procaddr initret nargs ap h1 = Some (sp, h1\<lparr>mem := m\<rparr>)"
          "\<forall>i<length (context_words procaddr initret ap). m (sp + 4 * of_nat i) = context_words procaddr initret ap ! i"
          "unat sb - (64 + 4 * length ap) \<le> unat sp"
          "\<forall>x. \<not> (unat sp \<le> unat x \<and> unat x < unat sb) \<longrightarrow> m x = mem h1 x"
        using setupStack_ok [OF n(1) s4, of h1 procaddr initret] by blast
      have "heap_ok (h1\<lparr>mem := m\<rparr>) gs"
      proof (rule heap_ok_frame [OF sb(6)], intro allI impI)
        fix x :: u32 assume "unat x \<in> bytes gs"
        then have "\<not> (a \<le> unat x \<and> unat x < a + unat ?n)" using sb(8) by auto
        then have "\<not> (unat sp \<le> unat x \<and> unat x < unat sb)" using sp(3) sb(2) n(2) n8(2) by linarith
        then show "m x = mem h1 x" using sp(4) by simp
      qed
      moreover have "t \<noteq> SYSERR" "0 \<le> t" "t < NTHREAD" using t(1) by auto
      let ?s2 = "s\<lparr>kheap := h1\<lparr>mem := m\<rparr>, nexttid := t, thrcount := thrcount s + 1,
          thrtab := (thrtab s)(t := (new_entry sb sz priority name (thrcurrent s) (thrtab s t))\<lparr>stkptr := sp\<rparr>)\<rparr>"
      have "?c = Some (t, ?s2)"
        using sz(1) sb(1) ne t(3) c sp(1) \<open>t \<noteq> SYSERR\<close> \<open>0 \<le> t\<close> \<open>t < NTHREAD\<close>
        by (simp add: create_def Let_def bounds_simps gettid_def)
      moreover have "kinv Q ?s2" by (rule kinv_new_thread [OF k t(1,2) p]) simp_all
      ultimately show ?thesis using t(1,2) sp(2) \<open>t \<noteq> SYSERR\<close>
        by (intro exI [of _ t] exI [of _ ?s2]) (simp, blast)
    qed
  qed
qed

section \<open>Termination\<close>

lemma kinv_heap: "kinv Q s \<Longrightarrow> kinv Q (s\<lparr>kheap := h\<rparr>)"
  by (rule kinv_cong) (auto dest: prio_bounds [OF kinv0D(5) [OF kinvD(1)]])

lemma kinv_thrcount: "kinv Q s \<Longrightarrow> kinv Q (s\<lparr>thrcount := n\<rparr>)"
  by (rule kinv_cong) (auto dest: prio_bounds [OF kinv0D(5) [OF kinvD(1)]])

lemma kinvI0: "kinv0 Q s \<Longrightarrow> tstate (thrtab s (thrcurrent s)) = THRCURR \<Longrightarrow> resdefer s = 0 \<Longrightarrow> kinv Q s"
  by (simp add: kinv_def)

lemma kill_parked:
  assumes k: "kinv Q s" and t: "t \<in> tids" "t \<noteq> NULLTHREAD" "parked (tstate (thrtab s t))"
  shows "\<exists>s'. kill_free t s = Some (Return OK, s') \<and> kinv Q s' \<and> tstate (thrtab s' t) = THRFREE"
proof -
  let ?s = "restate t THRFREE (quetab s) s"
  have "t \<noteq> thrcurrent s" using t(3) kinvD(2) [OF k] by (auto simp: parked_def)
  then have "kinv Q ?s"
    using kinv0_park [OF kinvD(1) [OF k] t(1) home_parked [of s t, OF t(3)] t(2), of THRFREE] kinvD(2,3) [OF k]
    by (intro kinvI0) (simp_all add: parked_def)
  moreover have "kill_free t s = Some (Return OK, ?s)" using t(1) by (simp add: kill_free_def bounds_simps)
  ultimately show ?thesis by auto
qed

lemma kill_current:
  assumes k: "kinv Q s" and t: "thrcurrent s \<noteq> NULLTHREAD"
  shows "\<exists>Q' s'. resched (restate (thrcurrent s) THRFREE (quetab s) s) = Some (OK, s') \<and> kinv Q' s' \<and>
    tstate (thrtab s' (thrcurrent s)) = THRFREE"
proof -
  let ?s = "restate (thrcurrent s) THRFREE (quetab s) s"
  have "kinv0 Q ?s" by (rule kinv0_park [OF kinvD(1,4,5) [OF k] t]) (simp add: parked_def)
  then obtain Q' s' where r: "resched ?s = Some (OK, s')" "kinv Q' s'" "sched_frame ?s s'"
    using resched_ok kinvD(3) [OF k] by fastforce
  then show ?thesis using sched_frame_blocked [OF r(3), of "thrcurrent s"] by auto
qed

lemma kill_ready_ok:
  assumes k: "kinv Q s" and t: "t \<in> tids" "t \<noteq> NULLTHREAD" "tstate (thrtab s t) = THRREADY"
  shows "\<exists>Q' s'. kill_ready t s = Some (Return OK, s') \<and> kinv Q' s' \<and> tstate (thrtab s' t) = THRFREE"
proof -
  note k' = kinv0D [OF kinvD(1) [OF k]] and cf = config_okD [OF kinv0D(2) [OF kinvD(1) [OF k]]]
  have tin: "t \<in> set (Q (readylist s))" using inv_homesD [OF k'(3) cf(1)] t by (simp add: home_def)
  obtain qt where qt: "getitem t s = Some (t, s\<lparr>quetab := qt\<rparr>)"
      "allq qt (Q(readylist s := remove1 t (Q (readylist s))))" "\<forall>i. qkey (qt i) = keys s i"
    using getitem_ok [OF k'(1) cf(1) tin] by blast
  let ?s = "restate t THRFREE qt s"
  have "t \<noteq> thrcurrent s" using t(3) kinvD(2) [OF k] by auto
  then have "kinv (Q(readylist s := remove1 t (Q (readylist s)))) ?s"
    using kinv0_unready [OF kinvD(1) [OF k] tin t(2) _ qt(2,3), of THRFREE] kinvD(2,3) [OF k]
    by (intro kinvI0) (simp_all add: parked_def)
  moreover have "kill_ready t s = Some (Return OK, ?s)"
    using t(1) qt(1) by (simp add: kill_ready_def kill_free_def bounds_simps)
  ultimately show ?thesis by (intro exI conjI) auto
qed

lemma kill_wait_ok:
  assumes k: "kinv Q s" and t: "t \<in> tids" "t \<noteq> NULLTHREAD" "tstate (thrtab s t) = THRWAIT"
  shows "\<exists>Q' s'. kill_wait t s = Some (Return OK, s') \<and> kinv Q' s' \<and> tstate (thrtab s' t) = THRFREE"
proof -
  note k' = kinv0D [OF kinvD(1) [OF k]] and cf = config_okD [OF kinv0D(2) [OF kinvD(1) [OF k]]]
  let ?i = "uint (tsem (thrtab s t))" and ?q = "semqueue (semtab s (uint (tsem (thrtab s t))))"
  have i: "?i \<in> sids" using k'(5) t by (simp add: inv_threads_def)
  have tin: "t \<in> set (Q ?q)" using inv_homesD [OF k'(3) cf(4) [OF i]] t by (simp add: home_def)
  have "int (length (Q ?q)) = max 0 (- count (semtab s ?i))" using k'(4) i by (simp add: inv_sems_def)
  then have c: "count (semtab s ?i) < 0" using tin by (cases "Q ?q") auto
  let ?s1 = "recount ?i (count (semtab s ?i) + 1) s"
  have a: "allq (quetab ?s1) Q" using k'(1) by simp
  obtain qt where qt: "getitem t ?s1 = Some (t, ?s1\<lparr>quetab := qt\<rparr>)" "allq qt (Q(?q := remove1 t (Q ?q)))"
      "\<forall>i. qkey (qt i) = keys s i"
    using getitem_ok [OF a cf(4) [OF i] tin] by auto
  let ?s = "(restate t THRFREE qt s)\<lparr>semtab := (semtab s)(?i := (semtab s ?i)\<lparr>count := count (semtab s ?i) + 1\<rparr>)\<rparr>"
  have "kinv0 (Q(?q := remove1 t (Q ?q))) ?s"
    by (rule kinv0_sem_detach [OF kinvD(1) [OF k] i refl tin qt(2,3) _ refl]) (simp add: parked_def)
  moreover have "t \<noteq> thrcurrent s" using t(3) kinvD(2) [OF k] by auto
  ultimately have "kinv (Q(?q := remove1 t (Q ?q))) ?s" using kinvD(2,3) [OF k] by (intro kinvI0) simp_all
  moreover have "kill_wait t s = Some (Return OK, ?s1\<lparr>quetab := qt, thrtab := (thrtab s)(t := (thrtab s t)\<lparr>tstate := THRFREE\<rparr>)\<rparr>)"
    using t(1) i c count_lower [OF kinvD(1) [OF k] i] qt(1)
    by (simp add: kill_wait_def kill_ready_def kill_free_def bounds_simps)
  moreover have "?s1\<lparr>quetab := qt, thrtab := (thrtab s)(t := (thrtab s t)\<lparr>tstate := THRFREE\<rparr>)\<rparr> = ?s" by simp
  ultimately show ?thesis by (metis (no_types, lifting) fun_upd_same kernel.select_convs(3) kernel.surjective kernel.update_convs(3) thrent.select_convs(1) thrent.surjective thrent.update_convs(1))
qed

lemma kill_sleep_ok:
  assumes k: "kinv Q s" and t: "t \<in> tids" "t \<noteq> NULLTHREAD" "tstate (thrtab s t) = THRSLEEP"
  shows "\<exists>Q' s'. do { (_, s) \<leftarrow> unsleep t s; kill_free t s } = Some (Return OK, s') \<and> kinv Q' s' \<and> tstate (thrtab s' t) = THRFREE"
proof -
  have tm: "timed (tstate (thrtab s t))" using t(3) by (simp add: timed_def)
  obtain xs ys where Q: "Q (sleepq s) = xs @ t # ys" by (rule sleeper_split [OF kinvD(1) [OF k] t(1) tm])
  obtain qt where qt: "unlink_sleeper t s = Some (s\<lparr>quetab := qt\<rparr>)" "allq qt (Q(sleepq s := xs @ ys))"
     "\<forall>i\<in>set (xs @ ys). 0 \<le> qkey (qt i)" "(\<Sum>i\<leftarrow>xs @ ys. qkey (qt i)) \<le> INT_MAX"
     "\<forall>i\<in>set (Q (readylist s)). qkey (qt i) = keys s i"
    using sleeper_unlink [OF kinvD(1) [OF k] Q] by blast
  let ?s = "restate t THRFREE qt s"
  have "kinv0 (Q(sleepq s := xs @ ys)) ?s"
    by (rule kinv0_sleep_detach [OF kinvD(1) [OF k] Q qt(2,5,3,4)]) (simp add: parked_def)
  moreover have "t \<noteq> thrcurrent s" using t(3) kinvD(2) [OF k] by auto
  ultimately have "kinv (Q(sleepq s := xs @ ys)) ?s" using kinvD(2,3) [OF k] by (intro kinvI0) simp_all
  moreover have "do { (_, s) \<leftarrow> unsleep t s; kill_free t s } = Some (Return OK, ?s)"
    using t qt(1) by (simp add: unsleep_def kill_free_def isbadtid_def bounds_simps)
  ultimately show ?thesis by (intro exI conjI) auto
qed

text \<open>The second half of \<^verbatim>\<open>kill\<close> frees a thread in every state but \<^const>\<open>THRTMOUT\<close>.\<close>

lemma kill_finish_ok:
  assumes k: "kinv Q s" and t: "t \<in> tids" "t \<noteq> NULLTHREAD" "tstate (thrtab s t) \<noteq> THRTMOUT"
    and h: "stkfree (stkbase (thrtab s t)) (stklen (thrtab s t)) (kheap s) = Some (r, h)"
  shows "\<exists>Q' res s'. kill_finish t s = Some (res, s') \<and> kinv Q' s' \<and> tstate (thrtab s' t) = THRFREE"
proof -
  let ?s = "s\<lparr>kheap := h\<rparr>"
  have k1: "kinv Q ?s" by (rule kinv_heap [OF k])
  consider "parked (tstate (thrtab s t))" | "tstate (thrtab s t) = THRCURR" | "tstate (thrtab s t) = THRREADY"
    | "tstate (thrtab s t) = THRWAIT" | "tstate (thrtab s t) = THRSLEEP"
    using t(3) by (cases "tstate (thrtab s t)") (auto simp: parked_def)
  then show ?thesis
  proof cases
    case 1
    then obtain s' where "kill_free t ?s = Some (Return OK, s')" "kinv Q s'" "tstate (thrtab s' t) = THRFREE"
      using kill_parked [OF k1 t(1,2)] by auto
    moreover have "kill_finish t s = kill_free t ?s"
      using t(1) h 1 by (cases "tstate (thrtab s t)") (auto simp: kill_finish_def parked_def bounds_simps)
    ultimately show ?thesis by auto
  next
    case 2
    then have c: "t = thrcurrent s" using kinv0D(5) [OF kinvD(1) [OF k]] t(1) by (simp add: inv_threads_def)
    obtain Q' s' where "resched (restate t THRFREE (quetab ?s) ?s) = Some (OK, s')" "kinv Q' s'" "tstate (thrtab s' t) = THRFREE"
      using kill_current [OF k1] c t(2) by auto
    then show ?thesis using t(1) h 2 kinvD(3) [OF k] by (auto simp: kill_finish_def bounds_simps)
  next
    case 3
    then show ?thesis using kill_ready_ok [OF k1 t(1,2)] t(1) h by (auto simp: kill_finish_def bounds_simps)
  next
    case 4
    then show ?thesis using kill_wait_ok [OF k1 t(1,2)] t(1) h by (auto simp: kill_finish_def bounds_simps)
  next
    case 5
    then show ?thesis using kill_sleep_ok [OF k1 t(1,2)] t(1) h by (auto simp: kill_finish_def bounds_simps)
  qed
qed

end
