(* ===== verification/Init.thy ===== *)
theory Init
  imports Thread
begin

text \<open>
  System start: \<^verbatim>\<open>sysinit\<close> of \<^verbatim>\<open>system/initialize.c\<close> and \<^verbatim>\<open>clkinit\<close> of
  \<^verbatim>\<open>system/platforms/arm-rpi/dispatch.c\<close>, for the tables that the kernel state holds.  The
  device, network, USB and GPIO initialisations that \<^verbatim>\<open>sysinit\<close> calls afterwards touch none of
  them.
\<close>

section \<open>Operations\<close>

definition clkinit :: "'a kernel_scheme \<Rightarrow> 'a kernel_scheme option" where
  "clkinit s = do { (q, s) \<leftarrow> queinit s; Some (s\<lparr>sleepq := q, clkticks := 0\<rparr>) }"

text \<open>The loop over the semaphore table, from entry \<open>i\<close> on.\<close>

fun sem_init :: "nat \<Rightarrow> int \<Rightarrow> 'a kernel_scheme \<Rightarrow> 'a kernel_scheme option" where
  "sem_init 0 i s = Some s"
| "sem_init (Suc n) i s = do {
     s \<leftarrow> set_sem i (semstate_update (\<lambda>_. SFREE)) s;
     (q, s) \<leftarrow> queinit s;
     s \<leftarrow> set_sem i (semqueue_update (\<lambda>_. q)) s;
     sem_init n (i + 1) s
   }"

text \<open>The free list at start: one block from \<^verbatim>\<open>memheap\<close> to \<^verbatim>\<open>platform.maxaddr\<close>.\<close>

definition mem_init :: "heap \<Rightarrow> heap option" where
  "mem_init h = do {
     let h = h\<lparr>memheap := roundmb (memheap h), maxaddr := truncmb (maxaddr h)\<rparr>;
     let len = maxaddr h - memheap h;
     let h = h\<lparr>memlist_next := memheap h, memlist_length := len\<rparr>;
     h \<leftarrow> st (memheap h) 0 h;
     st (memheap h + 4) len h
   }"

text \<open>\<open>end\<close> is the linker symbol \<^verbatim>\<open>_end\<close>.\<close>

definition sysinit :: "u32 \<Rightarrow> 'a kernel_scheme \<Rightarrow> (int \<times> 'a kernel_scheme) option" where
  "sysinit end s = do {
     let s = s\<lparr>thrcount := 1\<rparr>;
     h \<leftarrow> mem_init (kheap s);
     let s = s\<lparr>kheap := h\<rparr>;
     let s = s\<lparr>thrtab := (\<lambda>i. if 0 \<le> i \<and> i < NTHREAD then (thrtab s i)\<lparr>tstate := THRFREE\<rparr> else thrtab s i)\<rparr>;
     s \<leftarrow> set_thread NULLTHREAD (\<lambda>t. t\<lparr>tstate := THRCURR, prio := 0, tname := ''prnull'', stkbase := end,
            stklen := memheap h - end, stkptr := 0, tmem_next := 0, tmem_length := 0\<rparr>) s;
     let s = s\<lparr>thrcurrent := NULLTHREAD\<rparr>;
     s \<leftarrow> sem_init (nat NSEM) 0 s;
     (q, s) \<leftarrow> queinit s;
     let s = s\<lparr>readylist := q\<rparr>;
     s \<leftarrow> clkinit s;
     Some (OK, s)
   }"

section \<open>The invariant holds after initialisation\<close>

definition fresh :: "(int \<Rightarrow> queent) \<Rightarrow> int \<Rightarrow> bool" where
  "fresh t q \<longleftrightarrow> qnext (t q) = q + 1 \<and> qprev (t (q + 1)) = q \<and> qkey (t q) = MAXKEY \<and> qkey (t (q + 1)) = MINKEY"

lemma fresh_isq: "fresh t q \<Longrightarrow> isq t q []"
  by (simp add: fresh_def isq_def)

lemma queinit_ok:
  assumes "nextqid s = q" "q \<in> queues"
  shows "\<exists>t. queinit s = Some (q, s\<lparr>nextqid := q + 2, quetab := t\<rparr>) \<and> fresh t q \<and>
    (\<forall>i. i \<noteq> q \<longrightarrow> i \<noteq> q + 1 \<longrightarrow> t i = quetab s i)"
  using assms queues_props [OF assms(2)]
  by (intro exI [of _ "(quetab s)
      (q := (quetab s q)\<lparr>qnext := q + 1, qprev := EMPTY, qkey := MAXKEY\<rparr>,
       q + 1 := (quetab s (q + 1))\<lparr>qnext := EMPTY, qprev := q, qkey := MINKEY\<rparr>)"])
    (simp add: queinit_def bounds_simps fresh_def)

lemma queinit_overrun: "nextqid s = NQENT \<Longrightarrow> queinit s = None"
  by (simp add: queinit_def set_quent_def)

lemma queinit_exhausted: "nextqid s > NQENT \<Longrightarrow> queinit s = Some (SYSERR, s)"
  by (simp add: queinit_def)

definition sem_free_from :: "int \<Rightarrow> int \<Rightarrow> (int \<Rightarrow> sement) \<Rightarrow> int \<Rightarrow> sement" where
  "sem_free_from i k tab j = (if i \<le> j \<and> j < k then (tab j)\<lparr>semstate := SFREE, semqueue := NTHREAD + 2 * j\<rparr> else tab j)"

lemma sem_init_ok:
  assumes "nextqid s = NTHREAD + 2 * i" "0 \<le> i" "i + int n \<le> NSEM" "\<forall>j. 0 \<le> j \<and> j < i \<longrightarrow> fresh (quetab s) (NTHREAD + 2 * j)"
  shows "\<exists>t. sem_init n i s = Some (s\<lparr>nextqid := NTHREAD + 2 * (i + int n), quetab := t,
        semtab := sem_free_from i (i + int n) (semtab s)\<rparr>) \<and>
    (\<forall>j. 0 \<le> j \<and> j < i + int n \<longrightarrow> fresh t (NTHREAD + 2 * j))"
  using assms
proof (induction n arbitrary: i s)
  case 0
  then have "sem_free_from i (i + int 0) (semtab s) = semtab s" by (auto simp: fun_eq_iff sem_free_from_def)
  then show ?case using 0 by (intro exI [of _ "quetab s"]) auto
next
  case (Suc n)
  let ?q = "NTHREAD + 2 * i"
  let ?s1 = "s\<lparr>semtab := (semtab s)(i := (semtab s i)\<lparr>semstate := SFREE\<rparr>)\<rparr>"
  have q: "?q \<in> queues" "nextqid ?s1 = ?q" using Suc.prems(1-3) by (auto simp: queues_def)
  obtain t where t: "queinit ?s1 = Some (?q, ?s1\<lparr>nextqid := ?q + 2, quetab := t\<rparr>)" "fresh t ?q"
      "\<forall>j. j \<noteq> ?q \<longrightarrow> j \<noteq> ?q + 1 \<longrightarrow> t j = quetab s j"
    using queinit_ok [OF q(2,1)] by auto
  let ?s2 = "s\<lparr>nextqid := ?q + 2, quetab := t, semtab := (semtab s)(i := (semtab s i)\<lparr>semstate := SFREE, semqueue := ?q\<rparr>)\<rparr>"
  have run: "sem_init (Suc n) i s = sem_init n (i + 1) ?s2"
    using Suc.prems(2,3) t(1) by (simp add: bounds_simps)
  have fr: "\<forall>j. 0 \<le> j \<and> j < i + 1 \<longrightarrow> fresh t (NTHREAD + 2 * j)"
  proof (intro allI impI)
    fix j assume j: "0 \<le> j \<and> j < i + 1"
    show "fresh t (NTHREAD + 2 * j)"
    proof (cases "j = i")
      case False
      then have "t (NTHREAD + 2 * j) = quetab s (NTHREAD + 2 * j)" "t (NTHREAD + 2 * j + 1) = quetab s (NTHREAD + 2 * j + 1)"
        using t(3) j by auto
      moreover have "fresh (quetab s) (NTHREAD + 2 * j)" using Suc.prems(4) j False by simp
      ultimately show ?thesis by (simp add: fresh_def)
    qed (use t(2) in simp)
  qed
  have e: "i + 1 + int n = i + int (Suc n)" by simp
  have sf: "sem_free_from (i + 1) (i + (1 + int n)) (semtab ?s2) = sem_free_from i (i + (1 + int n)) (semtab s)"
    by (auto simp: fun_eq_iff sem_free_from_def)
  have p: "nextqid ?s2 = NTHREAD + 2 * (i + 1)" "0 \<le> i + 1" "i + 1 + int n \<le> NSEM"
      "\<forall>j. 0 \<le> j \<and> j < i + 1 \<longrightarrow> fresh (quetab ?s2) (NTHREAD + 2 * j)"
    using Suc.prems(2,3) fr by simp_all
  obtain t' where IH: "sem_init n (i + 1) ?s2 = Some (?s2\<lparr>nextqid := NTHREAD + 2 * (i + 1 + int n), quetab := t',
        semtab := sem_free_from (i + 1) (i + 1 + int n) (semtab ?s2)\<rparr>)"
      "\<forall>j. 0 \<le> j \<and> j < i + 1 + int n \<longrightarrow> fresh t' (NTHREAD + 2 * j)"
    using Suc.IH [OF p] by blast
  show ?case
    unfolding run IH(1)
    by (intro exI [of _ t'] conjI) (use IH(2) e sf in \<open>simp_all add: add.assoc\<close>)
qed

text \<open>The allocator's list after start is one block.\<close>

lemma mem_init_ok:
  assumes "0 < memheap h" "unat (memheap h) \<le> 4294967288"
    "unat (roundmb (memheap h)) + 8 \<le> unat (truncmb (maxaddr h))"
  shows "\<exists>h'. mem_init h = Some h' \<and> memheap h' = roundmb (memheap h) \<and> maxaddr h' = truncmb (maxaddr h) \<and>
    heap_ok h' [(unat (roundmb (memheap h)), unat (truncmb (maxaddr h)) - unat (roundmb (memheap h)))]"
proof -
  define b where "b = roundmb (memheap h)"
  define m where "m = truncmb (maxaddr h)"
  have bm: "unat b + 8 \<le> unat m" using assms(3) by (simp add: b_def m_def)
  have d: "8 dvd unat b" "8 dvd unat m" by (simp_all add: b_def m_def roundmb_dvd unat_truncmb)
  have d4: "4 dvd unat b" using d(1) by presburger
  have m: "unat m < 4294967296" using unsigned_less [of m, where ?'a = nat] by simp
  have b4: "unat (b + 4) = unat b + 4" using bm m by (simp add: unat_word_ariths)
  have b0: "0 < b" using roundmb_pos [OF assms(1,2)] by (simp add: b_def word_less_nat_alt)
  have len: "unat (m - b) = unat m - unat b" using bm by (simp add: unat_sub word_le_nat_alt)
  have ne: "b + 4 \<noteq> b" by simp
  define h1 where "h1 = h\<lparr>memheap := b, maxaddr := m, memlist_next := b, memlist_length := m - b\<rparr>"
  have ih: "in_heap h1 b" "in_heap (h1\<lparr>mem := M\<rparr>) (b + 4)" for M
    using bm b4 d4 by (simp_all add: in_heap_def h1_def word_le_nat_alt)
  let ?h = "h1\<lparr>mem := (mem h1)(b := 0, b + 4 := m - b)\<rparr>"
  have run: "mem_init h = Some ?h"
    using ih(1) ih(2) [of "(mem h1)(b := 0)"]
    by (simp add: mem_init_def Let_def st_def h1_def b_def m_def)
  have "heap_ok ?h [(unat b, unat m - unat b)]"
    using b0 bm d len ne by (simp add: heap_ok_def h1_def)
  then show ?thesis using run by (intro exI [of _ ?h]) (simp add: h1_def b_def m_def)
qed

lemma kinv_initial:
  assumes fr: "\<forall>q\<in>queues. fresh (quetab s) q" and q: "readylist s = 300" "sleepq s = 302"
    and sems: "\<forall>i\<in>sids. semqueue (semtab s i) = NTHREAD + 2 * i \<and> count (semtab s i) = 0"
    and thr: "thrcurrent s = NULLTHREAD" "tstate (thrtab s NULLTHREAD) = THRCURR"
      "\<forall>t\<in>tids. t \<noteq> NULLTHREAD \<longrightarrow> tstate (thrtab s t) = THRFREE"
      "\<forall>t\<in>tids. prio (thrtab s t) = 0" "resdefer s = 0"
  shows "kinv (\<lambda>_. []) s"
proof -
  have st: "tstate (thrtab s t) = (if t = NULLTHREAD then THRCURR else THRFREE)" if "t \<in> tids" for t
    using thr(2,3) that by simp
  have home: "home s t = None" if "t \<in> tids" for t
    using st [OF that] by (simp add: home_def)
  have "allq (quetab s) (\<lambda>_. [])" using fr by (simp add: allq_def fresh_isq)
  moreover have "config_ok s" using q sems by (auto simp: config_ok_def queues_def inj_on_def)
  moreover have "inv_homes (\<lambda>_. []) s" using home by (simp add: inv_homes_def)
  moreover have "inv_sems (\<lambda>_. []) s" using sems by (simp add: inv_sems_def)
  moreover have "inv_threads s" using thr st by (simp add: inv_threads_def)
  moreover have "inv_ready (\<lambda>_. []) s" "inv_sleep (\<lambda>_. []) s" by (simp_all add: inv_ready_def inv_sleep_def)
  ultimately show ?thesis using thr by (simp add: kinv_def kinv0_def)
qed

text \<open>\<open>bss s\<close>: the kernel's tables as the loader leaves them, zero, and \<^verbatim>\<open>nextqid\<close> statically
  initialised to \<^verbatim>\<open>NTHREAD\<close>.\<close>

definition bss :: "'a kernel_scheme \<Rightarrow> bool" where
  "bss s \<longleftrightarrow> nextqid s = NTHREAD \<and> resdefer s = 0 \<and> (\<forall>i\<in>sids. count (semtab s i) = 0) \<and>
     (\<forall>t\<in>tids. prio (thrtab s t) = 0)"

lemma sysinit_kinv:
  assumes z: "bss s"
    and h: "0 < memheap (kheap s)" "unat (memheap (kheap s)) \<le> 4294967288"
      "unat (roundmb (memheap (kheap s))) + 8 \<le> unat (truncmb (maxaddr (kheap s)))"
  shows "\<exists>s'. sysinit end s = Some (OK, s') \<and> kinv (\<lambda>_. []) s' \<and> nextqid s' = NQENT \<and> thrcount s' = 1 \<and>
    heap_ok (kheap s') [(unat (roundmb (memheap (kheap s))), unat (truncmb (maxaddr (kheap s))) - unat (roundmb (memheap (kheap s))))]"
proof -
  obtain h' where h': "mem_init (kheap s) = Some h'" "memheap h' = roundmb (memheap (kheap s))"
      "heap_ok h' [(unat (roundmb (memheap (kheap s))), unat (truncmb (maxaddr (kheap s))) - unat (roundmb (memheap (kheap s))))]"
    using mem_init_ok [OF h] by blast
  define T where "T = (\<lambda>i. if 0 \<le> i \<and> i < NTHREAD then (thrtab s i)\<lparr>tstate := THRFREE\<rparr> else thrtab s i)"
  define n where "n = (T 0)\<lparr>tstate := THRCURR, prio := 0, tname := ''prnull'', stkbase := end,
            stklen := memheap h' - end, stkptr := 0, tmem_next := 0, tmem_length := 0\<rparr>"
  define s1 where "s1 = s\<lparr>thrcount := 1, kheap := h', thrtab := T(0 := n), thrcurrent := NULLTHREAD\<rparr>"
  have n1: "nextqid s1 = NTHREAD + 2 * 0" using z by (simp add: s1_def bss_def)
  have v: "\<forall>j. 0 \<le> j \<and> j < (0::int) \<longrightarrow> fresh (quetab s1) (NTHREAD + 2 * j)" by auto
  obtain t where t: "sem_init (nat NSEM) 0 s1 = Some (s1\<lparr>nextqid := NTHREAD + 2 * (0 + int (nat NSEM)), quetab := t,
        semtab := sem_free_from 0 (0 + int (nat NSEM)) (semtab s1)\<rparr>)"
      "\<forall>j. 0 \<le> j \<and> j < 0 + int (nat NSEM) \<longrightarrow> fresh t (NTHREAD + 2 * j)"
    using sem_init_ok [OF n1 _ _ v, of "nat NSEM"] by auto
  define s2 where "s2 = s1\<lparr>nextqid := 300, quetab := t, semtab := sem_free_from 0 100 (semtab s1)\<rparr>"
  have q: "300 \<in> queues" "302 \<in> queues" by (simp_all add: queues_def)
  obtain t2 where t2: "queinit s2 = Some (300, s2\<lparr>nextqid := 302, quetab := t2\<rparr>)" "fresh t2 300"
      "\<forall>i. i \<noteq> 300 \<longrightarrow> i \<noteq> 301 \<longrightarrow> t2 i = t i"
    using queinit_ok [of s2, OF _ q(1)] by (auto simp: s2_def)
  define s3 where "s3 = s2\<lparr>nextqid := 302, quetab := t2, readylist := 300\<rparr>"
  obtain t3 where t3: "queinit s3 = Some (302, s3\<lparr>nextqid := 304, quetab := t3\<rparr>)" "fresh t3 302"
      "\<forall>i. i \<noteq> 302 \<longrightarrow> i \<noteq> 303 \<longrightarrow> t3 i = t2 i"
    using queinit_ok [of s3, OF _ q(2)] by (auto simp: s3_def)
  define s4 where "s4 = s3\<lparr>nextqid := 304, quetab := t3, sleepq := 302, clkticks := 0\<rparr>"
  have run1: "sysinit end s = do {
     s \<leftarrow> sem_init (nat NSEM) 0 s1;
     (q, s) \<leftarrow> queinit s;
     let s = s\<lparr>readylist := q\<rparr>;
     s \<leftarrow> clkinit s;
     Some (OK, s) }"
    by (simp add: sysinit_def h'(1) s1_def n_def T_def bounds_simps cong: if_cong)
  have s2': "sem_init (nat NSEM) 0 s1 = Some s2" unfolding t(1) by (simp add: s2_def)
  have run: "sysinit end s = Some (OK, s4)"
    unfolding run1 s2' by (simp add: t2(1) Let_def flip: s3_def) (simp add: clkinit_def t3(1) s4_def)
  have fr: "\<forall>q\<in>queues. fresh t3 q"
  proof
    fix q assume "q \<in> queues"
    then obtain k where k: "q = 2 * k" "50 \<le> k" "k \<le> 151"
      by (auto simp: queues_def elim!: evenE)
    show "fresh t3 q"
    proof (cases "k = 151")
      case False
      then have "fresh t2 q"
      proof (cases "k = 150")
        case False
        then have "fresh t (NTHREAD + 2 * (k - 50))"
          using spec [OF t(2), of "k - 50"] \<open>k \<noteq> 151\<close> k False by simp
        then show ?thesis using t2(3) k False \<open>k \<noteq> 151\<close> by (simp add: fresh_def)
      qed (use t2(2) k in simp)
      then show ?thesis using t3(3) k False by (simp add: fresh_def)
    qed (use t3(2) k in simp)
  qed
  have "kinv (\<lambda>_. []) s4"
    by (rule kinv_initial)
      (use z fr in \<open>simp_all add: s4_def s3_def s2_def s1_def sem_free_from_def n_def T_def bss_def\<close>)
  then show ?thesis
    unfolding run using h'(3) by (intro exI [of _ s4]) (simp add: s4_def s3_def s2_def s1_def)
qed

end
