(* ===== verification/Kernel_Steps.thy ===== *)
theory Kernel_Steps
  imports Init
begin

text \<open>
  The kernel as a state machine: the system calls and the clock interrupt as the steps of an inductive
  reachability relation that starts at the state \<^verbatim>\<open>sysinit\<close> leaves.  Every reachable state satisfies the
  kernel invariant, and in every reachable state each call returns without undefined behaviour.
\<close>

section \<open>Steps\<close>

text \<open>The entry points.  \<open>KReceiveTake\<close> and \<open>KRecvtimeTake\<close> are the statements a receiver runs when it is
  dispatched again, \<open>KKillFinish\<close> those of \<^verbatim>\<open>kill\<close>.\<close>

datatype kcall =
    KReady int | KResume int | KSuspend int | KYield | KChprio int int
  | KWait u32 | KSignal u32 | KSignaln u32 int | KSemcreate int | KSemfree u32
  | KSleep u32 | KClock
  | KSend int int | KReceive | KRecvclr | KRecvtime int | KReceiveTake int | KRecvtimeTake int
  | KCreate u32 u32 u32 int string u32 "u32 list" | KKill int | KKillFinish int

fun kexec :: "kcall \<Rightarrow> kernel \<Rightarrow> kernel option" where
  "kexec (KReady t) s = map_option snd (ready t s)"
| "kexec (KResume t) s = map_option snd (resume t s)"
| "kexec (KSuspend t) s = map_option snd (suspend t s)"
| "kexec KYield s = map_option snd (yield s)"
| "kexec (KChprio t p) s = map_option snd (chprio t p s)"
| "kexec (KWait m) s = map_option snd (wait m s)"
| "kexec (KSignal m) s = map_option snd (signal m s)"
| "kexec (KSignaln m n) s = map_option snd (signaln m n s)"
| "kexec (KSemcreate n) s = map_option snd (semcreate n s)"
| "kexec (KSemfree m) s = map_option snd (semfree m s)"
| "kexec (KSleep ms) s = map_option snd (sleep ms s)"
| "kexec KClock s = clkhandler s"
| "kexec (KSend t m) s = map_option snd (send t m s)"
| "kexec KReceive s = map_option snd (receive s)"
| "kexec KRecvclr s = map_option snd (recvclr s)"
| "kexec (KRecvtime w) s = map_option snd (recvtime w s)"
| "kexec (KReceiveTake t) s = map_option snd (receive_take t s)"
| "kexec (KRecvtimeTake t) s = map_option snd (recvtime_take t s)"
| "kexec (KCreate initret p ssize pr n nargs ap) s = map_option snd (create setupStack_arm initret p ssize pr n nargs ap s)"
| "kexec (KKill t) s = map_option snd (kill t s)"
| "kexec (KKillFinish t) s = map_option snd (kill_finish t s)"

text \<open>
  What a call must respect: the null thread does not block, priorities are above the smallest
  integer, a semaphore count does not pass the largest one, \<^verbatim>\<open>ready\<close> gets a suspended thread, and a
  thread that waits with a time limit is not killed.
\<close>

fun kallowed :: "kcall \<Rightarrow> kernel \<Rightarrow> bool" where
  "kallowed (KReady t) s = (t \<in> tids \<and> tstate (thrtab s t) = THRSUSP)"
| "kallowed (KChprio t p) s = (INT_MIN < p \<and> p \<le> INT_MAX)"
| "kallowed (KWait m) s = (thrcurrent s \<noteq> NULLTHREAD)"
| "kallowed (KSignal m) s = (count (semtab s (uint m)) < INT_MAX)"
| "kallowed (KSignaln m n) s = (count (semtab s (uint m)) + n \<le> INT_MAX)"
| "kallowed (KSemcreate n) s = (n \<le> INT_MAX)"
| "kallowed (KSleep ms) s = (thrcurrent s \<noteq> NULLTHREAD)"
| "kallowed KReceive s = (thrcurrent s \<noteq> NULLTHREAD)"
| "kallowed (KRecvtime w) s = (thrcurrent s \<noteq> NULLTHREAD \<and> w \<le> INT_MAX)"
| "kallowed (KReceiveTake t) s = (t \<in> tids)"
| "kallowed (KRecvtimeTake t) s = (t \<in> tids)"
| "kallowed (KCreate initret p ssize pr n nargs ap) s = (INT_MIN < pr \<and> pr \<le> INT_MAX)"
| "kallowed (KKill t) s = (case send (parent (thrtab s t)) t (s\<lparr>thrcount := thrcount s - 1\<rparr>) of
     None \<Rightarrow> True | Some (_, s1) \<Rightarrow> tstate (thrtab s1 t) \<noteq> THRTMOUT)"
| "kallowed (KKillFinish t) s = (t \<in> tids \<and> t \<noteq> NULLTHREAD \<and> tstate (thrtab s t) \<noteq> THRTMOUT)"
| "kallowed _ s = True"

fun on_heap :: "kcall \<Rightarrow> bool" where
  \<comment> \<open>the calls whose result depends on the free memory list\<close>
  "on_heap (KCreate initret p ssize pr n nargs ap) = True"
| "on_heap (KKill t) = True"
| "on_heap (KKillFinish t) = True"
| "on_heap _ = False"

inductive reachable :: "kernel \<Rightarrow> kernel \<Rightarrow> bool" for s0 where
  start: "reachable s0 s0"
| step: "reachable s0 s \<Longrightarrow> kallowed c s \<Longrightarrow> kexec c s = Some s' \<Longrightarrow> reachable s0 s'"

section \<open>The search positions of the tables\<close>

definition roots :: "'a kernel_scheme \<Rightarrow> int \<times> int" where
  "roots s = (nextsem s, nexttid s)"

lemma roots_update [simp]:
  "roots (s\<lparr>quetab := a\<rparr>) = roots s" "roots (s\<lparr>thrtab := b\<rparr>) = roots s" "roots (s\<lparr>semtab := c\<rparr>) = roots s"
  "roots (s\<lparr>thrcurrent := d\<rparr>) = roots s" "roots (s\<lparr>resdefer := e\<rparr>) = roots s" "roots (s\<lparr>kheap := f\<rparr>) = roots s"
  "roots (s\<lparr>clktime := g\<rparr>) = roots s" "roots (s\<lparr>clkticks := h\<rparr>) = roots s" "roots (s\<lparr>thrcount := i\<rparr>) = roots s"
  by (simp_all add: roots_def)

lemma roots_set:
  "set_quent i f s = Some s' \<Longrightarrow> roots s' = roots s"
  "set_thread i g s = Some s' \<Longrightarrow> roots s' = roots s"
  "set_sem i h s = Some s' \<Longrightarrow> roots s' = roots s"
  by (auto simp: set_quent_def set_thread_def set_sem_def split: if_splits)

lemmas opt_simps = bind_Some_iff Let_def

lemma roots_queue:
  "enqueue t q s = Some (r, s') \<Longrightarrow> roots s' = roots s"
  "getitem t s = Some (r, s') \<Longrightarrow> roots s' = roots s"
  "insert_q t q k s = Some (r, s') \<Longrightarrow> roots s' = roots s"
  "insertd t q k s = Some (r, s') \<Longrightarrow> roots s' = roots s"
  by (auto simp: enqueue_def getitem_def insert_q_def insertd_def opt_simps split: if_splits dest!: roots_set)

lemma roots_getfirst: "getfirst q s = Some (r, s') \<Longrightarrow> roots s' = roots s"
  by (auto simp: getfirst_def opt_simps split: if_splits dest!: roots_queue)

lemma roots_dequeue: "dequeue q s = Some (r, s') \<Longrightarrow> roots s' = roots s"
  by (auto simp: dequeue_def opt_simps split: if_splits dest!: roots_set roots_getfirst)

lemma roots_make_ready: "make_ready t s = Some s' \<Longrightarrow> roots s' = roots s"
  by (auto simp: make_ready_def opt_simps dest!: roots_set roots_queue)

lemma roots_resched: "resched s = Some (r, s') \<Longrightarrow> roots s' = roots s"
  by (auto simp: resched_def opt_simps split: if_splits dest!: roots_set roots_queue roots_dequeue)

lemmas roots_base = roots_set roots_queue roots_dequeue roots_make_ready roots_resched

lemma roots_ready: "ready t s = Some (r, s') \<Longrightarrow> roots s' = roots s"
  by (auto simp: ready_def opt_simps split: if_splits dest!: roots_base)

lemma roots_sched:
  "resume t s = Some (r, s') \<Longrightarrow> roots s' = roots s"
  "suspend t s = Some (q, s') \<Longrightarrow> roots s' = roots s"
  "yield s = Some (r, s') \<Longrightarrow> roots s' = roots s"
  "chprio t p s = Some (r, s') \<Longrightarrow> roots s' = roots s"
  by (auto simp: resume_def suspend_def yield_def chprio_def opt_simps split: if_splits dest!: roots_base)

lemma roots_release: "release_waiter q s = Some s' \<Longrightarrow> roots s' = roots s"
  by (auto simp: release_waiter_def opt_simps split: if_splits dest!: roots_base)

lemma roots_signal_once: "signal_once m s = Some (b, s') \<Longrightarrow> roots s' = roots s"
  by (auto simp: signal_once_def opt_simps split: if_splits dest!: roots_base roots_release)

lemma roots_signaln_loop: "signaln_loop n m s = Some s' \<Longrightarrow> roots s' = roots s"
  by (induction n arbitrary: s) (auto simp: opt_simps dest!: roots_signal_once)

lemma roots_semfree_loop: "semfree_loop q s = Some s' \<Longrightarrow> roots s' = roots s"
  by (erule semfree_loop.raw_induct [of "\<lambda>q s s'. roots s' = roots s", rotated])
    (auto simp: opt_simps split: if_splits dest!: roots_release)

lemma roots_wakeup_loop: "wakeup_loop s = Some s' \<Longrightarrow> roots s' = roots s"
  by (erule wakeup_loop.raw_induct [of "\<lambda>s s'. roots s' = roots s", rotated])
    (auto simp: opt_simps split: if_splits dest!: roots_dequeue roots_ready)

lemma roots_sem:
  "wait m s = Some (r, s') \<Longrightarrow> roots s' = roots s"
  "signal m s = Some (r, s') \<Longrightarrow> roots s' = roots s"
  "signaln m n s = Some (r, s') \<Longrightarrow> roots s' = roots s"
  "semfree m s = Some (r, s') \<Longrightarrow> roots s' = roots s"
  by (auto simp: wait_def signal_def signaln_def semfree_def opt_simps split: if_splits
      dest!: roots_base roots_signal_once roots_signaln_loop roots_semfree_loop)

lemma roots_unlink: "unlink_sleeper t s = Some s' \<Longrightarrow> roots s' = roots s"
  by (auto simp: unlink_sleeper_def opt_simps split: if_splits dest!: roots_base)

lemma roots_clock:
  "sleep ms s = Some (r, s') \<Longrightarrow> roots s' = roots s"
  "unsleep t s = Some (r, s') \<Longrightarrow> roots s' = roots s"
  "wakeup s = Some s' \<Longrightarrow> roots s' = roots s"
  by (auto simp: sleep_def unsleep_def wakeup_def opt_simps split: if_splits
      dest!: roots_base roots_unlink roots_wakeup_loop)

lemma roots_clkhandler: "clkhandler s = Some s' \<Longrightarrow> roots s' = roots s"
  by (auto simp: clkhandler_def opt_simps split: if_splits dest!: roots_base roots_clock(3))

lemma roots_message:
  "send t m s = Some (r, s') \<Longrightarrow> roots s' = roots s"
  "receive_take t s = Some (r, s') \<Longrightarrow> roots s' = roots s"
  "recvtime_take t s = Some (r, s') \<Longrightarrow> roots s' = roots s"
  "recvclr s = Some (r, s') \<Longrightarrow> roots s' = roots s"
  by (auto simp: send_def receive_take_def recvtime_take_def recvclr_def opt_simps split: if_splits
      dest!: roots_base roots_unlink)

lemma roots_receive:
  "receive s = Some (q, s') \<Longrightarrow> roots s' = roots s"
  "recvtime w s = Some (q, s') \<Longrightarrow> roots s' = roots s"
  by (auto simp: receive_def recvtime_def opt_simps split: if_splits dest!: roots_base roots_message)

lemma roots_kill_free: "kill_free t s = Some (q, s') \<Longrightarrow> roots s' = roots s"
  by (auto simp: kill_free_def opt_simps dest!: roots_set)

lemma roots_kill_ready: "kill_ready t s = Some (q, s') \<Longrightarrow> roots s' = roots s"
  by (auto simp: kill_ready_def opt_simps dest!: roots_queue roots_kill_free)

lemma roots_kill_wait: "kill_wait t s = Some (q, s') \<Longrightarrow> roots s' = roots s"
  by (auto simp: kill_wait_def opt_simps dest!: roots_set roots_kill_ready)

lemma roots_kill_finish:
  assumes "kill_finish t s = Some (q, s')"
  shows "roots s' = roots s"
proof -
  obtain e r h where e: "thread s t = Some e" "stkfree (stkbase e) (stklen e) (kheap s) = Some (r, h)"
    using assms by (auto simp: kill_finish_def bind_Some_iff)
  then show ?thesis using assms
    by (cases "tstate e") (auto simp: kill_finish_def opt_simps split: if_splits
      dest!: roots_kill_free roots_kill_ready roots_kill_wait roots_clock(2) roots_set(2) roots_resched)
qed

lemma roots_kill: "kill t s = Some (q, s') \<Longrightarrow> roots s' = roots s"
  by (auto simp: kill_def opt_simps split: if_splits dest!: roots_message(1) roots_kill_finish)

section \<open>Preservation\<close>

definition sys_ok :: "kernel \<Rightarrow> bool" where
  "sys_ok s \<longleftrightarrow> (\<exists>Q. kinv Q s) \<and> nextsem s \<in> sids \<and> nexttid s \<in> tids"

lemma sys_okI: "kinv Q s' \<Longrightarrow> sys_ok s \<Longrightarrow> roots s' = roots s \<Longrightarrow> sys_ok s'"
  by (auto simp: sys_ok_def roots_def)

lemma create_kinv:
  assumes k: "kinv Q s" and n: "nexttid s \<in> tids" and p: "INT_MIN < pr" "pr \<le> INT_MAX"
    and c: "create setup initret a ssize pr name nargs ap s = Some (r, s')"
  shows "kinv Q s' \<and> nexttid s' \<in> tids \<and> nextsem s' = nextsem s"
proof -
  let ?sz = "if ssize < MINSTK then MINSTK else ssize"
  obtain sb h where sb: "stkget ?sz (kheap s) = Some (sb, h)" using c by (auto simp: create_def Let_def bind_Some_iff)
  let ?s1 = "s\<lparr>kheap := h\<rparr>"
  have k1: "kinv Q (s\<lparr>kheap := h'\<rparr>)" for h' using k by (rule kinv_heap)
  show ?thesis
  proof (cases "sb = SYSERR_u")
    case True
    then show ?thesis using c sb k1 n by (auto simp: create_def Let_def)
  next
    case False
    show ?thesis
    proof (cases "\<exists>t\<in>tids. tstate (thrtab s t) = THRFREE")
      case none: False
      then have "thrnew ?s1 = Some (SYSERR, ?s1)" using thrnew_ok [of ?s1] n by auto
      then show ?thesis using c sb False k1 n by (auto simp: create_def Let_def bind_Some_iff)
    next
      case True
      then obtain t where t: "t \<in> tids" "tstate (thrtab s t) = THRFREE" "thrnew ?s1 = Some (t, ?s1\<lparr>nexttid := t\<rparr>)"
        using thrnew_ok [of ?s1] n by auto
      then have b: "t \<noteq> SYSERR" "0 \<le> t" "t < NTHREAD" by (auto simp: tids_def)
      obtain sp h2 where s': "s' = ?s1\<lparr>nexttid := t, thrcount := thrcount s + 1, kheap := h2,
          thrtab := (thrtab s)(t := (thrtab s t)\<lparr>tstate := THRSUSP, prio := pr, stkbase := sb, stklen := ?sz,
              tname := take (TNMLEN - 1) name, parent := thrcurrent s, hasmsg := False,
              tmem_next := 0, tmem_length := 0, fdesc := [CONSOLE, CONSOLE, CONSOLE, SERIAL0, SERIAL0], stkptr := sp\<rparr>)\<rparr>"
        using c sb False t(3) b
        by (auto simp: create_def Let_def bind_Some_iff c_int_eq_Some_iff gettid_def set_thread_def)
      have "kinv Q s'" by (rule kinv_new_thread [OF k t(1,2) p]) (simp_all add: s')
      then show ?thesis using t(1) by (simp add: s')
    qed
  qed
qed

lemma kill_finish_step:
  assumes "kinv Q s" "t \<in> tids" "t \<noteq> NULLTHREAD" "tstate (thrtab s t) \<noteq> THRTMOUT" "kill_finish t s = Some (q, s')"
  shows "\<exists>Q'. kinv Q' s'"
proof -
  have "thread s t = Some (thrtab s t)" using assms(2) by (simp add: thread_def tids_def)
  then obtain r h where "stkfree (stkbase (thrtab s t)) (stklen (thrtab s t)) (kheap s) = Some (r, h)"
    using assms(5) by (auto simp: kill_finish_def bind_Some_iff)
  then show ?thesis using kill_finish_ok [OF assms(1-4)] assms(5) by fastforce
qed

lemma kill_step:
  assumes k: "kinv Q s" and a: "kallowed (KKill t) s" and r: "kill t s = Some (q, s')"
  shows "\<exists>Q'. kinv Q' s'"
proof (cases "isbadtid s t \<or> NULLTHREAD = t")
  case True
  then show ?thesis using k r by (auto simp: kill_def)
next
  case False
  then have t: "t \<in> tids" "t \<noteq> NULLTHREAD" by (auto simp: isbadtid_def tids_def)
  let ?s = "s\<lparr>thrcount := thrcount s - 1\<rparr>"
  have k1: "kinv Q ?s" using k by (rule kinv_thrcount)
  obtain Q1 r1 s1 where s1: "send (parent (thrtab s t)) t ?s = Some (r1, s1)" "kinv Q1 s1" using send_inv [OF k1] by blast
  have th: "thread s t = Some (thrtab s t)" using t(1) by (simp add: thread_def tids_def)
  consider "s' = ?s" | "s' = s1" | "kill_finish t s1 = Some (q, s')"
    using r False th s1(1) by (auto simp: kill_def bind_Some_iff c_int_eq_Some_iff Let_def split: if_splits)
  then show ?thesis
  proof cases
    case 3
    then show ?thesis using kill_finish_step [OF s1(2) t] a s1(1) by simp
  qed (use k1 s1 in auto)
qed

lemma semcreate_step:
  assumes s: "sys_ok s" and n: "n \<le> INT_MAX"
  shows "\<exists>s'. map_option snd (semcreate n s) = Some s' \<and> sys_ok s'"
proof (cases "n < 0")
  case True
  then show ?thesis using s by (simp add: semcreate_def)
next
  case False
  obtain Q where k: "kinv Q s" "nextsem s \<in> sids" "nexttid s \<in> tids" using s by (auto simp: sys_ok_def)
  show ?thesis
  proof (cases "\<exists>i\<in>sids. semstate (semtab s i) = SFREE")
    case True
    then obtain i s' where i: "i \<in> sids" "semcreate n s = Some (to_u32 i, s')" "kinv Q s'"
      "s' = s\<lparr>nextsem := i, semtab := (semtab s)(i := (semtab s i)\<lparr>semstate := SUSED, count := n\<rparr>)\<rparr>"
      using semcreate_ok [OF k(1,2), of n] False n by auto
    have "nextsem s' = i" "nexttid s' = nexttid s" by (simp_all add: i(4))
    then have "sys_ok s'" using i(1,3) k(3) by (auto simp: sys_ok_def)
    then show ?thesis using i(2) by simp
  next
    case none: False
    then have "semcreate n s = Some (SYSERR_u, s)" using semcreate_ok [OF k(1,2), of n] False n by simp
    then show ?thesis using s by simp
  qed
qed

text \<open>Memory safety and preservation for the calls that do not depend on the free memory list.\<close>

lemma kexec_ok:
  assumes s: "sys_ok s" and a: "kallowed c s" and n: "\<not> on_heap c"
  shows "\<exists>s'. kexec c s = Some s' \<and> sys_ok s'"
proof -
  obtain Q where k: "kinv Q s" using s by (auto simp: sys_ok_def)
  show ?thesis
  proof (cases c)
    case (KReady t)
    then show ?thesis using ready_inv [OF k, of t] a s by (auto intro: sys_okI [OF _ s] dest: roots_ready)
  next
    case (KResume t)
    then show ?thesis using resume_inv [OF k, of t] s by (auto intro: sys_okI [OF _ s] dest: roots_sched)
  next
    case (KSuspend t)
    then show ?thesis using suspend_inv [OF k, of t] s by (auto intro: sys_okI [OF _ s] dest: roots_sched)
  next
    case KYield
    then show ?thesis using yield_inv [OF k] s by (auto intro: sys_okI [OF _ s] dest: roots_sched)
  next
    case (KChprio t p)
    then show ?thesis using chprio_inv [OF k, of p t] a s by (auto intro: sys_okI [OF _ s] dest: roots_sched)
  next
    case (KWait m)
    then show ?thesis using wait_inv [OF k, of m] a s by (auto intro: sys_okI [OF _ s] dest: roots_sem)
  next
    case (KSignal m)
    then show ?thesis using signal_inv [OF k, of m] a s by (auto intro: sys_okI [OF _ s] dest: roots_sem)
  next
    case (KSignaln m i)
    then show ?thesis using signaln_inv [OF k, of m i] a s by (auto intro: sys_okI [OF _ s] dest: roots_sem)
  next
    case (KSemcreate i)
    then show ?thesis using semcreate_step [OF s] a by simp
  next
    case (KSemfree m)
    then show ?thesis using semfree_inv [OF k, of m] s by (auto intro: sys_okI [OF _ s] dest: roots_sem)
  next
    case (KSleep ms)
    then show ?thesis using sleep_inv [OF k, of ms] a s by (auto intro: sys_okI [OF _ s] dest: roots_clock)
  next
    case KClock
    then show ?thesis using clkhandler_inv [OF k] s roots_clkhandler by (auto intro: sys_okI)
  next
    case (KSend t m)
    then show ?thesis using send_inv [OF k, of t m] s by (auto intro: sys_okI [OF _ s] dest: roots_message)
  next
    case KReceive
    then show ?thesis using receive_inv [OF k] a s by (auto intro: sys_okI [OF _ s] dest: roots_receive)
  next
    case KRecvclr
    then show ?thesis using recvclr_inv [OF k] s by (auto intro: sys_okI [OF _ s] dest: roots_message)
  next
    case (KRecvtime w)
    then show ?thesis using recvtime_inv [OF k, of w] a s by (auto intro: sys_okI [OF _ s] dest: roots_receive)
  next
    case (KReceiveTake t)
    then show ?thesis using receive_take_ok [OF k, of t] a s by (auto intro: sys_okI [OF _ s] dest: roots_message)
  next
    case (KRecvtimeTake t)
    then show ?thesis using recvtime_take_inv [OF k, of t] a s by (auto intro: sys_okI [OF _ s] dest: roots_message)
  qed (use n in auto)
qed

lemma kexec_heap:
  assumes s: "sys_ok s" and a: "kallowed c s" and n: "on_heap c" and e: "kexec c s = Some s'"
  shows "sys_ok s'"
proof -
  obtain Q where k: "kinv Q s" "nextsem s \<in> sids" "nexttid s \<in> tids" using s by (auto simp: sys_ok_def)
  show ?thesis
  proof (cases c)
    case (KCreate initret p ssize pr nm nargs ap)
    then obtain r where "create setupStack_arm initret p ssize pr nm nargs ap s = Some (r, s')" using e by auto
    then have "kinv Q s' \<and> nexttid s' \<in> tids \<and> nextsem s' = nextsem s"
      using create_kinv [OF k(1,3), of pr setupStack_arm initret p ssize nm nargs ap r s'] a KCreate by simp
    then show ?thesis using k(2) by (auto simp: sys_ok_def)
  next
    case (KKill t)
    then obtain q where q: "kill t s = Some (q, s')" using e by auto
    then show ?thesis using kill_step [OF k(1)] a KKill s roots_kill [OF q] sys_okI by blast
  next
    case (KKillFinish t)
    then obtain q where q: "kill_finish t s = Some (q, s')" using e by auto
    then show ?thesis using kill_finish_step [OF k(1) _ _ _ q] a KKillFinish s roots_kill_finish [OF q] sys_okI by auto
  qed (use n in auto)
qed

lemma reachable_ok:
  assumes "reachable s0 s" "sys_ok s0"
  shows "sys_ok s"
  using assms
proof (induction rule: reachable.induct)
  case (step s c s')
  then show ?case using kexec_ok [of s c] kexec_heap [of s c s'] by (cases "on_heap c") auto
qed

section \<open>From system start\<close>

lemma roots_queinit: "queinit s = Some (q, s') \<Longrightarrow> roots s' = roots s"
proof -
  have n: "roots (s\<lparr>nextqid := n\<rparr>) = roots s" for s :: "'a kernel_scheme" and n by (simp add: roots_def)
  assume "queinit s = Some (q, s')"
  then show ?thesis by (auto simp: queinit_def opt_simps n split: if_splits dest!: roots_set)
qed

lemma roots_sem_init: "sem_init n i s = Some s' \<Longrightarrow> roots s' = roots s"
  by (induction n arbitrary: i s) (auto simp: opt_simps dest!: roots_set roots_queinit)

lemma roots_sysinit: "sysinit end s = Some (r, s') \<Longrightarrow> roots s' = roots s"
proof -
  have n: "roots (s\<lparr>readylist := a\<rparr>) = roots s" "roots (s\<lparr>sleepq := a\<rparr>) = roots s" for s :: "'a kernel_scheme" and a
    by (simp_all add: roots_def)
  assume "sysinit end s = Some (r, s')"
  then show ?thesis
    by (auto simp: sysinit_def clkinit_def opt_simps n dest!: roots_set roots_queinit roots_sem_init)
qed

lemma sysinit_reachable:
  assumes "bss s" "nextsem s = 0" "nexttid s = 0" "0 < memheap (kheap s)" "unat (memheap (kheap s)) \<le> 4294967288"
    and "unat (roundmb (memheap (kheap s))) + 8 \<le> unat (truncmb (maxaddr (kheap s)))"
    and i: "sysinit end s = Some (r, s0)" and "reachable s0 s'"
  shows "sys_ok s'"
proof -
  have "roots s0 = (0, 0)" using roots_sysinit [OF i] assms(2,3) by (simp add: roots_def)
  then have "sys_ok s0" using sysinit_kinv [OF assms(1,4-6), of "end"] i by (auto simp: sys_ok_def roots_def)
  then show ?thesis using assms(8) reachable_ok by blast
qed

end
