(* ===== verification/Kernel_Props.thy ===== *)
theory Kernel_Props
  imports Kernel_Steps
begin

text \<open>
  The properties of the kernel proper: queues, scheduler, semaphores, clock, messages, memory,
  threads and system start, each with a witness at the sample state of \<^verbatim>\<open>Kernel_Inv\<close>, in which
  every kind of thread state and queue occurs.
\<close>

section \<open>The sample state\<close>

lemma sample_heap_ok: "heap_ok sample_heap [(4096, 4096)]"
  by (simp add: heap_ok_def sample_heap_def)

lemma sample_bad [simp]:
  "\<not> isbadsem sample 0" "\<not> isbadsem sample 1" "\<not> isbadtid sample 2" "\<not> isbadtid sample 5" "\<not> isbadtid sample 6"
  by (simp_all add: isbadsem_def isbadtid_def sample_simps)

lemma sample_roundmb: "roundmb 8 = 8" "roundmb 16 = 16" "roundmb 100 = 104"
  by (simp_all add: roundmb_def)

lemma sample_fields [simp]:
  "quetab sample = sample_que" "thrtab sample = sample_thr" "thrcurrent sample = 1" "readylist sample = 300"
  "sleepq sample = 302" "kheap sample = sample_heap" "resdefer sample = 0" "nextqid sample = 304"
  "nexttid sample = 6" "nextsem sample = 1" "thrcount sample = 7"
  "count (semtab sample 0) = 1" "count (semtab sample 1) = -1" "semqueue (semtab sample i) = 100 + 2 * i"
  by (simp_all add: sample_def)

lemma sample_lists [simp]:
  "100 \<in> queues" "300 \<in> queues" "302 \<in> queues"
  "sampleQ 300 = [0]" "sampleQ 302 = [3, 5]" "sampleQ 102 = [4]" "sampleQ 100 = []"
  "2 \<notin> set (sampleQ q)" "6 \<notin> set (sampleQ q)"
  by (auto simp: queues_def sampleQ_def)

lemma sample_states [simp]:
  "tstate (sample_thr 1) = THRCURR" "tstate (sample_thr 2) = THRSUSP" "tstate (sample_thr 3) = THRSLEEP"
  "tstate (sample_thr 4) = THRWAIT" "tstate (sample_thr 5) = THRTMOUT" "tstate (sample_thr 6) = THRRECV"
  "hasmsg (sample_thr t) = False" "prio (sample_thr 2) = 30" "parent (sample_thr t) = 1"
  by (simp_all add: sample_thr_def)

lemma sample_keys [simp]: "qkey (sample_que 0) = 0" "qkey (sample_que 3) = 5" "qkey (sample_que 5) = 4"
  by (simp_all add: sample_que_def)

lemmas sample_kinv0 = kinvD(1) [OF sample_kinv]

section \<open>Queues\<close>

text \<open>
  C26. The thread queues are first-in first-out: after enqueueing the distinct, valid threads \<open>ts\<close>,
  none of which is in a queue, on a queue that holds \<open>us\<close>, dequeueing until it is empty yields
  \<open>us\<close> and then \<open>ts\<close>, each in order, and no other queue is touched.
\<close>

theorem queue_fifo:
  assumes "allq (quetab s) Q" "q \<in> queues" "\<forall>t\<in>set ts. \<not> isbadtid s t \<and> (\<forall>q\<in>queues. t \<notin> set (Q q))" "distinct ts"
    and "Q q = us"
  shows "\<exists>s1 s2. enq_all enqueue ts q s = Some s1 \<and>
    deq_n dequeue (length (us @ ts)) q s1 = Some (us @ ts, s2) \<and> allq (quetab s2) (Q(q := []))"
  by (rule qt.fifo [OF assms])

theorem queue_fifo_witness:
  "\<exists>s1 s2. enq_all enqueue [6, 2] 302 sample = Some s1 \<and>
    deq_n dequeue (length [3, 5, 6, 2 :: int]) 302 s1 = Some ([3, 5, 6, 2], s2) \<and> allq (quetab s2) (sampleQ(302 := []))"
  using queue_fifo [of sample sampleQ 302 "[6, 2]" "[3, 5]"] sample_allq by simp

text \<open>
  \<^verbatim>\<open>insert\<close> keeps a queue ordered by descending key: the thread goes behind every thread with an
  equal or larger key and before the others, its entry gets the key, and the other keys and queues
  stay as they are.
\<close>

theorem insert_sorted:
  assumes "allq (quetab s) Q" "q \<in> queues" "\<not> isbadtid s tid" "\<forall>q\<in>queues. tid \<notin> set (Q q)" "MINKEY < k"
    and "sorted_wrt (\<lambda>x y. keys s x \<ge> keys s y) (Q q)"
  shows "\<exists>s' xs ys. insert_q tid q k s = Some (OK, s') \<and> Q q = xs @ ys \<and> allq (quetab s') (Q(q := xs @ tid # ys)) \<and>
    (\<forall>x\<in>set xs. k \<le> keys s x) \<and> (\<forall>y\<in>set ys. keys s y < k) \<and>
    sorted_wrt (\<lambda>x y. keys s' x \<ge> keys s' y) (xs @ tid # ys) \<and> (\<forall>i. i \<noteq> tid \<longrightarrow> keys s' i = keys s i)"
proof -
  obtain t' where t': "insert_q tid q k s = Some (OK, s\<lparr>quetab := t'\<rparr>)" "allq t' (Q(q := ins_desc (keys s) k tid (Q q)))"
      "\<forall>i. qkey (t' i) = (if i = tid then k else keys s i)"
    using insert_ok [OF assms(1-5)] by blast
  have n: "tid \<notin> set (Q q)" using assms(2,4) by blast
  let ?xs = "takeWhile (\<lambda>y. k \<le> keys s y) (Q q)" and ?ys = "dropWhile (\<lambda>y. k \<le> keys s y) (Q q)"
  have "sorted_wrt (\<lambda>x y. qkey (t' x) \<ge> qkey (t' y)) (ins_desc (keys s) k tid (Q q))"
    by (rule sorted_ins_desc [OF assms(6) n]) (use t'(3) n in auto)
  moreover have "\<forall>y\<in>set ?ys. keys s y < k" by (rule sorted_dropWhile [OF assms(6)])
  ultimately show ?thesis
    using t' by (intro exI [of _ "s\<lparr>quetab := t'\<rparr>"] exI [of _ ?xs] exI [of _ ?ys])
      (auto simp: ins_desc_split dest: set_takeWhileD)
qed

theorem insert_sorted_witness:
  "\<exists>s' xs ys. insert_q 2 300 30 sample = Some (OK, s') \<and> sampleQ 300 = xs @ ys \<and>
    allq (quetab s') (sampleQ(300 := xs @ 2 # ys)) \<and>
    (\<forall>x\<in>set xs. 30 \<le> keys sample x) \<and> (\<forall>y\<in>set ys. keys sample y < 30) \<and>
    sorted_wrt (\<lambda>x y. keys s' x \<ge> keys s' y) (xs @ 2 # ys) \<and> (\<forall>i. i \<noteq> 2 \<longrightarrow> keys s' i = keys sample i)"
  using insert_sorted [of sample sampleQ 300 2 30] sample_allq by simp

text \<open>
  C27. \<^verbatim>\<open>insertd\<close> inserts into a delta queue so that the thread is due after \<open>k\<close> ticks, behind every
  thread that is due no later, and no other thread's due time changes.
\<close>

theorem insertd_due:
  assumes "allq (quetab s) Q" "q \<in> queues" "\<not> isbadtid s tid" "\<forall>q\<in>queues. tid \<notin> set (Q q)" "0 \<le> k" "k \<le> INT_MAX"
    and "\<forall>y\<in>set (Q q). 0 \<le> keys s y \<and> keys s y \<le> INT_MAX"
  shows "\<exists>s' ts. insertd tid q k s = Some (OK, s') \<and> allq (quetab s') (Q(q := ts)) \<and>
    due (keys s') 0 ts = ins_time tid k (due (keys s) 0 (Q q))"
proof -
  obtain xs ys k' where sp: "dsplit (keys s) k (Q q) = (xs, ys, k')" using prod_cases3 by blast
  obtain t' where t': "insertd tid q k s = Some (OK, s\<lparr>quetab := t'\<rparr>)" "allq t' (Q(q := xs @ tid # ys))"
      "\<forall>i. qkey (t' i) = dkeys (keys s) tid k' ys i"
    using insertd_ok [OF assms sp] by blast
  have K: "keys (s\<lparr>quetab := t'\<rparr>) = dkeys (keys s) tid k' ys" using t'(3) by auto
  have "due (dkeys (keys s) tid k' ys) 0 (xs @ tid # ys) = ins_time tid k (due (keys s) 0 (Q q))"
    using due_dsplit [OF sp _ allq_distinct [OF assms(1,2)], of tid 0] assms(2,4) by simp
  then show ?thesis
    using t'(1,2) K by (intro exI [of _ "s\<lparr>quetab := t'\<rparr>"] exI [of _ "xs @ tid # ys"]) simp
qed

theorem insertd_due_witness:
  "\<exists>s' ts. insertd 2 302 7 sample = Some (OK, s') \<and> allq (quetab s') (sampleQ(302 := ts)) \<and>
    due (keys s') 0 ts = [(3, 5), (2, 7), (5, 9)]"
  using insertd_due [of sample sampleQ 302 2 7] sample_allq by simp

text \<open>
  \<^verbatim>\<open>insert\<close> has no sentinel for the smallest key: with \<^verbatim>\<open>MINKEY\<close> the scan passes the tail of the
  queue and reads \<^verbatim>\<open>quetab[EMPTY]\<close>, outside the table.
\<close>

theorem insert_minkey_overrun:
  assumes "allq (quetab s) Q" "q \<in> queues" "\<not> isbadtid s tid" "qnext (quetab s (quetail q)) = EMPTY"
    and "\<forall>y\<in>set (Q q). MINKEY \<le> keys s y"
  shows "insert_q tid q MINKEY s = None"
proof -
  have "insert_scan s (hd (Q q @ [q + 1])) MINKEY = None"
    using insert_scan_minkey [of s q "Q q" "q + 1"] allq_isq [OF assms(1,2)] queues_props [OF assms(2)] assms(4,5)
    by (auto simp: isq_def)
  then show ?thesis
    using queues_props [OF assms(2)] assms(3) allq_ends(1) [OF assms(1,2)] by (simp add: insert_q_def bounds_simps)
qed

theorem insert_minkey_overrun_witness: "insert_q 2 300 MINKEY sample = None"
  using insert_minkey_overrun [of sample sampleQ 300 2] sample_allq by (simp add: sample_que_def)

text \<open>
  \<^verbatim>\<open>queinit\<close> tests \<^verbatim>\<open>nextqid > NQENT\<close>: when exactly all entries are in use the test passes and the
  call writes behind the queue table; only a later call would return \<^verbatim>\<open>SYSERR\<close>.
\<close>

theorem queinit_full:
  assumes "nextqid s \<ge> NQENT"
  shows "queinit s = (if nextqid s = NQENT then None else Some (SYSERR, s))"
  using assms queinit_overrun [of s] queinit_exhausted [of s] by simp

theorem queinit_full_witness: "queinit sample = None"
  using queinit_full [of sample] by simp

section \<open>Scheduling\<close>

text \<open>
  C5. \<^verbatim>\<open>resched\<close> keeps the kernel invariant and dispatches by priority: either the running thread goes
  on, because its priority is larger than the key of every ready thread, or the thread that runs
  afterwards has the largest key of all that are ready.  Nothing but queues, the running thread and
  thread states READY and CURRENT changes.
\<close>

theorem resched_highest:
  assumes "kinv Q s"
  shows "\<exists>R s'. resched s = Some (OK, s') \<and> kinv (Q(readylist s := R)) s' \<and> sched_frame s s' \<and>
    (s' = s \<and> (\<forall>y\<in>set R. keys s y < prio (thrtab s (thrcurrent s))) \<or>
     (\<forall>y\<in>set R. keys s' y \<le> keys s' (thrcurrent s')))"
proof -
  obtain R s' where r: "resched s = Some (OK, s')" "kinv (Q(readylist s := R)) s'" "sched_frame s s'"
      "sched_choice (Q(readylist s := R)) s s'"
    using resched_ok [OF kinvD(1,3) [OF assms]] by blast
  then show ?thesis by (intro exI [of _ R] exI [of _ s']) (simp add: sched_choice_def)
qed

theorem resched_highest_witness:
  "\<exists>R s'. resched sample = Some (OK, s') \<and> kinv (sampleQ(300 := R)) s' \<and> sched_frame sample s' \<and>
    (s' = sample \<and> (\<forall>y\<in>set R. keys sample y < prio (sample_thr 1)) \<or>
     (\<forall>y\<in>set R. keys s' y \<le> keys s' (thrcurrent s')))"
  using resched_highest [OF sample_kinv] by simp

section \<open>Semaphores\<close>

text \<open>
  C14. \<^verbatim>\<open>wait\<close> on a semaphore whose count is not positive decrements the count and moves the caller to
  the end of the semaphore's queue, in state \<^verbatim>\<open>THRWAIT\<close>; another thread runs and the invariant
  (the queue length is minus the count) holds.
\<close>

theorem wait_blocks:
  assumes "kinv Q s" "\<not> isbadsem s sem" "count (semtab s (uint sem)) \<le> 0" "thrcurrent s \<noteq> NULLTHREAD"
  shows "\<exists>R s'. wait sem s = Some (OK, s') \<and>
    kinv (Q(semqueue (semtab s (uint sem)) := Q (semqueue (semtab s (uint sem))) @ [thrcurrent s], readylist s := R)) s' \<and>
    count (semtab s' (uint sem)) = count (semtab s (uint sem)) - 1 \<and>
    tstate (thrtab s' (thrcurrent s)) = THRWAIT \<and> thrcurrent s' \<noteq> thrcurrent s"
proof -
  obtain R s' where r: "wait sem s = Some (OK, s')"
    "kinv (Q(semqueue (semtab s (uint sem)) := Q (semqueue (semtab s (uint sem))) @ [thrcurrent s], readylist s := R)) s'"
    "semtab s' = (semtab s)(uint sem := (semtab s (uint sem))\<lparr>count := count (semtab s (uint sem)) - 1\<rparr>)"
    "tstate (thrtab s' (thrcurrent s)) = THRWAIT"
    using wait_block [OF assms] by blast
  have "thrcurrent s' \<noteq> thrcurrent s" using kinvD(2) [OF r(2)] r(4) by auto
  then show ?thesis using r by (intro exI [of _ R] exI [of _ s']) simp
qed

theorem wait_blocks_witness:
  "\<exists>R s'. wait 1 sample = Some (OK, s') \<and> kinv (sampleQ(102 := [4, 1], 300 := R)) s' \<and>
    count (semtab s' 1) = -2 \<and> tstate (thrtab s' 1) = THRWAIT \<and> thrcurrent s' \<noteq> 1"
  using wait_blocks [of sampleQ sample 1] sample_kinv by simp

text \<open>
  C13. \<^verbatim>\<open>signal\<close> on a semaphore with waiting threads increments the count and releases exactly the one
  that has waited longest: it leaves the semaphore's queue and is ready or running afterwards.
\<close>

theorem signal_fifo:
  assumes "kinv Q s" "\<not> isbadsem s sem" "count (semtab s (uint sem)) < 0"
  shows "\<exists>x xs R s'. Q (semqueue (semtab s (uint sem))) = x # xs \<and> tstate (thrtab s x) = THRWAIT \<and>
    signal sem s = Some (OK, s') \<and> kinv (Q(semqueue (semtab s (uint sem)) := xs, readylist s := R)) s' \<and>
    tstate (thrtab s' x) \<in> {THRREADY, THRCURR} \<and>
    semtab s' = (semtab s)(uint sem := (semtab s (uint sem))\<lparr>count := count (semtab s (uint sem)) + 1\<rparr>)"
  by (rule signal_wakes [OF assms])

theorem signal_fifo_witness:
  "\<exists>R s'. signal 1 sample = Some (OK, s') \<and> kinv (sampleQ(102 := [], 300 := R)) s' \<and>
    tstate (thrtab s' 4) \<in> {THRREADY, THRCURR} \<and> count (semtab s' 1) = 0"
  using signal_fifo [of sampleQ sample 1] sample_kinv by auto

text \<open>
  C24. \<^verbatim>\<open>semfree\<close> terminates, makes every waiting thread ready and leaves the semaphore free with count 0;
  all other threads, semaphores and the running thread are untouched.
\<close>

theorem semfree_releases_all:
  assumes "kinv Q s" "\<not> isbadsem s sem"
  shows "\<exists>Q' s'. semfree sem s = Some (OK, s') \<and> kinv Q' s' \<and> thrcurrent s' = thrcurrent s \<and>
    semtab s' = (semtab s)(uint sem := (semtab s (uint sem))\<lparr>count := 0, semstate := SFREE\<rparr>) \<and>
    (\<forall>t. thrtab s' t = (if t \<in> set (Q (semqueue (semtab s (uint sem)))) then (thrtab s t)\<lparr>tstate := THRREADY\<rparr>
       else thrtab s t))"
proof -
  obtain Q' qt tt s' where "semfree sem s = Some (OK, s')" "kinv Q' s'"
    "s' = s\<lparr>quetab := qt, thrtab := tt,
      semtab := (semtab s)(uint sem := (semtab s (uint sem))\<lparr>count := 0, semstate := SFREE\<rparr>)\<rparr>"
    "\<forall>t. tt t = (if t \<in> set (Q (semqueue (semtab s (uint sem)))) then (thrtab s t)\<lparr>tstate := THRREADY\<rparr> else thrtab s t)"
    using semfree_ok [OF assms] by blast
  then show ?thesis by (intro exI [of _ Q'] exI [of _ s']) simp
qed

theorem semfree_releases_all_witness:
  "\<exists>Q' s'. semfree 1 sample = Some (OK, s') \<and> kinv Q' s' \<and> thrcurrent s' = 1 \<and>
    semstate (semtab s' 1) = SFREE \<and> tstate (thrtab s' 4) = THRREADY"
  using semfree_releases_all [of sampleQ sample 1] sample_kinv by fastforce

section \<open>Time\<close>

text \<open>
  \<^verbatim>\<open>sleep\<close> suspends the caller for exactly the requested number of clock ticks: it is inserted into
  the sleep queue with that delay, behind threads due no later, and nobody else's wake-up time changes.
  (For up to 4294967 ms; above that \<^verbatim>\<open>ms * CLKTICKS_PER_SEC\<close> wraps.)
\<close>

theorem sleep_due:
  assumes "kinv Q s" "thrcurrent s \<noteq> NULLTHREAD" "0 < ms" "unat ms \<le> 4294967"
  shows "\<exists>Q' s'. sleep ms s = Some (OK, s') \<and> kinv Q' s' \<and> tstate (thrtab s' (thrcurrent s)) = THRSLEEP \<and>
    due (keys s') 0 (Q' (sleepq s)) = ins_time (thrcurrent s) (uint ms) (due (keys s) 0 (Q (sleepq s)))"
  using sleep_ok [OF assms(1,2), of "(ms * CLKTICKS_PER_SEC) div 1000" ms] sleep_ticks [of ms] assms(3,4) by simp

theorem sleep_due_witness:
  "\<exists>Q' s'. sleep 6 sample = Some (OK, s') \<and> kinv Q' s' \<and> tstate (thrtab s' 1) = THRSLEEP \<and>
    due (keys s') 0 (Q' 302) = [(3, 5), (1, 6), (5, 9)]"
  using sleep_due [of sampleQ sample 6] sample_kinv by simp



section \<open>Messages\<close>

text \<open>
  \<^verbatim>\<open>send\<close> to a thread that waits for a message with a time limit delivers the message, takes the
  thread out of the sleep queue without changing anybody else's wake-up time, and makes it ready (or
  runs it).
\<close>

theorem send_timed_receiver:
  assumes "kinv Q s" "\<not> isbadtid s t" "\<not> hasmsg (thrtab s t)" "tstate (thrtab s t) = THRTMOUT"
  shows "\<exists>Q' s'. send t m s = Some (OK, s') \<and> kinv Q' s' \<and> hasmsg (thrtab s' t) \<and> msg (thrtab s' t) = m \<and>
    tstate (thrtab s' t) \<in> {THRREADY, THRCURR} \<and>
    due (keys s') 0 (Q' (sleepq s)) = filter (\<lambda>(u, w). u \<noteq> t) (due (keys s) 0 (Q (sleepq s)))"
  by (rule send_timed [OF assms])

theorem send_timed_receiver_witness:
  "\<exists>Q' s'. send 5 42 sample = Some (OK, s') \<and> kinv Q' s' \<and> hasmsg (thrtab s' 5) \<and> msg (thrtab s' 5) = 42 \<and>
    tstate (thrtab s' 5) \<in> {THRREADY, THRCURR} \<and> due (keys s') 0 (Q' 302) = [(3, 5)]"
  using send_timed_receiver [of sampleQ sample 5 42] sample_kinv by simp

text \<open>
  C25. A message is received exactly as sent: when a thread waits in \<^verbatim>\<open>receive\<close>, \<^verbatim>\<open>send\<close> wakes it, and the
  rest of its \<^verbatim>\<open>receive\<close> call returns the message and leaves the message slot empty.
\<close>

theorem send_receive:
  assumes "kinv Q s" "\<not> isbadtid s t" "\<not> hasmsg (thrtab s t)" "tstate (thrtab s t) = THRRECV"
  shows "\<exists>Q' s' s''. send t m s = Some (OK, s') \<and> tstate (thrtab s' t) \<in> {THRREADY, THRCURR} \<and>
    receive_take t s' = Some (m, s'') \<and> kinv Q' s'' \<and> \<not> hasmsg (thrtab s'' t)"
proof -
  obtain Q' s' where s': "send t m s = Some (OK, s')" "kinv Q' s'" "msg (thrtab s' t) = m"
      "tstate (thrtab s' t) \<in> {THRREADY, THRCURR}"
    using send_receiver [OF assms] by blast
  have t: "t \<in> tids" using assms(2) by auto
  show ?thesis using s' receive_take_ok [OF s'(2) t] by (intro exI conjI) (assumption | simp)+
qed

theorem send_receive_witness:
  "\<exists>Q' s' s''. send 6 42 sample = Some (OK, s') \<and> tstate (thrtab s' 6) \<in> {THRREADY, THRCURR} \<and>
    receive_take 6 s' = Some (42, s'') \<and> kinv Q' s'' \<and> \<not> hasmsg (thrtab s'' 6)"
  using send_receive [of sampleQ sample 6 42] sample_kinv by simp

section \<open>Memory\<close>

text \<open>
  C7. \<^verbatim>\<open>memget\<close> refines first fit on the list of free blocks: it terminates, returns \<^verbatim>\<open>SYSERR\<close> exactly
  when no block is large enough, otherwise the lowest block that is, split when it is larger, and it
  writes no memory outside the free blocks.
\<close>

theorem memget_first_fit:
  assumes "heap_ok h fs" "0 < nbytes" "unat nbytes \<le> 4294967288"
  shows "case first_fit (unat (roundmb nbytes)) fs of
      None \<Rightarrow> memget nbytes h = Some (SYSERR_u, h)
    | Some (a, gs) \<Rightarrow> \<exists>h' r. memget nbytes h = Some (r, h') \<and> unat r = a \<and> heap_ok h' gs \<and> same_layout h h' \<and>
        (\<forall>x. unat x \<notin> bytes fs \<longrightarrow> mem h' x = mem h x)"
  by (rule memget_ok [OF assms])

theorem memget_first_fit_witness:
  "\<exists>h' r. memget 100 sample_heap = Some (r, h') \<and> unat r = 4096 \<and> heap_ok h' [(4200, 3992)]"
  using memget_first_fit [OF sample_heap_ok, of 100] by (auto simp: sample_roundmb)

text \<open>
  C8. \<^verbatim>\<open>memfree\<close> of a block that lies in the heap and overlaps no free block puts it back, in address
  order and joined with the free blocks before and after it when they touch; it writes no memory
  outside the block and the free blocks.
\<close>

theorem memfree_put:
  assumes "heap_ok h fs" "0 < nbytes" "unat nbytes \<le> 4294967288"
    and "unat (memheap h) \<le> unat p" "8 dvd unat p" "unat p + unat (roundmb nbytes) \<le> unat (maxaddr h)"
    and "{unat p..<unat p + unat (roundmb nbytes)} \<inter> bytes fs = {}"
  shows "\<exists>h'. memfree p nbytes h = Some (OK, h') \<and> heap_ok h' (put_block (unat p) (unat (roundmb nbytes)) fs) \<and>
    same_layout h h' \<and>
    (\<forall>x. unat x \<notin> {unat p..<unat p + unat (roundmb nbytes)} \<union> bytes fs \<longrightarrow> mem h' x = mem h x)"
  by (rule memfree_ok [OF assms])

definition sample_heap2 :: heap where
  "sample_heap2 = \<lparr>mem = (\<lambda>a. if a = 4100 then 8 else if a = 4096 then 4120 else if a = 4124 then 16 else 0),
     memlist_next = 4096, memlist_length = 24, memheap = 4096, maxaddr = 8192\<rparr>"

lemma sample_heap2_ok: "heap_ok sample_heap2 [(4096, 8), (4120, 16)]"
  by (simp add: heap_ok_def sample_heap2_def)

theorem memfree_put_witness:
  "\<exists>h'. memfree 4104 16 sample_heap2 = Some (OK, h') \<and> heap_ok h' [(4096, 40)]"
proof -
  have "{4104..<4120::nat} \<inter> ({4096..<4104} \<union> {4120..<4136}) = {}" by auto
  moreover have "memheap sample_heap2 = 4096" "maxaddr sample_heap2 = 8192" by (simp_all add: sample_heap2_def)
  ultimately show ?thesis using memfree_put [OF sample_heap2_ok, of 16 4104] by (auto simp: sample_roundmb)
qed

text \<open>
  C23. Freeing memory that is already free is refused: if any byte of the block is in a free block (a double
  free, or a wrong length), \<^verbatim>\<open>memfree\<close> returns \<^verbatim>\<open>SYSERR\<close> and changes nothing.
\<close>

theorem memfree_rejects_double_free:
  assumes "heap_ok h fs" "0 < nbytes" "memheap h \<le> p" "p \<le> maxaddr h" "unat p + unat (roundmb nbytes) < 4294967296"
    and "{unat p..<unat p + unat (roundmb nbytes)} \<inter> bytes fs \<noteq> {}"
  shows "memfree p nbytes h = Some (SYSERR, h)"
  by (rule memfree_reject [OF assms])

theorem memfree_rejects_double_free_witness: "memfree 4104 16 sample_heap = Some (SYSERR, sample_heap)"
  using memfree_rejects_double_free [OF sample_heap_ok, of 16 4104] by (simp add: sample_roundmb sample_heap_def)

text \<open>
  C22. \<^verbatim>\<open>memfree\<close> undoes \<^verbatim>\<open>memget\<close>, and \<^verbatim>\<open>stkfree\<close> undoes \<^verbatim>\<open>stkget\<close>: the free list afterwards is exactly the one from
  before the allocation, so no memory is lost and the list is not fragmented.
\<close>

theorem alloc_free_roundtrip:
  assumes "heap_ok h fs" "0 < nbytes" "unat nbytes \<le> 4294967288" "p \<noteq> SYSERR_u"
  shows "(memget nbytes h = Some (p, h1) \<longrightarrow> (\<exists>h2. memfree p nbytes h1 = Some (OK, h2) \<and> heap_ok h2 fs)) \<and>
    (stkget nbytes h = Some (p, h1) \<longrightarrow> (\<exists>h2. stkfree p nbytes h1 = Some (OK, h2) \<and> heap_ok h2 fs))"
  using memget_memfree [OF assms(1-3)] stkget_stkfree [OF assms(1-3)] assms(4) by blast

theorem alloc_free_roundtrip_witness:
  "\<exists>p h1. memget 100 sample_heap = Some (p, h1) \<and> p \<noteq> SYSERR_u \<and>
    (\<exists>h2. memfree p 100 h1 = Some (OK, h2) \<and> heap_ok h2 [(4096, 4096)])"
proof -
  obtain h1 p where p: "memget 100 sample_heap = Some (p, h1)" "unat p = 4096"
    using memget_ok [OF sample_heap_ok, of 100] by (auto simp: sample_roundmb)
  have "p \<noteq> SYSERR_u" using aligned_not_SYSERR [of p] p(2) by simp
  then show ?thesis using alloc_free_roundtrip [OF sample_heap_ok, of 100 p h1] p(1) by auto
qed

text \<open>
  Any sequence of \<^verbatim>\<open>memget\<close> requests returns blocks that lie in memory that was free and that do not
  overlap one another; what stays free is exactly the rest.
\<close>

theorem memget_disjoint:
  assumes "heap_ok h fs" "\<forall>n\<in>set ns. 0 < n \<and> unat n \<le> 4294967288"
  shows "\<exists>bs h' gs. mem_alloc.get_all ns h = Some (bs, h') \<and> heap_ok h' gs \<and>
    bytes gs = bytes fs - (\<Union>(p, n)\<in>set bs. {unat p..<unat p + unat (roundmb n)}) \<and>
    (\<forall>(p, n)\<in>set bs. {unat p..<unat p + unat (roundmb n)} \<subseteq> bytes fs) \<and>
    sorted_wrt (\<lambda>(p, n) (q, m). {unat p..<unat p + unat (roundmb n)} \<inter> {unat q..<unat q + unat (roundmb m)} = {}) bs"
  by (rule mem_alloc.get_all_law [OF assms])

theorem memget_disjoint_witness:
  "\<exists>bs h' gs. mem_alloc.get_all [100, 8, 5000] sample_heap = Some (bs, h') \<and> heap_ok h' gs \<and>
    (\<forall>(p, n)\<in>set bs. {unat p..<unat p + unat (roundmb n)} \<subseteq> bytes [(4096, 4096)])"
  using memget_disjoint [OF sample_heap_ok, of "[100, 8, 5000]"] by auto

section \<open>Threads\<close>

text \<open>
  C15. \<^verbatim>\<open>create\<close> either fails with \<^verbatim>\<open>SYSERR\<close>, and then thread table, thread count and free memory are as
  before, or it takes a free slot, counts the thread, leaves it suspended with the given priority and
  name, the caller as its parent and no message, and its new stack holds the context record: arguments
  in the register slots and above, the status word, the return address and the procedure's address.
\<close>

theorem create_thread:
  assumes "kinv Q s" "nexttid s \<in> tids" "heap_ok (kheap s) fs" "INT_MIN < priority" "priority \<le> INT_MAX"
    and "0 \<le> thrcount s" "thrcount s < INT_MAX" "sz = (if ssize < MINSTK then MINSTK else ssize)"
    and "unat sz \<le> 4294967288" "length ap = unat nargs" "4 * length ap + 68 \<le> unat sz"
  shows "\<exists>r s'. create setupStack_arm initret procaddr ssize priority name nargs ap s = Some (r, s') \<and> kinv Q s' \<and>
    (if r = SYSERR then heap_ok (kheap s') fs \<and> thrtab s' = thrtab s \<and> thrcount s' = thrcount s
     else r \<in> tids \<and> tstate (thrtab s r) = THRFREE \<and> thrcount s' = thrcount s + 1 \<and> (\<exists>gs. heap_ok (kheap s') gs) \<and>
       (\<exists>sb sp. thrtab s' = (thrtab s)(r := (new_entry sb sz priority name (thrcurrent s) (thrtab s r))\<lparr>stkptr := sp\<rparr>) \<and>
         (\<forall>i<length (context_words procaddr initret ap).
            mem (kheap s') (sp + 4 * of_nat i) = context_words procaddr initret ap ! i)))"
  by (rule create_ok [OF assms])

theorem create_thread_witness:
  "\<exists>r s'. create setupStack_arm 64 128 1024 20 ''shell'' 2 [7, 9] sample = Some (r, s') \<and> kinv sampleQ s' \<and>
    (r = SYSERR \<or> tstate (thrtab s' r) = THRSUSP \<and> prio (thrtab s' r) = 20)"
  using create_thread [of sampleQ sample "[(4096, 4096)]" 20 1024 1024 "[7, 9]" 2 64 128 "''shell''"]
    sample_kinv sample_heap_ok
  by (fastforce split: if_splits)

text \<open>
  The part of \<^verbatim>\<open>kill\<close> that follows the message to the parent takes the thread out of whatever queue it is
  in, gives back a semaphore count it was waiting for, hands its sleep delay to the next sleeper, and
  leaves it \<^verbatim>\<open>THRFREE\<close> with the kernel invariant intact, in every state but \<^verbatim>\<open>THRTMOUT\<close>.
\<close>

theorem kill_keeps_invariant:
  assumes "kinv Q s" "t \<in> tids" "t \<noteq> NULLTHREAD" "tstate (thrtab s t) \<noteq> THRTMOUT"
    and "stkfree (stkbase (thrtab s t)) (stklen (thrtab s t)) (kheap s) = Some (r, h)"
  shows "\<exists>Q' res s'. kill_finish t s = Some (res, s') \<and> kinv Q' s' \<and> tstate (thrtab s' t) = THRFREE"
  by (rule kill_finish_ok [OF assms])

lemma sample_stkfree: "stkfree 0 0 sample_heap = Some (SYSERR, sample_heap)"
  by (simp add: stkfree_def memfree_def roundmb_def)

lemma sample_stack: "stkbase (sample_thr t) = 0" "stklen (sample_thr t) = 0"
  by (simp_all add: sample_thr_def)

theorem kill_keeps_invariant_witness:
  "\<exists>Q' res s'. kill_finish 3 sample = Some (res, s') \<and> kinv Q' s' \<and> tstate (thrtab s' 3) = THRFREE"
  using kill_keeps_invariant [of sampleQ sample 3] sample_kinv sample_stkfree by (simp add: sample_stack)

section \<open>System start\<close>

text \<open>
  C28. \<^verbatim>\<open>sysinit\<close> establishes the kernel invariant: from the zeroed tables it returns \<^verbatim>\<open>OK\<close> with every queue
  empty, all semaphores and all threads but the null thread free, exactly all of the queue table handed
  out, and the free memory one block from the rounded heap start to the truncated end of memory.
\<close>

theorem sysinit_establishes:
  assumes "bss s" "0 < memheap (kheap s)" "unat (memheap (kheap s)) \<le> 4294967288"
    and "unat (roundmb (memheap (kheap s))) + 8 \<le> unat (truncmb (maxaddr (kheap s)))"
  shows "\<exists>s'. sysinit end s = Some (OK, s') \<and> kinv (\<lambda>_. []) s' \<and> nextqid s' = NQENT \<and> thrcount s' = 1 \<and>
    heap_ok (kheap s') [(unat (roundmb (memheap (kheap s))), unat (truncmb (maxaddr (kheap s))) - unat (roundmb (memheap (kheap s))))]"
  by (rule sysinit_kinv [OF assms])

definition boot :: kernel where
  "boot = \<lparr>quetab = (\<lambda>_. \<lparr>qkey = 0, qnext = 0, qprev = 0\<rparr>), nextqid = 100,
     thrtab = (\<lambda>_. \<lparr>tstate = THRFREE, prio = 0, stkptr = 0, stkbase = 0, stklen = 0, tname = [], tsem = 0,
       parent = 0, msg = 0, hasmsg = False, tmem_next = 0, tmem_length = 0, fdesc = []\<rparr>),
     thrcount = 0, thrcurrent = 0, nexttid = 0, semtab = (\<lambda>_. \<lparr>semstate = SFREE, count = 0, semqueue = 0\<rparr>),
     nextsem = 0, readylist = 0, sleepq = 0, resdefer = 0, clkticks = 0, clktime = 0,
     kheap = \<lparr>mem = (\<lambda>_. 0), memlist_next = 0, memlist_length = 0, memheap = 4097, maxaddr = 8199\<rparr>\<rparr>"

theorem sysinit_establishes_witness:
  "\<exists>s'. sysinit 4000 boot = Some (OK, s') \<and> kinv (\<lambda>_. []) s' \<and> heap_ok (kheap s') [(4104, 4088)]"
  using sysinit_establishes [of boot 4000] by (auto simp: boot_def bss_def roundmb_def truncmb_def)



end
