(* ===== verification/Cstring.thy ===== *)
theory Cstring
  imports Prelude
begin

text \<open>
  The memory and string functions of the C library, \<^verbatim>\<open>lib/libxc/mem*.c\<close> and \<^verbatim>\<open>lib/libxc/str*.c\<close>.
  An object of \<^verbatim>\<open>char\<close> is a list of bytes, a pointer into it an index; source and destination do
  not overlap.  Reading or writing outside the object is \<open>None\<close>.  A returned pointer is an index,
  and \<open>Some None\<close> is \<^verbatim>\<open>NULL\<close>.  \<^verbatim>\<open>size_t\<close> values are natural numbers: they count bytes of objects.
\<close>

section \<open>Byte access\<close>

type_synonym bytes = "u8 list"

definition rd :: "bytes \<Rightarrow> nat \<Rightarrow> u8 option" where
  "rd s i = (if i < length s then Some (s ! i) else None)"

definition wr :: "bytes \<Rightarrow> nat \<Rightarrow> u8 \<Rightarrow> bytes option" where
  "wr s i v = (if i < length s then Some (s[i := v]) else None)"

section \<open>Memory\<close>

fun memset_loop :: "nat \<Rightarrow> nat \<Rightarrow> u8 \<Rightarrow> bytes \<Rightarrow> bytes option" where
  "memset_loop 0 i byte p = Some p"
| "memset_loop (Suc n) i byte p = do { p \<leftarrow> wr p i byte; memset_loop n (i + 1) byte p }"

definition memset :: "bytes \<Rightarrow> int \<Rightarrow> nat \<Rightarrow> bytes option" where
  "memset s c n = memset_loop n 0 (word_of_int c) s"

definition bzero :: "bytes \<Rightarrow> nat \<Rightarrow> bytes option" where
  "bzero s n = memset s 0 n"

fun memcpy_loop :: "nat \<Rightarrow> nat \<Rightarrow> bytes \<Rightarrow> bytes \<Rightarrow> bytes option" where
  "memcpy_loop 0 i dest src = Some dest"
| "memcpy_loop (Suc n) i dest src = do { b \<leftarrow> rd src i; dest \<leftarrow> wr dest i b; memcpy_loop n (i + 1) dest src }"

definition memcpy :: "bytes \<Rightarrow> bytes \<Rightarrow> nat \<Rightarrow> bytes option" where
  "memcpy dest src n = memcpy_loop n 0 dest src"

fun memcmp_loop :: "nat \<Rightarrow> nat \<Rightarrow> bytes \<Rightarrow> bytes \<Rightarrow> int option" where
  "memcmp_loop 0 i s1 s2 = Some 0"
| "memcmp_loop (Suc n) i s1 s2 = do {
     a \<leftarrow> rd s1 i; b \<leftarrow> rd s2 i;
     if a \<noteq> b then Some (uint a - uint b) else memcmp_loop n (i + 1) s1 s2
   }"

definition memcmp :: "bytes \<Rightarrow> bytes \<Rightarrow> nat \<Rightarrow> int option" where
  "memcmp s1 s2 n = memcmp_loop n 0 s1 s2"

fun memchr_loop :: "nat \<Rightarrow> nat \<Rightarrow> u8 \<Rightarrow> bytes \<Rightarrow> nat option option" where
  "memchr_loop 0 i byte p = Some None"
| "memchr_loop (Suc n) i byte p = do {
     b \<leftarrow> rd p i;
     if b = byte then Some (Some i) else memchr_loop n (i + 1) byte p
   }"

definition memchr :: "bytes \<Rightarrow> int \<Rightarrow> nat \<Rightarrow> nat option option" where
  "memchr s c n = memchr_loop n 0 (word_of_int c) s"

section \<open>Strings\<close>

function strlen_loop :: "bytes \<Rightarrow> nat \<Rightarrow> nat option" where
  "strlen_loop s n = (if n < length s then if s ! n \<noteq> 0 then strlen_loop s (n + 1) else Some n else None)"
  by auto
termination by (relation "measure (\<lambda>(s, n). length s - n)") auto

definition strlen :: "bytes \<Rightarrow> nat option" where
  "strlen s = strlen_loop s 0"

text \<open>The condition of \<^verbatim>\<open>strnlen\<close> reads \<^verbatim>\<open>s[n]\<close> before it compares \<^verbatim>\<open>n\<close> with \<^verbatim>\<open>maxlen\<close>.\<close>

function strnlen_loop :: "bytes \<Rightarrow> nat \<Rightarrow> nat \<Rightarrow> nat option" where
  "strnlen_loop s maxlen n =
     (if n < length s then if s ! n \<noteq> 0 \<and> n < maxlen then strnlen_loop s maxlen (n + 1) else Some n else None)"
  by auto
termination by (relation "measure (\<lambda>(s, m, n). length s - n)") auto

definition strnlen :: "bytes \<Rightarrow> nat \<Rightarrow> nat option" where
  "strnlen s maxlen = strnlen_loop s maxlen 0"

function strchr_from :: "bytes \<Rightarrow> u8 \<Rightarrow> nat \<Rightarrow> nat option option" where
  "strchr_from s ch i =
     (if i < length s
      then if s ! i = ch then Some (Some i) else if s ! i \<noteq> 0 then strchr_from s ch (i + 1) else Some None
      else None)"
  by auto
termination by (relation "measure (\<lambda>(s, c, n). length s - n)") auto

definition strchr :: "bytes \<Rightarrow> int \<Rightarrow> nat option option" where
  "strchr s c = strchr_from s (word_of_int c) 0"

function strrchr_from :: "bytes \<Rightarrow> u8 \<Rightarrow> nat option \<Rightarrow> nat \<Rightarrow> nat option option" where
  "strrchr_from s ch r i =
     (if i < length s
      then let r = (if s ! i = ch then Some i else r) in
           if s ! i \<noteq> 0 then strrchr_from s ch r (i + 1) else Some r
      else None)"
  by auto
termination by (relation "measure (\<lambda>(s, c, r, n). length s - n)") auto

definition strrchr :: "bytes \<Rightarrow> int \<Rightarrow> nat option option" where
  "strrchr s c = strrchr_from s (word_of_int c) None 0"

function strcmp_loop :: "bytes \<Rightarrow> bytes \<Rightarrow> nat \<Rightarrow> int option" where
  "strcmp_loop s1 s2 i =
     (if i < length s1 \<and> i < length s2
      then if s1 ! i = s2 ! i \<and> s1 ! i \<noteq> 0 then strcmp_loop s1 s2 (i + 1) else Some (uint (s1 ! i) - uint (s2 ! i))
      else None)"
  by auto
termination by (relation "measure (\<lambda>(s, t, n). length s - n)") auto

definition strcmp :: "bytes \<Rightarrow> bytes \<Rightarrow> int option" where
  "strcmp s1 s2 = strcmp_loop s1 s2 0"

text \<open>\<open>o1\<close> is the offset of the first pointer in its object.\<close>

fun strncmp_loop :: "nat \<Rightarrow> nat \<Rightarrow> nat \<Rightarrow> bytes \<Rightarrow> bytes \<Rightarrow> int option" where
  "strncmp_loop 0 o1 i s1 s2 = Some 0"
| "strncmp_loop (Suc n) o1 i s1 s2 = do {
     a \<leftarrow> rd s1 (o1 + i);
     if a = 0 then do { b \<leftarrow> rd s2 i; Some (uint a - uint b) }
     else do {
       b \<leftarrow> rd s2 i;
       if a \<noteq> b then Some (uint a - uint b) else strncmp_loop n o1 (i + 1) s1 s2
     }
   }"

definition strncmp :: "bytes \<Rightarrow> bytes \<Rightarrow> nat \<Rightarrow> int option" where
  "strncmp s1 s2 n = strncmp_loop n 0 0 s1 s2"

function strcpy_loop :: "bytes \<Rightarrow> bytes \<Rightarrow> nat \<Rightarrow> bytes option" where
  "strcpy_loop dest src i =
     (if i < length src
      then do { d \<leftarrow> wr dest i (src ! i); if src ! i \<noteq> 0 then strcpy_loop d src (i + 1) else Some d }
      else None)"
  by auto
termination by (relation "measure (\<lambda>(d, s, n). length s - n)") auto

definition strcpy :: "bytes \<Rightarrow> bytes \<Rightarrow> bytes option" where
  "strcpy dest src = strcpy_loop dest src 0"

text \<open>\<^verbatim>\<open>strncpy\<close> too reads \<^verbatim>\<open>src[i]\<close> before it compares \<^verbatim>\<open>i\<close> with \<^verbatim>\<open>n\<close>.\<close>

function strncpy_copy :: "bytes \<Rightarrow> bytes \<Rightarrow> nat \<Rightarrow> nat \<Rightarrow> (nat \<times> bytes) option" where
  "strncpy_copy dest src n i =
     (if i < length src
      then if src ! i \<noteq> 0 \<and> i < n
           then do { d \<leftarrow> wr dest i (src ! i); strncpy_copy d src n (i + 1) }
           else Some (i, dest)
      else None)"
  by auto
termination by (relation "measure (\<lambda>(d, s, n, i). length s - i)") auto

definition strncpy :: "bytes \<Rightarrow> bytes \<Rightarrow> nat \<Rightarrow> bytes option" where
  "strncpy dest src n = do { (i, dest) \<leftarrow> strncpy_copy dest src n 0; memset_loop (n - i) i 0 dest }"

definition strlcpy :: "bytes \<Rightarrow> bytes \<Rightarrow> nat \<Rightarrow> (nat \<times> bytes) option" where
  "strlcpy dest src destsize = do {
     srclen \<leftarrow> strlen src;
     if destsize \<noteq> 0
     then do {
       let copylen = (if destsize - 1 < srclen then destsize - 1 else srclen);
       dest \<leftarrow> memcpy dest src copylen;
       dest \<leftarrow> wr dest copylen 0;
       Some (srclen, dest)
     }
     else Some (srclen, dest)
   }"

fun strncat_loop :: "nat \<Rightarrow> nat \<Rightarrow> nat \<Rightarrow> bytes \<Rightarrow> bytes \<Rightarrow> bytes option" where
  "strncat_loop 0 d i dest src = wr dest (d + i) 0"
| "strncat_loop (Suc n) d i dest src = do {
     b \<leftarrow> rd src i;
     if b \<noteq> 0 then do { dest \<leftarrow> wr dest (d + i) b; strncat_loop n d (i + 1) dest src } else wr dest (d + i) 0
   }"

definition strncat :: "bytes \<Rightarrow> bytes \<Rightarrow> nat \<Rightarrow> bytes option" where
  "strncat dest src n = do {
     d \<leftarrow> strchr dest 0;
     case d of None \<Rightarrow> None | Some d \<Rightarrow> strncat_loop n d 0 dest src
   }"

function strstr_from :: "bytes \<Rightarrow> bytes \<Rightarrow> nat \<Rightarrow> nat \<Rightarrow> nat option option" where
  "strstr_from haystack needle needle_len h =
     (if h < length haystack
      then if haystack ! h \<noteq> 0
           then do {
             c \<leftarrow> strncmp_loop needle_len h 0 haystack needle;
             if c = 0 then Some (Some h) else strstr_from haystack needle needle_len (h + 1)
           }
           else Some None
      else None)"
  by auto
termination by (relation "measure (\<lambda>(s, t, l, h). length s - h)") auto

definition strstr :: "bytes \<Rightarrow> bytes \<Rightarrow> nat option option" where
  "strstr haystack needle = do { needle_len \<leftarrow> strlen needle; strstr_from haystack needle needle_len 0 }"

declare strlen_loop.simps [simp del] strnlen_loop.simps [simp del] strchr_from.simps [simp del]
  strrchr_from.simps [simp del] strcmp_loop.simps [simp del] strcpy_loop.simps [simp del]
  strncpy_copy.simps [simp del] strstr_from.simps [simp del]

section \<open>The string an object holds\<close>

text \<open>\<open>cstr s xs\<close>: the object holds the characters \<open>xs\<close>, none of them zero, and then a terminator.\<close>

definition cstr :: "bytes \<Rightarrow> bytes \<Rightarrow> bool" where
  "cstr s xs \<longleftrightarrow> 0 \<notin> set xs \<and> (\<exists>rest. s = xs @ 0 # rest)"

lemma cstrD:
  assumes "cstr s xs"
  shows "length xs < length s" "s ! length xs = 0" "i < length xs \<Longrightarrow> s ! i = xs ! i"
    "i < length xs \<Longrightarrow> s ! i \<noteq> 0" "take (length xs) s = xs"
  using assms by (auto simp: cstr_def nth_append) (metis nth_mem)

lemma strlen_ok:
  assumes "cstr s xs"
  shows "strlen s = Some (length xs)"
proof -
  have "n \<le> length xs \<Longrightarrow> strlen_loop s n = Some (length xs)" for n
  proof (induction "length xs - n" arbitrary: n)
    case 0
    then show ?case using cstrD [OF assms] by (subst strlen_loop.simps) simp
  next
    case (Suc k)
    then show ?case using cstrD(1) [OF assms] cstrD(4) [OF assms, of n] by (subst strlen_loop.simps) simp
  qed
  then show ?thesis by (simp add: strlen_def)
qed

lemma memcpy_loop_ok:
  "i + n \<le> length dest \<Longrightarrow> i + n \<le> length src \<Longrightarrow>
   memcpy_loop n i dest src = Some (take i dest @ take n (drop i src) @ drop (i + n) dest)"
proof (induction n arbitrary: i dest)
  case (Suc n)
  have "take (Suc i) (dest[i := src ! i]) = take i dest @ [src ! i]"
    using Suc.prems by (simp add: take_Suc_conv_app_nth)
  moreover have "take (Suc n) (drop i src) = src ! i # take n (drop (Suc i) src)"
    using Suc.prems by (simp add: Cons_nth_drop_Suc [symmetric])
  ultimately show ?case using Suc by (simp add: rd_def wr_def drop_update_cancel)
qed simp

lemma memcpy_ok:
  "n \<le> length dest \<Longrightarrow> n \<le> length src \<Longrightarrow> memcpy dest src n = Some (take n src @ drop n dest)"
  using memcpy_loop_ok [of 0 n dest src] by (simp add: memcpy_def)

lemma strlcpy_ok:
  assumes s: "cstr src xs" and d: "0 < n" "n \<le> length dest"
  shows "\<exists>dest'. strlcpy dest src n = Some (length xs, dest') \<and> cstr dest' (take (n - 1) xs) \<and>
    length dest' = length dest \<and> drop n dest' = drop n dest"
proof -
  let ?k = "if n - 1 < length xs then n - 1 else length xs"
  have k: "?k < n" "?k \<le> length xs" "take ?k src = take (n - 1) xs" "length (take (n - 1) xs) = ?k"
    using d cstrD(5) [OF s] by (auto simp: min_def) (metis take_take min.absorb1 less_imp_le)
  let ?d = "(take ?k src @ drop ?k dest)[?k := 0]"
  have len: "?k \<le> length src" "?k < length dest" using k d cstrD(1) [OF s] by auto
  have "strlcpy dest src n = Some (length xs, ?d)"
    using strlen_ok [OF s] memcpy_ok [of ?k dest src] len d by (simp add: strlcpy_def Let_def wr_def del: if_split)
  moreover have "?d = take (n - 1) xs @ 0 # drop (Suc ?k) dest"
    using k len by (simp add: list_update_append Cons_nth_drop_Suc [symmetric] del: if_split)
  moreover have "drop n (take (n - 1) xs @ 0 # drop (Suc ?k) dest) = drop n dest"
    using k d by (simp add: drop_Cons' del: if_split)
  moreover have "length (take (n - 1) xs @ 0 # drop (Suc ?k) dest) = length dest" using k(4) len by (simp del: if_split length_take)
  moreover have "0 \<notin> set (take (n - 1) xs)" using s by (auto simp: cstr_def dest: in_set_takeD)
  ultimately show ?thesis by (intro exI [of _ ?d]) (auto simp: cstr_def)
qed

lemma strcmp_shift: "strcmp_loop (a # s) (b # t) (Suc i) = strcmp_loop s t i"
proof (induction "length s - i" arbitrary: i)
  case 0
  then show ?case by (subst (1 2) strcmp_loop.simps) simp
next
  case (Suc n)
  then have "n = length s - Suc i" by simp
  note IH = Suc.hyps(1) [OF this]
  show ?case by (subst (1 2) strcmp_loop.simps) (use IH in auto)
qed

text \<open>The lexicographic order of the strings, by unsigned bytes.\<close>

fun lexcmp :: "bytes \<Rightarrow> bytes \<Rightarrow> int" where
  "lexcmp [] [] = 0"
| "lexcmp [] (b # bs) = - uint b"
| "lexcmp (a # as) [] = uint a"
| "lexcmp (a # as) (b # bs) = (if a = b then lexcmp as bs else uint a - uint b)"

lemma cstr_Nil: "cstr s [] \<longleftrightarrow> (\<exists>r. s = 0 # r)"
  by (simp add: cstr_def)

lemma cstr_Cons: "cstr s (x # xs) \<longleftrightarrow> (\<exists>r. s = x # r \<and> x \<noteq> 0 \<and> cstr r xs)"
  by (auto simp: cstr_def)

lemma strcmp_lexcmp: "cstr s xs \<Longrightarrow> cstr t ys \<Longrightarrow> strcmp s t = Some (lexcmp xs ys)"
  unfolding strcmp_def
proof (induction xs ys arbitrary: s t rule: lexcmp.induct)
  case (4 a as b bs)
  then obtain s' t' where "s = a # s'" "cstr s' as" "t = b # t'" "cstr t' bs" "a \<noteq> 0" "b \<noteq> 0" by (auto simp: cstr_Cons)
  then show ?case using 4 strcmp_shift [of a s' b t' 0] by (cases "a = b"; subst strcmp_loop.simps) simp_all
qed (subst strcmp_loop.simps; force simp: cstr_Nil cstr_Cons)+

lemma lexcmp_eq: "0 \<notin> set xs \<Longrightarrow> 0 \<notin> set ys \<Longrightarrow> lexcmp xs ys = 0 \<longleftrightarrow> xs = ys"
  by (induction xs ys rule: lexcmp.induct) (auto simp: uint_0_iff intro: word_uint_eq_iff [THEN iffD2])

section \<open>Bounded copies\<close>

lemma strncpy_copy_ok:
  assumes "k = min n (length xs)" "i \<le> k" "\<forall>j<k. src ! j = xs ! j \<and> src ! j \<noteq> 0" "k < length src" "src ! k = 0 \<or> k = n" "n \<le> length dest"
  shows "strncpy_copy dest src n i = Some (k, take i dest @ take (k - i) (drop i xs) @ drop k dest)"
  using assms(2,6)
proof (induction "k - i" arbitrary: i dest)
  case 0
  then show ?case using assms(4,5) by (subst strncpy_copy.simps) auto
next
  case (Suc m)
  have i: "i < k" "i < n" "i < length xs" "i < length dest" using Suc.hyps(2) Suc.prems assms(1) by auto
  have x: "src ! i = xs ! i" "src ! i \<noteq> 0" using assms(3) i(1) by auto
  have "take (Suc i) (dest[i := xs ! i]) = take i dest @ [xs ! i]" using i(4) by (simp add: take_Suc_conv_app_nth)
  moreover have "take (k - i) (drop i xs) = xs ! i # take (k - Suc i) (drop (Suc i) xs)"
    using i by (simp add: Cons_nth_drop_Suc [symmetric] Suc_diff_Suc [symmetric])
  ultimately show ?case
    using Suc.hyps(1) [of "Suc i" "dest[i := xs ! i]"] Suc.hyps(2) Suc.prems(2) i x assms(4)
    by (subst strncpy_copy.simps) (simp add: wr_def drop_update_cancel)
qed

lemma memset_loop_ok: "i + n \<le> length p \<Longrightarrow> memset_loop n i b p = Some (take i p @ replicate n b @ drop (i + n) p)"
proof (induction n arbitrary: i p)
  case (Suc n)
  then show ?case by (simp add: wr_def take_Suc_conv_app_nth drop_update_cancel replicate_app_Cons_same)
qed simp

lemma strncpy_ok:
  assumes s: "cstr src xs" and d: "n \<le> length dest"
  shows "strncpy dest src n = Some (take n xs @ replicate (n - length xs) 0 @ drop n dest)"
proof -
  let ?k = "min n (length xs)"
  have "strncpy_copy dest src n 0 = Some (?k, take ?k xs @ drop ?k dest)"
    using strncpy_copy_ok [OF refl, of 0 n xs src dest] cstrD [OF s] d by (auto simp: min_def)
  then show ?thesis
    using d by (auto simp: strncpy_def memset_loop_ok min_def)
qed

text \<open>A source of exactly \<open>n\<close> characters without a terminator, which the documentation allows, is read past its end.\<close>

lemma strncpy_overread:
  assumes "length src \<le> n" "0 \<notin> set src" "n \<le> length dest"
  shows "strncpy dest src n = None"
proof -
  have "i \<le> length src \<Longrightarrow> length d = length dest \<Longrightarrow> strncpy_copy d src n i = None" for i d
  proof (induction "length src - i" arbitrary: i d)
    case 0
    then show ?case by (subst strncpy_copy.simps) simp
  next
    case (Suc m)
    have "src ! i \<noteq> 0" using assms(2) Suc by (metis nth_mem zero_less_Suc zero_less_diff)
    then show ?case using Suc assms(1,3) by (subst strncpy_copy.simps) (auto simp: wr_def bind_eq_None_conv)
  qed
  then show ?thesis by (simp add: strncpy_def)
qed

lemma strnlen_overread:
  assumes "length s \<le> maxlen" "0 \<notin> set s"
  shows "strnlen s maxlen = None"
proof -
  have "i \<le> length s \<Longrightarrow> strnlen_loop s maxlen i = None" for i
  proof (induction "length s - i" arbitrary: i)
    case 0
    then show ?case by (subst strnlen_loop.simps) simp
  next
    case (Suc m)
    have "s ! i \<noteq> 0" using assms(2) Suc by (metis nth_mem zero_less_Suc zero_less_diff)
    then show ?case using Suc assms(1) by (subst strnlen_loop.simps) simp
  qed
  then show ?thesis by (simp add: strnlen_def)
qed

end
