(* ===== verification/Net.thy ===== *)
theory Net
  imports Cstring
begin

text \<open>
  The network layer's leaf functions: byte order (\<^verbatim>\<open>include/network.h\<close>), the Internet checksum
  (\<^verbatim>\<open>network/net/netChksum.c\<close>), network addresses (\<^verbatim>\<open>network/netaddr/*.c\<close>) and the acceptance tests of
  \<^verbatim>\<open>network/ipv4/ipv4RecvValid.c\<close> and \<^verbatim>\<open>ipv4RecvDemux.c\<close>.  The byte order is little-endian.  An address
  holds \<^verbatim>\<open>NET_MAX_ALEN\<close> bytes and a separate length; reading past the array is \<open>None\<close>.
\<close>

section \<open>Byte order\<close>

lemma unat_byte: "unat (b::u8) < 256"
  using unsigned_less [of b, where ?'a = nat] by simp

definition hs2net :: "u32 \<Rightarrow> u32" where
  "hs2net x = (drop_bit 8 x AND 0xff) OR push_bit 8 (x AND 0xff)"

definition hl2net :: "u32 \<Rightarrow> u32" where
  "hl2net x = push_bit 24 (x AND 0xff) OR (drop_bit 24 x AND 0xff) OR
     drop_bit 8 (x AND 0xff0000) OR push_bit 8 (x AND 0xff00)"

abbreviation (input) net2hs :: "u32 \<Rightarrow> u32" where "net2hs x \<equiv> hs2net x"
abbreviation (input) net2hl :: "u32 \<Rightarrow> u32" where "net2hl x \<equiv> hl2net x"

section \<open>The Internet checksum\<close>

lemma unat_complement: "unat (NOT (x::u32)) = 4294967295 - unat x"
proof -
  have "NOT x = -1 - x" by (simp add: not_eq_complement)
  moreover have "unat (-1 - x) = unat (-1::u32) - unat x" by (rule unat_sub) simp
  moreover have "unat (-1::u32) = 4294967295" by (simp add: unsigned_minus_1_eq_mask mask_eq_exp_minus_1)
  ultimately show ?thesis by simp
qed

definition rd16 :: "bytes \<Rightarrow> nat \<Rightarrow> u32 option" where
  \<comment> \<open>an \<^verbatim>\<open>unsigned short\<close> read at a byte offset\<close>
  "rd16 d i = do { lo \<leftarrow> rd d i; hi \<leftarrow> rd d (i + 1); Some (ucast lo + 256 * ucast hi) }"

fun chksum_loop :: "bytes \<Rightarrow> nat \<Rightarrow> nat \<Rightarrow> u32 \<Rightarrow> (nat \<times> nat \<times> u32) option" where
  "chksum_loop d ptr len acc =
     (if len > 1
      then do { w \<leftarrow> rd16 d ptr; chksum_loop d (ptr + 2) (len - 2) (acc + w) }
      else Some (ptr, len, acc))"

lemma unat_fold_step:
  "unat (drop_bit 16 (x::u32) + (x AND 0xFFFF)) = unat x div 65536 + unat x mod 65536"
proof -
  have a: "unat (drop_bit 16 x) = unat x div 65536"
    by (simp add: drop_bit_eq_div unat_div_distrib)
  have "x AND 0xFFFF = take_bit 16 x"
    by (simp add: take_bit_eq_mask mask_eq_exp_minus_1)
  then have b: "unat (x AND 0xFFFF) = unat x mod 65536"
    by (simp add: take_bit_eq_mod unat_mod_distrib)
  have "unat x < 4294967296" using unsigned_less [of x, where ?'a = nat] by simp
  then have "unat x div 65536 + unat x mod 65536 < 4294967296" by linarith
  then show ?thesis using unat_add_no_wrap [of "drop_bit 16 x" "x AND 0xFFFF"] a b by simp
qed

lemma fold_step_less: "drop_bit 16 (x::u32) \<noteq> 0 \<Longrightarrow> unat x div 65536 + unat x mod 65536 < unat x"
proof -
  assume "drop_bit 16 x \<noteq> 0"
  then have "unat (drop_bit 16 x) \<noteq> 0" by (simp only: unat_eq_0 not_False_eq_True)
  then have "unat x div 65536 \<noteq> 0" by (simp add: drop_bit_eq_div unat_div_distrib)
  then show ?thesis using div_mult_mod_eq [of "unat x" 65536] by linarith
qed

function chksum_fold :: "u32 \<Rightarrow> u32" where
  "chksum_fold acc =
     (if drop_bit 16 acc \<noteq> 0 then chksum_fold (drop_bit 16 acc + (acc AND 0xFFFF)) else acc)"
  by auto
termination
  by (relation "measure unat") (simp_all only: wf_measure in_measure unat_fold_step fold_step_less not_False_eq_True)

declare chksum_fold.simps [simp del] chksum_loop.simps [simp del]

definition netChksum :: "bytes \<Rightarrow> nat \<Rightarrow> u16 option" where
  "netChksum data len = do {
     (ptr, len, acc) \<leftarrow> chksum_loop data 0 len 0;
     acc \<leftarrow> (if len > 0 then do { b \<leftarrow> rd data ptr; Some (acc + net2hs (push_bit 8 (ucast b))) } else Some acc);
     Some (ucast (NOT (chksum_fold acc)))
   }"

text \<open>The sum as natural numbers, and the closed form of the folding loop.\<close>

fun wsum :: "bytes \<Rightarrow> nat" where
  "wsum [] = 0"
| "wsum [b] = unat b"
| "wsum (lo # hi # bs) = unat lo + 256 * unat hi + wsum bs"

definition fold16 :: "nat \<Rightarrow> nat" where
  "fold16 n = (if n = 0 then 0 else (n - 1) mod 65535 + 1)"

lemma fold16_small: "n < 65536 \<Longrightarrow> fold16 n = n"
  by (auto simp: fold16_def)

lemma fold16_step: "fold16 (n div 65536 + n mod 65536) = fold16 n"
proof (cases "n = 0")
  case False
  define q r where "q = n div 65536" and "r = n mod 65536"
  have n: "n = 65535 * q + (q + r)" by (simp add: q_def r_def)
  with False have "q + r \<noteq> 0" by auto
  moreover have "(n - 1) mod 65535 = (q + r - 1) mod 65535"
  proof -
    have "n - 1 = (q + r - 1) + 65535 * q" using n \<open>q + r \<noteq> 0\<close> by linarith
    then show ?thesis by simp
  qed
  ultimately show ?thesis using False by (simp add: fold16_def flip: q_def r_def)
qed (simp add: fold16_def)

lemma unat_chksum_fold: "unat (chksum_fold x) = fold16 (unat x)"
proof (induction x rule: chksum_fold.induct)
  case (1 x)
  show ?case
  proof (cases "drop_bit 16 x = 0")
    case True
    then have "unat (drop_bit 16 x) = 0" by simp
    then have "unat x div 65536 = 0" by (simp add: drop_bit_eq_div unat_div_distrib)
    then have "unat x < 65536" by (simp add: div_eq_0_iff)
    then show ?thesis using True by (subst chksum_fold.simps) (simp add: fold16_small)
  next
    case False
    then show ?thesis using 1 by (subst chksum_fold.simps) (simp add: unat_fold_step fold16_step)
  qed
qed

lemma fold16_le: "fold16 n \<le> 65535"
proof -
  have "(n - 1) mod 65535 < 65535" by (rule mod_less_divisor) simp
  then show ?thesis unfolding fold16_def by (cases "n = 0") simp_all
qed

lemma rd16_ok:
  "i + 1 < length d \<Longrightarrow> \<exists>w. rd16 d i = Some w \<and> unat w = unat (d ! i) + 256 * unat (d ! (i + 1))"
proof -
  assume i: "i + 1 < length d"
  have b: "unat (d ! i) < 256" "unat (d ! (i + 1)) < 256" by (rule unat_byte)+
  have "unat (ucast (d ! i) + 256 * ucast (d ! (i + 1)) :: u32) = unat (d ! i) + 256 * unat (d ! (i + 1))"
    using b by (simp add: unat_word_ariths unsigned_ucast_eq take_bit_eq_mod)
  then show ?thesis using i by (simp add: rd16_def rd_def)
qed

lemma wsum_le: "wsum bs \<le> 65535 * ((length bs + 1) div 2)"
proof (induction bs rule: wsum.induct)
  case (2 b)
  then show ?case using unat_byte [of b] by simp
next
  case (3 lo hi bs)
  then show ?case using unat_byte [of lo] unat_byte [of hi] by simp
qed simp

lemma chksum_loop_ok:
  assumes "i + n \<le> length d" "unat acc + wsum (take n (drop i d)) < 4294967296"
  shows "\<exists>acc'. chksum_loop d i n acc = Some (i + n - n mod 2, n mod 2, acc') \<and>
    unat acc' = unat acc + wsum (take (n - n mod 2) (drop i d))"
  using assms
proof (induction n arbitrary: i acc rule: less_induct)
  case (less n)
  show ?case
  proof (cases "n > 1")
    case False
    then show ?thesis by (subst chksum_loop.simps) (cases n; auto)
  next
    case True
    then obtain m where n: "n = Suc (Suc m)" by (metis Suc_lessE One_nat_def gr0_conv_Suc less_Suc_eq_0_disj)
    have split: "take n (drop i d) = d ! i # d ! Suc i # take m (drop (Suc (Suc i)) d)"
      using less.prems(1) by (simp add: n Cons_nth_drop_Suc [symmetric])
    obtain w where w: "rd16 d i = Some w" "unat w = unat (d ! i) + 256 * unat (d ! (i + 1))"
      using rd16_ok [of i d] less.prems(1) True by auto
    have sum: "unat (acc + w) = unat acc + unat w"
      using less.prems(2) by (intro unat_add_no_wrap) (simp add: split w(2))
    have bnd: "unat (acc + w) + wsum (take m (drop (i + 2) d)) < 4294967296"
      using less.prems(2) sum unfolding split by (simp add: w(2))
    have "\<exists>acc'. chksum_loop d (i + 2) m (acc + w) = Some (i + 2 + m - m mod 2, m mod 2, acc') \<and>
        unat acc' = unat (acc + w) + wsum (take (m - m mod 2) (drop (i + 2) d))"
      by (rule less.IH) (use less.prems(1) bnd in \<open>simp_all add: n\<close>)
    then obtain acc' where ih: "chksum_loop d (i + 2) m (acc + w) = Some (i + 2 + m - m mod 2, m mod 2, acc')"
      "unat acc' = unat (acc + w) + wsum (take (m - m mod 2) (drop (i + 2) d))" by blast
    have "n - n mod 2 = Suc (Suc (m - m mod 2))"
    proof -
      have "m mod 2 \<le> m" by (rule mod_less_eq_dividend)
      then show ?thesis by (simp add: n)
    qed
    then have "take (n - n mod 2) (drop i d) = d ! i # d ! Suc i # take (m - m mod 2) (drop (Suc (Suc i)) d)"
      using less.prems(1) by (simp add: n Cons_nth_drop_Suc [symmetric])
    then show ?thesis using w ih sum True by (subst chksum_loop.simps) (simp add: n)
  qed
qed

lemma hs2net_byte: "hs2net (push_bit 8 (ucast (b::u8))) = ucast b"
proof -
  have ff: "(0xff::u32) = mask 8" by (simp add: mask_eq_exp_minus_1)
  show ?thesis unfolding hs2net_def ff
    by (rule bit_word_eqI) (auto simp: bit_simps dest: bit_imp_le_length)
qed

lemma wsum_append_even: "even (length xs) \<Longrightarrow> wsum (xs @ ys) = wsum xs + wsum ys"
  by (induction xs rule: wsum.induct) auto

lemma netChksum_ok:
  assumes "len \<le> length d" "len \<le> 131070"
  shows "\<exists>c. netChksum d len = Some c \<and> unat c = 65535 - fold16 (wsum (take len d))"
proof -
  have "wsum (take len d) \<le> 65535 * ((len + 1) div 2)" using wsum_le [of "take len d"] assms by simp
  moreover have "(len + 1) div 2 \<le> 65535" using assms(2) by simp
  ultimately have small: "wsum (take len d) < 4294967296" by linarith
  obtain acc where l: "chksum_loop d 0 len 0 = Some (len - len mod 2, len mod 2, acc)"
    and acc: "unat acc = wsum (take (len - len mod 2) d)"
    using chksum_loop_ok [of 0 len d 0] assms small by auto
  define last where "last = (if len mod 2 > 0 then unat (d ! (len - 1)) else 0)"
  have sum: "wsum (take len d) = unat acc + last"
  proof (cases "len mod 2 > 0")
    case True
    then obtain m where m: "len = Suc m" "even m" using even_Suc [of "len - 1"] by (cases len) (auto simp: even_iff_mod_2_eq_zero)
    then have "take len d = take m d @ [d ! m]" using assms by (simp add: take_Suc_conv_app_nth)
    moreover have "even (length (take m d))" using m assms by simp
    ultimately show ?thesis using m True acc by (simp add: wsum_append_even last_def)
  qed (simp add: acc last_def)
  have "\<exists>acc'. (if len mod 2 > 0 then do { b \<leftarrow> rd d (len - len mod 2); Some (acc + hs2net (push_bit 8 (ucast b))) } else Some acc)
      = Some acc' \<and> unat acc' = unat acc + last"
  proof (cases "len mod 2 > 0")
    case True
    then have one: "len mod 2 = 1" by simp
    have "len - 1 < length d" using True assms by (cases len) auto
    moreover have "unat (ucast (d ! (len - 1)) :: u32) = unat (d ! (len - 1))"
      using unat_byte [of "d ! (len - 1)"] by (simp add: unsigned_ucast_eq take_bit_eq_mod)
    moreover from this have "unat (acc + ucast (d ! (len - 1))) = unat acc + unat (d ! (len - 1))"
      using small sum True by (subst unat_add_no_wrap) (simp_all add: last_def)
    ultimately show ?thesis unfolding one last_def by (simp only: hs2net_byte) (simp add: rd_def)
  qed (simp add: last_def)
  then obtain acc' where a': "(if len mod 2 > 0 then do { b \<leftarrow> rd d (len - len mod 2); Some (acc + hs2net (push_bit 8 (ucast b))) } else Some acc)
      = Some acc'" "unat acc' = wsum (take len d)" using sum by auto
  have "unat (ucast (NOT (chksum_fold acc')) :: u16) = 65535 - fold16 (wsum (take len d))"
  proof -
    have f: "unat (chksum_fold acc') = fold16 (wsum (take len d))" by (simp add: unat_chksum_fold a')
    then have "unat (NOT (chksum_fold acc')) = 4294967295 - fold16 (wsum (take len d))"
      by (simp add: unat_complement)
    moreover have "(4294967295 - fold16 (wsum (take len d))) mod 65536 = 65535 - fold16 (wsum (take len d))"
    proof -
      have "4294967295 - fold16 (wsum (take len d)) = 65535 - fold16 (wsum (take len d)) + 65535 * 65536"
        using fold16_le [of "wsum (take len d)"] by simp
      then have "(4294967295 - fold16 (wsum (take len d))) mod 65536 = (65535 - fold16 (wsum (take len d))) mod 65536"
        by (simp only: mod_mult_self1)
      then show ?thesis by simp
    qed
    ultimately show ?thesis by (simp add: unsigned_ucast_eq take_bit_eq_mod)
  qed
  then show ?thesis using l a'(1) by (simp add: netChksum_def)
qed

text \<open>A sender stores the checksum of a header whose checksum field is zero; the receiver's sum over
  the stored header is then zero.\<close>

lemma fold16_complement: "fold16 (n + (65535 - fold16 n)) = 65535"
proof -
  define q where "q = (n - 1) div 65535"
  have "n + (65535 - fold16 n) = 65534 + 65535 * q + 1"
  proof (cases "n = 0")
    case False
    have "n - 1 = q * 65535 + (n - 1) mod 65535" by (simp add: q_def)
    moreover have "(n - 1) mod 65535 < 65535" by (rule mod_less_divisor) simp
    ultimately show ?thesis using False unfolding fold16_def by simp
  qed (simp add: fold16_def q_def)
  then show ?thesis by (simp add: fold16_def)
qed

definition put16 :: "bytes \<Rightarrow> nat \<Rightarrow> u16 \<Rightarrow> bytes" where
  \<comment> \<open>an \<^verbatim>\<open>unsigned short\<close> stored at a byte offset\<close>
  "put16 d i v = d[i := ucast v, i + 1 := ucast (drop_bit 8 v)]"

lemma length_put16 [simp]: "length (put16 d i v) = length d"
  by (simp add: put16_def)

lemma wsum_put16:
  assumes "even i" "i + 1 < length d" "d ! i = 0" "d ! (i + 1) = 0"
  shows "wsum (put16 d i v) = wsum d + unat v"
proof -
  have d: "d = take i d @ 0 # 0 # drop (i + 2) d"
    using assms by (metis Suc_lessD add_2_eq_Suc' append_take_drop_id Cons_nth_drop_Suc Suc_eq_plus1)
  have p: "put16 d i v = take i d @ ucast v # ucast (drop_bit 8 v) # drop (i + 2) d"
    using assms by (subst d) (simp add: put16_def list_update_append)
  have "unat (ucast v :: u8) + 256 * unat (ucast (drop_bit 8 v) :: u8) = unat v"
  proof -
    have "unat v < 65536" using unsigned_less [of v, where ?'a = nat] by simp
    then have "unat v div 256 < 256" by (simp add: div_less_iff_less_mult)
    then show ?thesis by (simp add: unsigned_ucast_eq take_bit_eq_mod drop_bit_eq_div unat_div_distrib)
  qed
  moreover have "wsum d = wsum (take i d) + wsum (drop (i + 2) d)"
    using assms(1,2) by (subst d) (simp add: wsum_append_even)
  ultimately show ?thesis using assms(1,2) unfolding p by (simp add: wsum_append_even)
qed

lemma netChksum_verify:
  assumes "len \<le> length d" "len \<le> 131070" "even i" "i + 1 < len" "d ! i = 0" "d ! (i + 1) = 0"
    and c: "netChksum d len = Some c"
  shows "netChksum (put16 d i c) len = Some 0"
proof -
  have "unat c = 65535 - fold16 (wsum (take len d))" using netChksum_ok [OF assms(1,2)] c by auto
  moreover have "take len (put16 d i c) = put16 (take len d) i c" by (simp add: put16_def take_update_swap)
  moreover have "wsum (put16 (take len d) i c) = wsum (take len d) + unat c"
    using assms by (intro wsum_put16) auto
  moreover obtain c' where "netChksum (put16 d i c) len = Some c'"
    "unat c' = 65535 - fold16 (wsum (take len (put16 d i c)))"
    using netChksum_ok [of len "put16 d i c"] assms by (auto simp: put16_def)
  ultimately show ?thesis by (simp add: fold16_complement unat_eq_0)
qed

section \<open>Network addresses\<close>

abbreviation (input) NET_MAX_ALEN :: nat where "NET_MAX_ALEN \<equiv> 6"
abbreviation (input) IPv4_ADDR_LEN :: u8 where "IPv4_ADDR_LEN \<equiv> 4"
abbreviation (input) ETH_ADDR_LEN :: u8 where "ETH_ADDR_LEN \<equiv> 6"
abbreviation (input) NETADDR_ETHERNET :: u16 where "NETADDR_ETHERNET \<equiv> 1"
abbreviation (input) NETADDR_IPv4 :: u16 where "NETADDR_IPv4 \<equiv> 0x800"

record netaddr =
  natype :: u16
  nalen :: u8
  naddr :: bytes

definition netaddrequal :: "netaddr \<Rightarrow> netaddr \<Rightarrow> bool option" where
  "netaddrequal a b =
     (if natype a = natype b \<and> nalen a = nalen b
      then map_option (\<lambda>r. r = 0) (memcmp (naddr a) (naddr b) (unat (nalen a)))
      else Some False)"

fun addr_loop :: "(u8 \<Rightarrow> u8 \<Rightarrow> u8) \<Rightarrow> nat \<Rightarrow> nat \<Rightarrow> bytes \<Rightarrow> bytes \<Rightarrow> bytes option" where
  "addr_loop f 0 i a m = Some a"
| "addr_loop f (Suc n) i a m = do { x \<leftarrow> rd a i; y \<leftarrow> rd m i; a \<leftarrow> wr a i (f x y); addr_loop f n (i + 1) a m }"

definition netaddrmask :: "netaddr \<Rightarrow> netaddr \<Rightarrow> (int \<times> netaddr) option" where
  "netaddrmask a msk =
     (if natype a \<noteq> natype msk \<or> nalen a \<noteq> nalen msk then Some (SYSERR, a)
      else do {
        xs \<leftarrow> addr_loop (\<lambda>x y. x AND y) (unat (nalen a)) 0 (naddr a) (naddr msk);
        Some (OK, a\<lparr>naddr := xs\<rparr>)
      })"

definition netaddrhost :: "netaddr \<Rightarrow> netaddr \<Rightarrow> (int \<times> netaddr) option" where
  "netaddrhost a msk =
     (if natype a \<noteq> natype msk \<or> nalen a \<noteq> nalen msk then Some (SYSERR, a)
      else do {
        xs \<leftarrow> addr_loop (\<lambda>x y. x AND NOT y) (unat (nalen a)) 0 (naddr a) (naddr msk);
        Some (OK, a\<lparr>naddr := xs\<rparr>)
      })"

definition wf_addr :: "netaddr \<Rightarrow> bool" where
  "wf_addr a \<longleftrightarrow> length (naddr a) = NET_MAX_ALEN \<and> unat (nalen a) \<le> NET_MAX_ALEN"

definition same_kind :: "netaddr \<Rightarrow> netaddr \<Rightarrow> bool" where
  "same_kind a b \<longleftrightarrow> natype a = natype b \<and> nalen a = nalen b"

text \<open>The bytes that count.\<close>

definition octets :: "netaddr \<Rightarrow> bytes" where
  "octets a = take (unat (nalen a)) (naddr a)"

definition masked :: "netaddr \<Rightarrow> netaddr \<Rightarrow> netaddr" where
  "masked a m = (if same_kind a m
     then a\<lparr>naddr := map2 (\<lambda>x y. x AND y) (octets a) (octets m) @ drop (unat (nalen a)) (naddr a)\<rparr>
     else a)"

lemma memcmp_loop_eq:
  "i + n \<le> length s \<Longrightarrow> i + n \<le> length t \<Longrightarrow>
   \<exists>r. memcmp_loop n i s t = Some r \<and> (r = 0 \<longleftrightarrow> take n (drop i s) = take n (drop i t))"
proof (induction n arbitrary: i)
  case (Suc n)
  have s: "take (Suc n) (drop i s) = s ! i # take n (drop (Suc i) s)"
    "take (Suc n) (drop i t) = t ! i # take n (drop (Suc i) t)"
    using Suc.prems by (simp_all add: Cons_nth_drop_Suc [symmetric])
  show ?case using Suc.prems Suc.IH [of "Suc i"] by (auto simp: rd_def s word_uint_eq_iff)
qed simp

lemma netaddrequal_octets:
  assumes "unat (nalen a) \<le> length (naddr a)" "unat (nalen b) \<le> length (naddr b)"
  shows "netaddrequal a b = Some (same_kind a b \<and> octets a = octets b)"
proof (cases "same_kind a b")
  case True
  then have "nalen b = nalen a" by (simp add: same_kind_def)
  then obtain r where "memcmp (naddr a) (naddr b) (unat (nalen a)) = Some r" "r = 0 \<longleftrightarrow> octets a = octets b"
    using assms memcmp_loop_eq [of 0 "unat (nalen a)" "naddr a" "naddr b"]
    by (auto simp: memcmp_def octets_def)
  then show ?thesis using True by (simp add: netaddrequal_def same_kind_def)
next
  case False
  then show ?thesis by (auto simp: netaddrequal_def same_kind_def)
qed

lemma netaddrequal_ok:
  "wf_addr a \<Longrightarrow> wf_addr b \<Longrightarrow> netaddrequal a b = Some (same_kind a b \<and> octets a = octets b)"
  by (rule netaddrequal_octets) (auto simp: wf_addr_def)

lemma addr_loop_ok:
  "i + n \<le> length a \<Longrightarrow> i + n \<le> length m \<Longrightarrow>
   addr_loop f n i a m = Some (take i a @ map2 f (take n (drop i a)) (take n (drop i m)) @ drop (i + n) a)"
proof (induction n arbitrary: i a)
  case (Suc n)
  have s: "take (Suc n) (drop i a) = a ! i # take n (drop (Suc i) a)"
    "take (Suc n) (drop i m) = m ! i # take n (drop (Suc i) m)"
    using Suc.prems by (simp_all add: Cons_nth_drop_Suc [symmetric])
  have "take (Suc i) (a[i := v]) = take i a @ [v]" for v using Suc.prems by (simp add: take_Suc_conv_app_nth)
  then show ?case using Suc by (simp add: rd_def wr_def s drop_update_cancel)
qed simp

lemma netaddrmask_ok:
  "wf_addr a \<Longrightarrow> wf_addr m \<Longrightarrow> netaddrmask a m = Some (if same_kind a m then OK else SYSERR, masked a m)"
  using addr_loop_ok [of 0 "unat (nalen a)" "naddr a" "naddr m" "\<lambda>x y. x AND y"]
  by (auto simp: netaddrmask_def masked_def same_kind_def wf_addr_def octets_def)

lemma masked_simps [simp]:
  "natype (masked a m) = natype a" "nalen (masked a m) = nalen a"
  by (simp_all add: masked_def)

lemma wf_masked [simp]: "wf_addr a \<Longrightarrow> wf_addr m \<Longrightarrow> wf_addr (masked a m)"
  by (auto simp: masked_def wf_addr_def octets_def same_kind_def)

lemma octets_masked:
  "wf_addr a \<Longrightarrow> wf_addr m \<Longrightarrow>
   octets (masked a m) = (if same_kind a m then map2 (\<lambda>x y. x AND y) (octets a) (octets m) else octets a)"
  by (auto simp: masked_def wf_addr_def octets_def same_kind_def)

section \<open>Accepting an IPv4 packet\<close>

abbreviation (input) IPv4_MIN_IHL :: int where "IPv4_MIN_IHL \<equiv> 5"
abbreviation (input) IPv4_MAX_IHL :: int where "IPv4_MAX_IHL \<equiv> 15"

definition ipv4RecvValid :: "bytes \<Rightarrow> bool option" where
  "ipv4RecvValid ip = do {
     ver_ihl \<leftarrow> rd ip 0;
     let ip_ihl = uint (ver_ihl AND 0x0F);
     if drop_bit 4 (ver_ihl AND 0xF0) \<noteq> 4 then Some False
     else if ip_ihl < IPv4_MIN_IHL \<or> ip_ihl > IPv4_MAX_IHL then Some False
     else do {
       len \<leftarrow> rd16 ip 2;
       if uint len < IPv4_MIN_IHL * 4 then Some False
       else do {
         c \<leftarrow> netChksum ip (nat (ip_ihl * 4));
         Some (c = 0)
       }
     }
   }"

record netif =
  nifdev :: int
  nifstate :: u16
  nifmtu :: u32
  niflinkhdrlen :: u32
  nifip :: netaddr
  nifmask :: netaddr
  nifgateway :: netaddr
  nifipbrc :: netaddr
  nifhwaddr :: netaddr
  nifhwbrc :: netaddr

abbreviation (input) NET_ALLOC :: u16 where "NET_ALLOC \<equiv> 1"

fun ipv4RecvDemux :: "netif list \<Rightarrow> netaddr \<Rightarrow> bool option" where
  "ipv4RecvDemux [] dst = Some False"
| "ipv4RecvDemux (netptr # nifs) dst =
     (if nifstate netptr \<noteq> NET_ALLOC then ipv4RecvDemux nifs dst
      else do {
        a \<leftarrow> netaddrequal dst (nifip netptr);
        b \<leftarrow> (if a then Some True else netaddrequal dst (nifipbrc netptr));
        if b then Some True else ipv4RecvDemux nifs dst
      })"

lemma ipv4RecvDemux_ok:
  assumes "wf_addr dst" "\<forall>n \<in> set nifs. wf_addr (nifip n) \<and> wf_addr (nifipbrc n)"
  shows "ipv4RecvDemux nifs dst = Some (\<exists>n \<in> set nifs. nifstate n = NET_ALLOC \<and>
    (\<exists>a \<in> {nifip n, nifipbrc n}. same_kind dst a \<and> octets dst = octets a))"
  using assms by (induction nifs) (auto simp: netaddrequal_ok)

lemma ipv4RecvValid_sound:
  assumes "ipv4RecvValid ip = Some True"
  shows "\<exists>b. rd ip 0 = Some b \<and> drop_bit 4 (b AND 0xF0) = 4 \<and> 5 \<le> uint (b AND 0x0F) \<and>
    netChksum ip (nat (uint (b AND 0x0F) * 4)) = Some 0"
  using assms by (auto simp: ipv4RecvValid_def Let_def bind_Some_iff split: if_splits)
end
