(* ===== verification/Route.thy ===== *)
theory Route
  imports Net
begin

text \<open>
  The routing table of \<^verbatim>\<open>network/route/*.c\<close>.  A pointer to an entry is its index in \<^verbatim>\<open>rttab\<close>, a pointer to
  an interface its index in \<^verbatim>\<open>netiftab\<close>, and \<open>None\<close> is \<^verbatim>\<open>NULL\<close>; the outer \<open>None\<close> of a result is an access
  outside an address array.  The operations run with the scheduler disabled.  Forwarding
  (\<^verbatim>\<open>rtSend\<close>) returns the list of the calls it makes into the ICMP and IPv4 senders.
\<close>

section \<open>Table and operations\<close>

abbreviation (input) RT_NENTRY :: nat where "RT_NENTRY \<equiv> 32"

datatype rtState = RT_FREE | RT_USED | RT_PEND

record rtEntry =
  rtstate :: rtState
  rtmasklen :: u16
  rtdst :: netaddr
  rtgateway :: netaddr
  rtmask :: netaddr
  rtnif :: "nat option"

type_synonym rttab = "rtEntry list"

fun rtAlloc_loop :: "nat \<Rightarrow> nat \<Rightarrow> rttab \<Rightarrow> nat option \<times> rttab" where
  "rtAlloc_loop 0 i tab = (None, tab)"
| "rtAlloc_loop (Suc n) i tab =
     (if rtstate (tab ! i) = RT_FREE
      then (Some i, tab[i := (tab ! i)\<lparr>rtstate := RT_PEND\<rparr>])
      else rtAlloc_loop n (i + 1) tab)"

definition rtAlloc :: "rttab \<Rightarrow> nat option \<times> rttab" where
  "rtAlloc tab = rtAlloc_loop RT_NENTRY 0 tab"

function octet_bits :: "u8 \<Rightarrow> u16 \<Rightarrow> u16" where
  "octet_bits octet n =
     (if octet > 0
      then octet_bits (drop_bit 1 octet) (if octet AND 1 \<noteq> 0 then n + 1 else n)
      else n)"
  by auto
termination
proof (relation "measure (unat \<circ> fst)", simp)
  fix octet :: u8 and n
  assume "0 < octet"
  then have "0 < unat octet" by (simp add: unat_gt_0)
  then show "((drop_bit 1 octet, if octet AND 1 \<noteq> 0 then n + 1 else n), octet, n) \<in> measure (unat \<circ> fst)"
    by (simp add: drop_bit_eq_div unat_div_distrib)
qed

declare octet_bits.simps [simp del]

fun mask_bits :: "nat \<Rightarrow> nat \<Rightarrow> bytes \<Rightarrow> u16 \<Rightarrow> u16 option" where
  "mask_bits 0 i a n = Some n"
| "mask_bits (Suc k) i a n = do { octet \<leftarrow> rd a i; mask_bits k (i + 1) a (octet_bits octet n) }"

definition rtAdd :: "netaddr option \<Rightarrow> netaddr option \<Rightarrow> netaddr option \<Rightarrow> nat option \<Rightarrow> rttab \<Rightarrow> (int \<times> rttab) option" where
  "rtAdd dst gate msk nif tab =
     (case (dst, msk, nif) of
        (Some dst, Some msk, Some nif) \<Rightarrow>
          (case rtAlloc tab of
             (None, tab) \<Rightarrow> Some (SYSERR, tab)
           | (Some r, tab) \<Rightarrow> do {
               let tab = tab[r := (tab ! r)\<lparr>rtdst := dst\<rparr>];
               (_, d) \<leftarrow> netaddrmask (rtdst (tab ! r)) msk;
               let tab = tab[r := (tab ! r)\<lparr>rtdst := d\<rparr>];
               let tab = (case gate of
                  None \<Rightarrow> tab[r := (tab ! r)\<lparr>rtgateway := (rtgateway (tab ! r))\<lparr>natype := 0\<rparr>\<rparr>]
                | Some g \<Rightarrow> tab[r := (tab ! r)\<lparr>rtgateway := g\<rparr>]);
               let tab = tab[r := (tab ! r)\<lparr>rtmask := msk\<rparr>];
               let tab = tab[r := (tab ! r)\<lparr>rtnif := Some nif\<rparr>];
               len \<leftarrow> mask_bits (unat (nalen msk)) 0 (naddr msk) 0;
               let tab = tab[r := (tab ! r)\<lparr>rtmasklen := len\<rparr>];
               Some (OK, tab[r := (tab ! r)\<lparr>rtstate := RT_USED\<rparr>])
             })
      | _ \<Rightarrow> Some (SYSERR, tab))"

fun rtDefault_exists :: "nat \<Rightarrow> nat \<Rightarrow> netaddr \<Rightarrow> rttab \<Rightarrow> bool option" where
  "rtDefault_exists 0 i msk tab = Some False"
| "rtDefault_exists (Suc n) i msk tab = do {
     eq \<leftarrow> (if rtstate (tab ! i) = RT_USED then netaddrequal (rtmask (tab ! i)) msk else Some False);
     if eq then Some True else rtDefault_exists n (i + 1) msk tab
   }"

text \<open>The bytes of the local variable \<^verbatim>\<open>mask\<close> of \<^verbatim>\<open>rtDefault\<close> are unspecified before \<^verbatim>\<open>bzero\<close>: they are
  the argument \<open>junk\<close>.\<close>

definition rtDefault :: "bytes \<Rightarrow> netaddr option \<Rightarrow> nat option \<Rightarrow> rttab \<Rightarrow> (int \<times> rttab) option" where
  "rtDefault junk gate nif tab =
     (case (gate, nif) of
        (Some gate, Some nif) \<Rightarrow>
          if unat (nalen gate) > NET_MAX_ALEN then Some (SYSERR, tab)
          else do {
            z \<leftarrow> bzero junk (unat (nalen gate));
            let msk = \<lparr>natype = natype gate, nalen = nalen gate, naddr = z\<rparr>;
            ex \<leftarrow> rtDefault_exists RT_NENTRY 0 msk tab;
            if ex then Some (OK, tab)
            else (case rtAlloc tab of
                (None, tab) \<Rightarrow> Some (SYSERR, tab)
              | (Some r, tab) \<Rightarrow>
                  Some (OK, tab[r := (tab ! r)\<lparr>rtdst := msk, rtgateway := gate, rtmask := msk, rtnif := Some nif,
                    rtmasklen := 0, rtstate := RT_USED\<rparr>]))
          }
      | _ \<Rightarrow> Some (SYSERR, tab))"

fun rtLookup_loop :: "rttab \<Rightarrow> netaddr \<Rightarrow> nat \<Rightarrow> nat \<Rightarrow> nat option \<Rightarrow> nat option option" where
  "rtLookup_loop tab a 0 i rtptr = Some rtptr"
| "rtLookup_loop tab a (Suc n) i rtptr =
     (if rtstate (tab ! i) = RT_USED
      then do {
        (_, m) \<leftarrow> netaddrmask a (rtmask (tab ! i));
        eq \<leftarrow> netaddrequal m (rtdst (tab ! i));
        rtLookup_loop tab a n (i + 1)
          (if eq \<and> (case rtptr of None \<Rightarrow> True | Some p \<Rightarrow> rtmasklen (tab ! p) < rtmasklen (tab ! i))
           then Some i else rtptr)
      }
      else rtLookup_loop tab a n (i + 1) rtptr)"

definition rtLookup :: "rttab \<Rightarrow> netaddr \<Rightarrow> nat option option" where
  "rtLookup tab a = rtLookup_loop tab a RT_NENTRY 0 None"

fun rtRemove_loop :: "nat \<Rightarrow> nat \<Rightarrow> netaddr \<Rightarrow> rttab \<Rightarrow> rttab option" where
  "rtRemove_loop 0 i dst tab = Some tab"
| "rtRemove_loop (Suc n) i dst tab = do {
     eq \<leftarrow> (if rtstate (tab ! i) = RT_USED then netaddrequal dst (rtdst (tab ! i)) else Some False);
     rtRemove_loop n (i + 1) dst (if eq then tab[i := (tab ! i)\<lparr>rtstate := RT_FREE, rtnif := None\<rparr>] else tab)
   }"

definition rtRemove :: "netaddr option \<Rightarrow> rttab \<Rightarrow> (int \<times> rttab) option" where
  "rtRemove dst tab = (case dst of None \<Rightarrow> Some (SYSERR, tab)
     | Some dst \<Rightarrow> do { tab \<leftarrow> rtRemove_loop RT_NENTRY 0 dst tab; Some (OK, tab) })"

fun rtClear_loop :: "nat \<Rightarrow> nat \<Rightarrow> nat \<Rightarrow> rttab \<Rightarrow> rttab" where
  "rtClear_loop 0 i nif tab = tab"
| "rtClear_loop (Suc n) i nif tab =
     rtClear_loop n (i + 1) nif
       (if rtstate (tab ! i) = RT_USED \<and> rtnif (tab ! i) = Some nif
        then tab[i := (tab ! i)\<lparr>rtstate := RT_FREE, rtnif := None\<rparr>] else tab)"

definition rtClear :: "nat option \<Rightarrow> rttab \<Rightarrow> int \<times> rttab" where
  "rtClear nif tab = (case nif of None \<Rightarrow> (SYSERR, tab) | Some nif \<Rightarrow> (OK, rtClear_loop RT_NENTRY 0 nif tab))"

section \<open>Longest prefix match\<close>

definition rt_wf :: "rttab \<Rightarrow> bool" where
  "rt_wf tab \<longleftrightarrow> length tab = RT_NENTRY \<and>
     (\<forall>e \<in> set tab. rtstate e = RT_USED \<longrightarrow> wf_addr (rtdst e) \<and> wf_addr (rtmask e))"

text \<open>A route matches an address when the destination equals the address under the route's mask.\<close>

definition rt_matches :: "netaddr \<Rightarrow> rtEntry \<Rightarrow> bool" where
  "rt_matches a e \<longleftrightarrow> rtstate e = RT_USED \<and> same_kind a (rtdst e) \<and> octets (masked a (rtmask e)) = octets (rtdst e)"

definition best_route :: "rttab \<Rightarrow> netaddr \<Rightarrow> nat \<Rightarrow> nat option \<Rightarrow> bool" where
  \<comment> \<open>\<open>r\<close> is the first of the longest matches among the first \<open>n\<close> entries\<close>
  "best_route tab a n r \<longleftrightarrow>
     (case r of
        None \<Rightarrow> \<forall>j < n. \<not> rt_matches a (tab ! j)
      | Some p \<Rightarrow> p < n \<and> rt_matches a (tab ! p) \<and>
          (\<forall>j < n. rt_matches a (tab ! j) \<longrightarrow>
             rtmasklen (tab ! j) \<le> rtmasklen (tab ! p) \<and> (j < p \<longrightarrow> rtmasklen (tab ! j) < rtmasklen (tab ! p))))"

lemma best_route_Suc:
  assumes "best_route tab a i r"
  shows "best_route tab a (Suc i)
    (if rt_matches a (tab ! i) \<and> (case r of None \<Rightarrow> True | Some p \<Rightarrow> rtmasklen (tab ! p) < rtmasklen (tab ! i))
     then Some i else r)"
  using assms unfolding best_route_def
  by (auto simp: less_Suc_eq split: option.splits intro: order.trans le_less_trans less_imp_le)

lemma match_step:
  assumes "wf_addr a" "wf_addr (rtdst e)" "wf_addr (rtmask e)" "rtstate e = RT_USED"
  shows "\<exists>x. netaddrmask a (rtmask e) = Some (x, masked a (rtmask e)) \<and>
    netaddrequal (masked a (rtmask e)) (rtdst e) = Some (rt_matches a e)"
  using assms by (auto simp: netaddrmask_ok netaddrequal_ok rt_matches_def same_kind_def)

lemma rtLookup_loop_ok:
  assumes "rt_wf tab" "wf_addr a" "i + n = RT_NENTRY" "best_route tab a i r"
  shows "\<exists>r'. rtLookup_loop tab a n i r = Some r' \<and> best_route tab a RT_NENTRY r'"
  using assms(3,4)
proof (induction n arbitrary: i r)
  case (Suc n)
  show ?case
  proof (cases "rtstate (tab ! i) = RT_USED")
    case True
    have "tab ! i \<in> set tab" using Suc.prems assms(1) by (simp add: rt_wf_def)
    then obtain x where "netaddrmask a (rtmask (tab ! i)) = Some (x, masked a (rtmask (tab ! i)))"
      "netaddrequal (masked a (rtmask (tab ! i))) (rtdst (tab ! i)) = Some (rt_matches a (tab ! i))"
      using match_step [of a "tab ! i"] True assms(1,2) by (auto simp: rt_wf_def)
    then show ?thesis using True Suc.IH [OF _ best_route_Suc [OF Suc.prems(2)]] Suc.prems(1) by simp
  next
    case False
    then have "best_route tab a (Suc i) r"
      using best_route_Suc [OF Suc.prems(2)] by (simp add: rt_matches_def)
    then show ?thesis using False Suc.IH [of "Suc i" r] Suc.prems(1) by simp
  qed
qed simp

lemma rtLookup_ok:
  assumes "rt_wf tab" "wf_addr a"
  shows "\<exists>r. rtLookup tab a = Some r \<and> best_route tab a RT_NENTRY r"
  unfolding rtLookup_def using rtLookup_loop_ok [OF assms, of 0 32 None] by (simp add: best_route_def)

lemma best_route_unique:
  assumes "best_route tab a n r" "best_route tab a n r'"
  shows "r = r'"
proof (cases r; cases r')
  fix p q assume r: "r = Some p" "r' = Some q"
  have "rtmasklen (tab ! q) \<le> rtmasklen (tab ! p)" "rtmasklen (tab ! p) \<le> rtmasklen (tab ! q)"
    "q < p \<Longrightarrow> rtmasklen (tab ! q) < rtmasklen (tab ! p)" "p < q \<Longrightarrow> rtmasklen (tab ! p) < rtmasklen (tab ! q)"
    using assms unfolding best_route_def r by simp_all
  then show ?thesis unfolding r by (cases p q rule: linorder_cases) auto
qed (use assms in \<open>auto simp: best_route_def\<close>)

section \<open>Adding and deleting routes\<close>

lemma rtAlloc_loop_cases:
  "i + n = length tab \<Longrightarrow>
     (\<forall>j. i \<le> j \<and> j < length tab \<longrightarrow> rtstate (tab ! j) \<noteq> RT_FREE) \<and> rtAlloc_loop n i tab = (None, tab) \<or>
     (\<exists>r. i \<le> r \<and> r < length tab \<and> rtstate (tab ! r) = RT_FREE \<and>
        (\<forall>j. i \<le> j \<and> j < r \<longrightarrow> rtstate (tab ! j) \<noteq> RT_FREE) \<and>
        rtAlloc_loop n i tab = (Some r, tab[r := (tab ! r)\<lparr>rtstate := RT_PEND\<rparr>]))"
proof (induction n arbitrary: i)
  case (Suc n)
  show ?case
  proof (cases "rtstate (tab ! i) = RT_FREE")
    case True
    then show ?thesis using Suc.prems by (intro disjI2 exI [of _ i]) auto
  next
    case False
    then have "rtAlloc_loop (Suc n) i tab = rtAlloc_loop n (Suc i) tab" by simp
    then show ?thesis using Suc.IH [of "Suc i"] Suc.prems False
      by (auto simp: Suc_le_eq simp del: rtAlloc_loop.simps) (metis Suc_leI le_neq_implies_less)+
  qed
qed auto

lemma rtAlloc_cases:
  assumes "length tab = RT_NENTRY"
  obtains (full) "\<forall>e \<in> set tab. rtstate e \<noteq> RT_FREE" "rtAlloc tab = (None, tab)"
  | (free) r where "r < RT_NENTRY" "rtstate (tab ! r) = RT_FREE" "\<forall>j < r. rtstate (tab ! j) \<noteq> RT_FREE"
      "rtAlloc tab = (Some r, tab[r := (tab ! r)\<lparr>rtstate := RT_PEND\<rparr>])"
  using rtAlloc_loop_cases [of 0 RT_NENTRY tab] assms
  unfolding rtAlloc_def in_set_conv_nth Ball_def by (metis le0 add_0)

definition count_bits :: "u8 \<Rightarrow> nat" where
  "count_bits b = sum_list (map (\<lambda>i. of_bool (bit b i)) [0..<8])"

lemma count_bits_step: "count_bits b = count_bits (drop_bit 1 b) + (if b AND 1 \<noteq> 0 then 1 else 0)"
proof -
  have "bit b 8 = False" using bit_imp_le_length [of b 8] by auto
  moreover have "[0..<8] = [0, 1, 2, 3, 4, 5, 6, 7]" by (simp add: upt_rec)
  ultimately show ?thesis
    by (simp add: count_bits_def bit_drop_bit_eq and_one_eq bit_0 odd_iff_mod_2_eq_one eval_nat_numeral)
qed

lemma octet_bits_count: "octet_bits b n = n + of_nat (count_bits b)"
proof (induction b n rule: octet_bits.induct)
  case (1 b n)
  show ?case
  proof (cases "b > 0")
    case True
    then show ?thesis using 1 [OF True] count_bits_step [of b] by (subst octet_bits.simps) simp
  next
    case False
    then have "b = 0" by (simp add: word_neq_0_conv [symmetric])
    then show ?thesis by (subst octet_bits.simps) (simp add: count_bits_def)
  qed
qed

definition mask_length :: "netaddr \<Rightarrow> nat" where
  "mask_length m = sum_list (map count_bits (octets m))"

lemma mask_bits_ok:
  "i + k \<le> length a \<Longrightarrow>
   mask_bits k i a n = Some (n + of_nat (sum_list (map count_bits (take k (drop i a)))))"
proof (induction k arbitrary: i n)
  case (Suc k)
  have "take (Suc k) (drop i a) = a ! i # take k (drop (Suc i) a)"
    using Suc.prems by (simp add: Cons_nth_drop_Suc [symmetric])
  then show ?case using Suc by (simp add: rd_def octet_bits_count add.assoc)
qed simp

lemma rtAdd_full:
  assumes "length tab = RT_NENTRY" and full: "\<forall>e \<in> set tab. rtstate e \<noteq> RT_FREE"
  shows "rtAdd (Some dst) gate (Some msk) (Some nif) tab = Some (SYSERR, tab)"
  using assms(1)
proof (cases rule: rtAlloc_cases)
  case (free r)
  then have "tab ! r \<in> set tab" using assms(1) by simp
  then show ?thesis using full free(2) by blast
qed (simp add: rtAdd_def)

definition route_to :: "netaddr \<Rightarrow> netaddr option \<Rightarrow> netaddr \<Rightarrow> nat \<Rightarrow> rtEntry \<Rightarrow> rtEntry" where
  \<comment> \<open>the entry that a new route puts in the place of a free one\<close>
  "route_to dst gate msk nif e =
     e\<lparr>rtdst := masked dst msk,
       rtgateway := (case gate of None \<Rightarrow> (rtgateway e)\<lparr>natype := 0\<rparr> | Some g \<Rightarrow> g),
       rtmask := msk, rtnif := Some nif, rtmasklen := of_nat (mask_length msk), rtstate := RT_USED\<rparr>"

lemma rtAdd_ok:
  assumes "length tab = RT_NENTRY" "\<exists>e \<in> set tab. rtstate e = RT_FREE" "wf_addr dst" "wf_addr msk"
  shows "\<exists>r. r < RT_NENTRY \<and> rtstate (tab ! r) = RT_FREE \<and>
    rtAdd (Some dst) gate (Some msk) (Some nif) tab = Some (OK, tab[r := route_to dst gate msk nif (tab ! r)])"
  using assms(1)
proof (cases rule: rtAlloc_cases)
  case full
  then show ?thesis using assms(2) by blast
next
  case (free r)
  have "mask_bits (unat (nalen msk)) 0 (naddr msk) 0 = Some (of_nat (mask_length msk))"
    using mask_bits_ok [of 0 "unat (nalen msk)" "naddr msk" 0] assms(4)
    by (simp add: wf_addr_def mask_length_def octets_def)
  then have "rtAdd (Some dst) gate (Some msk) (Some nif) tab = Some (OK, tab[r := route_to dst gate msk nif (tab ! r)])"
    using free(1,4) assms(1,3,4)
    by (cases gate) (simp_all add: rtAdd_def Let_def netaddrmask_ok route_to_def)
  then show ?thesis using free by blast
qed

lemma rt_wf_add: "rt_wf tab \<Longrightarrow> wf_addr dst \<Longrightarrow> wf_addr msk \<Longrightarrow> rt_wf (tab[r := route_to dst gate msk nif e])"
  by (auto simp: rt_wf_def route_to_def dest!: set_update_subset_insert [THEN subsetD])

lemma route_to_matches:
  assumes "wf_addr a" "wf_addr dst" "wf_addr msk" "same_kind a dst" "octets (masked a msk) = octets (masked dst msk)"
  shows "rt_matches a (route_to dst gate msk nif e)"
  using assms by (simp add: rt_matches_def route_to_def same_kind_def)

lemma rtAdd_lookup:
  assumes wf: "rt_wf tab" "wf_addr dst" "wf_addr msk" "wf_addr a"
    and free: "\<exists>e \<in> set tab. rtstate e = RT_FREE"
    and hit: "same_kind a dst" "octets (masked a msk) = octets (masked dst msk)"
    and longest: "\<forall>e \<in> set tab. rt_matches a e \<longrightarrow> rtmasklen e < of_nat (mask_length msk)"
  shows "\<exists>tab' r. rtAdd (Some dst) gate (Some msk) (Some nif) tab = Some (OK, tab') \<and>
    rtLookup tab' a = Some (Some r) \<and> rtnif (tab' ! r) = Some nif \<and> rtdst (tab' ! r) = masked dst msk \<and>
    (\<forall>g. gate = Some g \<longrightarrow> rtgateway (tab' ! r) = g)"
proof -
  have len: "length tab = RT_NENTRY" using wf(1) by (simp add: rt_wf_def)
  obtain r where r: "r < RT_NENTRY" "rtstate (tab ! r) = RT_FREE"
    and add: "rtAdd (Some dst) gate (Some msk) (Some nif) tab = Some (OK, tab[r := route_to dst gate msk nif (tab ! r)])"
    using rtAdd_ok [OF len free wf(2,3)] by blast
  let ?t = "tab[r := route_to dst gate msk nif (tab ! r)]"
  have new: "?t ! r = route_to dst gate msk nif (tab ! r)" using r len by simp
  have old: "j \<noteq> r \<Longrightarrow> ?t ! j = tab ! j" for j by simp
  have "best_route ?t a RT_NENTRY (Some r)"
    unfolding best_route_def option.case
  proof (intro conjI allI impI)
    show "r < RT_NENTRY" by (rule r)
    show m: "rt_matches a (?t ! r)" unfolding new using route_to_matches wf hit by blast
    fix j assume j: "j < RT_NENTRY" "rt_matches a (?t ! j)"
    have lt: "rtmasklen (?t ! j) < rtmasklen (?t ! r)" if "j \<noteq> r"
    proof -
      have "tab ! j \<in> set tab" using j len by simp
      then show ?thesis using longest j old [OF that] new by (simp add: route_to_def)
    qed
    show "rtmasklen (?t ! j) \<le> rtmasklen (?t ! r)" using lt by (cases "j = r") auto
    show "rtmasklen (?t ! j) < rtmasklen (?t ! r)" if "j < r" using lt that by simp
  qed
  moreover obtain p where "rtLookup ?t a = Some p" "best_route ?t a RT_NENTRY p"
    using rtLookup_ok [OF rt_wf_add [OF wf(1-3)] wf(4)] by blast
  ultimately have "rtLookup ?t a = Some (Some r)" using best_route_unique by metis
  moreover have "rtnif (?t ! r) = Some nif" "rtdst (?t ! r) = masked dst msk"
    "\<forall>g. gate = Some g \<longrightarrow> rtgateway (?t ! r) = g"
    unfolding new by (auto simp: route_to_def)
  ultimately show ?thesis using add by blast
qed

lemma rtClear_loop_ok:
  "i + n = length tab \<Longrightarrow> length (rtClear_loop n i nif tab) = length tab \<and>
   (\<forall>j < length tab. rtClear_loop n i nif tab ! j =
     (if i \<le> j \<and> rtstate (tab ! j) = RT_USED \<and> rtnif (tab ! j) = Some nif
      then (tab ! j)\<lparr>rtstate := RT_FREE, rtnif := None\<rparr> else tab ! j))"
proof (induction n arbitrary: i tab)
  case (Suc n)
  let ?t = "if rtstate (tab ! i) = RT_USED \<and> rtnif (tab ! i) = Some nif
        then tab[i := (tab ! i)\<lparr>rtstate := RT_FREE, rtnif := None\<rparr>] else tab"
  have "length ?t = length tab" by simp
  then show ?case using Suc.IH [of "Suc i" ?t] Suc.prems
    by (auto simp: nth_list_update Suc_le_eq le_less split: if_splits)
qed simp

lemma rtClear_ok:
  assumes "length tab = RT_NENTRY" "rtClear (Some nif) tab = (x, tab')"
  shows "x = OK \<and> length tab' = RT_NENTRY \<and> (\<forall>j < RT_NENTRY. tab' ! j =
     (if rtstate (tab ! j) = RT_USED \<and> rtnif (tab ! j) = Some nif
      then (tab ! j)\<lparr>rtstate := RT_FREE, rtnif := None\<rparr> else tab ! j))"
  using assms rtClear_loop_ok [of 0 RT_NENTRY tab nif] by (auto simp: rtClear_def)

section \<open>Forwarding\<close>

abbreviation (input) ICMP_NET_UNR :: nat where "ICMP_NET_UNR \<equiv> 0"
abbreviation (input) ICMP_HST_UNR :: nat where "ICMP_HST_UNR \<equiv> 1"
abbreviation (input) ICMP_RNET :: nat where "ICMP_RNET \<equiv> 0"
abbreviation (input) ICMP_RHST :: nat where "ICMP_RHST \<equiv> 1"
abbreviation (input) ICMP_TTL_EXC :: nat where "ICMP_TTL_EXC \<equiv> 0"
abbreviation (input) IPv4_HDR_LEN :: nat where "IPv4_HDR_LEN \<equiv> 20"

text \<open>The calls into the senders, with the IP packet and the interface as they are at the call.\<close>

datatype net_call =
    CallDestUnreach bytes nat
  | CallRedirect bytes nat nat
  | CallTimeExceeded bytes nat
  | CallSendFrag bytes "nat option" netaddr

text \<open>The local address of a handler: the bytes past the IPv4 length are unspecified in C and never
  read; they are zero here.\<close>

definition ipv4_addr :: "bytes \<Rightarrow> nat \<Rightarrow> netaddr option" where
  "ipv4_addr ip off = do {
     a \<leftarrow> memcpy (replicate NET_MAX_ALEN 0) (drop off ip) 4;
     Some \<lparr>natype = NETADDR_IPv4, nalen = IPv4_ADDR_LEN, naddr = a\<rparr>
   }"

text \<open>\<open>sent\<close> is the result of the call of \<^verbatim>\<open>ipv4SendFrag\<close>.\<close>

definition rtSend :: "int \<Rightarrow> rttab \<Rightarrow> (bytes \<times> nat option) option \<Rightarrow> (int \<times> net_call list) option" where
  "rtSend sent tab pkt =
     (case pkt of
        None \<Rightarrow> Some (SYSERR, [])
      | Some (ip, nif) \<Rightarrow> do {
          dst \<leftarrow> ipv4_addr ip 16;
          route \<leftarrow> rtLookup tab dst;
          case route of
            None \<Rightarrow> Some (SYSERR, [CallDestUnreach ip ICMP_NET_UNR])
          | Some r \<Rightarrow> do {
              let calls = (if rtnif (tab ! r) = nif
                 then [CallRedirect ip (if natype (rtgateway (tab ! r)) = 0 then ICMP_RHST else ICMP_RNET) r]
                 else []);
              ttl \<leftarrow> rd ip 8;
              ip \<leftarrow> wr ip 8 (ttl - 1);
              ttl \<leftarrow> rd ip 8;
              if ttl = 0 then Some (SYSERR, calls @ [CallTimeExceeded ip ICMP_TTL_EXC])
              else do {
                let ip = put16 ip 10 0;
                c \<leftarrow> netChksum ip IPv4_HDR_LEN;
                let ip = put16 ip 10 c;
                let nxthop = (if natype (rtgateway (tab ! r)) = 0 then dst else rtgateway (tab ! r));
                let calls = calls @ [CallSendFrag ip (rtnif (tab ! r)) nxthop];
                if sent = SYSERR then Some (SYSERR, calls @ [CallDestUnreach ip ICMP_HST_UNR])
                else Some (OK, calls)
              }
            }
        })"

lemma ipv4_addr_ok:
  "off + 4 \<le> length ip \<Longrightarrow> \<exists>a. ipv4_addr ip off = Some a \<and> wf_addr a \<and> natype a = NETADDR_IPv4 \<and>
     nalen a = IPv4_ADDR_LEN \<and> octets a = take 4 (drop off ip)"
  by (simp add: ipv4_addr_def memcpy_ok wf_addr_def octets_def)

lemma rtSend_forwards:
  assumes tab: "rt_wf tab" and ip: "IPv4_HDR_LEN \<le> length ip" and ttl: "ip ! 8 \<noteq> 1"
    and a: "ipv4_addr ip 16 = Some a" and r: "rtLookup tab a = Some (Some r)" and sent: "sent \<noteq> SYSERR"
  shows "\<exists>calls ip'. rtSend sent tab (Some (ip, nif)) = Some (OK, calls @
      [CallSendFrag ip' (rtnif (tab ! r)) (if natype (rtgateway (tab ! r)) = 0 then a else rtgateway (tab ! r))]) \<and>
    netChksum ip' IPv4_HDR_LEN = Some 0 \<and> ip' ! 8 = ip ! 8 - 1 \<and>
    (\<forall>i. i \<notin> {8, 10, 11} \<longrightarrow> ip' ! i = ip ! i) \<and> length ip' = length ip"
proof -
  let ?ip = "put16 (ip[8 := ip ! 8 - 1]) 10 0"
  have len: "length ?ip = length ip" by (simp add: put16_def)
  obtain c where c: "netChksum ?ip IPv4_HDR_LEN = Some c"
    using netChksum_ok [of IPv4_HDR_LEN ?ip] ip len by auto
  have "netChksum (put16 ?ip 10 c) IPv4_HDR_LEN = Some 0"
    by (rule netChksum_verify [OF _ _ _ _ _ _ c]) (use ip in \<open>simp_all add: put16_def\<close>)
  moreover have "ip ! 8 - 1 \<noteq> 0" using ttl by simp
  moreover have "put16 ?ip 10 c ! 8 = ip ! 8 - 1" "\<forall>i. i \<notin> {8, 10, 11} \<longrightarrow> put16 ?ip 10 c ! i = ip ! i"
    using ip by (auto simp: put16_def nth_list_update)
  ultimately show ?thesis using a r sent ip c
    by (intro exI [of _ "if rtnif (tab ! r) = nif
                 then [CallRedirect ip (if natype (rtgateway (tab ! r)) = 0 then ICMP_RHST else ICMP_RNET) r]
                 else []"] exI [of _ "put16 ?ip 10 c"])
      (simp add: rtSend_def rd_def wr_def Let_def len)
qed

lemma rtSend_expires:
  assumes "rt_wf tab" "IPv4_HDR_LEN \<le> length ip" "ip ! 8 = 1"
    and "ipv4_addr ip 16 = Some a" "rtLookup tab a = Some (Some r)"
  shows "\<exists>calls ip'. rtSend sent tab (Some (ip, nif)) = Some (SYSERR, calls @ [CallTimeExceeded ip' ICMP_TTL_EXC]) \<and>
    (\<forall>b n h. CallSendFrag b n h \<notin> set calls)"
  using assms by (auto simp: rtSend_def rd_def wr_def Let_def)
end
