(* ===== verification/Monitor.thy ===== *)
theory Monitor
  imports Semaphore
begin

text \<open>
  Monitors: \<^verbatim>\<open>system/lock.c\<close>, \<^verbatim>\<open>unlock.c\<close>, \<^verbatim>\<open>moncreate.c\<close>, \<^verbatim>\<open>monfree.c\<close> and \<^verbatim>\<open>moncount.c\<close>, over the
  semaphores.  The table extends the kernel state.  \<^verbatim>\<open>NMON\<close> is 100, as in the \<^verbatim>\<open>wrt54gl\<close>
  configuration (with the default of 0 every call returns \<^verbatim>\<open>SYSERR\<close>).
\<close>

section \<open>Operations\<close>

abbreviation (input) NMON :: int where "NMON \<equiv> 100"
abbreviation (input) NOOWNER :: int where "NOOWNER \<equiv> BADTID"

datatype monstate = MFREE | MUSED

record monent =
  mstate :: monstate
  owner :: int
  mcount :: u32
  msem :: u32

record monitors = kernel +
  montab :: "int \<Rightarrow> monent"
  nextmon :: int

definition mon_ent :: "'a monitors_scheme \<Rightarrow> int \<Rightarrow> monent option" where
  "mon_ent s i = (if 0 \<le> i \<and> i < NMON then Some (montab s i) else None)"

definition set_mon :: "int \<Rightarrow> (monent \<Rightarrow> monent) \<Rightarrow> 'a monitors_scheme \<Rightarrow> 'a monitors_scheme option" where
  "set_mon i f s =
     (if 0 \<le> i \<and> i < NMON then Some (s\<lparr>montab := (montab s)(i := f (montab s i))\<rparr>) else None)"

definition isbadmon :: "'a monitors_scheme \<Rightarrow> u32 \<Rightarrow> bool" where
  "isbadmon s m \<longleftrightarrow> uint m \<ge> NMON \<or> mstate (montab s (uint m)) = MFREE"

text \<open>What \<^verbatim>\<open>lock\<close> does after \<^verbatim>\<open>wait\<close> has returned in the contended case; \<open>tid\<close> is the caller.\<close>

definition lock_claim :: "u32 \<Rightarrow> int \<Rightarrow> 'a monitors_scheme \<Rightarrow> (int \<times> 'a monitors_scheme) option" where
  "lock_claim mon tid s = do {
     s \<leftarrow> set_mon (uint mon) (owner_update (\<lambda>_. tid)) s;
     s \<leftarrow> set_mon (uint mon) (\<lambda>e. e\<lparr>mcount := mcount e + 1\<rparr>) s;
     Some (OK, s)
   }"

text \<open>The result \<open>None\<close> means that the caller waits; \<^const>\<open>lock_claim\<close> is the rest of its call, when
  another thread owned the monitor.\<close>

definition lock :: "u32 \<Rightarrow> 'a monitors_scheme \<Rightarrow> (int option \<times> 'a monitors_scheme) option" where
  "lock mon s =
     (if isbadmon s mon then Some (Some SYSERR, s)
      else do {
        e \<leftarrow> mon_ent s (uint mon);
        let tid = thrcurrent s;
        if owner e = NOOWNER
        then do {
          s \<leftarrow> set_mon (uint mon) (owner_update (\<lambda>_. tid)) s;
          s \<leftarrow> set_mon (uint mon) (\<lambda>e. e\<lparr>mcount := mcount e + 1\<rparr>) s;
          (_, s) \<leftarrow> wait (msem e) s;
          Some (if thrcurrent s = tid then Some OK else None, s)
        }
        else if tid = owner e
        then do {
          s \<leftarrow> set_mon (uint mon) (\<lambda>e. e\<lparr>mcount := mcount e + 1\<rparr>) s;
          Some (Some OK, s)
        }
        else do {
          (_, s) \<leftarrow> wait (msem e) s;
          if thrcurrent s = tid then do { (r, s) \<leftarrow> lock_claim mon tid s; Some (Some r, s) }
          else Some (None, s)
        }
      })"

definition unlock :: "u32 \<Rightarrow> 'a monitors_scheme \<Rightarrow> (int \<times> 'a monitors_scheme) option" where
  "unlock mon s =
     (if isbadmon s mon then Some (SYSERR, s)
      else do {
        e \<leftarrow> mon_ent s (uint mon);
        if mcount e = 0 then Some (SYSERR, s)
        else do {
          s \<leftarrow> set_mon (uint mon) (\<lambda>e. e\<lparr>mcount := mcount e - 1\<rparr>) s;
          if mcount e - 1 = 0
          then do {
            s \<leftarrow> set_mon (uint mon) (owner_update (\<lambda>_. NOOWNER)) s;
            (_, s) \<leftarrow> signal (msem e) s;
            Some (OK, s)
          }
          else Some (OK, s)
        }
      })"

fun mon_scan :: "nat \<Rightarrow> 'a monitors_scheme \<Rightarrow> (int option \<times> 'a monitors_scheme) option" where
  "mon_scan 0 s = Some (None, s)"
| "mon_scan (Suc n) s = do {
     let nx = nextmon s + 1;
     let nx = (if nx \<ge> NMON then 0 else nx);
     let s = s\<lparr>nextmon := nx\<rparr>;
     e \<leftarrow> mon_ent s nx;
     if mstate e = MFREE then Some (Some nx, s) else mon_scan n s
   }"

definition monalloc :: "'a monitors_scheme \<Rightarrow> (u32 \<times> 'a monitors_scheme) option" where
  "monalloc s = do {
     (r, s) \<leftarrow> mon_scan (nat NMON) s;
     case r of
       None \<Rightarrow> Some (SYSERR_u, s)
     | Some i \<Rightarrow> do { s \<leftarrow> set_mon i (mstate_update (\<lambda>_. MUSED)) s; Some (to_u32 i, s) }
   }"

definition moncreate :: "'a monitors_scheme \<Rightarrow> (u32 \<times> 'a monitors_scheme) option" where
  "moncreate s = do {
     (mon, s) \<leftarrow> monalloc s;
     if mon \<noteq> SYSERR_u
     then do {
       s \<leftarrow> set_mon (uint mon) (\<lambda>e. e\<lparr>owner := NOOWNER, mcount := 0\<rparr>) s;
       (sem, s) \<leftarrow> semcreate 1 s;
       s \<leftarrow> set_mon (uint mon) (msem_update (\<lambda>_. sem)) s;
       if sem = SYSERR_u
       then do { s \<leftarrow> set_mon (uint mon) (mstate_update (\<lambda>_. MFREE)) s; Some (SYSERR_u, s) }
       else Some (mon, s)
     }
     else Some (mon, s)
   }"

definition monfree :: "u32 \<Rightarrow> 'a monitors_scheme \<Rightarrow> (int \<times> 'a monitors_scheme) option" where
  "monfree mon s =
     (if \<not> isbadmon s mon
      then do {
        e \<leftarrow> mon_ent s (uint mon);
        s \<leftarrow> (if msem e \<noteq> 0 then do { (_, s) \<leftarrow> semfree (msem e) s; Some s } else Some s);
        s \<leftarrow> set_mon (uint mon) (mstate_update (\<lambda>_. MFREE)) s;
        Some (OK, s)
      }
      else Some (SYSERR, s))"

definition moncount :: "u32 \<Rightarrow> 'a monitors_scheme \<Rightarrow> int option" where
  "moncount mon s =
     (if isbadmon s mon then Some SYSERR else do { e \<leftarrow> mon_ent s (uint mon); Some (to_int (mcount e)) })"

section \<open>Access\<close>

lemma mon_access [bounds_simps]:
  "0 \<le> i \<Longrightarrow> i < NMON \<Longrightarrow> mon_ent s i = Some (montab s i)"
  "0 \<le> i \<Longrightarrow> i < NMON \<Longrightarrow> set_mon i f s = Some (s\<lparr>montab := (montab s)(i := f (montab s i))\<rparr>)"
  by (simp_all add: mon_ent_def set_mon_def)

lemma isbadmon_False [dest]:
  "\<not> isbadmon s x \<Longrightarrow> uint x < NMON \<and> mstate (montab s (uint x)) = MUSED"
  by (cases "mstate (montab s (uint x))") (auto simp: isbadmon_def)

lemma kinv_montab [simp]: "kinv Q (s\<lparr>montab := m\<rparr>) = kinv Q s"
proof -
  have h: "home (s\<lparr>montab := m\<rparr>) = home s" by (simp add: home_def fun_eq_iff split: thrstate.split)
  show ?thesis by (simp add: kinv_def kinv0_def config_ok_def inv_defs h)
qed

section \<open>Nested locking\<close>

fun locks :: "nat \<Rightarrow> u32 \<Rightarrow> 'a monitors_scheme \<Rightarrow> 'a monitors_scheme option" where
  "locks 0 mon s = Some s"
| "locks (Suc n) mon s = do { (r, s) \<leftarrow> lock mon s; if r = Some OK then locks n mon s else None }"

fun unlocks :: "nat \<Rightarrow> u32 \<Rightarrow> 'a monitors_scheme \<Rightarrow> 'a monitors_scheme option" where
  "unlocks 0 mon s = Some s"
| "unlocks (Suc n) mon s = do { (r, s) \<leftarrow> unlock mon s; if r = OK then unlocks n mon s else None }"

text \<open>\<open>mon_free s mon\<close>: the monitor is unowned and its semaphore is available.\<close>

definition mon_avail :: "'a monitors_scheme \<Rightarrow> u32 \<Rightarrow> bool" where
  "mon_avail s mon \<longleftrightarrow> \<not> isbadmon s mon \<and> owner (montab s (uint mon)) = NOOWNER \<and> mcount (montab s (uint mon)) = 0 \<and>
     \<not> isbadsem s (msem (montab s (uint mon))) \<and> count (semtab s (uint (msem (montab s (uint mon))))) = 1"

definition held :: "u32 \<Rightarrow> nat \<Rightarrow> 'a monitors_scheme \<Rightarrow> 'a monitors_scheme" where
  "held mon n s = s\<lparr>montab := (montab s)(uint mon := (montab s (uint mon))\<lparr>owner := thrcurrent s, mcount := of_nat n\<rparr>),
     semtab := (semtab s)(uint (msem (montab s (uint mon))) := (semtab s (uint (msem (montab s (uint mon)))))\<lparr>count := 0\<rparr>)\<rparr>"

lemma lock_first:
  assumes k: "kinv Q s" and m: "mon_avail s mon"
  shows "lock mon s = Some (Some OK, held mon 1 s)" "kinv Q (held mon 1 s)"
proof -
  let ?e = "montab s (uint mon)"
  let ?s = "s\<lparr>montab := (montab s)(uint mon := ?e\<lparr>owner := thrcurrent s, mcount := 1\<rparr>)\<rparr>"
  have b: "uint mon < NMON" "\<not> isbadmon s mon" "\<not> isbadsem ?s (msem ?e)" "count (semtab ?s (uint (msem ?e))) = 1"
    using m by (auto simp: mon_avail_def isbadsem_def)
  have k1: "kinv Q ?s" using k by simp
  have w: "wait (msem ?e) ?s = Some (OK, held mon 1 s)" "kinv Q (held mon 1 s)"
    using wait_no_block [OF k1 b(3)] b(4) by (simp_all add: held_def)
  show "lock mon s = Some (Some OK, held mon 1 s)"
    using w(1) b(1,2) m by (simp add: lock_def bounds_simps mon_avail_def held_def)
  show "kinv Q (held mon 1 s)" by (rule w(2))
qed

lemma lock_again:
  assumes m: "mon_avail s mon" and cur: "thrcurrent s \<in> tids"
  shows "lock mon (held mon n s) = Some (Some OK, held mon (Suc n) s)"
  using m cur by (auto simp: lock_def isbadmon_def mon_avail_def bounds_simps add.commute held_def)

lemma unlock_inner:
  assumes m: "mon_avail s mon" and n: "0 < n" "Suc n < 4294967296"
  shows "unlock mon (held mon (Suc n) s) = Some (OK, held mon n s)"
proof -
  have "(of_nat (Suc n) :: u32) \<noteq> 0" "(of_nat n :: u32) \<noteq> 0"
    using n by (simp_all add: word_of_nat_eq_0_iff nat_dvd_not_less del: of_nat_Suc)
  then show ?thesis
    using m by (auto simp: unlock_def isbadmon_def mon_avail_def bounds_simps held_def)
qed

lemma unlock_last:
  assumes m: "mon_avail s mon"
  shows "unlock mon (held mon 1 s) = Some (OK, s)"
proof -
  let ?e = "montab s (uint mon)" and ?i = "uint (msem (montab s (uint mon)))"
  have b: "uint mon < NMON" "?i < NSEM" "count (semtab s ?i) = 1" "semstate (semtab s ?i) = SUSED"
      "owner ?e = NOOWNER" "mcount ?e = 0"
    using m by (auto simp: mon_avail_def)
  have e: "?e\<lparr>mcount := 0, owner := NOOWNER\<rparr> = ?e" "(semtab s ?i)\<lparr>count := 1\<rparr> = semtab s ?i"
    using b by (simp_all add: monent.equality sement.equality)
  have "unlock mon (held mon 1 s) = Some (OK, s\<lparr>montab := (montab s)(uint mon := ?e\<lparr>mcount := 0, owner := NOOWNER\<rparr>),
      semtab := (semtab s)(?i := (semtab s ?i)\<lparr>count := 1\<rparr>)\<rparr>)"
    using m b by (auto simp: unlock_def isbadmon_def mon_avail_def bounds_simps signal_def isbadsem_def signal_once_def held_def)
  then show ?thesis unfolding e fun_upd_triv by simp
qed

lemma locks_ok:
  assumes k: "kinv Q s" and m: "mon_avail s mon"
  shows "locks (Suc n) mon s = Some (held mon (Suc n) s)"
proof -
  have cur: "thrcurrent s \<in> tids" using kinvD(4) [OF k] .
  have "locks j mon (held mon i s) = Some (held mon (i + j) s)" for i j
    using lock_again [OF m cur] by (induction j arbitrary: i) simp_all
  from this [of n 1] show ?thesis using lock_first(1) [OF k m] by simp
qed

lemma unlocks_ok:
  assumes m: "mon_avail s mon" and n: "Suc n < 4294967296"
  shows "unlocks (Suc n) mon (held mon (Suc n) s) = Some s"
  using n
proof (induction n)
  case 0
  then show ?case using unlock_last [OF m] by simp
next
  case (Suc n)
  then show ?case using unlock_inner [OF m, of "Suc n"] by simp
qed

text \<open>Contention: a thread that does not own the monitor waits for its semaphore, and its claim on the
  monitor is made only when it runs again.\<close>

lemma montab_more: "kernel.more s' = kernel.more s \<Longrightarrow> montab s' = montab s"
  by (cases s; cases s') simp

lemma lock_contended:
  assumes k: "kinv Q s" and m: "\<not> isbadmon s mon" "owner (montab s (uint mon)) \<notin> {NOOWNER, thrcurrent s}"
    and e: "e = msem (montab s (uint mon))" "\<not> isbadsem s e" "count (semtab s (uint e)) \<le> 0"
    and cur: "thrcurrent s \<noteq> NULLTHREAD"
  shows "\<exists>R s'. lock mon s = Some (None, s') \<and>
    kinv (Q(semqueue (semtab s (uint e)) := Q (semqueue (semtab s (uint e))) @ [thrcurrent s], readylist s := R)) s' \<and>
    montab s' = montab s \<and> tstate (thrtab s' (thrcurrent s)) = THRWAIT"
proof -
  obtain R s' where s': "wait e s = Some (OK, s')"
    "kinv (Q(semqueue (semtab s (uint e)) := Q (semqueue (semtab s (uint e))) @ [thrcurrent s], readylist s := R)) s'"
    "tstate (thrtab s' (thrcurrent s)) = THRWAIT" "kernel.more s' = kernel.more s"
    using wait_block [OF k e(2,3) cur] by blast
  have ne: "thrcurrent s' \<noteq> thrcurrent s" using kinvD(2) [OF s'(2)] s'(3) by auto
  have "lock mon s = Some (None, s')"
    using m s'(1) ne e(1) by (auto simp: lock_def bounds_simps Let_def dest!: isbadmon_False)
  then show ?thesis using s'(2,3) montab_more [OF s'(4)] by blast
qed

end
