(* ===== verification/Bufpool.thy ===== *)
theory Bufpool
  imports Monitor Heap
begin

text \<open>
  Buffer pools: \<^verbatim>\<open>system/bufpool.c\<close> and \<^verbatim>\<open>include/bufpool.h\<close>.  A pool is one block of kernel memory cut
  into buffers; each buffer starts with a \<^verbatim>\<open>struct poolbuf\<close>, its \<^verbatim>\<open>next\<close> pointer at offset 0 and
  its \<^verbatim>\<open>poolid\<close> at offset 4, and free buffers are linked through \<^verbatim>\<open>next\<close>.
\<close>

section \<open>Operations\<close>

abbreviation (input) NPOOL :: int where "NPOOL \<equiv> 8"
abbreviation (input) POOL_MAX_BUFSIZE :: u32 where "POOL_MAX_BUFSIZE \<equiv> 2048"
abbreviation (input) POOL_MIN_BUFSIZE :: u32 where "POOL_MIN_BUFSIZE \<equiv> 8"
abbreviation (input) POOL_MAX_NBUFS :: u32 where "POOL_MAX_NBUFS \<equiv> 8192"

datatype bfpstate = BFPFREE | BFPUSED

record bfpentry =
  bstate :: bfpstate
  bufsize :: u32
  nbuf :: u32
  bhead :: u32
  bnext :: u32
  freebuf :: u32

record pools = monitors +
  bfptab :: "int \<Rightarrow> bfpentry"

definition pool_ent :: "'a pools_scheme \<Rightarrow> int \<Rightarrow> bfpentry option" where
  "pool_ent s i = (if 0 \<le> i \<and> i < NPOOL then Some (bfptab s i) else None)"

definition set_pool :: "int \<Rightarrow> (bfpentry \<Rightarrow> bfpentry) \<Rightarrow> 'a pools_scheme \<Rightarrow> 'a pools_scheme option" where
  "set_pool i f s =
     (if 0 \<le> i \<and> i < NPOOL then Some (s\<lparr>bfptab := (bfptab s)(i := f (bfptab s i))\<rparr>) else None)"

definition isbadpool :: "'a pools_scheme \<Rightarrow> int \<Rightarrow> bool" where
  "isbadpool s p \<longleftrightarrow> p \<ge> NPOOL \<or> p < 0 \<or> bstate (bfptab s p) = BFPFREE"

definition roundword :: "u32 \<Rightarrow> u32" where
  "roundword b = (3 + b) AND NOT 3"

text \<open>The loop that links the buffers of a new pool.\<close>

fun bfp_fill :: "nat \<Rightarrow> int \<Rightarrow> u32 \<Rightarrow> u32 \<Rightarrow> heap \<Rightarrow> heap option" where
  "bfp_fill 0 pid bsz bufptr h = Some h"
| "bfp_fill (Suc n) pid bsz bufptr h = do {
     h \<leftarrow> st (bufptr + 4) (to_u32 pid) h;
     h \<leftarrow> st bufptr (bufptr + bsz) h;
     p \<leftarrow> ld bufptr h;
     bfp_fill n pid bsz p h
   }"

text \<open>The search for a free table entry; \<^verbatim>\<open>NPOOL\<close> when there is none.\<close>

fun bfp_scan :: "nat \<Rightarrow> int \<Rightarrow> 'a pools_scheme \<Rightarrow> int" where
  "bfp_scan 0 pid s = pid"
| "bfp_scan (Suc n) pid s = (if bstate (bfptab s pid) = BFPFREE then pid else bfp_scan n (pid + 1) s)"

text \<open>What \<^verbatim>\<open>bfpalloc\<close> does with the entry \<open>pid\<close> it has found.\<close>

definition bfp_setup :: "int \<Rightarrow> u32 \<Rightarrow> u32 \<Rightarrow> 'a pools_scheme \<Rightarrow> (int \<times> 'a pools_scheme) option" where
  "bfp_setup pid bsz n s = do {
     s \<leftarrow> set_pool pid (\<lambda>e. e\<lparr>nbuf := n, bufsize := bsz\<rparr>) s;
     (bufptr, h) \<leftarrow> memget (n * bsz) (kheap s);
     let s = s\<lparr>kheap := h\<rparr>;
     if bufptr = SYSERR_u
     then do { s \<leftarrow> set_pool pid (\<lambda>e. e\<lparr>bstate := BFPFREE\<rparr>) s; Some (SYSERR, s) }
     else do {
       s \<leftarrow> set_pool pid (\<lambda>e. e\<lparr>bnext := bufptr, bhead := bufptr\<rparr>) s;
       h \<leftarrow> bfp_fill (unat n) pid bsz bufptr (kheap s);
       (sem, s) \<leftarrow> semcreate (to_int n) (s\<lparr>kheap := h\<rparr>);
       s \<leftarrow> set_pool pid (\<lambda>e. e\<lparr>freebuf := sem\<rparr>) s;
       if sem = SYSERR_u
       then do {
         s \<leftarrow> set_pool pid (\<lambda>e. e\<lparr>bstate := BFPFREE\<rparr>) s;
         (_, h) \<leftarrow> memfree bufptr (n * bsz) (kheap s);
         Some (SYSERR, s\<lparr>kheap := h\<rparr>)
       }
       else Some (pid, s)
     }
   }"

definition bfpalloc :: "u32 \<Rightarrow> u32 \<Rightarrow> 'a pools_scheme \<Rightarrow> (int \<times> 'a pools_scheme) option" where
  "bfpalloc bsz n s =
     (let bsz = roundword bsz + 8 in
      if bsz > POOL_MAX_BUFSIZE \<or> bsz < POOL_MIN_BUFSIZE \<or> n > POOL_MAX_NBUFS \<or> n < 1 then Some (SYSERR, s)
      else let pid = bfp_scan (nat NPOOL) 0 s in
        if pid = NPOOL then Some (SYSERR, s)
        else do {
          s \<leftarrow> set_pool pid (\<lambda>e. e\<lparr>bstate := BFPUSED\<rparr>) s;
          bfp_setup pid bsz n s
        })"

definition bfpfree :: "int \<Rightarrow> 'a pools_scheme \<Rightarrow> (int \<times> 'a pools_scheme) option" where
  "bfpfree poolid s =
     (if isbadpool s poolid then Some (SYSERR, s)
      else do {
        s \<leftarrow> set_pool poolid (\<lambda>e. e\<lparr>bstate := BFPFREE\<rparr>) s;
        e \<leftarrow> pool_ent s poolid;
        (memRes, h) \<leftarrow> memfree (bhead e) (nbuf e * bufsize e) (kheap s);
        (semRes, s) \<leftarrow> semfree (freebuf e) (s\<lparr>kheap := h\<rparr>);
        if memRes = SYSERR \<or> semRes = SYSERR then Some (SYSERR, s) else Some (OK, s)
      })"

text \<open>The part of \<^verbatim>\<open>bufget\<close> after \<^verbatim>\<open>wait\<close>.\<close>

definition bufget_take :: "int \<Rightarrow> 'a pools_scheme \<Rightarrow> (u32 \<times> 'a pools_scheme) option" where
  "bufget_take poolid s = do {
     e \<leftarrow> pool_ent s poolid;
     let bufptr = bnext e;
     n \<leftarrow> ld bufptr (kheap s);
     s \<leftarrow> set_pool poolid (\<lambda>e. e\<lparr>bnext := n\<rparr>) s;
     h \<leftarrow> st bufptr bufptr (kheap s);
     Some (bufptr + 8, s\<lparr>kheap := h\<rparr>)
   }"

definition bufget :: "int \<Rightarrow> 'a pools_scheme \<Rightarrow> (u32 option \<times> 'a pools_scheme) option" where
  "bufget poolid s =
     (if isbadpool s poolid then Some (Some SYSERR_u, s)
      else do {
        e \<leftarrow> pool_ent s poolid;
        (_, s') \<leftarrow> wait (freebuf e) s;
        if thrcurrent s' = thrcurrent s
        then do { (b, s') \<leftarrow> bufget_take poolid s'; Some (Some b, s') }
        else Some (None, s')
      })"

definition buffree :: "u32 \<Rightarrow> 'a pools_scheme \<Rightarrow> (int \<times> 'a pools_scheme) option" where
  "buffree buffer s = do {
     let bufptr = buffer - 8;
     w \<leftarrow> ld (bufptr + 4) (kheap s);
     let poolid = to_int w;
     if isbadpool s poolid then Some (SYSERR, s)
     else do {
       n \<leftarrow> ld bufptr (kheap s);
       if n \<noteq> bufptr then Some (SYSERR, s)
       else do {
         e \<leftarrow> pool_ent s poolid;
         h \<leftarrow> st bufptr (bnext e) (kheap s);
         s \<leftarrow> set_pool poolid (\<lambda>e. e\<lparr>bnext := bufptr\<rparr>) (s\<lparr>kheap := h\<rparr>);
         (_, s) \<leftarrow> signaln (freebuf e) 1 s;
         Some (OK, s)
       }
     }
   }"

section \<open>The free buffers of a pool\<close>

lemma pool_access [bounds_simps]:
  "0 \<le> i \<Longrightarrow> i < NPOOL \<Longrightarrow> pool_ent s i = Some (bfptab s i)"
  "0 \<le> i \<Longrightarrow> i < NPOOL \<Longrightarrow> set_pool i f s = Some (s\<lparr>bfptab := (bfptab s)(i := f (bfptab s i))\<rparr>)"
  by (simp_all add: pool_ent_def set_pool_def)

lemma kinv_pool [simp]: "kinv Q (s\<lparr>bfptab := m\<rparr>) = kinv Q s" "kinv Q (s\<lparr>kheap := h\<rparr>) = kinv Q s"
proof -
  have h: "home (s\<lparr>bfptab := m\<rparr>) = home s" "home (s\<lparr>kheap := h\<rparr>) = home s"
    by (simp_all add: home_def fun_eq_iff split: thrstate.split)
  show "kinv Q (s\<lparr>bfptab := m\<rparr>) = kinv Q s" "kinv Q (s\<lparr>kheap := h\<rparr>) = kinv Q s"
    by (simp_all add: kinv_def kinv0_def config_ok_def inv_defs h)
qed

text \<open>\<open>plist m p bs\<close>: the \<^verbatim>\<open>next\<close> pointers lead from \<open>p\<close> through the buffers \<open>bs\<close>.  What the last one
  holds does not matter: the semaphore keeps it from being followed.\<close>

fun plist :: "(u32 \<Rightarrow> u32) \<Rightarrow> u32 \<Rightarrow> u32 list \<Rightarrow> bool" where
  "plist m p [] \<longleftrightarrow> True"
| "plist m p (b # bs) \<longleftrightarrow> p = b \<and> plist m (m b) bs"

definition node_ok :: "heap \<Rightarrow> int \<Rightarrow> u32 \<Rightarrow> bool" where
  "node_ok h pid b \<longleftrightarrow> in_heap h b \<and> in_heap h (b + 4) \<and> mem h (b + 4) = to_u32 pid"

text \<open>No accounting structure overlaps another.\<close>

definition apart :: "u32 list \<Rightarrow> bool" where
  "apart bs \<longleftrightarrow> distinct bs \<and> (\<forall>b\<in>set bs. \<forall>c\<in>set bs. b + 4 \<noteq> c)"

definition pool_ok :: "'a pools_scheme \<Rightarrow> int \<Rightarrow> u32 list \<Rightarrow> bool" where
  "pool_ok s pid bs \<longleftrightarrow> 0 \<le> pid \<and> pid < NPOOL \<and> bstate (bfptab s pid) = BFPUSED \<and>
     \<not> isbadsem s (freebuf (bfptab s pid)) \<and> count (semtab s (uint (freebuf (bfptab s pid)))) = int (length bs) \<and>
     length bs \<le> 8192 \<and> apart bs \<and> (\<forall>b\<in>set bs. node_ok (kheap s) pid b) \<and>
     plist (mem (kheap s)) (bnext (bfptab s pid)) bs"

lemma plist_upd [simp]: "b \<notin> set bs \<Longrightarrow> plist (m(b := v)) p bs = plist m p bs"
  by (induction bs arbitrary: p) auto

lemma in_heap_mem [simp]: "in_heap (h\<lparr>mem := m\<rparr>) a = in_heap h a"
  by (simp add: in_heap_def)

lemma bufget_ok:
  assumes k: "kinv Q s" and p: "pool_ok s pid (b # bs)"
  shows "\<exists>s'. bufget pid s = Some (Some (b + 8), s') \<and> kinv Q s' \<and> pool_ok s' pid bs \<and>
    node_ok (kheap s') pid b \<and> mem (kheap s') b = b \<and> thrcurrent s' = thrcurrent s"
proof -
  let ?e = "bfptab s pid" and ?i = "uint (freebuf (bfptab s pid))"
  have pid: "0 \<le> pid" "pid < NPOOL" and sem: "\<not> isbadsem s (freebuf ?e)" "count (semtab s ?i) = int (length bs) + 1"
    and nd: "\<forall>c\<in>set (b # bs). node_ok (kheap s) pid c" and ap: "apart (b # bs)"
    using p by (auto simp: pool_ok_def)
  have q: "bnext ?e = b" "plist (mem (kheap s)) (mem (kheap s) b) bs"
    using p by (auto simp: pool_ok_def)
  let ?s1 = "recount ?i (int (length bs)) s"
  have w: "wait (freebuf ?e) s = Some (OK, ?s1)" "kinv Q ?s1"
    using wait_no_block [OF k sem(1)] sem(2) by simp_all
  let ?h = "(kheap s)\<lparr>mem := (mem (kheap s))(b := b)\<rparr>"
  let ?s2 = "?s1\<lparr>bfptab := (bfptab s)(pid := ?e\<lparr>bnext := mem (kheap s) b\<rparr>), kheap := ?h\<rparr>"
  have ih: "in_heap (kheap s) b" using nd by (simp add: node_ok_def)
  have "bufget_take pid ?s1 = Some (b + 8, ?s2)"
    using pid ih by (simp add: bufget_take_def bounds_simps q(1) ld_def st_def)
  then have run: "bufget pid s = Some (Some (b + 8), ?s2)"
    using pid p w(1) by (simp add: bufget_def bounds_simps isbadpool_def pool_ok_def)
  have "\<forall>c\<in>set (b # bs). c + 4 \<noteq> b" using ap by (auto simp: apart_def)
  then have nd': "\<forall>c\<in>set (b # bs). node_ok ?h pid c" using nd by (auto simp: node_ok_def)
  have "pool_ok ?s2 pid bs"
    using pid p ap nd' q(2) by (auto simp: pool_ok_def isbadsem_def apart_def)
  then show ?thesis using run w(2) nd' by (intro exI [of _ ?s2]) simp
qed

text \<open>A buffer that is not in use is recognised by its \<^verbatim>\<open>next\<close> pointer.\<close>

lemma buffree_twice:
  assumes "in_heap (kheap s) b" "in_heap (kheap s) (b + 4)" "mem (kheap s) b \<noteq> b"
  shows "buffree (b + 8) s = Some (SYSERR, s)"
  using assms by (simp add: buffree_def ld_def Let_def)

lemma signaln_one:
  assumes k: "kinv Q s" and b: "\<not> isbadsem s sem" and c: "0 \<le> count (semtab s (uint sem))" "count (semtab s (uint sem)) < INT_MAX"
  shows "\<exists>Q' s'. signaln sem 1 s = Some (OK, s') \<and> kinv Q' s' \<and>
    sched_frame (recount (uint sem) (count (semtab s (uint sem)) + 1) s) s'"
proof -
  let ?s = "recount (uint sem) (count (semtab s (uint sem)) + 1) s"
  have i: "uint sem \<in> sids" using b by auto
  have "kinv0 Q ?s" using kinv0_recount [OF kinvD(1) [OF k] i c(1)] c by simp
  then obtain R s' where s': "resched ?s = Some (OK, s')" "kinv (Q(readylist s := R)) s'" "sched_frame ?s s'"
    using resched_ok [of Q ?s] kinvD(3) [OF k] by auto
  have "signal_once sem s = Some (False, ?s)" using i c by (simp add: signal_once_def bounds_simps)
  then have "signaln sem 1 s = Some (OK, s')" using b s'(1) by (simp add: signaln_def)
  then show ?thesis using s'(2,3) by blast
qed

lemma bfptab_more: "kernel.more s' = kernel.more s \<Longrightarrow> bfptab s' = bfptab s"
  by (cases s; cases s') simp

lemma buffree_ok:
  assumes k: "kinv Q s" and p: "pool_ok s pid bs" "length bs < 8192"
    and b: "node_ok (kheap s) pid b" "mem (kheap s) b = b" "apart (b # bs)"
  shows "\<exists>Q' s'. buffree (b + 8) s = Some (OK, s') \<and> kinv Q' s' \<and> pool_ok s' pid (b # bs)"
proof -
  let ?e = "bfptab s pid" and ?i = "uint (freebuf (bfptab s pid))"
  have pid: "0 \<le> pid" "pid < NPOOL" and sem: "\<not> isbadsem s (freebuf ?e)" "count (semtab s ?i) = int (length bs)"
    and nd: "\<forall>c\<in>set bs. node_ok (kheap s) pid c"
    and q: "plist (mem (kheap s)) (bnext ?e) bs" and st: "bstate ?e = BFPUSED"
    using p by (auto simp: pool_ok_def)
  let ?h = "(kheap s)\<lparr>mem := (mem (kheap s))(b := bnext ?e)\<rparr>"
  let ?s1 = "s\<lparr>kheap := ?h, bfptab := (bfptab s)(pid := ?e\<lparr>bnext := b\<rparr>)\<rparr>"
  have ih: "in_heap (kheap s) b" "in_heap (kheap s) (b + 4)" "to_int (mem (kheap s) (b + 4)) = pid"
    using b(1) pid by (auto simp: node_ok_def to_int_to_u32)
  have s1: "kinv Q ?s1" "\<not> isbadsem ?s1 (freebuf ?e)" using k sem(1) by (simp_all add: isbadsem_def)
  obtain Q' s' where s': "signaln (freebuf ?e) 1 ?s1 = Some (OK, s')" "kinv Q' s'"
      "sched_frame (recount ?i (int (length bs) + 1) ?s1) s'"
    using signaln_one [OF s1] sem(2) p(2) by auto
  have run: "buffree (b + 8) s = Some (OK, s')"
    using ih pid st b(2) s'(1) by (simp add: buffree_def ld_def st_def bounds_simps isbadpool_def)
  note f = sched_frameD(1,4,12) [OF s'(3)]
  have "\<forall>c\<in>set (b # bs). c + 4 \<noteq> b" using b(3) by (auto simp: apart_def)
  then have nd': "\<forall>c\<in>set (b # bs). node_ok ?h pid c" using nd b(1) by (auto simp: node_ok_def)
  have "bfptab s' = (bfptab s)(pid := ?e\<lparr>bnext := b\<rparr>)" using bfptab_more [OF f(3)] by simp
  moreover have "b \<notin> set bs" using b(3) by (simp add: apart_def)
  ultimately have "pool_ok s' pid (b # bs)"
    using pid st sem nd' q p(2) b(3) f(1,2) by (auto simp: pool_ok_def isbadsem_def)
  then show ?thesis using run s'(2) by blast
qed

section \<open>Creating a pool\<close>

lemma bfp_fill_ok:
  assumes "unat p + n * unat sz \<le> unat (maxaddr h)" "memheap h \<le> p" "4 dvd unat p" "4 dvd unat sz" "8 \<le> unat sz"
  shows "\<exists>m. bfp_fill n pid sz p h = Some (h\<lparr>mem := m\<rparr>) \<and>
    plist m p (map (\<lambda>i. p + of_nat i * sz) [0..<n]) \<and>
    (\<forall>i<n. node_ok (h\<lparr>mem := m\<rparr>) pid (p + of_nat i * sz)) \<and>
    (\<forall>x. \<not> (unat p \<le> unat x \<and> unat x < unat p + n * unat sz) \<longrightarrow> m x = mem h x)"
  using assms
proof (induction n arbitrary: p h)
  case 0
  then show ?case by (intro exI [of _ "mem h"]) simp
next
  case (Suc n)
  have hi: "unat (maxaddr h) < 4294967296" by (rule hi_bound)
  have r: "unat p + 8 \<le> unat (maxaddr h)" "unat p + unat sz \<le> unat (maxaddr h)" using Suc.prems(1,5) by (simp_all)
  have p4: "unat (p + 4) = unat p + 4" "unat (p + sz) = unat p + unat sz"
    using r hi by (simp_all add: unat_word_ariths)
  let ?m1 = "(mem h)(p + 4 := to_u32 pid, p := p + sz)"
  let ?h1 = "h\<lparr>mem := ?m1\<rparr>"
  have ih: "in_heap h p" "in_heap h (p + 4)"
    using r p4 Suc.prems(2,3) by (auto simp: in_heap_def word_le_nat_alt)
  have run: "bfp_fill (Suc n) pid sz p h = bfp_fill n pid sz (p + sz) ?h1"
    using ih by (simp add: st_def ld_def)
  obtain m where m: "bfp_fill n pid sz (p + sz) ?h1 = Some (?h1\<lparr>mem := m\<rparr>)"
      "plist m (p + sz) (map (\<lambda>i. p + sz + of_nat i * sz) [0..<n])"
      "\<forall>i<n. node_ok (?h1\<lparr>mem := m\<rparr>) pid (p + sz + of_nat i * sz)"
      "\<forall>x. \<not> (unat (p + sz) \<le> unat x \<and> unat x < unat (p + sz) + n * unat sz) \<longrightarrow> m x = ?m1 x"
    using Suc.IH [of "p + sz" ?h1] Suc.prems p4 by (auto simp: word_le_nat_alt add.assoc dvd_add)
  have mp: "m p = p + sz" "m (p + 4) = to_u32 pid" using m(4) p4 Suc.prems(5) by auto
  have e: "map (\<lambda>i. p + of_nat i * sz) [0..<Suc n] = p # map (\<lambda>i. p + sz + of_nat i * sz) [0..<n]"
    by (simp add: upt_conv_Cons map_Suc_upt [symmetric] algebra_simps del: upt_Suc map_Suc_upt)
  have "plist m p (map (\<lambda>i. p + of_nat i * sz) [0..<Suc n])" unfolding e using mp m(2) by simp
  moreover have "node_ok (h\<lparr>mem := m\<rparr>) pid (p + of_nat i * sz)" if "i < Suc n" for i
  proof (cases i)
    case 0
    then show ?thesis using ih mp by (simp add: node_ok_def)
  next
    case (Suc j)
    then show ?thesis using m(3) that by (simp add: algebra_simps)
  qed
  moreover have "m x = mem h x" if "\<not> (unat p \<le> unat x \<and> unat x < unat p + Suc n * unat sz)" for x
    using m(4) that p4 Suc.prems(5) by (auto simp: word_unat_eq_iff)
  ultimately show ?case unfolding run using m(1) by (intro exI [of _ m]) simp
qed

lemma bfp_scan_ok:
  "bfp_scan n i s = i + int n \<or> (i \<le> bfp_scan n i s \<and> bfp_scan n i s < i + int n \<and> bstate (bfptab s (bfp_scan n i s)) = BFPFREE)"
proof (induction n arbitrary: i)
  case (Suc n)
  from Suc.IH [of "i + 1"] show ?case by auto
qed simp

lemma roundword_dvd: "4 dvd unat (roundword b)"
proof -
  have "take_bit 2 (roundword b) = ((3 + b) AND NOT (mask 2)) AND mask 2"
    by (simp add: roundword_def take_bit_eq_mask mask_eq_exp_minus_1)
  also have "\<dots> = 0" by (intro bit_word_eqI) (auto simp: bit_simps)
  finally have "take_bit 2 (unat (roundword b)) = 0" by (metis unsigned_take_bit_eq unsigned_0)
  then show ?thesis by (simp add: take_bit_eq_mod mod_eq_0_iff_dvd)
qed

lemma apart_pool:
  assumes "unat p + n * unat sz < 4294967296" "8 \<le> unat (sz::u32)"
  shows "apart (map (\<lambda>i. p + of_nat i * sz) [0..<n])"
proof -
  have u: "unat (p + of_nat i * sz) = unat p + i * unat sz" "i * unat sz + unat sz \<le> n * unat sz" if "i < n" for i
  proof -
    show le: "i * unat sz + unat sz \<le> n * unat sz" using that by (metis Suc_leI add.commute mult_Suc mult_le_mono1)
    have "unat (of_nat i * sz) = i * unat sz"
      using assms(1) le by (simp add: unat_word_ariths unat_of_nat take_bit_eq_mod mod_mult_left_eq)
    then show "unat (p + of_nat i * sz) = unat p + i * unat sz" using assms(1) le by (simp add: unat_word_ariths)
  qed
  have lt: "i * unat sz + 8 \<le> j * unat sz" if "i < j" for i j
    using that assms(2) by (metis Suc_leI add_le_mono le_trans mult_Suc mult_le_mono1 add.commute nat_add_left_cancel_le)
  have "p + of_nat i * sz \<noteq> p + of_nat j * sz" if "i < j" "j < n" for i j
    using u(1) [of i] u(1) [of j] lt [OF that(1)] that assms(2) by (auto simp: word_unat_eq_iff)
  then have "distinct (map (\<lambda>i. p + of_nat i * sz) [0..<n])"
    by (auto simp: distinct_map inj_on_def) (metis linorder_less_linear)
  moreover have "p + of_nat i * sz + 4 \<noteq> p + of_nat j * sz" if ij: "i < n" "j < n" for i j
  proof -
    have "unat (p + of_nat i * sz + 4) = unat p + i * unat sz + 4"
      using u [OF ij(1)] assms by (subst unat_add_no_wrap) auto
    moreover have "i * unat sz + 4 \<noteq> j * unat sz"
      using lt [of i j] lt [of j i] by (cases i j rule: linorder_cases) auto
    ultimately show ?thesis using u(1) [OF ij(2)] by (auto simp: word_unat_eq_iff)
  qed
  ultimately show ?thesis by (auto simp: apart_def)
qed


lemma bfp_setup_ok:
  assumes k: "kinv Q s" and h: "heap_ok (kheap s) fs" and ns: "nextsem s \<in> sids"
    and sz: "4 dvd unat sz" "8 \<le> unat sz" "unat sz \<le> 2048" and n: "1 \<le> unat n" "unat n \<le> 8192"
    and pid: "0 \<le> pid" "pid < NPOOL" "bstate (bfptab s pid) = BFPUSED"
  shows "\<exists>r s'. bfp_setup pid sz n s = Some (r, s') \<and> kinv Q s' \<and>
    (r = SYSERR \<and> heap_ok (kheap s') fs \<and> bstate (bfptab s' pid) = BFPFREE \<or>
     r = pid \<and> (\<exists>p gs. pool_ok s' r (map (\<lambda>i. p + of_nat i * sz) [0..<unat n]) \<and>
       heap_ok (kheap s') gs \<and> {unat p..<unat p + unat n * unat sz} \<inter> bytes gs = {}))"
proof -
  have mul: "unat n * unat sz \<le> 8192 * 2048" "8 \<le> unat n * unat sz"
    using mult_le_mono [OF n(2) sz(3)] mult_le_mono [OF n(1) sz(2)] by simp_all
  have un: "unat (n * sz) = unat n * unat sz" using mul by (simp add: unat_word_ariths)
  have nb: "0 < n * sz" "unat (n * sz) \<le> 4294967288" using un mul sz n by (simp_all add: word_less_nat_alt)
  have rm: "unat n * unat sz \<le> unat (roundmb (n * sz))" using roundmb_ge(1) [OF nb(2)] un by simp
  let ?s1 = "s\<lparr>bfptab := (bfptab s)(pid := (bfptab s pid)\<lparr>nbuf := n, bufsize := sz\<rparr>)\<rparr>"
  consider "memget (n * sz) (kheap s) = Some (SYSERR_u, kheap s)"
    | p h' gs where "memget (n * sz) (kheap s) = Some (p, h')" "p \<noteq> SYSERR_u" "same_layout (kheap s) h'"
        "memheap (kheap s) \<le> p" "8 dvd unat p" "unat p + unat (roundmb (n * sz)) \<le> unat (maxaddr (kheap s))"
        "{unat p..<unat p + unat (roundmb (n * sz))} \<inter> bytes gs = {}"
        "\<forall>m. (\<forall>x. \<not> (unat p \<le> unat x \<and> unat x < unat p + unat (roundmb (n * sz))) \<longrightarrow> m x = mem h' x) \<longrightarrow>
          heap_ok (h'\<lparr>mem := m\<rparr>) gs \<and> (\<exists>h2. memfree p (n * sz) (h'\<lparr>mem := m\<rparr>) = Some (OK, h2) \<and> heap_ok h2 fs)"
    using memget_client [OF h nb] by blast
  then show ?thesis
  proof cases
    case 1
    then show ?thesis using pid k h by (simp add: bfp_setup_def bounds_simps)
  next
    case 2
    have lay: "memheap h' = memheap (kheap s)" "maxaddr h' = maxaddr (kheap s)" using 2(3) by (auto simp: same_layout_def)
    have d4: "4 dvd unat p" using 2(5) by (rule dvd8_dvd4)
    have top: "unat p + unat n * unat sz \<le> unat (maxaddr h')" using 2(6) rm lay by simp
    have lo: "memheap h' \<le> p" using 2(4) lay by simp
    obtain m where m: "bfp_fill (unat n) pid sz p h' = Some (h'\<lparr>mem := m\<rparr>)"
        "plist m p (map (\<lambda>i. p + of_nat i * sz) [0..<unat n])"
        "\<forall>i<unat n. node_ok (h'\<lparr>mem := m\<rparr>) pid (p + of_nat i * sz)"
        "\<forall>x. \<not> (unat p \<le> unat x \<and> unat x < unat p + unat n * unat sz) \<longrightarrow> m x = mem h' x"
      using bfp_fill_ok [OF top lo d4 sz(1,2), of pid] by blast
    have mo: "\<forall>x. \<not> (unat p \<le> unat x \<and> unat x < unat p + unat (roundmb (n * sz))) \<longrightarrow> m x = mem h' x"
      using m(4) rm by (meson add_le_cancel_left order_less_le_trans)
    note hk = conjunct1 [OF mp [OF spec [OF 2(8)] mo]] conjunct2 [OF mp [OF spec [OF 2(8)] mo]]
    let ?e = "(bfptab s pid)\<lparr>nbuf := n, bufsize := sz, bnext := p, bhead := p\<rparr>"
    let ?s2 = "s\<lparr>bfptab := (bfptab s)(pid := ?e), kheap := h'\<lparr>mem := m\<rparr>\<rparr>"
    have k2: "kinv Q ?s2" "nextsem ?s2 \<in> sids" using k ns by simp_all
    have "int (unat n) \<le> 8192" using n(2) by linarith
    define c where "c = int (unat n)"
    have c: "0 \<le> c" "c \<le> INT_MAX" and tn: "to_int n = c"
      using \<open>int (unat n) \<le> 8192\<close> to_int_small [of n] by (simp_all add: c_def)
    have run: "bfp_setup pid sz n s = do {
        (sem, s) \<leftarrow> semcreate c ?s2;
        s \<leftarrow> set_pool pid (\<lambda>e. e\<lparr>freebuf := sem\<rparr>) s;
        if sem = SYSERR_u
        then do {
          s \<leftarrow> set_pool pid (\<lambda>e. e\<lparr>bstate := BFPFREE\<rparr>) s;
          (_, h) \<leftarrow> memfree p (n * sz) (kheap s);
          Some (SYSERR, s\<lparr>kheap := h\<rparr>)
        }
        else Some (pid, s) }"
      using pid 2(1,2) m(1) by (simp add: bfp_setup_def bounds_simps tn)
    show ?thesis
    proof (cases "\<exists>i\<in>sids. semstate (semtab ?s2 i) = SFREE")
      case False
      then have "semcreate c ?s2 = Some (SYSERR_u, ?s2)"
        using semcreate_ok [OF k2 c] by simp
      then show ?thesis unfolding run using hk(2) pid k2(1) by (auto simp: bounds_simps)
    next
      case True
      then obtain i where i: "i \<in> sids" "semcreate c ?s2 = Some (to_u32 i,
          ?s2\<lparr>nextsem := i, semtab := (semtab s)(i := (semtab s i)\<lparr>semstate := SUSED, count := c\<rparr>)\<rparr>)"
          "kinv Q (?s2\<lparr>nextsem := i, semtab := (semtab s)(i := (semtab s i)\<lparr>semstate := SUSED, count := c\<rparr>)\<rparr>)"
        using semcreate_ok [OF k2 c] by auto
      let ?s3 = "?s2\<lparr>nextsem := i, semtab := (semtab s)(i := (semtab s i)\<lparr>semstate := SUSED, count := c\<rparr>),
        bfptab := (bfptab s)(pid := ?e\<lparr>freebuf := to_u32 i\<rparr>)\<rparr>"
      have k3: "kinv Q ?s3" by (subst kinv_pool(1)) (rule i(3))
      have ui: "uint (to_u32 i) = i" "to_u32 i \<noteq> SYSERR_u"
        using i(1) by (simp_all add: uint_to_u32 to_u32_not_SYSERR)
      have "apart (map (\<lambda>i. p + of_nat i * sz) [0..<unat n])"
        by (rule apart_pool) (use top hi_bound [of h'] sz in auto)
      then have "pool_ok ?s3 pid (map (\<lambda>i. p + of_nat i * sz) [0..<unat n])"
        using pid i(1) ui n m(2,3) by (auto simp: pool_ok_def isbadsem_def c_def)
      moreover have "{unat p..<unat p + unat n * unat sz} \<inter> bytes gs = {}" using 2(7) rm by (auto simp: disjoint_iff)
      ultimately show ?thesis
        unfolding run using i(2) k3 ui(2) pid hk(1) by (intro exI [of _ pid] exI [of _ ?s3]) (auto simp: bounds_simps simp del: kinv_pool)
    qed
  qed
qed

lemma bfpalloc_ok:
  assumes k: "kinv Q s" and h: "heap_ok (kheap s) fs" and ns: "nextsem s \<in> sids"
    and sz: "sz = roundword bsz + 8" "8 \<le> sz" "sz \<le> POOL_MAX_BUFSIZE" and n: "1 \<le> n" "n \<le> POOL_MAX_NBUFS"
  shows "\<exists>r s'. bfpalloc bsz n s = Some (r, s') \<and> kinv Q s' \<and>
    (r = SYSERR \<and> heap_ok (kheap s') fs \<or>
     0 \<le> r \<and> r < NPOOL \<and> bstate (bfptab s r) = BFPFREE \<and>
       (\<exists>p gs. pool_ok s' r (map (\<lambda>i. p + of_nat i * sz) [0..<unat n]) \<and>
         heap_ok (kheap s') gs \<and> {unat p..<unat p + unat n * unat sz} \<inter> bytes gs = {}))"
proof -
  have b: "8 \<le> unat sz" "unat sz \<le> 2048" "1 \<le> unat n" "unat n \<le> 8192"
    using sz n by (simp_all add: word_le_nat_alt)
  have g: "\<not> (sz > POOL_MAX_BUFSIZE \<or> sz < POOL_MIN_BUFSIZE \<or> n > POOL_MAX_NBUFS \<or> n < 1)"
    using sz n by (metis not_less)
  have sz4: "4 dvd unat sz"
  proof -
    have "unat sz = (unat (roundword bsz) + 8) mod 2 ^ 32" by (simp add: sz(1) unat_word_ariths)
    then show ?thesis using roundword_dvd [of bsz] by (simp add: dvd_mod dvd_add)
  qed
  define pid where "pid = bfp_scan (nat NPOOL) 0 s"
  consider "pid = NPOOL" | "pid \<noteq> NPOOL" "0 \<le> pid" "pid < NPOOL" "bstate (bfptab s pid) = BFPFREE"
    using bfp_scan_ok [of "nat NPOOL" 0 s] by (auto simp: pid_def)
  then show ?thesis
  proof cases
    case 1
    have "bfpalloc bsz n s = Some (SYSERR, s)"
      unfolding bfpalloc_def Let_def sz(1) [symmetric] if_not_P [OF g] pid_def [symmetric] 1 by simp
    then show ?thesis using k h by (intro exI [of _ SYSERR] exI [of _ s]) simp
  next
    case 2
    let ?s = "s\<lparr>bfptab := (bfptab s)(pid := (bfptab s pid)\<lparr>bstate := BFPUSED\<rparr>)\<rparr>"
    have "bfpalloc bsz n s = bfp_setup pid sz n ?s"
      unfolding bfpalloc_def Let_def sz(1) [symmetric] if_not_P [OF g] pid_def [symmetric] if_not_P [OF 2(1)]
      using 2(2,3) by (simp add: bounds_simps)
    then show ?thesis
      using bfp_setup_ok [of Q ?s fs sz n pid] k h ns sz4 b 2 by fastforce
  qed
qed

end
