(* ===== verification/Fifo.thy ===== *)
theory Fifo
  imports Main
begin

text \<open>
  The interface of a bounded first-in first-out buffer: what mailboxes, the loopback device and the input
  queue of a UDP device promise their clients.  The laws speak of single operations; what a client sees of
  any sequence of them follows once for all.
\<close>

section \<open>Rings\<close>

definition ring_list :: "nat \<Rightarrow> (nat \<Rightarrow> 'a) \<Rightarrow> nat \<Rightarrow> nat \<Rightarrow> 'a list" where
  "ring_list cap f start n = map (\<lambda>k. f ((start + k) mod cap)) [0..<n]"

lemma length_ring_list [simp]: "length (ring_list cap f start n) = n"
  by (simp add: ring_list_def)

lemma mod_add_inj:
  assumes "(a + i) mod n = (a + j) mod n" "i < n" "j < n"
  shows "i = (j::nat)"
proof -
  have "(int a + int i) mod int n = (int a + int j) mod int n" using assms(1) by (metis of_nat_add of_nat_mod)
  then have "int n dvd (int i - int j)" by (simp add: mod_eq_dvd_iff)
  moreover have "\<bar>int i - int j\<bar> < int n" using assms(2,3) by linarith
  ultimately have "int i - int j = 0" using zdvd_imp_le [of "int n" "\<bar>int i - int j\<bar>"] by fastforce
  then show ?thesis by simp
qed

lemma ring_list_put:
  assumes "n < cap"
  shows "ring_list cap (f((start + n) mod cap := x)) start (Suc n) = ring_list cap f start n @ [x]"
proof -
  have "(f((start + n) mod cap := x)) ((start + k) mod cap) = f ((start + k) mod cap)" if "k < n" for k
    using mod_add_inj [of start k cap n] that assms by auto
  then show ?thesis by (simp add: ring_list_def)
qed

lemma ring_list_get: "ring_list cap f start (Suc n) = f (start mod cap) # ring_list cap f (Suc start mod cap) n"
proof (rule nth_equalityI)
  fix k assume "k < length (ring_list cap f start (Suc n))"
  then show "ring_list cap f start (Suc n) ! k = (f (start mod cap) # ring_list cap f (Suc start mod cap) n) ! k"
    by (cases k) (simp_all add: ring_list_def mod_simps del: upt_Suc)
qed simp

section \<open>Queues\<close>

datatype 'a fifo_op = Put 'a | Get

text \<open>A sequence of operations on a list: what the reads return and what is left.\<close>

fun queue_run :: "nat \<Rightarrow> 'a fifo_op list \<Rightarrow> 'a list \<Rightarrow> ('a list \<times> 'a list) option" where
  "queue_run cap [] xs = Some ([], xs)"
| "queue_run cap (Put x # ops) xs = (if length xs < cap then queue_run cap ops (xs @ [x]) else None)"
| "queue_run cap (Get # ops) [] = None"
| "queue_run cap (Get # ops) (x # xs) = map_option (\<lambda>(ys, zs). (x # ys, zs)) (queue_run cap ops xs)"

fun fifo_run :: "('a \<Rightarrow> 's \<Rightarrow> 's option) \<Rightarrow> ('s \<Rightarrow> ('a \<times> 's) option) \<Rightarrow> 'a fifo_op list \<Rightarrow> 's \<Rightarrow> ('a list \<times> 's) option" where
  "fifo_run put get [] s = Some ([], s)"
| "fifo_run put get (Put x # ops) s = (case put x s of None \<Rightarrow> None | Some s \<Rightarrow> fifo_run put get ops s)"
| "fifo_run put get (Get # ops) s = (case get s of None \<Rightarrow> None | Some (x, s) \<Rightarrow> map_option (\<lambda>(ys, s). (x # ys, s)) (fifo_run put get ops s))"

locale fifo =
  fixes put :: "'a \<Rightarrow> 's \<Rightarrow> 's option"
    and get :: "'s \<Rightarrow> ('a \<times> 's) option"
    and repr :: "'s \<Rightarrow> 'a list \<Rightarrow> bool"
    and valid :: "'a \<Rightarrow> bool"
    and cap :: nat
  assumes put_law: "repr s xs \<Longrightarrow> length xs < cap \<Longrightarrow> valid x \<Longrightarrow> \<exists>s'. put x s = Some s' \<and> repr s' (xs @ [x])"
    and get_law: "repr s (x # xs) \<Longrightarrow> \<exists>s'. get s = Some (x, s') \<and> repr s' xs"
begin

lemma run:
  "repr s xs \<Longrightarrow> \<forall>x. Put x \<in> set ops \<longrightarrow> valid x \<Longrightarrow> queue_run cap ops xs = Some (ys, zs) \<Longrightarrow>
   \<exists>s'. fifo_run put get ops s = Some (ys, s') \<and> repr s' zs"
proof (induction ops arbitrary: s xs ys)
  case (Cons a ops)
  show ?case
  proof (cases a)
    case (Put x)
    then have r: "queue_run cap ops (xs @ [x]) = Some (ys, zs)" "length xs < cap" "valid x"
      using Cons.prems by (auto split: if_splits)
    then obtain s1 where "put x s = Some s1" "repr s1 (xs @ [x])" using put_law [OF Cons.prems(1), of x] by auto
    then show ?thesis using Cons.IH [of s1 "xs @ [x]" ys] r(1) Cons.prems(2) Put by auto
  next
    case Get
    then obtain x xs' ys' where x: "xs = x # xs'" "ys = x # ys'" "queue_run cap ops xs' = Some (ys', zs)"
      using Cons.prems(3) by (cases xs) auto
    then obtain s1 where "get s = Some (x, s1)" "repr s1 xs'" using get_law Cons.prems(1) by blast
    then show ?thesis using Cons.IH [of s1 xs' ys'] x Cons.prems(2) Get by auto
  qed
qed simp

lemma puts_gets:
  assumes "repr s xs" "length xs + length ys \<le> cap" "\<forall>y \<in> set ys. valid y"
  shows "\<exists>s'. fifo_run put get (map Put ys @ replicate (length (xs @ ys)) Get) s = Some (xs @ ys, s') \<and> repr s' []"
proof -
  have "queue_run cap (replicate (length zs) Get) zs = Some (zs, [])" for zs :: "'a list"
    by (induction zs) auto
  moreover have "queue_run cap (map Put ys @ ops) xs = queue_run cap ops (xs @ ys)" for ops
    using assms(2) by (induction ys arbitrary: xs) auto
  ultimately have "queue_run cap (map Put ys @ replicate (length (xs @ ys)) Get) xs = Some (xs @ ys, [])" by metis
  then show ?thesis by (intro run [OF assms(1)]) (use assms(3) in auto)
qed

end

end
