(* ===== verification/Mailbox.thy ===== *)
theory Mailbox
  imports Bufpool Fifo
begin

text \<open>
  Mailboxes: \<^verbatim>\<open>mailbox/mailboxInit.c\<close>, \<^verbatim>\<open>mailboxAlloc.c\<close>, \<^verbatim>\<open>mailboxFree.c\<close>, \<^verbatim>\<open>mailboxSend.c\<close>,
  \<^verbatim>\<open>mailboxReceive.c\<close> and \<^verbatim>\<open>mailboxCount.c\<close>.  A mailbox is a ring buffer of words in kernel memory with
  one semaphore that counts the free places and one that counts the messages.
\<close>

section \<open>Operations\<close>

abbreviation (input) NMAILBOX :: int where "NMAILBOX \<equiv> 15"

datatype mboxstate = MAILBOX_FREE | MAILBOX_ALLOC

record mbox =
  sender :: u32
  receiver :: u32
  mmax :: u32
  mbcount :: u32
  mstart :: u32
  mbstate :: mboxstate
  msgs :: u32

record boxes = pools +
  mboxtab :: "int \<Rightarrow> mbox"
  mboxtabsem :: u32
  nextmbx :: int

definition box_ent :: "'a boxes_scheme \<Rightarrow> int \<Rightarrow> mbox option" where
  "box_ent s i = (if 0 \<le> i \<and> i < NMAILBOX then Some (mboxtab s i) else None)"

definition set_box :: "int \<Rightarrow> (mbox \<Rightarrow> mbox) \<Rightarrow> 'a boxes_scheme \<Rightarrow> 'a boxes_scheme option" where
  "set_box i f s =
     (if 0 \<le> i \<and> i < NMAILBOX then Some (s\<lparr>mboxtab := (mboxtab s)(i := f (mboxtab s i))\<rparr>) else None)"

definition isbadbox :: "u32 \<Rightarrow> bool" where
  "isbadbox box \<longleftrightarrow> uint box \<ge> NMAILBOX"

definition mailboxInit :: "'a boxes_scheme \<Rightarrow> (int \<times> 'a boxes_scheme) option" where
  "mailboxInit s = do {
     let s = s\<lparr>mboxtab := (\<lambda>i. if 0 \<le> i \<and> i < NMAILBOX then (mboxtab s i)\<lparr>mbstate := MAILBOX_FREE\<rparr> else mboxtab s i)\<rparr>;
     (sem, s) \<leftarrow> semcreate 1 s;
     let s = s\<lparr>mboxtabsem := sem\<rparr>;
     if sem = SYSERR_u then Some (SYSERR, s) else Some (OK, s)
   }"

fun mbox_scan :: "nat \<Rightarrow> 'a boxes_scheme \<Rightarrow> (int option \<times> 'a boxes_scheme) option" where
  "mbox_scan 0 s = Some (None, s)"
| "mbox_scan (Suc n) s = do {
     let nx = (nextmbx s + 1) mod NMAILBOX;
     let s = s\<lparr>nextmbx := nx\<rparr>;
     e \<leftarrow> box_ent s nx;
     if mbstate e = MAILBOX_FREE then Some (Some nx, s) else mbox_scan n s
   }"

text \<open>The body of the search loop of \<^verbatim>\<open>mailboxAlloc\<close> once a free entry \<open>i\<close> has been found.\<close>

definition mbox_setup :: "int \<Rightarrow> u32 \<Rightarrow> 'a boxes_scheme \<Rightarrow> (int \<times> 'a boxes_scheme) option" where
  "mbox_setup i cnt s = do {
     (p, h) \<leftarrow> memget (4 * cnt) (kheap s);
     s \<leftarrow> set_box i (\<lambda>e. e\<lparr>msgs := p\<rparr>) (s\<lparr>kheap := h\<rparr>);
     if p = SYSERR_u then Some (SYSERR, s)
     else do {
       s \<leftarrow> set_box i (\<lambda>e. e\<lparr>mbcount := 0, mstart := 0, mmax := cnt\<rparr>) s;
       (a, s) \<leftarrow> semcreate (to_int cnt) s;
       s \<leftarrow> set_box i (\<lambda>e. e\<lparr>sender := a\<rparr>) s;
       (b, s) \<leftarrow> semcreate 0 s;
       s \<leftarrow> set_box i (\<lambda>e. e\<lparr>receiver := b\<rparr>) s;
       if a = SYSERR_u \<or> b = SYSERR_u
       then do {
         (_, h) \<leftarrow> memfree p (4 * cnt) (kheap s);
         (_, s) \<leftarrow> semfree a (s\<lparr>kheap := h\<rparr>);
         (_, s) \<leftarrow> semfree b s;
         Some (SYSERR, s)
       }
       else do {
         s \<leftarrow> set_box i (\<lambda>e. e\<lparr>mbstate := MAILBOX_ALLOC\<rparr>) s;
         Some (i, s)
       }
     }
   }"

text \<open>What \<^verbatim>\<open>mailboxAlloc\<close> and \<^verbatim>\<open>mailboxFree\<close> do once they hold the table semaphore.\<close>

definition mailboxAlloc_held :: "u32 \<Rightarrow> 'a boxes_scheme \<Rightarrow> (int \<times> 'a boxes_scheme) option" where
  "mailboxAlloc_held cnt s = do {
     (i, s) \<leftarrow> mbox_scan (nat NMAILBOX) s;
     (r, s) \<leftarrow> (case i of None \<Rightarrow> Some (SYSERR, s) | Some i \<Rightarrow> mbox_setup i cnt s);
     (_, s) \<leftarrow> signal (mboxtabsem s) s;
     Some (r, s)
   }"

definition mailboxAlloc :: "u32 \<Rightarrow> 'a boxes_scheme \<Rightarrow> (int option \<times> 'a boxes_scheme) option" where
  "mailboxAlloc cnt s = do {
     (_, s') \<leftarrow> wait (mboxtabsem s) s;
     if thrcurrent s' = thrcurrent s
     then do { (r, s') \<leftarrow> mailboxAlloc_held cnt s'; Some (Some r, s') }
     else Some (None, s')
   }"

definition mailboxFree_held :: "u32 \<Rightarrow> 'a boxes_scheme \<Rightarrow> (int \<times> 'a boxes_scheme) option" where
  "mailboxFree_held box s = do {
     e \<leftarrow> box_ent s (uint box);
     (r, s) \<leftarrow>
       (if mbstate e = MAILBOX_ALLOC
        then do {
          s \<leftarrow> set_box (uint box) (\<lambda>e. e\<lparr>mbstate := MAILBOX_FREE\<rparr>) s;
          (_, s) \<leftarrow> semfree (sender e) s;
          (_, s) \<leftarrow> semfree (receiver e) s;
          (_, h) \<leftarrow> memfree (msgs e) (4 * mmax e) (kheap s);
          Some (OK, s\<lparr>kheap := h\<rparr>)
        }
        else Some (SYSERR, s));
     (_, s) \<leftarrow> signal (mboxtabsem s) s;
     Some (r, s)
   }"

definition mailboxFree :: "u32 \<Rightarrow> 'a boxes_scheme \<Rightarrow> (int option \<times> 'a boxes_scheme) option" where
  "mailboxFree box s =
     (if isbadbox box then Some (Some SYSERR, s)
      else do {
        (_, s') \<leftarrow> wait (mboxtabsem s) s;
        if thrcurrent s' = thrcurrent s
        then do { (r, s') \<leftarrow> mailboxFree_held box s'; Some (Some r, s') }
        else Some (None, s')
      })"

definition mailboxCount :: "u32 \<Rightarrow> 'a boxes_scheme \<Rightarrow> int option" where
  "mailboxCount box s =
     (if isbadbox box then Some SYSERR
      else do {
        e \<leftarrow> box_ent s (uint box);
        Some (if mbstate e = MAILBOX_ALLOC then to_int (mbcount e) else SYSERR)
      })"

text \<open>What a sender or receiver does after its \<^verbatim>\<open>wait\<close> has returned.\<close>

definition mailboxSend_put :: "u32 \<Rightarrow> int \<Rightarrow> 'a boxes_scheme \<Rightarrow> (int \<times> 'a boxes_scheme) option" where
  "mailboxSend_put box mailmsg s = do {
     e \<leftarrow> box_ent s (uint box);
     if mbstate e = MAILBOX_ALLOC
     then if mmax e = 0 then None
     else do {
       h \<leftarrow> st (msgs e + 4 * ((mstart e + mbcount e) mod mmax e)) (to_u32 mailmsg) (kheap s);
       s \<leftarrow> set_box (uint box) (\<lambda>e. e\<lparr>mbcount := mbcount e + 1\<rparr>) (s\<lparr>kheap := h\<rparr>);
       (_, s) \<leftarrow> signal (receiver e) s;
       Some (OK, s)
     }
     else Some (SYSERR, s)
   }"

definition mailboxSend :: "u32 \<Rightarrow> int \<Rightarrow> 'a boxes_scheme \<Rightarrow> (int option \<times> 'a boxes_scheme) option" where
  "mailboxSend box mailmsg s =
     (if isbadbox box then Some (Some SYSERR, s)
      else do {
        e \<leftarrow> box_ent s (uint box);
        if mbstate e = MAILBOX_ALLOC
        then do {
          (_, s') \<leftarrow> wait (sender e) s;
          if thrcurrent s' = thrcurrent s
          then do { (r, s') \<leftarrow> mailboxSend_put box mailmsg s'; Some (Some r, s') }
          else Some (None, s')
        }
        else Some (Some SYSERR, s)
      })"

definition mailboxReceive_get :: "u32 \<Rightarrow> 'a boxes_scheme \<Rightarrow> (int \<times> 'a boxes_scheme) option" where
  "mailboxReceive_get box s = do {
     e \<leftarrow> box_ent s (uint box);
     if mbstate e = MAILBOX_ALLOC
     then do {
       w \<leftarrow> ld (msgs e + 4 * mstart e) (kheap s);
       if mmax e = 0 then None
       else do {
         s \<leftarrow> set_box (uint box) (\<lambda>e. e\<lparr>mstart := (mstart e + 1) mod mmax e, mbcount := mbcount e - 1\<rparr>) s;
         (_, s) \<leftarrow> signal (sender e) s;
         Some (to_int w, s)
       }
     }
     else Some (SYSERR, s)
   }"

definition mailboxReceive :: "u32 \<Rightarrow> 'a boxes_scheme \<Rightarrow> (int option \<times> 'a boxes_scheme) option" where
  "mailboxReceive box s =
     (if isbadbox box then Some (Some SYSERR, s)
      else do {
        e \<leftarrow> box_ent s (uint box);
        if mbstate e = MAILBOX_ALLOC
        then do {
          (_, s') \<leftarrow> wait (receiver e) s;
          if thrcurrent s' = thrcurrent s
          then do { (r, s') \<leftarrow> mailboxReceive_get box s'; Some (Some r, s') }
          else Some (None, s')
        }
        else Some (Some SYSERR, s)
      })"

section \<open>The message queue of a mailbox\<close>

lemma box_access [bounds_simps]:
  "0 \<le> i \<Longrightarrow> i < NMAILBOX \<Longrightarrow> box_ent s i = Some (mboxtab s i)"
  "0 \<le> i \<Longrightarrow> i < NMAILBOX \<Longrightarrow> set_box i f s = Some (s\<lparr>mboxtab := (mboxtab s)(i := f (mboxtab s i))\<rparr>)"
  by (simp_all add: box_ent_def set_box_def)

lemma kinv_box [simp]: "kinv Q (s\<lparr>mboxtab := m\<rparr>) = kinv Q s" "kinv Q (s\<lparr>nextmbx := n\<rparr>) = kinv Q s"
  "kinv Q (s\<lparr>mboxtabsem := n'\<rparr>) = kinv Q s"
proof -
  have h: "home (s\<lparr>mboxtab := m\<rparr>) = home s" "home (s\<lparr>nextmbx := n\<rparr>) = home s" "home (s\<lparr>mboxtabsem := n'\<rparr>) = home s"
    by (simp_all add: home_def fun_eq_iff split: thrstate.split)
  show "kinv Q (s\<lparr>mboxtab := m\<rparr>) = kinv Q s" "kinv Q (s\<lparr>nextmbx := n\<rparr>) = kinv Q s"
      "kinv Q (s\<lparr>mboxtabsem := n'\<rparr>) = kinv Q s"
    by (simp_all add: kinv_def kinv0_def config_ok_def inv_defs h)
qed

text \<open>The ring holds the messages \<open>xs\<close>, oldest first.\<close>

definition ring :: "heap \<Rightarrow> mbox \<Rightarrow> int list \<Rightarrow> bool" where
  "ring h e xs \<longleftrightarrow> 0 < unat (mmax e) \<and> unat (mmax e) \<le> 536870912 \<and> mstart e < mmax e \<and>
     length xs = unat (mbcount e) \<and> length xs \<le> unat (mmax e) \<and>
     memheap h \<le> msgs e \<and> 4 dvd unat (msgs e) \<and> unat (msgs e) + 4 * unat (mmax e) \<le> unat (maxaddr h) \<and>
     (\<forall>i<length xs. mem h (msgs e + 4 * of_nat ((unat (mstart e) + i) mod unat (mmax e))) = to_u32 (xs ! i)) \<and>
     (\<forall>x\<in>set xs. INT_MIN \<le> x \<and> x \<le> INT_MAX)"

text \<open>An idle mailbox: nobody waits, so the semaphores count free places and messages.\<close>

definition box_ok :: "'a boxes_scheme \<Rightarrow> u32 \<Rightarrow> int list \<Rightarrow> bool" where
  "box_ok s box xs \<longleftrightarrow> \<not> isbadbox box \<and> (let e = mboxtab s (uint box) in
     mbstate e = MAILBOX_ALLOC \<and> ring (kheap s) e xs \<and> uint (sender e) \<noteq> uint (receiver e) \<and>
     \<not> isbadsem s (sender e) \<and> \<not> isbadsem s (receiver e) \<and>
     count (semtab s (uint (receiver e))) = int (length xs) \<and>
     count (semtab s (uint (sender e))) = int (unat (mmax e)) - int (length xs))"

lemma ring_slot:
  assumes "ring h e xs" "j < unat (mmax e)"
  shows "unat (msgs e + 4 * of_nat j) = unat (msgs e) + 4 * j" "in_heap h (msgs e + 4 * of_nat j)"
proof -
  have r: "unat (msgs e) + 4 * unat (mmax e) \<le> unat (maxaddr h)" "memheap h \<le> msgs e" "4 dvd unat (msgs e)"
    using assms(1) by (auto simp: ring_def)
  have hi: "unat (maxaddr h) < 4294967296" by (rule hi_bound)
  have "unat (4 * of_nat j :: u32) = 4 * j"
    using assms(2) r(1) hi by (simp add: unat_word_ariths unat_of_nat take_bit_eq_mod mod_mult_right_eq)
  then show u: "unat (msgs e + 4 * of_nat j) = unat (msgs e) + 4 * j"
    using assms(2) r(1) hi by (simp add: unat_word_ariths)
  show "in_heap h (msgs e + 4 * of_nat j)"
    using u r assms(2) by (auto simp: in_heap_def word_le_nat_alt)
qed

lemma mod_word:
  assumes "a < 4294967296"
  shows "(of_nat a mod n :: u32) = of_nat (a mod unat n)"
proof -
  have "a mod unat n < 4294967296" using assms by (rule order.strict_trans1 [OF mod_less_eq_dividend])
  then show ?thesis using assms by (simp add: word_unat_eq_iff unat_mod unat_of_nat take_bit_eq_mod)
qed

lemma ring_index:
  assumes "ring h e xs" "k \<le> unat (mmax e)"
  shows "(mstart e + of_nat k) mod mmax e = of_nat ((unat (mstart e) + k) mod unat (mmax e))"
proof -
  have "unat (mstart e) < unat (mmax e)" "unat (mmax e) \<le> 536870912" using assms(1) by (auto simp: ring_def word_less_nat_alt)
  then have "(of_nat (unat (mstart e) + k) mod mmax e :: u32) = of_nat ((unat (mstart e) + k) mod unat (mmax e))"
    using assms(2) by (intro mod_word) simp
  then show ?thesis by simp
qed

abbreviation (input) slot :: "mbox \<Rightarrow> nat \<Rightarrow> u32" where
  "slot e i \<equiv> msgs e + 4 * of_nat ((unat (mstart e) + i) mod unat (mmax e))"

lemma slot_inj:
  assumes r: "ring h e xs" and "slot e i = slot e j" "i < unat (mmax e)" "j < unat (mmax e)"
  shows "i = j"
proof -
  have n: "0 < unat (mmax e)" using r by (simp add: ring_def)
  have "unat (slot e i) = unat (slot e j)" using assms(2) by simp
  then have "(unat (mstart e) + i) mod unat (mmax e) = (unat (mstart e) + j) mod unat (mmax e)"
    using ring_slot(1) [OF r, of "(unat (mstart e) + i) mod unat (mmax e)"]
      ring_slot(1) [OF r, of "(unat (mstart e) + j) mod unat (mmax e)"] n by simp
  then show ?thesis by (rule mod_add_inj) (use assms in auto)
qed

lemma ring_put:
  assumes r: "ring h e xs" and l: "length xs < unat (mmax e)" and x: "INT_MIN \<le> x" "x \<le> INT_MAX"
    and a: "a = msgs e + 4 * ((mstart e + mbcount e) mod mmax e)"
  shows "in_heap h a" "ring (h\<lparr>mem := (mem h)(a := to_u32 x)\<rparr>) (e\<lparr>mbcount := mbcount e + 1\<rparr>) (xs @ [x])"
proof -
  have c: "mbcount e = of_nat (length xs)" "0 < unat (mmax e)" "unat (mmax e) \<le> 536870912" using r by (auto simp: ring_def)
  have as: "a = slot e (length xs)" unfolding a c(1) using ring_index [OF r, of "length xs"] l by simp
  show "in_heap h a" unfolding as by (rule ring_slot(2) [OF r]) (use c in simp)
  have cnt: "unat (mbcount e + 1) = length xs + 1"
    using c l by (simp add: unat_word_ariths unat_of_nat take_bit_eq_mod)
  have "((mem h)(a := to_u32 x)) (slot e i) = to_u32 ((xs @ [x]) ! i)" if "i < length (xs @ [x])" for i
  proof (cases "i = length xs")
    case True
    then show ?thesis by (simp add: as)
  next
    case False
    then have i: "i < length xs" using that by simp
    then have "slot e i \<noteq> a" using slot_inj [OF r, of i "length xs"] l unfolding as by auto
    then show ?thesis using r i by (simp add: ring_def nth_append)
  qed
  then show "ring (h\<lparr>mem := (mem h)(a := to_u32 x)\<rparr>) (e\<lparr>mbcount := mbcount e + 1\<rparr>) (xs @ [x])"
    using r l cnt x by (auto simp: ring_def)
qed

lemma ring_get:
  assumes r: "ring h e (x # xs)"
  shows "in_heap h (msgs e + 4 * mstart e)" "mem h (msgs e + 4 * mstart e) = to_u32 x"
    "ring h (e\<lparr>mstart := (mstart e + 1) mod mmax e, mbcount := mbcount e - 1\<rparr>) xs"
proof -
  have c: "unat (mbcount e) = Suc (length xs)" "unat (mstart e) < unat (mmax e)" "unat (mmax e) \<le> 536870912"
      "Suc (length xs) \<le> unat (mmax e)"
    using r by (auto simp: ring_def word_less_nat_alt)
  have s: "msgs e + 4 * mstart e = slot e 0" using c(2) by simp
  show "in_heap h (msgs e + 4 * mstart e)" unfolding s by (rule ring_slot(2) [OF r]) (use c in simp)
  show "mem h (msgs e + 4 * mstart e) = to_u32 x" unfolding s using r unfolding ring_def by force
  have ns: "(mstart e + 1) mod mmax e = of_nat ((unat (mstart e) + 1) mod unat (mmax e))"
    using ring_index [OF r, of 1] c by simp
  have lt: "(unat (mstart e) + 1) mod unat (mmax e) < unat (mmax e)" using c(2) by simp
  have us: "unat ((mstart e + 1) mod mmax e) = (unat (mstart e) + 1) mod unat (mmax e)"
    unfolding ns using lt c(3) by (simp add: unat_of_nat take_bit_eq_mod)
  have "mbcount e = of_nat (Suc (length xs))" unfolding c(1) [symmetric] by simp
  then have cnt: "unat (mbcount e - 1) = length xs" using c(3,4) by (simp add: unat_of_nat take_bit_eq_mod)
  have "mem h (msgs e + 4 * of_nat (((unat (mstart e) + 1) mod unat (mmax e) + i) mod unat (mmax e))) = to_u32 (xs ! i)"
    if "i < length xs" for i
  proof -
    have "((unat (mstart e) + 1) mod unat (mmax e) + i) mod unat (mmax e) = (unat (mstart e) + Suc i) mod unat (mmax e)"
      by (simp add: mod_simps)
    moreover have "mem h (slot e (Suc i)) = to_u32 ((x # xs) ! Suc i)" using r that unfolding ring_def by (metis Suc_less_eq length_Cons)
    ultimately show ?thesis by simp
  qed
  then show "ring h (e\<lparr>mstart := (mstart e + 1) mod mmax e, mbcount := mbcount e - 1\<rparr>) xs"
    using r c(4) cnt us lt by (auto simp: ring_def word_less_nat_alt)
qed

section \<open>Sending and receiving\<close>

lemma box_okD:
  assumes "box_ok s box xs" "e = mboxtab s (uint box)"
  shows "\<not> isbadbox box" "uint box < NMAILBOX" "mbstate e = MAILBOX_ALLOC" "ring (kheap s) e xs" "uint (sender e) \<noteq> uint (receiver e)"
    "\<not> isbadsem s (sender e)" "\<not> isbadsem s (receiver e)" "count (semtab s (uint (receiver e))) = int (length xs)"
    "count (semtab s (uint (sender e))) = int (unat (mmax e)) - int (length xs)"
    "length xs \<le> unat (mmax e)" "unat (mmax e) \<le> 536870912" "mmax e \<noteq> 0"
  using assms by (auto simp: box_ok_def Let_def isbadbox_def ring_def)

lemma mailboxSend_ok:
  assumes k: "kinv Q s" and b: "box_ok s box xs" and l: "length xs < unat (mmax (mboxtab s (uint box)))"
    and x: "INT_MIN \<le> x" "x \<le> INT_MAX"
  shows "\<exists>s'. mailboxSend box x s = Some (Some OK, s') \<and> kinv Q s' \<and> box_ok s' box (xs @ [x]) \<and>
    mmax (mboxtab s' (uint box)) = mmax (mboxtab s (uint box))"
proof -
  define e where "e = mboxtab s (uint box)"
  note d = box_okD [OF b e_def]
  have l: "length xs < unat (mmax e)" using l by (simp add: e_def)
  have "int (length xs) < int (unat (mmax e))" using l by linarith
  then have lu: "int (length xs) < uint (mmax e)" by simp
  let ?S = "uint (sender e)" and ?R = "uint (receiver e)"
  let ?s1 = "recount ?S (int (unat (mmax e)) - int (length xs) - 1) s"
  have w: "wait (sender e) s = Some (OK, ?s1)" "kinv Q ?s1"
    using wait_no_block [OF k d(6)] d(9) lu by simp_all
  define a where "a = msgs e + 4 * ((mstart e + mbcount e) mod mmax e)"
  note rp = ring_put [OF d(4) l x a_def]
  let ?h = "(kheap s)\<lparr>mem := (mem (kheap s))(a := to_u32 x)\<rparr>"
  let ?s2 = "?s1\<lparr>kheap := ?h, mboxtab := (mboxtab s)(uint box := e\<lparr>mbcount := mbcount e + 1\<rparr>)\<rparr>"
  have k2: "kinv Q ?s2" "\<not> isbadsem ?s2 (receiver e)" "count (semtab ?s2 ?R) = int (length xs)"
    using w(2) d(5,7,8) by (simp_all add: isbadsem_def)
  let ?s3 = "recount ?R (int (length xs) + 1) ?s2"
  have sg: "signal (receiver e) ?s2 = Some (OK, ?s3)" "kinv Q ?s3"
    using signal_free [OF k2(1,2)] k2(3) d(10,11) by simp_all
  have "mailboxSend_put box x ?s1 = Some (OK, ?s3)"
    using d(2,3,12) rp(1) sg(1) by (simp add: mailboxSend_put_def bounds_simps st_def flip: a_def e_def)
  then have "mailboxSend box x s = Some (Some OK, ?s3)"
    using d(1-3) w(1) e_def by (simp add: mailboxSend_def bounds_simps)
  moreover have "box_ok ?s3 box (xs @ [x])"
    using d rp(2) by (auto simp: box_ok_def Let_def isbadsem_def e_def)
  ultimately show ?thesis using sg(2) by (intro exI [of _ ?s3]) (simp add: e_def)
qed

lemma mailboxReceive_ok:
  assumes k: "kinv Q s" and b: "box_ok s box (x # xs)"
  shows "\<exists>s'. mailboxReceive box s = Some (Some x, s') \<and> kinv Q s' \<and> box_ok s' box xs \<and>
    mmax (mboxtab s' (uint box)) = mmax (mboxtab s (uint box))"
proof -
  define e where "e = mboxtab s (uint box)"
  note d = box_okD [OF b e_def]
  let ?S = "uint (sender e)" and ?R = "uint (receiver e)"
  let ?s1 = "recount ?R (int (length xs)) s"
  have w: "wait (receiver e) s = Some (OK, ?s1)" "kinv Q ?s1"
    using wait_no_block [OF k d(7)] d(8) by simp_all
  note rg = ring_get [OF d(4)]
  let ?s2 = "?s1\<lparr>mboxtab := (mboxtab s)(uint box := e\<lparr>mstart := (mstart e + 1) mod mmax e, mbcount := mbcount e - 1\<rparr>)\<rparr>"
  have k2: "kinv Q ?s2" "\<not> isbadsem ?s2 (sender e)" "count (semtab ?s2 ?S) = int (unat (mmax e)) - int (length (x # xs))"
    using w(2) d(5,6,9) by (simp_all add: isbadsem_def)
  define c where "c = int (unat (mmax e)) - int (length (x # xs))"
  have c: "0 \<le> c" "c < INT_MAX" using d(10,11) unfolding c_def by linarith+
  let ?s3 = "recount ?S (c + 1) ?s2"
  have sg: "signal (sender e) ?s2 = Some (OK, ?s3)" "kinv Q ?s3"
    using signal_free [OF k2(1,2)] k2(3) c by (simp_all add: c_def)
  have xr: "to_int (to_u32 x) = x" using d(4) by (intro to_int_to_u32) (auto simp: ring_def)
  have "mailboxReceive_get box ?s1 = Some (x, ?s3)"
    using d(2,3,12) rg(1,2) sg(1) xr by (simp add: mailboxReceive_get_def bounds_simps ld_def flip: e_def)
  then have "mailboxReceive box s = Some (Some x, ?s3)"
    using d(1-3) w(1) e_def by (simp add: mailboxReceive_def bounds_simps)
  moreover have "box_ok ?s3 box xs"
    using d rg(3) by (auto simp: box_ok_def Let_def isbadsem_def e_def c_def)
  ultimately show ?thesis using sg(2) by (intro exI [of _ ?s3]) (simp add: e_def)
qed

text \<open>A sender on a full mailbox and a receiver on an empty one wait, in order of arrival.\<close>

lemma mailboxSend_full:
  assumes k: "kinv Q s" and b: "box_ok s box xs" and e: "e = mboxtab s (uint box)" and l: "length xs = unat (mmax e)"
    and cur: "thrcurrent s \<noteq> NULLTHREAD"
  shows "\<exists>R s'. mailboxSend box x s = Some (None, s') \<and> tstate (thrtab s' (thrcurrent s)) = THRWAIT \<and>
    kinv (Q(semqueue (semtab s (uint (sender e))) := Q (semqueue (semtab s (uint (sender e)))) @ [thrcurrent s], readylist s := R)) s'"
proof -
  note d = box_okD [OF b e]
  obtain R s' where s': "wait (sender e) s = Some (OK, s')" "tstate (thrtab s' (thrcurrent s)) = THRWAIT"
    "kinv (Q(semqueue (semtab s (uint (sender e))) := Q (semqueue (semtab s (uint (sender e)))) @ [thrcurrent s], readylist s := R)) s'"
    using wait_block [OF k d(6) _ cur] d(9) l by auto
  have "thrcurrent s' \<noteq> thrcurrent s" using kinvD(2) [OF s'(3)] s'(2) by auto
  then have "mailboxSend box x s = Some (None, s')"
    using d(1-3) s'(1) e by (simp add: mailboxSend_def bounds_simps)
  then show ?thesis using s'(2,3) by blast
qed

section \<open>First in, first out\<close>

definition mbox_put :: "u32 \<Rightarrow> int \<Rightarrow> 'a boxes_scheme \<Rightarrow> 'a boxes_scheme option" where
  "mbox_put box x s = (case mailboxSend box x s of Some (Some r, s) \<Rightarrow> if r = OK then Some s else None | _ \<Rightarrow> None)"

definition mbox_get :: "u32 \<Rightarrow> 'a boxes_scheme \<Rightarrow> (int \<times> 'a boxes_scheme) option" where
  "mbox_get box s = (case mailboxReceive box s of Some (Some x, s) \<Rightarrow> Some (x, s) | _ \<Rightarrow> None)"

interpretation mbq: fifo "mbox_put box" "mbox_get box"
  "\<lambda>s xs. kinv Q s \<and> box_ok s box xs \<and> unat (mmax (mboxtab s (uint box))) = cap" "\<lambda>x. INT_MIN \<le> x \<and> x \<le> INT_MAX" cap for box Q cap
proof
  fix s :: "'a boxes_scheme" and xs x
  assume "kinv Q s \<and> box_ok s box xs \<and> unat (mmax (mboxtab s (uint box))) = cap" "length xs < cap" "INT_MIN \<le> x \<and> x \<le> INT_MAX"
  then show "\<exists>s'. mbox_put box x s = Some s' \<and> kinv Q s' \<and> box_ok s' box (xs @ [x]) \<and> unat (mmax (mboxtab s' (uint box))) = cap"
    using mailboxSend_ok [of Q s box xs x] by (auto simp: mbox_put_def)
next
  fix s :: "'a boxes_scheme" and x xs
  assume "kinv Q s \<and> box_ok s box (x # xs) \<and> unat (mmax (mboxtab s (uint box))) = cap"
  then show "\<exists>s'. mbox_get box s = Some (x, s') \<and> kinv Q s' \<and> box_ok s' box xs \<and> unat (mmax (mboxtab s' (uint box))) = cap"
    using mailboxReceive_ok [of Q s box x xs] by (auto simp: mbox_get_def)
qed

end
