(* ===== verification/Arp.thy ===== *)
theory Arp
  imports Route Mailbox Message Thread
begin

text \<open>
  The address resolution cache of \<^verbatim>\<open>network/arp/*.c\<close>, on the kernel state with the mailboxes and
  \<^verbatim>\<open>arptab\<close>, \<^verbatim>\<open>arpqueue\<close>, \<^verbatim>\<open>rttab\<close> and \<^verbatim>\<open>rtqueue\<close>.  A pointer to an entry is its index.  As in the
  kernel's own operations a result \<open>None\<close> inside \<open>Some\<close> means that another thread has been dispatched
  before the call was complete.  The packet a handler reads is an argument: its address, and the
  ARP header (whose address is not \<^verbatim>\<open>NULL\<close>).
\<close>

section \<open>Data\<close>

abbreviation (input) ARP_NENTRY :: nat where "ARP_NENTRY \<equiv> 32"
abbreviation (input) ARP_FREE :: u16 where "ARP_FREE \<equiv> 0"
abbreviation (input) ARP_USED :: u16 where "ARP_USED \<equiv> 1"
abbreviation (input) ARP_UNRESOLVED :: u16 where "ARP_UNRESOLVED \<equiv> 1"
abbreviation (input) ARP_RESOLVED :: u16 where "ARP_RESOLVED \<equiv> 3"
abbreviation (input) ARP_NTHRWAIT :: nat where "ARP_NTHRWAIT \<equiv> 10"
abbreviation (input) ARP_MSG_RESOLVED :: int where "ARP_MSG_RESOLVED \<equiv> 1"
abbreviation (input) ARP_TTL_UNRESOLVED :: u32 where "ARP_TTL_UNRESOLVED \<equiv> 5"
abbreviation (input) ARP_TTL_RESOLVED :: u32 where "ARP_TTL_RESOLVED \<equiv> 300"
abbreviation (input) ARP_NQUEUE :: int where "ARP_NQUEUE \<equiv> 32"
abbreviation (input) RT_NQUEUE :: int where "RT_NQUEUE \<equiv> 32"

record arpEntry =
  arpstate :: u16
  arpnif :: "nat option"
  hwaddr :: netaddr
  praddr :: netaddr
  expires :: u32
  waiting :: "int list"
  acount :: int

record arpPkt =
  hwtype :: u16
  prtype :: u16
  hwalen :: u8
  pralen :: u8
  arpop :: u16
  addrs :: bytes

record nets = boxes +
  arptab :: "arpEntry list"
  arpqueue :: u32
  rttable :: rttab
  rtqueue :: u32
  netiftab :: "netif list"

text \<open>An entry after \<^verbatim>\<open>bzero\<close>.\<close>

definition zero_addr :: netaddr where
  "zero_addr = \<lparr>natype = 0, nalen = 0, naddr = replicate NET_MAX_ALEN 0\<rparr>"

definition zero_entry :: arpEntry where
  "zero_entry = \<lparr>arpstate = 0, arpnif = None, hwaddr = zero_addr, praddr = zero_addr, expires = 0,
     waiting = replicate ARP_NTHRWAIT 0, acount = 0\<rparr>"

definition set_arp :: "nat \<Rightarrow> (arpEntry \<Rightarrow> arpEntry) \<Rightarrow> 'a nets_scheme \<Rightarrow> 'a nets_scheme" where
  "set_arp i f s = s\<lparr>arptab := (arptab s)[i := f (arptab s ! i)]\<rparr>"

section \<open>Operations\<close>

fun arpAlloc_loop :: "nat \<Rightarrow> nat \<Rightarrow> nat option \<Rightarrow> 'a nets_scheme \<Rightarrow> nat option \<times> 'a nets_scheme" where
  "arpAlloc_loop 0 i minexpires s =
     (case minexpires of
        None \<Rightarrow> (None, s)
      | Some m \<Rightarrow> (Some m, set_arp m (\<lambda>_. zero_entry\<lparr>arpstate := ARP_USED\<rparr>) s))"
| "arpAlloc_loop (Suc n) i minexpires s =
     (if arpstate (arptab s ! i) = ARP_FREE
      then (Some i, set_arp i (\<lambda>e. e\<lparr>arpstate := ARP_USED\<rparr>) s)
      else arpAlloc_loop n (i + 1)
        (case minexpires of
           None \<Rightarrow> Some i
         | Some m \<Rightarrow> if expires (arptab s ! i) < expires (arptab s ! m) then Some i else Some m) s)"

definition arpAlloc :: "'a nets_scheme \<Rightarrow> nat option \<times> 'a nets_scheme" where
  "arpAlloc s = arpAlloc_loop ARP_NENTRY 0 None s"

text \<open>The loop of \<^verbatim>\<open>arpNotify\<close> for the \<open>n\<close> waiting threads from number \<open>i\<close>; it is also the rest of the call
  when a message has made another thread run.\<close>

fun arpNotify_loop :: "nat \<Rightarrow> nat \<Rightarrow> nat \<Rightarrow> int \<Rightarrow> 'a nets_scheme \<Rightarrow> (int option \<times> 'a nets_scheme) option" where
  "arpNotify_loop 0 i en m s =
     Some (Some OK, set_arp en (\<lambda>e. e\<lparr>acount := 0, waiting := replicate ARP_NTHRWAIT 0\<rparr>) s)"
| "arpNotify_loop (Suc n) i en m s =
     (if i < length (waiting (arptab s ! en))
      then do {
        (r, s') \<leftarrow> send (waiting (arptab s ! en) ! i) m s;
        if r = SYSERR then Some (Some SYSERR, s')
        else if thrcurrent s' \<noteq> thrcurrent s then Some (None, s')
        else arpNotify_loop n (i + 1) en m s'
      }
      else None)"

definition arpNotify :: "nat option \<Rightarrow> int \<Rightarrow> 'a nets_scheme \<Rightarrow> (int option \<times> 'a nets_scheme) option" where
  "arpNotify en m s = (case en of None \<Rightarrow> Some (Some SYSERR, s) | Some en \<Rightarrow>
     arpNotify_loop (nat (acount (arptab s ! en))) 0 en m s)"

definition arpFree :: "nat option \<Rightarrow> 'a nets_scheme \<Rightarrow> (int option \<times> 'a nets_scheme) option" where
  "arpFree en s =
     (case en of
        None \<Rightarrow> Some (Some SYSERR, s)
      | Some e \<Rightarrow> do {
          (r, s) \<leftarrow> (if arpstate (arptab s ! e) = ARP_UNRESOLVED then arpNotify (Some e) TIMEOUT s
                    else Some (Some OK, s));
          if r = None then Some (None, s)
          else Some (Some OK, set_arp e (\<lambda>_. zero_entry\<lparr>arpstate := ARP_FREE\<rparr>) s)
        })"

fun arpGetEntry_loop :: "nat \<Rightarrow> nat \<Rightarrow> netaddr \<Rightarrow> 'a nets_scheme \<Rightarrow> (nat option option \<times> 'a nets_scheme) option" where
  "arpGetEntry_loop 0 i pr s = Some (Some None, s)"
| "arpGetEntry_loop (Suc n) i pr s =
     (if ARP_USED AND arpstate (arptab s ! i) = 0 then arpGetEntry_loop n (i + 1) pr s
      else if expires (arptab s ! i) < clktime s
      then do {
        (r, s) \<leftarrow> arpFree (Some i) s;
        if r = None then Some (None, s) else arpGetEntry_loop n (i + 1) pr s
      }
      else do {
        eq \<leftarrow> netaddrequal (praddr (arptab s ! i)) pr;
        if eq then Some (Some (Some i), s) else arpGetEntry_loop n (i + 1) pr s
      })"

definition arpGetEntry :: "netaddr \<Rightarrow> 'a nets_scheme \<Rightarrow> (nat option option \<times> 'a nets_scheme) option" where
  "arpGetEntry pr s = arpGetEntry_loop ARP_NENTRY 0 pr s"

text \<open>One attempt of \<^verbatim>\<open>arpLookup\<close>: it ends the call, or it has put the caller on the entry's waiting
  list, and the caller then sends a request for the entry and waits for at most the given number of
  clock ticks.\<close>

datatype arp_attempt = Done int "netaddr option" | Request nat int | Switched

definition arpLookup_attempt :: "nat option \<Rightarrow> netaddr \<Rightarrow> 'a nets_scheme \<Rightarrow> (arp_attempt \<times> 'a nets_scheme) option" where
  "arpLookup_attempt netptr pr s = do {
     (g, s) \<leftarrow> arpGetEntry pr s;
     case g of
       None \<Rightarrow> Some (Switched, s)
     | Some found \<Rightarrow>
        (let (en, s) = (case found of
            Some e \<Rightarrow> (Some e, s)
          | None \<Rightarrow> (case arpAlloc s of
              (None, s) \<Rightarrow> (None, s)
            | (Some e, s) \<Rightarrow> (Some e, set_arp e (\<lambda>x. x\<lparr>arpstate := ARP_UNRESOLVED, arpnif := netptr, praddr := pr,
                  expires := clktime s + ARP_TTL_UNRESOLVED, acount := 0\<rparr>) s)))
         in case en of
              None \<Rightarrow> Some (Done SYSERR None, s)
            | Some e \<Rightarrow>
               if arpstate (arptab s ! e) = ARP_RESOLVED then Some (Done OK (Some (hwaddr (arptab s ! e))), s)
               else if acount (arptab s ! e) \<ge> int ARP_NTHRWAIT then Some (Done SYSERR None, s)
               else if acount (arptab s ! e) < 0 then None
               else (let s = set_arp e (\<lambda>x. x\<lparr>waiting := (waiting x)[nat (acount x) := gettid s], acount := acount x + 1\<rparr>) s
                     in Some (Request e (to_int ((expires (arptab s ! e) - clktime s) * CLKTICKS_PER_SEC)), s)))
   }"

definition netFreebuf :: "u32 \<Rightarrow> 'a nets_scheme \<Rightarrow> (int \<times> 'a nets_scheme) option" where
  "netFreebuf pkt s = buffree pkt s"

definition free_with :: "int \<Rightarrow> u32 \<Rightarrow> 'a nets_scheme \<Rightarrow> (int option \<times> 'a nets_scheme) option" where
  "free_with r pkt s = do { (_, s) \<leftarrow> netFreebuf pkt s; Some (Some r, s) }"

definition arp_addr :: "u16 \<Rightarrow> u8 \<Rightarrow> bytes \<Rightarrow> nat \<Rightarrow> netaddr option" where
  "arp_addr ty len a off = do {
     x \<leftarrow> memcpy (replicate NET_MAX_ALEN 0) (drop off a) (unat len);
     Some \<lparr>natype = ucast (net2hs (ucast ty)), nalen = len, naddr = x\<rparr>
   }"

text \<open>The part of \<^verbatim>\<open>arpRecv\<close> that follows the cache update: the packet is for this host.\<close>

definition arpRecv_mine :: "u32 \<Rightarrow> nat \<Rightarrow> u16 \<Rightarrow> netaddr \<Rightarrow> netaddr \<Rightarrow> nat option \<Rightarrow> 'a nets_scheme \<Rightarrow>
    (int option \<times> 'a nets_scheme) option" where
  "arpRecv_mine pkt nif op sha spa found s =
     (let (en, s) = (case found of
         Some e \<Rightarrow> (Some e, s)
       | None \<Rightarrow> (case arpAlloc s of
           (None, s) \<Rightarrow> (None, s)
         | (Some e, s) \<Rightarrow> (Some e, set_arp e (\<lambda>x. x\<lparr>arpstate := ARP_RESOLVED, arpnif := Some nif, hwaddr := sha, praddr := spa,
               expires := clktime s + ARP_TTL_RESOLVED\<rparr>) s)))
      in if en = None then free_with SYSERR pkt s
         else if net2hs (ucast op) = 1
         then do {
           n \<leftarrow> mailboxCount (arpqueue s) s;
           if n \<ge> ARP_NQUEUE then free_with SYSERR pkt s
           else do {
             (r, s) \<leftarrow> mailboxSend (arpqueue s) (to_int pkt) s;
             Some (if r = None then None else Some OK, s)
           }
         }
         else free_with OK pkt s)"

definition arpRecv_update :: "netaddr \<Rightarrow> nat \<Rightarrow> 'a nets_scheme \<Rightarrow> (int option \<times> 'a nets_scheme) option" where
  \<comment> \<open>an existing entry for the sender\<close>
  "arpRecv_update sha e s =
     (let s = set_arp e (\<lambda>x. x\<lparr>hwaddr := sha, expires := clktime s + ARP_TTL_RESOLVED\<rparr>) s
      in if arpstate (arptab s ! e) = ARP_UNRESOLVED
         then arpNotify (Some e) ARP_MSG_RESOLVED (set_arp e (\<lambda>x. x\<lparr>arpstate := ARP_RESOLVED\<rparr>) s)
         else Some (Some OK, s))"

definition arpRecv :: "u32 option \<Rightarrow> nat option \<Rightarrow> arpPkt \<Rightarrow> 'a nets_scheme \<Rightarrow> (int option \<times> 'a nets_scheme) option" where
  "arpRecv pkt netptr arp s =
     (case pkt of
        None \<Rightarrow> Some (Some SYSERR, s)
      | Some pkt \<Rightarrow>
         (case netptr of
            None \<Rightarrow> free_with SYSERR pkt s
          | Some nif \<Rightarrow>
             if net2hs (ucast (hwtype arp)) \<noteq> 1 \<or> hwalen arp \<noteq> ETH_ADDR_LEN then free_with SYSERR pkt s
             else if net2hs (ucast (prtype arp)) \<noteq> 0x800 \<or> pralen arp \<noteq> IPv4_ADDR_LEN then free_with SYSERR pkt s
             else do {
               sha \<leftarrow> arp_addr (hwtype arp) (hwalen arp) (addrs arp) 0;
               spa \<leftarrow> arp_addr (prtype arp) (pralen arp) (addrs arp) (unat (hwalen arp));
               (g, s) \<leftarrow> arpGetEntry spa s;
               case g of
                 None \<Rightarrow> Some (None, s)
               | Some found \<Rightarrow> do {
                   (r, s) \<leftarrow> (case found of None \<Rightarrow> Some (Some OK, s) | Some e \<Rightarrow> arpRecv_update sha e s);
                   if r = None then Some (None, s)
                   else do {
                     dpa \<leftarrow> arp_addr (prtype arp) (pralen arp) (addrs arp) (unat (hwalen arp) * 2 + unat (pralen arp));
                     mine \<leftarrow> (if nif < length (netiftab s) then netaddrequal (nifip (netiftab s ! nif)) dpa else None);
                     if mine then arpRecv_mine pkt nif (arpop arp) sha spa found s
                     else free_with OK pkt s
                   }
                 }
             }))"

definition rtRecv :: "u32 option \<Rightarrow> 'a nets_scheme \<Rightarrow> (int option \<times> 'a nets_scheme) option" where
  "rtRecv pkt s =
     (case pkt of
        None \<Rightarrow> Some (Some SYSERR, s)
      | Some pkt \<Rightarrow> do {
          n \<leftarrow> mailboxCount (rtqueue s) s;
          if n \<ge> RT_NQUEUE then free_with OK pkt s
          else do {
            (r, s) \<leftarrow> mailboxSend (rtqueue s) (to_int pkt) s;
            case r of
              None \<Rightarrow> Some (None, s)
            | Some r \<Rightarrow> if r = SYSERR then free_with SYSERR pkt s else Some (Some OK, s)
          }
        })"

text \<open>The entry point of a daemon thread, and the platform's \<^verbatim>\<open>setupStack\<close> and return address, are
  arguments.\<close>

definition arpInit :: "(u32 \<Rightarrow> u32 \<Rightarrow> u32 \<Rightarrow> u32 \<Rightarrow> u32 list \<Rightarrow> heap \<Rightarrow> (u32 \<times> heap) option) \<Rightarrow> u32 \<Rightarrow> u32 \<Rightarrow>
    'a nets_scheme \<Rightarrow> (int option \<times> 'a nets_scheme) option" where
  "arpInit setup initret daemon s = do {
     let s = s\<lparr>arptab := replicate ARP_NENTRY (zero_entry\<lparr>arpstate := ARP_FREE\<rparr>)\<rparr>;
     (q, s) \<leftarrow> mailboxAlloc (to_u32 ARP_NQUEUE) s;
     case q of
       None \<Rightarrow> Some (None, s)
     | Some q \<Rightarrow>
         let s = s\<lparr>arpqueue := to_u32 q\<rparr>
         in if to_u32 q = SYSERR_u then Some (Some SYSERR, s)
            else do {
              (tid, s) \<leftarrow> create setup initret daemon 4096 30 ''arpDaemon'' 0 [] s;
              (_, s) \<leftarrow> ready tid s;
              Some (Some OK, s)
            }
   }"

definition zero_route :: rtEntry where
  "zero_route = \<lparr>rtstate = RT_FREE, rtmasklen = 0, rtdst = zero_addr, rtgateway = zero_addr, rtmask = zero_addr, rtnif = None\<rparr>"

definition rtInit :: "(u32 \<Rightarrow> u32 \<Rightarrow> u32 \<Rightarrow> u32 \<Rightarrow> u32 list \<Rightarrow> heap \<Rightarrow> (u32 \<times> heap) option) \<Rightarrow> u32 \<Rightarrow> u32 \<Rightarrow>
    'a nets_scheme \<Rightarrow> (int option \<times> 'a nets_scheme) option" where
  "rtInit setup initret daemon s = do {
     let s = s\<lparr>rttable := replicate RT_NENTRY zero_route\<rparr>;
     (q, s) \<leftarrow> mailboxAlloc (to_u32 RT_NQUEUE) s;
     case q of
       None \<Rightarrow> Some (None, s)
     | Some q \<Rightarrow>
         let s = s\<lparr>rtqueue := to_u32 q\<rparr>
         in if to_u32 q = SYSERR_u then Some (Some SYSERR, s)
            else do {
              (tid, s) \<leftarrow> create setup initret daemon 4096 30 ''rtDaemon'' 0 [] s;
              (_, s) \<leftarrow> ready tid s;
              Some (Some OK, s)
            }
   }"

section \<open>Allocation\<close>

lemma set_arp_simps [simp]:
  "arptab (set_arp i f s) = (arptab s)[i := f (arptab s ! i)]" "clktime (set_arp i f s) = clktime s"
  "netiftab (set_arp i f s) = netiftab s" "kheap (set_arp i f s) = kheap s" "thrcurrent (set_arp i f s) = thrcurrent s"
  by (simp_all add: set_arp_def)

text \<open>The candidate after the first \<open>i\<close> entries, none of them free.\<close>

definition oldest :: "arpEntry list \<Rightarrow> nat \<Rightarrow> nat option \<Rightarrow> bool" where
  "oldest tab i c \<longleftrightarrow>
     (case c of None \<Rightarrow> i = 0 | Some m \<Rightarrow> m < i \<and> (\<forall>j < i. expires (tab ! m) \<le> expires (tab ! j)))"

lemma oldest_Suc:
  "oldest tab i c \<Longrightarrow> oldest tab (Suc i) (case c of None \<Rightarrow> Some i
     | Some m \<Rightarrow> if expires (tab ! i) < expires (tab ! m) then Some i else Some m)"
  by (auto simp: oldest_def less_Suc_eq split: option.splits intro: order.trans less_imp_le)

lemma arpAlloc_loop_cases:
  assumes "i + n = length (arptab s)" "\<forall>j < i. arpstate (arptab s ! j) \<noteq> ARP_FREE" "oldest (arptab s) i c" "0 < length (arptab s)"
  shows "(\<exists>r < length (arptab s). arpstate (arptab s ! r) = ARP_FREE \<and>
        arpAlloc_loop n i c s = (Some r, set_arp r (\<lambda>e. e\<lparr>arpstate := ARP_USED\<rparr>) s)) \<or>
     (\<forall>j < length (arptab s). arpstate (arptab s ! j) \<noteq> ARP_FREE) \<and>
     (\<exists>r < length (arptab s). (\<forall>j < length (arptab s). expires (arptab s ! r) \<le> expires (arptab s ! j)) \<and>
        arpAlloc_loop n i c s = (Some r, set_arp r (\<lambda>_. zero_entry\<lparr>arpstate := ARP_USED\<rparr>) s))"
  using assms
proof (induction n arbitrary: i c)
  case 0
  then obtain m where "c = Some m" "m < i" "\<forall>j < i. expires (arptab s ! m) \<le> expires (arptab s ! j)"
    by (auto simp: oldest_def split: option.splits)
  then show ?case using 0 by auto
next
  case (Suc n)
  show ?case
  proof (cases "arpstate (arptab s ! i) = ARP_FREE")
    case True
    then show ?thesis using Suc.prems(1) by (intro disjI1 exI [of _ i]) simp
  next
    case False
    then have "\<forall>j < Suc i. arpstate (arptab s ! j) \<noteq> ARP_FREE" using Suc.prems(2) less_Suc_eq by auto
    note IH = Suc.IH [OF _ this oldest_Suc [OF Suc.prems(3)] Suc.prems(4)]
    then show ?thesis using False Suc.prems(1) by simp
  qed
qed

lemma arpAlloc_ok:
  assumes "length (arptab s) = ARP_NENTRY"
  shows "(\<exists>r < ARP_NENTRY. arpstate (arptab s ! r) = ARP_FREE \<and>
        arpAlloc s = (Some r, set_arp r (\<lambda>e. e\<lparr>arpstate := ARP_USED\<rparr>) s)) \<or>
     (\<forall>j < ARP_NENTRY. arpstate (arptab s ! j) \<noteq> ARP_FREE) \<and>
     (\<exists>r < ARP_NENTRY. (\<forall>j < ARP_NENTRY. expires (arptab s ! r) \<le> expires (arptab s ! j)) \<and>
        arpAlloc s = (Some r, set_arp r (\<lambda>_. zero_entry\<lparr>arpstate := ARP_USED\<rparr>) s))"
  using arpAlloc_loop_cases [of 0 ARP_NENTRY s None] assms by (simp add: arpAlloc_def oldest_def)

section \<open>The cache as a map\<close>

definition arp_used :: "arpEntry \<Rightarrow> bool" where
  "arp_used e \<longleftrightarrow> ARP_USED AND arpstate e \<noteq> 0"

definition arp_wf :: "'a nets_scheme \<Rightarrow> bool" where
  "arp_wf s \<longleftrightarrow> length (arptab s) = ARP_NENTRY \<and>
     (\<forall>e \<in> set (arptab s). arp_used e \<longrightarrow> wf_addr (praddr e) \<and> clktime s \<le> expires e)"

definition arp_hit :: "netaddr \<Rightarrow> arpEntry \<Rightarrow> bool" where
  "arp_hit pr e \<longleftrightarrow> arp_used e \<and> same_kind (praddr e) pr \<and> octets (praddr e) = octets pr"

definition first_hit :: "'a nets_scheme \<Rightarrow> netaddr \<Rightarrow> nat option \<Rightarrow> bool" where
  "first_hit s pr r \<longleftrightarrow> (case r of None \<Rightarrow> \<forall>e \<in> set (arptab s). \<not> arp_hit pr e
     | Some i \<Rightarrow> i < ARP_NENTRY \<and> arp_hit pr (arptab s ! i) \<and> (\<forall>j < i. \<not> arp_hit pr (arptab s ! j)))"

lemma arpGetEntry_loop_ok:
  assumes "arp_wf s" "wf_addr pr" "i + n = ARP_NENTRY" "\<forall>j < i. \<not> arp_hit pr (arptab s ! j)"
  shows "\<exists>r. arpGetEntry_loop n i pr s = Some (Some r, s) \<and> first_hit s pr r"
  using assms(3,4)
proof (induction n arbitrary: i)
  case 0
  then show ?case using assms(1) by (auto simp: first_hit_def arp_wf_def in_set_conv_nth)
next
  case (Suc n)
  have mem: "arptab s ! i \<in> set (arptab s)" using Suc.prems(1) assms(1) by (simp add: arp_wf_def)
  have step: "\<not> arp_hit pr (arptab s ! i) \<Longrightarrow> \<exists>r. arpGetEntry_loop n (Suc i) pr s = Some (Some r, s) \<and> first_hit s pr r"
    using Suc.IH [of "Suc i"] Suc.prems by (auto simp: less_Suc_eq)
  show ?case
  proof (cases "arp_used (arptab s ! i)")
    case False
    then show ?thesis using step by (simp add: arp_used_def arp_hit_def)
  next
    case True
    then have e: "wf_addr (praddr (arptab s ! i))" "\<not> expires (arptab s ! i) < clktime s"
      using assms(1) mem by (auto simp: arp_wf_def not_less)
    then have "netaddrequal (praddr (arptab s ! i)) pr = Some (arp_hit pr (arptab s ! i))"
      using True assms(2) by (simp add: netaddrequal_ok arp_hit_def)
    then show ?thesis
      using True e step Suc.prems
      by (cases "arp_hit pr (arptab s ! i)") (auto simp: arp_used_def first_hit_def)
  qed
qed

lemma arpGetEntry_ok:
  "arp_wf s \<Longrightarrow> wf_addr pr \<Longrightarrow> \<exists>r. arpGetEntry pr s = Some (Some r, s) \<and> first_hit s pr r"
  unfolding arpGetEntry_def by (rule arpGetEntry_loop_ok) simp_all

lemma arpLookup_hit:
  assumes "arp_wf s" "wf_addr pr" "first_hit s pr (Some i)" "arpstate (arptab s ! i) = ARP_RESOLVED"
  shows "arpLookup_attempt nif pr s = Some (Done OK (Some (hwaddr (arptab s ! i))), s)"
proof -
  obtain r where r: "arpGetEntry pr s = Some (Some r, s)" "first_hit s pr r" using arpGetEntry_ok [OF assms(1,2)] by blast
  have "r = Some i"
  proof (cases r)
    case None
    then show ?thesis using r(2) assms(1,3) by (auto simp: first_hit_def arp_wf_def)
  next
    case (Some j)
    then show ?thesis using r(2) assms(3) by (cases i j rule: linorder_cases) (auto simp: first_hit_def)
  qed
  then show ?thesis using r assms(4) by (simp add: arpLookup_attempt_def)
qed

section \<open>Learning from a reply\<close>

lemma arp_addr_ok:
  "off + unat len \<le> length a \<Longrightarrow> unat len \<le> NET_MAX_ALEN \<Longrightarrow>
   \<exists>x. arp_addr ty len a off = Some x \<and> wf_addr x \<and> nalen x = len \<and> octets x = take (unat len) (drop off a)"
  by (simp add: arp_addr_def memcpy_ok wf_addr_def octets_def)

lemma arpLookup_set:
  assumes wf: "arp_wf s" "wf_addr pr" and i: "i < ARP_NENTRY"
    and e: "arpstate e = ARP_RESOLVED" "arp_hit pr e" "wf_addr (praddr e)" "clktime s \<le> expires e"
    and others: "\<forall>j < i. \<not> arp_hit pr (arptab s ! j)"
  shows "arpLookup_attempt nif pr (set_arp i (\<lambda>_. e) s) = Some (Done OK (Some (hwaddr e)), set_arp i (\<lambda>_. e) s)"
proof -
  let ?s = "set_arp i (\<lambda>_. e) s"
  have "arp_wf ?s" using wf(1) e by (auto simp: arp_wf_def dest!: set_update_subset_insert [THEN subsetD])
  moreover have "first_hit ?s pr (Some i)" using wf(1) i e others by (simp add: first_hit_def arp_wf_def)
  ultimately show ?thesis using arpLookup_hit [of ?s pr i nif] wf i e(1) by (simp add: arp_wf_def)
qed

lemma set_arp_cong: "f (arptab s ! i) = g (arptab s ! i) \<Longrightarrow> set_arp i f s = set_arp i g s"
  by (simp add: set_arp_def)

lemma set_arp_set_arp: "i < length (arptab s) \<Longrightarrow> set_arp i g (set_arp i f s) = set_arp i (\<lambda>e. g (f e)) s"
  by (simp add: set_arp_def)

lemma arpRecv_update_ok:
  assumes "i < length (arptab s)" "arpstate (arptab s ! i) = ARP_UNRESOLVED \<longrightarrow> acount (arptab s ! i) = 0"
    "arpstate (arptab s ! i) \<in> {ARP_UNRESOLVED, ARP_RESOLVED}"
  shows "\<exists>e. arpRecv_update sha i s = Some (Some OK, set_arp i (\<lambda>_. e) s) \<and> arpstate e = ARP_RESOLVED \<and>
    hwaddr e = sha \<and> praddr e = praddr (arptab s ! i) \<and> expires e = clktime s + ARP_TTL_RESOLVED"
proof (cases "arpstate (arptab s ! i) = ARP_UNRESOLVED")
  case True
  let ?e = "(arptab s ! i)\<lparr>hwaddr := sha, expires := clktime s + ARP_TTL_RESOLVED, arpstate := ARP_RESOLVED,
    acount := 0, waiting := replicate ARP_NTHRWAIT 0\<rparr>"
  have "arpRecv_update sha i s = Some (Some OK, set_arp i (\<lambda>_. ?e) s)"
    using True assms(1,2) by (simp add: arpRecv_update_def Let_def arpNotify_def set_arp_set_arp)
      (rule set_arp_cong, simp)
  then show ?thesis by (intro exI [of _ ?e]) simp
next
  case False
  let ?e = "(arptab s ! i)\<lparr>hwaddr := sha, expires := clktime s + ARP_TTL_RESOLVED\<rparr>"
  have "arpRecv_update sha i s = Some (Some OK, set_arp i (\<lambda>_. ?e) s)"
    using False assms(1) by (simp add: arpRecv_update_def Let_def) (rule set_arp_cong, simp)
  then show ?thesis using False assms(3) by (intro exI [of _ ?e]) simp
qed

definition arp_states :: "'a nets_scheme \<Rightarrow> bool" where
  \<comment> \<open>no other state values, and no thread waits for an unresolved entry\<close>
  "arp_states s \<longleftrightarrow> (\<forall>e \<in> set (arptab s). arpstate e \<in> {ARP_FREE, ARP_UNRESOLVED, ARP_RESOLVED} \<and>
     (arpstate e = ARP_UNRESOLVED \<longrightarrow> acount e = 0))"

lemma arpRecv_learns:
  assumes wf: "arp_wf s" "arp_states s" "nif < length (netiftab s)" "unat (clktime s) + 300 < 4294967296"
    and hdr: "net2hs (ucast (hwtype arp)) = 1" "hwalen arp = ETH_ADDR_LEN" "net2hs (ucast (prtype arp)) = 0x800"
      "pralen arp = IPv4_ADDR_LEN" "net2hs (ucast (arpop arp)) \<noteq> 1" "20 \<le> length (addrs arp)"
    and sha: "arp_addr (hwtype arp) ETH_ADDR_LEN (addrs arp) 0 = Some sha"
    and spa: "arp_addr (prtype arp) IPv4_ADDR_LEN (addrs arp) 6 = Some spa"
    and dpa: "arp_addr (prtype arp) IPv4_ADDR_LEN (addrs arp) 16 = Some dpa"
    and mine: "netaddrequal (nifip (netiftab s ! nif)) dpa = Some True"
  shows "\<exists>s'. arpRecv (Some pkt) (Some nif) arp s = free_with OK pkt s' \<and>
    (\<forall>n. arpLookup_attempt n spa s' = Some (Done OK (Some sha), s'))"
proof -
  have spa_wf: "wf_addr spa" using arp_addr_ok [of 6 4 "addrs arp" "prtype arp"] hdr spa by simp
  have clk: "clktime s \<le> clktime s + ARP_TTL_RESOLVED"
    using wf(4) unat_add_no_wrap [of "clktime s" 300] by (simp add: word_le_nat_alt)
  have len: "length (arptab s) = ARP_NENTRY" using wf(1) by (simp add: arp_wf_def)
  obtain g where g: "arpGetEntry spa s = Some (Some g, s)" "first_hit s spa g" using arpGetEntry_ok [OF wf(1) spa_wf] by blast
  have run: "arpRecv (Some pkt) (Some nif) arp s = do {
       (r, s) \<leftarrow> (case g of None \<Rightarrow> Some (Some OK, s) | Some e \<Rightarrow> arpRecv_update sha e s);
       if r = None then Some (None, s)
       else do {
         m \<leftarrow> (if nif < length (netiftab s) then netaddrequal (nifip (netiftab s ! nif)) dpa else None);
         if m then arpRecv_mine pkt nif (arpop arp) sha spa g s else free_with OK pkt s } }"
    using hdr sha spa dpa g(1) by (simp add: arpRecv_def cong: if_cong)
  show ?thesis
  proof (cases g)
    case (Some i)
    then have i: "i < ARP_NENTRY" "arp_hit spa (arptab s ! i)" "\<forall>j < i. \<not> arp_hit spa (arptab s ! j)"
      using g(2) by (auto simp: first_hit_def)
    have mem: "arptab s ! i \<in> set (arptab s)" using i(1) len by simp
    have used: "arp_used (arptab s ! i)" using i(2) by (simp add: arp_hit_def)
    then have st: "arpstate (arptab s ! i) \<in> {ARP_UNRESOLVED, ARP_RESOLVED}"
      using wf(2) mem by (auto simp: arp_states_def arp_used_def)
    obtain e where e: "arpRecv_update sha i s = Some (Some OK, set_arp i (\<lambda>_. e) s)" "arpstate e = ARP_RESOLVED"
      "hwaddr e = sha" "praddr e = praddr (arptab s ! i)" "expires e = clktime s + ARP_TTL_RESOLVED"
      using arpRecv_update_ok [of i s sha] st wf(2) mem i(1) len by (auto simp: arp_states_def)
    have "arp_hit spa e" "wf_addr (praddr e)"
      using i(2) e used wf(1) mem by (auto simp: arp_hit_def arp_used_def arp_wf_def)
    then have "arpLookup_attempt n spa (set_arp i (\<lambda>_. e) s) = Some (Done OK (Some sha), set_arp i (\<lambda>_. e) s)" for n
      using arpLookup_set [OF wf(1) spa_wf i(1) e(2) _ _ _ i(3), of n] e clk by simp
    moreover have "arpRecv (Some pkt) (Some nif) arp s = free_with OK pkt (set_arp i (\<lambda>_. e) s)"
      unfolding run using Some e(1) mine wf(3) hdr(5) by (simp add: arpRecv_mine_def)
    ultimately show ?thesis by blast
  next
    case None
    then have none: "\<forall>j < ARP_NENTRY. \<not> arp_hit spa (arptab s ! j)" using g(2) len by (simp add: first_hit_def)
    obtain r f where r: "r < ARP_NENTRY" "arpAlloc s = (Some r, set_arp r f s)"
      using arpAlloc_ok [OF len] by blast
    let ?e = "(f (arptab s ! r))\<lparr>arpstate := ARP_RESOLVED, arpnif := Some nif, hwaddr := sha, praddr := spa,
               expires := clktime s + ARP_TTL_RESOLVED\<rparr>"
    have "arp_hit spa ?e" by (simp add: arp_hit_def arp_used_def same_kind_def)
    then have "arpLookup_attempt n spa (set_arp r (\<lambda>_. ?e) s) = Some (Done OK (Some sha), set_arp r (\<lambda>_. ?e) s)" for n
      using arpLookup_set [OF wf(1) spa_wf r(1), of ?e n] none r(1) clk spa_wf by simp
    moreover have "set_arp r (\<lambda>x. x\<lparr>arpstate := ARP_RESOLVED, arpnif := Some nif, hwaddr := sha, praddr := spa,
               expires := clktime s + ARP_TTL_RESOLVED\<rparr>) (set_arp r f s) = set_arp r (\<lambda>_. ?e) s"
      using r(1) len by (simp add: set_arp_set_arp) (rule set_arp_cong, simp)
    then have "arpRecv (Some pkt) (Some nif) arp s = free_with OK pkt (set_arp r (\<lambda>_. ?e) s)"
      unfolding run using None mine wf(3) hdr(5) r(2) by (simp add: arpRecv_mine_def)
    ultimately show ?thesis by blast
  qed
qed
end
