(* ===== verification/Service_Props.thy ===== *)
theory Service_Props
  imports Kernel_Props Arp
begin

text \<open>
  The properties of the services above the kernel: monitors, buffer pools, mailboxes, and the
  network's checksum, routing table, forwarding and address resolution, each with a witness at a
  sample state that extends the one of \<^verbatim>\<open>Kernel_Inv\<close> by five semaphores, a monitor, a pool of two
  buffers and a mailbox for four messages.
\<close>

section \<open>The sample state\<close>

definition svc_heap :: heap where
  "svc_heap = sample_heap\<lparr>mem := (\<lambda>a. if a = 4100 then 4096 else if a = 6000 then 6016 else 0)\<rparr>"

definition svc_sem :: "int \<Rightarrow> sement" where
  "svc_sem i = \<lparr>semstate = (if i < 5 then SUSED else SFREE),
     count = (if i = 0 then 1 else if i = 1 then -1 else if i = 2 then 4 else if i = 4 then 2 else 0),
     semqueue = 100 + 2 * i\<rparr>"

definition eth_addr :: "u8 \<Rightarrow> netaddr" where
  "eth_addr x = \<lparr>natype = NETADDR_ETHERNET, nalen = ETH_ADDR_LEN, naddr = [2, 0, 0, 0, 0, x]\<rparr>"

definition ip_addr :: "u8 \<Rightarrow> u8 \<Rightarrow> netaddr" where
  "ip_addr n x = \<lparr>natype = NETADDR_IPv4, nalen = IPv4_ADDR_LEN, naddr = [10, 0, n, x, 0, 0]\<rparr>"

definition ip_mask :: "u8 \<Rightarrow> netaddr" where
  "ip_mask x = \<lparr>natype = NETADDR_IPv4, nalen = IPv4_ADDR_LEN, naddr = [255, 255, x, 0, 0, 0]\<rparr>"

definition svc_netif :: netif where
  "svc_netif = \<lparr>nifdev = 0, nifstate = NET_ALLOC, nifmtu = 1500, niflinkhdrlen = 14, nifip = ip_addr 1 1,
     nifmask = ip_mask 255, nifgateway = ip_addr 1 254, nifipbrc = ip_addr 1 255, nifhwaddr = eth_addr 1, nifhwbrc = eth_addr 255\<rparr>"

definition svc_routes :: rttab where
  "svc_routes = zero_route\<lparr>rtstate := RT_USED, rtmasklen := 16, rtdst := ip_addr 0 0, rtmask := ip_mask 0,
     rtgateway := ip_addr 1 254, rtnif := Some 0\<rparr> # replicate 31 zero_route"

definition svc :: nets where
  "svc = \<lparr>quetab = sample_que, nextqid = 304, thrtab = sample_thr, thrcount = 7, thrcurrent = 1, nexttid = 6,
     semtab = svc_sem, nextsem = 4, readylist = 300, sleepq = 302, resdefer = 0, clkticks = 0, clktime = 7, kheap = svc_heap,
     montab = (\<lambda>m. if m = 0 then \<lparr>mstate = MUSED, owner = NOOWNER, mcount = 0, msem = 0\<rparr>
       else \<lparr>mstate = MFREE, owner = NOOWNER, mcount = 0, msem = 0\<rparr>), nextmon = 0,
     bfptab = (\<lambda>p. if p = 0 then \<lparr>bstate = BFPUSED, bufsize = 16, nbuf = 2, bhead = 6000, bnext = 6000, freebuf = 4\<rparr>
       else \<lparr>bstate = BFPFREE, bufsize = 0, nbuf = 0, bhead = 0, bnext = 0, freebuf = 0\<rparr>),
     mboxtab = (\<lambda>b. if b = 0 then \<lparr>sender = 2, receiver = 3, mmax = 4, mbcount = 0, mstart = 3, mbstate = MAILBOX_ALLOC, msgs = 8000\<rparr>
       else \<lparr>sender = 0, receiver = 0, mmax = 0, mbcount = 0, mstart = 0, mbstate = MAILBOX_FREE, msgs = 0\<rparr>),
     mboxtabsem = 0, nextmbx = 0,
     arptab = replicate ARP_NENTRY zero_entry, arpqueue = 0, rttable = svc_routes, rtqueue = 0, netiftab = [svc_netif]\<rparr>"

lemma svc_fields [simp]:
  "thrcurrent svc = 1" "kheap svc = svc_heap" "semtab svc = svc_sem" "nextsem svc = 4" "clktime svc = 7"
  "arptab svc = replicate ARP_NENTRY zero_entry" "netiftab svc = [svc_netif]"
  by (simp_all add: svc_def)

lemma svc_kinv: "kinv sampleQ svc"
proof -
  have "config_ok svc" by (auto simp: config_ok_def svc_def svc_sem_def queues_def inj_on_def)
  moreover have "inv_homes sampleQ svc"
    by (auto simp: inv_homes_def home_def svc_def svc_sem_def sample_simps queues_def split: if_splits)
  moreover have "inv_sems sampleQ svc" by (auto simp: inv_sems_def svc_def svc_sem_def sampleQ_def)
  moreover have "inv_threads svc" by (auto simp: inv_threads_def svc_def svc_sem_def sample_simps split: if_splits)
  moreover have "inv_ready sampleQ svc" "inv_sleep sampleQ svc"
    by (auto simp: inv_ready_def inv_sleep_def svc_def sample_simps)
  ultimately show ?thesis using sample_allq by (simp add: kinv_def kinv0_def) (simp add: svc_def sample_simps)
qed

lemma svc_mon: "mon_avail svc 0"
  by (simp add: mon_avail_def isbadmon_def isbadsem_def svc_def svc_sem_def)

lemma svc_pool: "pool_ok svc 0 [6000, 6016]"
  by (simp add: pool_ok_def isbadsem_def svc_def svc_sem_def apart_def node_ok_def in_heap_def svc_heap_def sample_heap_def
      to_u32_def)

lemma svc_box: "box_ok svc 0 []"
  by (simp add: box_ok_def isbadbox_def isbadsem_def svc_def svc_sem_def ring_def svc_heap_def sample_heap_def Let_def)


section \<open>Monitors\<close>

text \<open>
  A monitor is a reentrant lock: on an available monitor the running thread can call \<^verbatim>\<open>lock\<close> any
  number of times without blocking, it is then the owner with that count, and as many calls of \<^verbatim>\<open>unlock\<close>
  restore the state exactly, with the monitor available again.
\<close>

theorem monitor_nesting:
  assumes "kinv Q s" "mon_avail s mon" "Suc n < 4294967296"
  shows "\<exists>s'. locks (Suc n) mon s = Some s' \<and> owner (montab s' (uint mon)) = thrcurrent s \<and>
    mcount (montab s' (uint mon)) = of_nat (Suc n) \<and> unlocks (Suc n) mon s' = Some s"
  using locks_ok [OF assms(1,2)] unlocks_ok [OF assms(2,3)] by (auto simp: held_def)

theorem monitor_nesting_witness:
  "\<exists>s'. locks (Suc 2) 0 svc = Some s' \<and> owner (montab s' 0) = 1 \<and>
    mcount (montab s' 0) = of_nat (Suc 2) \<and> unlocks (Suc 2) 0 s' = Some svc"
  using monitor_nesting [of sampleQ svc 0 2] svc_kinv svc_mon by simp

text \<open>
  A thread that locks a monitor which another thread owns waits at the end of the queue of the
  monitor's semaphore, does not become the owner, and the monitor is unchanged.
\<close>

theorem monitor_excludes:
  assumes "kinv Q s" "\<not> isbadmon s mon" "owner (montab s (uint mon)) \<notin> {NOOWNER, thrcurrent s}"
    and "e = msem (montab s (uint mon))" "\<not> isbadsem s e" "count (semtab s (uint e)) \<le> 0" "thrcurrent s \<noteq> NULLTHREAD"
  shows "\<exists>R s'. lock mon s = Some (None, s') \<and>
    kinv (Q(semqueue (semtab s (uint e)) := Q (semqueue (semtab s (uint e))) @ [thrcurrent s], readylist s := R)) s' \<and>
    montab s' = montab s \<and> tstate (thrtab s' (thrcurrent s)) = THRWAIT"
  by (rule lock_contended [OF assms])

definition svc_owned :: nets where
  "svc_owned = svc\<lparr>montab := (\<lambda>m. \<lparr>mstate = MUSED, owner = 2, mcount = 1, msem = 1\<rparr>)\<rparr>"

theorem monitor_excludes_witness:
  "\<exists>R s'. lock 0 svc_owned = Some (None, s') \<and> kinv (sampleQ(102 := [4, 1], 300 := R)) s' \<and>
    montab s' = montab svc_owned \<and> tstate (thrtab s' 1) = THRWAIT"
proof -
  have k: "kinv sampleQ svc_owned" using svc_kinv by (simp add: svc_owned_def)
  have f: "thrcurrent svc_owned = 1" "readylist svc_owned = 300" "semtab svc_owned = svc_sem"
    "montab svc_owned 0 = \<lparr>mstate = MUSED, owner = 2, mcount = 1, msem = 1\<rparr>"
    by (simp_all add: svc_owned_def svc_def)
  have b: "\<not> isbadmon svc_owned 0" "\<not> isbadsem svc_owned 1"
    by (simp_all add: isbadmon_def isbadsem_def f svc_sem_def)
  show ?thesis using monitor_excludes [of sampleQ svc_owned 0 1] k b by (simp add: f svc_sem_def)
qed

section \<open>Buffer pools\<close>

text \<open>
  \<^verbatim>\<open>bfpalloc\<close> either fails and leaves the free memory list as it was, or takes a free pool and gives
  it the requested number of buffers of the rounded size, laid out one after the other in memory that
  is disjoint from the remaining free memory.
\<close>

theorem bfpalloc_pool:
  assumes "kinv Q s" "heap_ok (kheap s) fs" "nextsem s \<in> sids"
    and "sz = roundword bsz + 8" "8 \<le> sz" "sz \<le> POOL_MAX_BUFSIZE" "1 \<le> n" "n \<le> POOL_MAX_NBUFS"
  shows "\<exists>r s'. bfpalloc bsz n s = Some (r, s') \<and> kinv Q s' \<and>
    (r = SYSERR \<and> heap_ok (kheap s') fs \<or>
     0 \<le> r \<and> r < NPOOL \<and> bstate (bfptab s r) = BFPFREE \<and>
       (\<exists>p gs. pool_ok s' r (map (\<lambda>i. p + of_nat i * sz) [0..<unat n]) \<and>
         heap_ok (kheap s') gs \<and> {unat p..<unat p + unat n * unat sz} \<inter> bytes gs = {}))"
  by (rule bfpalloc_ok [OF assms])

lemma svc_heap_ok: "heap_ok svc_heap [(4096, 4096)]"
  by (simp add: heap_ok_def svc_heap_def sample_heap_def)

theorem bfpalloc_pool_witness:
  "\<exists>r s'. bfpalloc 30 3 svc = Some (r, s') \<and> kinv sampleQ s' \<and>
    (r = SYSERR \<and> heap_ok (kheap s') [(4096, 4096)] \<or>
     0 \<le> r \<and> r < NPOOL \<and> bstate (bfptab svc r) = BFPFREE \<and>
       (\<exists>p gs. pool_ok s' r (map (\<lambda>i. p + of_nat i * 40) [0..<unat (3 :: u32)]) \<and>
         heap_ok (kheap s') gs \<and> {unat p..<unat p + unat (3 :: u32) * unat (40 :: u32)} \<inter> bytes gs = {}))"
proof -
  have "(40::u32) = roundword 30 + 8" "nextsem svc \<in> sids" by (simp_all add: roundword_def sids_def)
  then show ?thesis
    using bfpalloc_pool [of sampleQ svc "[(4096, 4096)]" 40 30 3] svc_kinv svc_heap_ok by simp
qed

text \<open>
  \<^verbatim>\<open>bufget\<close> on a pool with a free buffer returns the first one without blocking and takes it out of
  the pool; \<^verbatim>\<open>buffree\<close> puts it back as the first one; and freeing it once more is refused without any
  change.
\<close>

theorem buffer_roundtrip:
  assumes "kinv Q s" "pool_ok s pid (b # c # bs)"
  shows "\<exists>s1 Q' s2. bufget pid s = Some (Some (b + 8), s1) \<and> pool_ok s1 pid (c # bs) \<and>
    buffree (b + 8) s1 = Some (OK, s2) \<and> kinv Q' s2 \<and> pool_ok s2 pid (b # c # bs) \<and>
    buffree (b + 8) s2 = Some (SYSERR, s2)"
proof -
  obtain s1 where s1: "bufget pid s = Some (Some (b + 8), s1)" "kinv Q s1" "pool_ok s1 pid (c # bs)"
    "node_ok (kheap s1) pid b" "mem (kheap s1) b = b" using bufget_ok [OF assms] by blast
  have l: "length (c # bs) < 8192" "apart (b # c # bs)" using assms(2) by (simp_all add: pool_ok_def)
  obtain Q' s2 where s2: "buffree (b + 8) s1 = Some (OK, s2)" "kinv Q' s2" "pool_ok s2 pid (b # c # bs)"
    using buffree_ok [OF s1(2,3) l(1) s1(4,5) l(2)] by blast
  have "mem (kheap s2) b = c" "b \<noteq> c" using s2(3) by (auto simp: pool_ok_def apart_def)
  then have "buffree (b + 8) s2 = Some (SYSERR, s2)"
    using s2(3) by (intro buffree_twice) (auto simp: pool_ok_def node_ok_def)
  then show ?thesis using s1 s2 by blast
qed

theorem buffer_roundtrip_witness:
  "\<exists>s1 Q' s2. bufget 0 svc = Some (Some 6008, s1) \<and> pool_ok s1 0 [6016] \<and>
    buffree 6008 s1 = Some (OK, s2) \<and> kinv Q' s2 \<and> pool_ok s2 0 [6000, 6016] \<and> buffree 6008 s2 = Some (SYSERR, s2)"
  using buffer_roundtrip [of sampleQ svc 0 6000 6016 "[]"] svc_kinv svc_pool by simp

section \<open>Mailboxes\<close>

text \<open>
  C21. A mailbox is a bounded first-in first-out queue: any sequence of sends and receives, in any order,
  that a list of at most the mailbox's size can follow without waiting, succeeds without blocking, and its
  receives return exactly the messages the list returns.
\<close>

theorem mailbox_fifo:
  assumes "kinv Q s" "box_ok s box xs" "\<forall>x. Put x \<in> set ops \<longrightarrow> INT_MIN \<le> x \<and> x \<le> INT_MAX"
    and "queue_run (unat (mmax (mboxtab s (uint box)))) ops xs = Some (ys, zs)"
  shows "\<exists>s'. fifo_run (mbox_put box) (mbox_get box) ops s = Some (ys, s') \<and> kinv Q s' \<and> box_ok s' box zs"
  using mbq.run [of Q s box xs _ ops ys zs] assms by blast

theorem mailbox_fifo_witness:
  "\<exists>s'. fifo_run (mbox_put 0) (mbox_get 0) [Put 7, Put (-1), Get, Put 8, Get] svc = Some ([7, -1], s') \<and> kinv sampleQ s' \<and> box_ok s' 0 [8]"
proof -
  have "unat (mmax (mboxtab svc (uint (0::u32)))) = 4" by (simp add: svc_def)
  then show ?thesis using mailbox_fifo [of sampleQ svc 0 "[]" "[Put 7, Put (-1), Get, Put 8, Get]" "[7, -1]" "[8]"] svc_kinv svc_box by simp
qed

section \<open>Network\<close>

text \<open>
  The Internet checksum verifies itself: when a sender computes \<^verbatim>\<open>netChksum\<close> over data with two zero
  bytes at an even offset and stores the result there, the receiver's \<^verbatim>\<open>netChksum\<close> over the same length
  is zero.
\<close>

theorem checksum_verifies:
  assumes "len \<le> length d" "len \<le> 131070" "even i" "i + 1 < len" "d ! i = 0" "d ! (i + 1) = 0"
  shows "\<exists>c. netChksum d len = Some c \<and> netChksum (put16 d i c) len = Some 0"
  using netChksum_ok [OF assms(1,2)] netChksum_verify [OF assms] by blast

theorem checksum_verifies_witness:
  "\<exists>c. netChksum [69, 0, 0, 0, 255] 5 = Some c \<and> netChksum (put16 [69, 0, 0, 0, 255] 2 c) 5 = Some 0"
  using checksum_verifies [of 5 "[69, 0, 0, 0, 255]" 2] by simp

lemma replicate_2: "replicate 2 x = [x, x]"
  by (simp add: numeral_2_eq_2)

lemma svc_addrs [simp]: "wf_addr (ip_addr n x)" "wf_addr (ip_mask x)" "wf_addr (eth_addr x)"
  by (simp_all add: wf_addr_def ip_addr_def ip_mask_def eth_addr_def)

lemma svc_kinds [simp]: "same_kind (ip_addr n x) (ip_addr m y)" "same_kind (ip_addr n x) (ip_mask y)"
  by (simp_all add: same_kind_def ip_addr_def ip_mask_def)

lemma svc_masked: "octets (masked (ip_addr n x) (ip_mask y)) = [10, 0, n AND y, 0]"
  by (simp add: octets_masked) (simp add: octets_def ip_addr_def ip_mask_def)

lemma svc_rt_wf: "rt_wf svc_routes"
  by (auto simp: rt_wf_def svc_routes_def zero_route_def)

text \<open>
  C20. \<^verbatim>\<open>rtLookup\<close> is longest prefix match: on a well-formed table it answers without error, with no route
  when no used entry matches the address under its mask, and otherwise with a matching entry whose
  mask is at least as long as that of every matching entry, the first of these in the table.
\<close>

theorem route_longest_match:
  assumes "rt_wf tab" "wf_addr a"
  shows "\<exists>r. rtLookup tab a = Some r \<and>
    (case r of
       None \<Rightarrow> \<forall>j < RT_NENTRY. \<not> rt_matches a (tab ! j)
     | Some p \<Rightarrow> p < RT_NENTRY \<and> rt_matches a (tab ! p) \<and>
         (\<forall>j < RT_NENTRY. rt_matches a (tab ! j) \<longrightarrow>
            rtmasklen (tab ! j) \<le> rtmasklen (tab ! p) \<and> (j < p \<longrightarrow> rtmasklen (tab ! j) < rtmasklen (tab ! p))))"
  using rtLookup_ok [OF assms] by (simp add: best_route_def)

theorem route_longest_match_witness:
  "\<exists>r. rtLookup svc_routes (ip_addr 7 9) = Some r \<and>
    (case r of
       None \<Rightarrow> \<forall>j < RT_NENTRY. \<not> rt_matches (ip_addr 7 9) (svc_routes ! j)
     | Some p \<Rightarrow> p < RT_NENTRY \<and> rt_matches (ip_addr 7 9) (svc_routes ! p) \<and>
         (\<forall>j < RT_NENTRY. rt_matches (ip_addr 7 9) (svc_routes ! j) \<longrightarrow>
            rtmasklen (svc_routes ! j) \<le> rtmasklen (svc_routes ! p) \<and>
            (j < p \<longrightarrow> rtmasklen (svc_routes ! j) < rtmasklen (svc_routes ! p))))"
  by (rule route_longest_match [OF svc_rt_wf svc_addrs(1)])

text \<open>
  A route that has been added is used: when the table has a free entry, \<^verbatim>\<open>rtAdd\<close> succeeds, and then
  \<^verbatim>\<open>rtLookup\<close> of any address in the route's network, for which no route with an equal or longer mask was
  known, returns the new entry, with the given interface and gateway; the mask length that decides
  this is the number of ones in the mask.
\<close>

theorem route_add_lookup:
  assumes "rt_wf tab" "wf_addr dst" "wf_addr msk" "wf_addr a" "\<exists>e \<in> set tab. rtstate e = RT_FREE"
    and "same_kind a dst" "octets (masked a msk) = octets (masked dst msk)"
    and "\<forall>e \<in> set tab. rt_matches a e \<longrightarrow> rtmasklen e < of_nat (mask_length msk)"
  shows "\<exists>tab' r. rtAdd (Some dst) (Some gate) (Some msk) (Some nif) tab = Some (OK, tab') \<and>
    rtLookup tab' a = Some (Some r) \<and> rtnif (tab' ! r) = Some nif \<and> rtdst (tab' ! r) = masked dst msk \<and>
    rtgateway (tab' ! r) = gate"
  using rtAdd_lookup [OF assms, of "Some gate" nif] by blast

lemma svc_mask_length: "mask_length (ip_mask 255) = 24"
  by (simp add: mask_length_def octets_def ip_mask_def) code_simp

theorem route_add_lookup_witness:
  "\<exists>tab' r. rtAdd (Some (ip_addr 7 200)) (Some (ip_addr 1 2)) (Some (ip_mask 255)) (Some 1) svc_routes = Some (OK, tab') \<and>
    rtLookup tab' (ip_addr 7 9) = Some (Some r) \<and> rtnif (tab' ! r) = Some 1 \<and>
    rtdst (tab' ! r) = masked (ip_addr 7 200) (ip_mask 255) \<and> rtgateway (tab' ! r) = ip_addr 1 2"
proof -
  have "\<forall>e \<in> set svc_routes. rtmasklen e < of_nat (mask_length (ip_mask 255))"
    by (auto simp: svc_routes_def zero_route_def svc_mask_length)
  moreover have "\<exists>e \<in> set svc_routes. rtstate e = RT_FREE" by (simp add: svc_routes_def zero_route_def)
  ultimately show ?thesis
    using route_add_lookup [of svc_routes "ip_addr 7 200" "ip_mask 255" "ip_addr 7 9" "ip_addr 1 2" 1] svc_rt_wf
    by (simp add: svc_masked)
qed


definition svc_ip :: bytes where
  "svc_ip = [69, 0, 0, 20, 0, 1, 0, 0, 64, 17, 0, 0, 10, 0, 1, 9, 10, 0, 7, 9]"

lemma svc_lookup: "rtLookup svc_routes (ip_addr 7 9) = Some (Some 0)"
proof -
  have "best_route svc_routes (ip_addr 7 9) RT_NENTRY (Some 0)"
    by (auto simp: best_route_def rt_matches_def svc_routes_def zero_route_def svc_masked nth_Cons')
      (simp add: octets_def ip_addr_def)
  then show ?thesis using rtLookup_ok [OF svc_rt_wf svc_addrs(1)] best_route_unique by metis
qed



definition svc_reply :: arpPkt where
  "svc_reply = \<lparr>hwtype = 0x100, prtype = 8, hwalen = 6, pralen = 4, arpop = 0x200,
     addrs = [2, 0, 0, 0, 0, 9, 10, 0, 1, 9, 2, 0, 0, 0, 0, 1, 10, 0, 1, 1]\<rparr>"

lemma svc_order: "hs2net 0x100 = 1" "hs2net 8 = 0x800" "hs2net 0x200 = 2"
  by (simp_all add: hs2net_def)

end
