(* ===== verification/Qsort.thy ===== *)
theory Qsort
  imports Prelude "HOL-Library.Multiset"
begin

text \<open>
  \<^verbatim>\<open>lib/libxc/qsort.c\<close>: the array of \<^verbatim>\<open>nmemb\<close> elements of \<^verbatim>\<open>size\<close> bytes at \<^verbatim>\<open>base\<close> is a stretch of a
  list of elements, \<open>base\<close> an index into the list; an access outside the list is \<open>None\<close>.
  \<^verbatim>\<open>swap_elements\<close> exchanges two elements byte by byte.
\<close>

section \<open>Operations\<close>

text \<open>The byte loop of \<^verbatim>\<open>swap_elements\<close>, on the two objects.\<close>

fun swap_bytes :: "nat \<Rightarrow> nat \<Rightarrow> u8 list \<Rightarrow> u8 list \<Rightarrow> u8 list \<times> u8 list" where
  "swap_bytes 0 i p1 p2 = (p1, p2)"
| "swap_bytes (Suc n) i p1 p2 = swap_bytes n (i + 1) (p1[i := p2 ! i]) (p2[i := p1 ! i])"

definition swap_elements :: "nat \<Rightarrow> nat \<Rightarrow> 'a list \<Rightarrow> 'a list option" where
  "swap_elements i j xs = (if i < length xs \<and> j < length xs then Some (xs[j := xs ! i, i := xs ! j]) else None)"

text \<open>The \<^verbatim>\<open>do\<close> loop of \<^verbatim>\<open>partition\<close>; it returns \<^verbatim>\<open>p1\<close>.\<close>

function part_loop :: "('a \<Rightarrow> 'a \<Rightarrow> int) \<Rightarrow> nat \<Rightarrow> nat \<Rightarrow> nat \<Rightarrow> 'a list \<Rightarrow> (nat \<times> 'a list) option" where
  "part_loop compar base p1 p2 xs =
     (if \<not> (p1 < length xs \<and> base < length xs) then None
      else if compar (xs ! p1) (xs ! base) \<le> 0
      then if p1 + 1 \<noteq> p2 then part_loop compar base (p1 + 1) p2 xs else Some (p1 + 1, xs)
      else if \<not> (0 < p2 \<and> p2 - 1 < length xs) then None
      else let ys = xs[p2 - 1 := xs ! p1, p1 := xs ! (p2 - 1)]
           in if p1 \<noteq> p2 - 1 then part_loop compar base p1 (p2 - 1) ys else Some (p1, ys))"
  by pat_completeness auto
termination by (relation "measure (\<lambda>(c, b, p1, p2, xs). (length xs - p1) + p2)") auto

declare part_loop.simps [simp del]

definition partition :: "('a \<Rightarrow> 'a \<Rightarrow> int) \<Rightarrow> nat \<Rightarrow> nat \<Rightarrow> 'a list \<Rightarrow> (nat \<times> 'a list) option" where
  "partition compar base nmemb xs = do {
     (p1, xs) \<leftarrow> part_loop compar base (base + 1) (base + nmemb) xs;
     let p1 = p1 - 1;
     xs \<leftarrow> swap_elements p1 base xs;
     Some (p1 - base, xs)
   }"

partial_function (option) qsort :: "('a \<Rightarrow> 'a \<Rightarrow> int) \<Rightarrow> nat \<Rightarrow> nat \<Rightarrow> 'a list \<Rightarrow> 'a list option" where
  "qsort compar base nmemb xs =
     (if nmemb > 1
      then do {
        (pivot_index, xs) \<leftarrow> partition compar base nmemb xs;
        xs \<leftarrow> qsort compar base pivot_index xs;
        qsort compar (base + (pivot_index + 1)) (nmemb - (pivot_index + 1)) xs
      }
      else Some xs)"

section \<open>Swapping bytes\<close>

lemma swap_bytes_ok:
  assumes "length p1 = i + n" "length p2 = i + n"
  shows "swap_bytes n i p1 p2 = (take i p1 @ drop i p2, take i p2 @ drop i p1)"
  using assms
proof (induction n arbitrary: i p1 p2)
  case (Suc n)
  have "take (Suc i) (p1[i := p2 ! i]) @ drop (Suc i) (p2[i := p1 ! i]) = take i p1 @ drop i p2"
    "take (Suc i) (p2[i := p1 ! i]) @ drop (Suc i) (p1[i := p2 ! i]) = take i p2 @ drop i p1"
    using Suc.prems by (simp_all add: take_Suc_conv_app_nth Cons_nth_drop_Suc [symmetric])
  then show ?case using Suc by simp
qed simp

section \<open>Permuting a stretch\<close>

definition perm_in :: "nat \<Rightarrow> nat \<Rightarrow> 'a list \<Rightarrow> 'a list \<Rightarrow> bool" where
  "perm_in b n xs ys \<longleftrightarrow> length ys = length xs \<and> take b ys = take b xs \<and> drop (b + n) ys = drop (b + n) xs \<and> mset ys = mset xs"

lemma perm_in_refl [simp]: "perm_in b n xs xs"
  by (simp add: perm_in_def)

lemma perm_in_trans: "perm_in b n xs ys \<Longrightarrow> perm_in b n ys zs \<Longrightarrow> perm_in b n xs zs"
  by (simp add: perm_in_def)

lemma perm_in_widen:
  assumes "perm_in c m xs ys" "b \<le> c" "c + m \<le> b + n"
  shows "perm_in b n xs ys"
proof -
  have "take b ys = take b xs" using assms(1,2) unfolding perm_in_def by (metis min.absorb1 take_take)
  moreover have "drop (b + n) ys = drop (b + n) xs"
    using assms(1,3) unfolding perm_in_def by (metis drop_drop le_add_diff_inverse2)
  ultimately show ?thesis using assms(1) by (simp add: perm_in_def)
qed

lemma perm_in_outside:
  assumes "perm_in b n xs ys" "i < b \<or> b + n \<le> i" "i < length xs"
  shows "ys ! i = xs ! i"
  using assms(2)
proof
  assume "i < b"
  then show ?thesis using assms(1) unfolding perm_in_def by (metis nth_take)
next
  assume i: "b + n \<le> i"
  have "drop (b + n) ys ! (i - (b + n)) = drop (b + n) xs ! (i - (b + n))" using assms(1) by (simp add: perm_in_def)
  then show ?thesis using i assms(1,3) nth_drop [of "b + n" xs "i - (b + n)"] nth_drop [of "b + n" ys "i - (b + n)"]
    unfolding perm_in_def by simp
qed

lemma perm_in_set:
  assumes "perm_in b n xs ys" "b + n \<le> length xs"
  shows "set (take n (drop b ys)) = set (take n (drop b xs))"
proof -
  have "mset zs = mset (take b zs) + mset (take n (drop b zs)) + mset (drop (b + n) zs)" for zs :: "'a list"
    by (metis append_take_drop_id drop_drop mset_append union_assoc add.commute)
  then have "mset (take n (drop b ys)) = mset (take n (drop b xs))"
    using assms(1) unfolding perm_in_def by (metis add_left_cancel add_right_cancel)
  then show ?thesis by (metis set_mset_mset)
qed

lemma perm_in_all:
  assumes "perm_in b n xs ys" "b + n \<le> length xs" "\<forall>i. b \<le> i \<and> i < b + n \<longrightarrow> P (xs ! i)" "b \<le> i" "i < b + n"
  shows "P (ys ! i)"
proof -
  have l: "length ys = length xs" using assms(1) by (simp add: perm_in_def)
  have "ys ! i = take n (drop b ys) ! (i - b)" "i - b < length (take n (drop b ys))" using assms(2,4,5) l by auto
  then have "ys ! i \<in> set (take n (drop b xs))" using perm_in_set [OF assms(1,2)] by (metis nth_mem)
  then obtain j where "j < n" "b + j < length xs" "ys ! i = xs ! (b + j)" using assms(2) by (auto simp: in_set_conv_nth)
  then show ?thesis using assms(3) by auto
qed

lemma perm_in_swap:
  assumes "b \<le> i" "i < b + n" "b \<le> j" "j < b + n" "b + n \<le> length xs"
  shows "perm_in b n xs (xs[j := xs ! i, i := xs ! j])"
  using assms by (simp add: perm_in_def mset_swap)

section \<open>Partitioning\<close>

lemma part_loop_ok:
  assumes "base < p1" "p1 < p2" "p2 \<le> base + n" "base + n \<le> length xs"
    and "\<forall>i. base < i \<and> i < p1 \<longrightarrow> compar (xs ! i) (xs ! base) \<le> 0"
    and "\<forall>i. p2 \<le> i \<and> i < base + n \<longrightarrow> \<not> compar (xs ! i) (xs ! base) \<le> 0"
  shows "\<exists>p ys. part_loop compar base p1 p2 xs = Some (p, ys) \<and> base < p \<and> p \<le> base + n \<and> perm_in base n xs ys \<and>
    ys ! base = xs ! base \<and> (\<forall>i. base < i \<and> i < p \<longrightarrow> compar (ys ! i) (xs ! base) \<le> 0) \<and>
    (\<forall>i. p \<le> i \<and> i < base + n \<longrightarrow> \<not> compar (ys ! i) (xs ! base) \<le> 0)"
  using assms
proof (induction compar base p1 p2 xs rule: part_loop.induct)
  case (1 compar base p1 p2 xs)
  have in1: "p1 < length xs" "base < length xs" "0 < p2" "p2 - 1 < length xs" using "1.prems" by auto
  show ?case
  proof (cases "compar (xs ! p1) (xs ! base) \<le> 0")
    case True
    have le: "\<forall>i. base < i \<and> i < p1 + 1 \<longrightarrow> compar (xs ! i) (xs ! base) \<le> 0"
      using "1.prems"(5) True by (auto simp: less_Suc_eq)
    show ?thesis
    proof (cases "p1 + 1 = p2")
      case True
      then have "part_loop compar base p1 p2 xs = Some (p1 + 1, xs)"
        using in1 \<open>compar (xs ! p1) (xs ! base) \<le> 0\<close> by (subst part_loop.simps) simp
      then show ?thesis using "1.prems" le True by (intro exI [of _ "p1 + 1"] exI [of _ xs]) simp
    next
      case False
      have "part_loop compar base p1 p2 xs = part_loop compar base (p1 + 1) p2 xs"
        using in1 True False by (subst part_loop.simps) simp
      then show ?thesis using "1.IH"(1) [OF _ True False] in1 "1.prems" le False by simp
    qed
  next
    case False
    define ys where "ys = xs[p2 - 1 := xs ! p1, p1 := xs ! (p2 - 1)]"
    have pm: "perm_in base n xs ys" unfolding ys_def by (rule perm_in_swap) (use "1.prems" in auto)
    have yb: "ys ! base = xs ! base" using "1.prems"(1,2) by (simp add: ys_def)
    have lo: "\<forall>i. base < i \<and> i < p1 \<longrightarrow> compar (ys ! i) (xs ! base) \<le> 0"
      using "1.prems"(2,5) by (auto simp: ys_def nth_list_update)
    have yp: "ys ! (p2 - 1) = xs ! p1" using in1 by (simp add: ys_def nth_list_update)
    have hi: "\<forall>i. p2 - 1 \<le> i \<and> i < base + n \<longrightarrow> \<not> compar (ys ! i) (xs ! base) \<le> 0"
    proof (intro allI impI)
      fix i assume i: "p2 - 1 \<le> i \<and> i < base + n"
      show "\<not> compar (ys ! i) (xs ! base) \<le> 0"
      proof (cases "i = p2 - 1")
        case True
        then show ?thesis using yp False by simp
      next
        case ne: False
        then have "ys ! i = xs ! i" "p2 \<le> i" using i "1.prems"(2) by (auto simp: ys_def)
        then show ?thesis using "1.prems"(6) i by simp
      qed
    qed
    show ?thesis
    proof (cases "p1 = p2 - 1")
      case True
      then have "part_loop compar base p1 p2 xs = Some (p1, ys)"
        using in1 False by (subst part_loop.simps) (simp add: ys_def Let_def)
      then show ?thesis using "1.prems" lo hi yb pm True by (intro exI [of _ p1] exI [of _ ys]) simp
    next
      case ne: False
      have run: "part_loop compar base p1 p2 xs = part_loop compar base p1 (p2 - 1) ys"
        using in1 False ne by (subst part_loop.simps) (simp add: ys_def Let_def)
      have l: "length ys = length xs" by (simp add: ys_def)
      have pl: "p1 < p2 - 1" "p2 - 1 \<le> base + n" using ne "1.prems"(2,3) by auto
      obtain p zs where IH: "part_loop compar base p1 (p2 - 1) ys = Some (p, zs)" "base < p" "p \<le> base + n"
          "perm_in base n ys zs" "zs ! base = ys ! base" "\<forall>i. base < i \<and> i < p \<longrightarrow> compar (zs ! i) (ys ! base) \<le> 0"
          "\<forall>i. p \<le> i \<and> i < base + n \<longrightarrow> \<not> compar (zs ! i) (ys ! base) \<le> 0"
        using "1.IH"(2) [OF _ False _ ys_def ne] in1 "1.prems" lo hi yb pl l by auto
      then show ?thesis unfolding run using perm_in_trans [OF pm] yb by (intro exI [of _ p] exI [of _ zs]) simp
    qed
  qed
qed

section \<open>Sorting\<close>

definition sorted_in :: "('a \<Rightarrow> 'a \<Rightarrow> int) \<Rightarrow> nat \<Rightarrow> nat \<Rightarrow> 'a list \<Rightarrow> bool" where
  "sorted_in compar b n xs \<longleftrightarrow> (\<forall>i j. b \<le> i \<and> i < j \<and> j < b + n \<longrightarrow> compar (xs ! i) (xs ! j) \<le> 0)"

text \<open>What C requires of the comparison function: it orders the elements linearly (up to equality).\<close>

definition ordering_fun :: "('a \<Rightarrow> 'a \<Rightarrow> int) \<Rightarrow> bool" where
  "ordering_fun compar \<longleftrightarrow> (\<forall>x y. compar x y \<le> 0 \<or> compar y x \<le> 0) \<and>
     (\<forall>x y z. compar x y \<le> 0 \<longrightarrow> compar y z \<le> 0 \<longrightarrow> compar x z \<le> 0)"

lemma partition_ok:
  assumes c: "ordering_fun compar" and n: "1 < n" "base + n \<le> length xs"
  shows "\<exists>q ys. partition compar base n xs = Some (q, ys) \<and> q < n \<and> perm_in base n xs ys \<and>
    (\<forall>i. base \<le> i \<and> i < base + q \<longrightarrow> compar (ys ! i) (ys ! (base + q)) \<le> 0) \<and>
    (\<forall>i. base + q < i \<and> i < base + n \<longrightarrow> compar (ys ! (base + q)) (ys ! i) \<le> 0)"
proof -
  obtain p ys where p: "part_loop compar base (base + 1) (base + n) xs = Some (p, ys)" "base < p" "p \<le> base + n"
      "perm_in base n xs ys" "ys ! base = xs ! base" "\<forall>i. base < i \<and> i < p \<longrightarrow> compar (ys ! i) (xs ! base) \<le> 0"
      "\<forall>i. p \<le> i \<and> i < base + n \<longrightarrow> \<not> compar (ys ! i) (xs ! base) \<le> 0"
    using part_loop_ok [of base "base + 1" "base + n" n xs compar] n by auto
  have l: "length ys = length xs" using p(4) by (simp add: perm_in_def)
  define q zs where "q = p - 1 - base" and "zs = ys[base := ys ! (p - 1), p - 1 := ys ! base]"
  have bq: "base + q = p - 1" "q < n" using p(2,3) by (auto simp: q_def)
  have run: "partition compar base n xs = Some (q, zs)"
    using p(1-3) l n by (simp add: partition_def swap_elements_def q_def zs_def Let_def)
  have pm: "perm_in base n ys zs" unfolding zs_def by (rule perm_in_swap) (use p(2,3) n l in auto)
  have piv: "zs ! (base + q) = xs ! base" using p(2,3,5) n l by (simp add: zs_def bq)
  have lo: "compar (zs ! i) (xs ! base) \<le> 0" if "base \<le> i" "i < base + q" for i
  proof (cases "i = base")
    case True
    then have "zs ! i = ys ! (p - 1)" using that bq p(3) n l by (simp add: zs_def nth_list_update)
    moreover have "base < p - 1" using that True bq by simp
    ultimately show ?thesis using p(6) by auto
  next
    case False
    then have "zs ! i = ys ! i" using that bq by (simp add: zs_def)
    then show ?thesis using p(6) that False bq by auto
  qed
  have hi: "compar (xs ! base) (zs ! i) \<le> 0" if "base + q < i" "i < base + n" for i
  proof -
    have "zs ! i = ys ! i" using that bq p(2) by (simp add: zs_def)
    then have "\<not> compar (zs ! i) (xs ! base) \<le> 0" using p(7) that bq by auto
    then show ?thesis using c unfolding ordering_fun_def by blast
  qed
  show ?thesis using run bq(2) perm_in_trans [OF p(4) pm] lo hi piv by (intro exI [of _ q] exI [of _ zs]) simp
qed

lemma qsort_ok:
  assumes "ordering_fun compar" "base + n \<le> length xs"
  shows "\<exists>ys. qsort compar base n xs = Some ys \<and> perm_in base n xs ys \<and> sorted_in compar base n ys"
  using assms(2)
proof (induction n arbitrary: base xs rule: less_induct)
  case (less n)
  show ?case
  proof (cases "1 < n")
    case False
    then show ?thesis by (subst qsort.simps) (auto simp: sorted_in_def)
  next
    case True
    obtain q ys where q: "partition compar base n xs = Some (q, ys)" "q < n" "perm_in base n xs ys"
        "\<forall>i. base \<le> i \<and> i < base + q \<longrightarrow> compar (ys ! i) (ys ! (base + q)) \<le> 0"
        "\<forall>i. base + q < i \<and> i < base + n \<longrightarrow> compar (ys ! (base + q)) (ys ! i) \<le> 0"
      using partition_ok [OF assms(1) True less.prems] by blast
    have ly: "length ys = length xs" using q(3) by (simp add: perm_in_def)
    obtain zs where z: "qsort compar base q ys = Some zs" "perm_in base q ys zs" "sorted_in compar base q zs"
      using less.IH [OF q(2), of base ys] less.prems q(2) ly by auto
    have lz: "length zs = length xs" using z(2) ly by (simp add: perm_in_def)
    define b' n' where "b' = base + (q + 1)" and "n' = n - (q + 1)"
    have bn: "b' + n' = base + n" "n' < n" using q(2) by (auto simp: b'_def n'_def)
    obtain ws where w: "qsort compar b' n' zs = Some ws" "perm_in b' n' zs ws" "sorted_in compar b' n' ws"
      using less.IH [OF bn(2), of b' zs] less.prems bn lz by auto
    have run: "qsort compar base n xs = Some ws"
      using True q(1) z(1) w(1) by (subst qsort.simps) (simp add: b'_def n'_def)
    have pz: "perm_in base n ys zs" by (rule perm_in_widen [OF z(2)]) (use q(2) in auto)
    have pw: "perm_in base n zs ws" by (rule perm_in_widen [OF w(2)]) (use bn in \<open>auto simp: b'_def\<close>)
    have e1: "ws ! i = zs ! i" if "i \<le> base + q" for i
      using perm_in_outside [OF w(2), of i] that less.prems lz q(2) by (simp add: b'_def)
    have e2: "zs ! i = ys ! i" if "base + q \<le> i" "i < base + n" for i
      using perm_in_outside [OF z(2), of i] that less.prems ly by simp
    have piv: "ws ! (base + q) = ys ! (base + q)" using e1 [of "base + q"] e2 [of "base + q"] q(2) by simp
    have lo: "compar (ws ! i) (ys ! (base + q)) \<le> 0" if "base \<le> i" "i < base + q" for i
      using perm_in_all [OF z(2), of "\<lambda>x. compar x (ys ! (base + q)) \<le> 0" i] q(2,4) that less.prems ly e1 [of i] by auto
    have hi: "compar (ys ! (base + q)) (ws ! i) \<le> 0" if "base + q < i" "i < base + n" for i
    proof -
      have "\<forall>i. b' \<le> i \<and> i < b' + n' \<longrightarrow> compar (ys ! (base + q)) (zs ! i) \<le> 0"
        using q(5) e2 bn(1) by (auto simp: b'_def)
      then show ?thesis
        using perm_in_all [OF w(2), of "\<lambda>x. compar (ys ! (base + q)) x \<le> 0" i] that bn(1) lz less.prems by (auto simp: b'_def)
    qed
    have "compar (ws ! i) (ws ! j) \<le> 0" if ij: "base \<le> i" "i < j" "j < base + n" for i j
    proof -
      consider "j < base + q" | "i < base + q" "base + q \<le> j" | "i = base + q" | "base + q < i" using ij by linarith
      then show ?thesis
      proof cases
        case 1
        then show ?thesis using z(3) e1 [of i] e1 [of j] ij by (simp add: sorted_in_def)
      next
        case 2
        then have "compar (ys ! (base + q)) (ws ! j) \<le> 0 \<or> j = base + q" using hi [of j] ij by auto
        then show ?thesis
          using lo [OF ij(1) 2(1)] piv assms(1) unfolding ordering_fun_def by metis
      next
        case 3
        then show ?thesis using hi [of j] ij piv by simp
      next
        case 4
        then show ?thesis using w(3) ij bn(1) by (simp add: sorted_in_def b'_def)
      qed
    qed
    then have "sorted_in compar base n ws" by (simp add: sorted_in_def)
    moreover have "perm_in base n xs ws" using q(3) pz pw perm_in_trans by blast
    ultimately show ?thesis using run by blast
  qed
qed

end
