(* ===== verification/Convert.thy ===== *)
theory Convert
  imports Prelude
begin

text \<open>
  Number conversions of the C library: \<^verbatim>\<open>ulong_to_string\<close> of \<^verbatim>\<open>lib/libxc/doprnt.c\<close>, \<^verbatim>\<open>abs\<close>, \<^verbatim>\<open>labs\<close>,
  and \<^verbatim>\<open>rand\<close>.
\<close>

section \<open>Small functions\<close>

definition abs_c :: "int \<Rightarrow> int option" where
  "abs_c j = (if j < 0 then c_int (- j) else Some j)"

definition labs :: "int \<Rightarrow> int option" where
  "labs j = (if j < 0 then c_int (- j) else Some j)"

definition srand :: "u32 \<Rightarrow> u32 \<Rightarrow> u32" where
  "srand x seed = x"

definition rand :: "u32 \<Rightarrow> int \<times> u32" where
  "rand seed = (let seed = seed * 1103515245 + 12345 in (uint (drop_bit 16 seed mod (32767 + 1)), seed))"

lemma rand_bounds: "0 \<le> fst (rand seed) \<and> fst (rand seed) \<le> 32767"
  by (simp add: rand_def Let_def uint_mod zle_add1_eq_le [symmetric] del: zle_add1_eq_le)

section \<open>Printing numbers\<close>

definition digits_lc :: string where "digits_lc = ''0123456789abcdef''"
definition digits_uc :: string where "digits_uc = ''0123456789ABCDEF''"

definition base_to_nbits :: "nat list" where
  "base_to_nbits = [0, 0, 1, 0, 2, 0, 0, 0, 3, 0, 0, 0, 0, 0, 0, 0, 4]"

abbreviation (input) TEMP_SIZE :: nat where "TEMP_SIZE \<equiv> 33"

text \<open>The two loops that fill \<^verbatim>\<open>temp\<close>; a write behind \<^verbatim>\<open>temp\<close> or a digit index above 15 is \<open>None\<close>.\<close>

function div_loop :: "string \<Rightarrow> u32 \<Rightarrow> u32 \<Rightarrow> nat \<Rightarrow> string \<Rightarrow> (nat \<times> string) option" where
  "div_loop digits base num i temp =
     (if base = 0 \<or> \<not> i < TEMP_SIZE \<or> \<not> unat (num mod base) < 16 then None
      else let temp = temp[i := digits ! unat (num mod base)];
               num = num div base
           in if num = 0 then Some (i, temp) else div_loop digits base num (i + 1) temp)"
  by pat_completeness auto
termination by (relation "measure (\<lambda>(d, b, n, i, t). TEMP_SIZE - i)") auto

function mask_loop :: "string \<Rightarrow> nat \<Rightarrow> u32 \<Rightarrow> nat \<Rightarrow> string \<Rightarrow> (nat \<times> string) option" where
  "mask_loop digits shift num i temp =
     (if \<not> i < TEMP_SIZE \<or> \<not> unat (num AND (push_bit shift 1 - 1)) < 16 then None
      else let temp = temp[i := digits ! unat (num AND (push_bit shift 1 - 1))];
               num = drop_bit shift num
           in if num = 0 then Some (i, temp) else mask_loop digits shift num (i + 1) temp)"
  by pat_completeness auto
termination by (relation "measure (\<lambda>(d, b, n, i, t). TEMP_SIZE - i)") auto

declare div_loop.simps [simp del] mask_loop.simps [simp del]

text \<open>The result is what the final loop copies to \<^verbatim>\<open>str\<close>: \<^verbatim>\<open>temp[i]\<close> down to \<^verbatim>\<open>temp[0]\<close>.\<close>

definition ulong_to_string :: "u32 \<Rightarrow> u32 \<Rightarrow> bool \<Rightarrow> string option" where
  "ulong_to_string num base alt_digits =
     (let digits = (if alt_digits then digits_uc else digits_lc);
          temp = replicate TEMP_SIZE (CHR 0x00)
      in if \<not> unat base < 17 then None
         else do {
           (i, temp) \<leftarrow>
             (if base_to_nbits ! unat base = 0 then div_loop digits base num 1 temp
              else mask_loop digits (base_to_nbits ! unat base) num 1 temp);
           Some (rev (take (i + 1) temp))
         })"

text \<open>The digits of a number, least significant first.\<close>

function to_digits :: "nat \<Rightarrow> nat \<Rightarrow> nat list" where
  "to_digits b n = (if b < 2 then [] else n mod b # (if n div b = 0 then [] else to_digits b (n div b)))"
  by pat_completeness auto
termination
proof (relation "measure snd")
  fix b n :: nat
  assume "\<not> b < 2" "n div b \<noteq> 0"
  then show "((b, n div b), b, n) \<in> measure snd" by (cases "n = 0") auto
qed simp

declare to_digits.simps [simp del]

fun from_digits :: "nat \<Rightarrow> nat list \<Rightarrow> nat" where
  "from_digits b [] = 0"
| "from_digits b (d # ds) = d + b * from_digits b ds"

lemma from_to_digits: "2 \<le> b \<Longrightarrow> from_digits b (to_digits b n) = n"
  by (induction b n rule: to_digits.induct) (subst to_digits.simps, auto simp: Euclidean_Rings.div_eq_0_iff)

lemma to_digits_range: "2 \<le> b \<Longrightarrow> d \<in> set (to_digits b n) \<Longrightarrow> d < b"
  by (induction b n rule: to_digits.induct) (subst (asm) (2) to_digits.simps, auto split: if_splits)

lemma to_digits_length:
  assumes "2 \<le> b" "n < 2 ^ k" "0 < k"
  shows "length (to_digits b n) \<le> k"
  using assms
proof (induction k arbitrary: n)
  case (Suc k)
  show ?case
  proof (cases "n div b = 0")
    case True
    then show ?thesis using Suc.prems by (subst to_digits.simps) auto
  next
    case False
    have "n div b \<le> n div 2" using Suc.prems(1) by (rule div_le_mono2 [OF zero_less_numeral])
    also have "\<dots> < 2 ^ k" using Suc.prems(2) by auto
    finally have "n div b < 2 ^ k" .
    moreover have "0 < k" using calculation False by (cases k) auto
    ultimately show ?thesis using Suc.IH [of "n div b"] Suc.prems(1) False by (subst to_digits.simps) auto
  qed
qed simp

lemma div_loop_ok:
  assumes "2 \<le> unat base" "unat base \<le> 16" "length temp = TEMP_SIZE" "i + length (to_digits (unat base) (unat num)) \<le> TEMP_SIZE"
  shows "\<exists>temp' k. div_loop digits base num i temp = Some (k, temp') \<and> k + 1 = i + length (to_digits (unat base) (unat num)) \<and>
    take (k + 1) temp' = take i temp @ map (\<lambda>d. digits ! d) (to_digits (unat base) (unat num))"
  using assms
proof (induction digits base num i temp rule: div_loop.induct)
  case (1 digits base num i temp)
  let ?b = "unat base" and ?d = "digits ! (unat num mod unat base)" and ?n = "num div base"
  have m: "unat (num mod base) = unat num mod ?b" "unat ?n = unat num div ?b" by (simp_all add: unat_mod unat_div)
  have lt: "unat num mod ?b < 16" by (rule order_less_le_trans [OF mod_less_divisor "1.prems"(2)]) (use "1.prems"(1) in simp)
  have b0: "base \<noteq> 0" using "1.prems"(1) by auto
  have i: "i < TEMP_SIZE" using "1.prems"(4) "1.prems"(1) by (subst (asm) to_digits.simps) auto
  have tk: "take (Suc i) (temp[i := ?d]) = take i temp @ [?d]" using i "1.prems"(3) by (simp add: take_Suc_conv_app_nth)
  show ?case
  proof (cases "?n = 0")
    case True
    then have "unat num div ?b = 0" using m(2) by simp
    then have td: "to_digits ?b (unat num) = [unat num mod ?b]" using "1.prems"(1) by (subst to_digits.simps) simp
    have "div_loop digits base num i temp = Some (i, temp[i := ?d])"
      using b0 i lt m True by (subst div_loop.simps) (simp add: Let_def)
    then show ?thesis using td tk by simp
  next
    case False
    then have "unat num div ?b \<noteq> 0" using m(2) by (metis unat_eq_zero)
    then have td: "to_digits ?b (unat num) = unat num mod ?b # to_digits ?b (unat ?n)"
      using "1.prems"(1) m(2) by (subst to_digits.simps) simp
    have run: "div_loop digits base num i temp = div_loop digits base ?n (i + 1) (temp[i := ?d])"
      using b0 i lt m False by (subst div_loop.simps) (simp add: Let_def)
    have "\<not> (base = 0 \<or> \<not> i < TEMP_SIZE \<or> \<not> unat (num mod base) < 16)" using b0 i lt m by simp
    note IH = "1.IH" [OF this refl refl False]
    show ?thesis unfolding run using IH "1.prems" td tk m(1) by auto
  qed
qed

text \<open>The shift-and-mask loop computes the same as the division loop.\<close>

lemma mask_div:
  assumes "base = push_bit shift 1"
  shows "num AND (push_bit shift 1 - 1) = num mod (base::u32)" "drop_bit shift num = num div base"
proof -
  have "push_bit shift 1 - 1 = (mask shift :: u32)" by (simp add: mask_eq_exp_minus_1)
  then show "num AND (push_bit shift 1 - 1) = num mod base"
    unfolding assms by (simp only: take_bit_eq_mask [symmetric]) (simp add: take_bit_eq_mod)
  show "drop_bit shift num = num div base" unfolding assms by (simp add: drop_bit_eq_div)
qed

lemma mask_loop_div:
  assumes "base = push_bit shift 1" "base \<noteq> (0::u32)"
  shows "mask_loop digits shift num i temp = div_loop digits base num i temp"
proof (induction "TEMP_SIZE - i" arbitrary: num i temp)
  case 0
  then show ?case by (subst mask_loop.simps, subst div_loop.simps) simp
next
  case (Suc k)
  have "k = TEMP_SIZE - (i + 1)" using Suc.hyps(2) by simp
  note IH = Suc.hyps(1) [OF this]
  show ?case
    using assms(2) IH by (subst mask_loop.simps, subst div_loop.simps) (simp only: mask_div [OF assms(1)] Let_def simp_thms if_cancel)
qed

lemma ulong_branches:
  assumes "unat base \<in> {2, 4, 8, 16}"
  shows "mask_loop digits (base_to_nbits ! unat base) num i temp = div_loop digits base num i temp"
proof (rule mask_loop_div)
  have "base = 2 \<or> base = 4 \<or> base = 8 \<or> base = 16"
    using assms by (auto simp: word_unat_eq_iff)
  then show "base = push_bit (base_to_nbits ! unat base) 1" "base \<noteq> 0" by (auto simp: base_to_nbits_def)
qed

lemma ulong_to_string_digits:
  assumes "2 \<le> unat base" "unat base \<le> 16"
  shows "ulong_to_string num base alt =
    Some (map (\<lambda>d. (if alt then digits_uc else digits_lc) ! d) (rev (to_digits (unat base) (unat num))) @ [CHR 0x00])"
proof -
  let ?digits = "if alt then digits_uc else digits_lc" and ?temp = "replicate TEMP_SIZE (CHR 0x00)"
  have len: "length (to_digits (unat base) (unat num)) \<le> 32"
    using to_digits_length [OF assms(1), of "unat num" 32] unsigned_less [of num, where ?'a = nat] by simp
  obtain temp' k where k: "div_loop ?digits base num 1 ?temp = Some (k, temp')"
      "take (k + 1) temp' = take 1 ?temp @ map (\<lambda>d. ?digits ! d) (to_digits (unat base) (unat num))"
    using div_loop_ok [OF assms, of ?temp 1 num ?digits] len by auto
  have "base_to_nbits ! unat base = 0 \<or> unat base \<in> {2, 4, 8, 16}"
  proof -
    have "unat base \<in> {2, 3, 4, 5, 6, 7, 8, 9, 10, 11, 12, 13, 14, 15, 16}"
      using assms by (simp add: numeral_eq_Suc le_Suc_eq)
    then show ?thesis by (auto simp: base_to_nbits_def)
  qed
  then have "(if base_to_nbits ! unat base = 0 then div_loop ?digits base num 1 ?temp
      else mask_loop ?digits (base_to_nbits ! unat base) num 1 ?temp) = Some (k, temp')"
    using ulong_branches [of base ?digits num 1 ?temp] k(1) by auto
  then show ?thesis
    using assms(2) k(2) by (simp add: ulong_to_string_def Let_def rev_map)
qed

end
