(* ===== verification/Ulaw.thy ===== *)
theory Ulaw
  imports Prelude
begin

text \<open>
  The mu-law codec for telephone audio, \<^verbatim>\<open>lib/libdsp/linear2ulaw.c\<close> and \<^verbatim>\<open>ulaw2linear.c\<close>.  The shift
  operators on \<^verbatim>\<open>int\<close> are arithmetic.  \<^verbatim>\<open>-sample\<close> cannot overflow: it is reached only when bit 15 is set.
\<close>

definition ulaw_exp_lut :: "int list" where
  "ulaw_exp_lut = [0, 0, 1, 1] @ replicate 4 2 @ replicate 8 3 @ replicate 16 4 @ replicate 32 5 @ replicate 64 6 @ replicate 128 7"

abbreviation (input) BIAS :: int where "BIAS \<equiv> 0x84"
abbreviation (input) CLIP :: int where "CLIP \<equiv> 32635"

definition linear2ulaw :: "int \<Rightarrow> u8" where
  "linear2ulaw sample =
     (let sign = drop_bit 8 sample AND 0x80;
          sample = (if sign \<noteq> 0 then - sample else sample);
          sample = (if sample > CLIP then CLIP else sample);
          sample = sample + BIAS;
          exponent = ulaw_exp_lut ! nat (drop_bit 7 sample AND 0xFF);
          mantissa = drop_bit (nat (exponent + 3)) sample AND 0x0F;
          ulawbyte = (word_of_int (NOT (sign OR push_bit 4 exponent OR mantissa)) :: u8)
      in if ulawbyte = 0 then 0x02 else ulawbyte)"

definition ulaw2linear :: "u8 \<Rightarrow> int" where
  "ulaw2linear b =
     (let ulawbyte = uint (NOT b);
          sign = ulawbyte AND 0x80;
          exponent = drop_bit 4 ulawbyte AND 0x07;
          mantissa = ulawbyte AND 0x0F;
          sample = [0, 132, 396, 924, 1980, 4092, 8316, 16764] ! nat exponent + push_bit (nat (exponent + 3)) mantissa
      in if sign \<noteq> 0 then - sample else sample)"

text \<open>Every code survives decoding and encoding again, but for the code of minus zero, which becomes that of
  zero, and code 0, which the CCITT trap replaces.\<close>

definition ulaw_round :: "u8 \<Rightarrow> bool" where
  "ulaw_round b \<longleftrightarrow> linear2ulaw (ulaw2linear b) = (if b = 0 then 2 else if b = 0x7F then 0xFF else b)"

lemma ulaw_codes: "list_all (\<lambda>i. ulaw_round (word_of_int i)) [0..255]"
  by code_simp

lemma ulaw_round_all: "ulaw_round b"
proof -
  have "uint b < 256" "0 \<le> uint b" using unsigned_less [of b, where ?'a = int] by simp_all
  then have "ulaw_round (word_of_int (uint b))" using ulaw_codes by (simp add: list_all_iff del: of_int_uint word_of_int_uint)
  then show ?thesis by simp
qed

end
