(* ===== verification/Shell.thy ===== *)
theory Shell
  imports Cstring
begin

text \<open>
  The shell's lexical analyser \<^verbatim>\<open>shell/lexan.c\<close> and option parser \<^verbatim>\<open>shell/getopt.c\<close>.  The line is an object
  of bytes; \<^verbatim>\<open>tokbuf\<close> is the list of bytes written so far and \<^verbatim>\<open>tok\<close> the list of offsets into it.
\<close>

section \<open>Lexical analysis\<close>

abbreviation (input) SHELL_BUFLEN :: nat where "SHELL_BUFLEN \<equiv> 160"
abbreviation (input) SHELL_MAXTOK :: nat where "SHELL_MAXTOK \<equiv> 32"

definition isEndOfLine :: "u8 \<Rightarrow> bool" where "isEndOfLine c \<longleftrightarrow> c = 0 \<or> c = 13 \<or> c = 10"
definition isQuote :: "u8 \<Rightarrow> bool" where "isQuote c \<longleftrightarrow> c = 34 \<or> c = 39"
definition isOtherSpecial :: "u8 \<Rightarrow> bool" where "isOtherSpecial c \<longleftrightarrow> c = 60 \<or> c = 62 \<or> c = 38"
definition isWhitespace :: "u8 \<Rightarrow> bool" where "isWhitespace c \<longleftrightarrow> c = 32 \<or> c = 9"

function lex_skip :: "bytes \<Rightarrow> nat \<Rightarrow> nat \<Rightarrow> nat option" where
  "lex_skip line linelen i =
     (if i < length line then if isWhitespace (line ! i) \<and> i < linelen then lex_skip line linelen (i + 1) else Some i
      else None)"
  by pat_completeness auto
termination by (relation "measure (\<lambda>(s, n, i). length s - i)") auto

text \<open>The two copying loops: up to the closing quote, and up to the end of a plain token.\<close>

function lex_quoted :: "bytes \<Rightarrow> nat \<Rightarrow> u8 \<Rightarrow> nat \<Rightarrow> bytes \<Rightarrow> (nat \<times> bytes) option" where
  "lex_quoted line linelen quote i out =
     (if i < length line
      then if quote \<noteq> line ! i \<and> \<not> isEndOfLine (line ! i) \<and> i < linelen
           then lex_quoted line linelen quote (i + 1) (out @ [line ! i]) else Some (i, out)
      else None)"
  by pat_completeness auto
termination by (relation "measure (\<lambda>(s, n, q, i, b). length s - i)") auto

function lex_word :: "bytes \<Rightarrow> nat \<Rightarrow> nat \<Rightarrow> bytes \<Rightarrow> (nat \<times> bytes) option" where
  "lex_word line linelen i out =
     (if i < length line
      then if \<not> isEndOfLine (line ! i) \<and> \<not> isQuote (line ! i) \<and> \<not> isOtherSpecial (line ! i) \<and>
              \<not> isWhitespace (line ! i) \<and> i < linelen
           then lex_word line linelen (i + 1) (out @ [line ! i]) else Some (i, out)
      else None)"
  by pat_completeness auto
termination by (relation "measure (\<lambda>(s, n, i, b). length s - i)") auto

declare lex_skip.simps [simp del] lex_quoted.simps [simp del] lex_word.simps [simp del]

text \<open>One token, starting at \<^verbatim>\<open>line[i]\<close>; the Boolean is false where the code returns \<^verbatim>\<open>SYSERR\<close>.\<close>

definition lex_token :: "bytes \<Rightarrow> nat \<Rightarrow> nat \<Rightarrow> bytes \<Rightarrow> (bool \<times> nat \<times> bytes) option" where
  "lex_token line linelen i out = do {
     c \<leftarrow> rd line i;
     if isQuote c
     then do {
       (i, out) \<leftarrow> lex_quoted line linelen c (i + 1) (out @ [c]);
       d \<leftarrow> rd line i;
       if c = d then Some (True, i + 1, out @ [d]) else Some (False, i, out)
     }
     else if \<not> isOtherSpecial c
     then do {
       (i, out) \<leftarrow> lex_word line linelen (i + 1) (out @ [c]);
       Some (i < linelen, i, out)
     }
     else Some (True, i + 1, out @ [c])
   }"

function lex_loop :: "bytes \<Rightarrow> nat \<Rightarrow> nat \<Rightarrow> nat \<Rightarrow> bytes \<Rightarrow> nat list \<Rightarrow> (int \<times> bytes \<times> nat list) option" where
  "lex_loop line linelen ntok i out toks =
     (if i < linelen \<and> ntok < SHELL_MAXTOK
      then do {
        i \<leftarrow> lex_skip line linelen i;
        c \<leftarrow> rd line i;
        if isEndOfLine c \<or> i \<ge> linelen then Some (int ntok, out, toks)
        else do {
          (ok, i', out') \<leftarrow> lex_token line linelen i out;
          if \<not> ok then Some (SYSERR, out', toks @ [length out])
          else lex_loop line linelen (ntok + 1) i' (out' @ [0]) (toks @ [length out])
        }
      }
      else Some (int ntok, out, toks))"
  by pat_completeness auto
termination by (relation "measure (\<lambda>(s, l, n, i, b, t). SHELL_MAXTOK - n)") auto

declare lex_loop.simps [simp del]

definition lexan :: "bytes \<Rightarrow> nat \<Rightarrow> (int \<times> bytes \<times> nat list) option" where
  "lexan line linelen = lex_loop line linelen 0 0 [] []"

section \<open>Tokens are terminated and fit the buffer\<close>

lemma lex_skip_ok:
  assumes "i \<le> e" "e < length line" "isEndOfLine (line ! e)"
  shows "\<exists>j. lex_skip line linelen i = Some j \<and> i \<le> j \<and> j \<le> e"
  using assms(1)
proof (induction "e - i" arbitrary: i)
  case 0
  then have "\<not> isWhitespace (line ! i)" using assms(3) by (auto simp: isEndOfLine_def isWhitespace_def)
  then show ?case using 0 assms by (subst lex_skip.simps) auto
next
  case (Suc k)
  then have "\<exists>j. lex_skip line linelen (i + 1) = Some j \<and> i + 1 \<le> j \<and> j \<le> e" by simp
  then show ?case using Suc.prems assms(2) by (subst lex_skip.simps) auto
qed

lemma lex_quoted_ok:
  assumes "i \<le> e" "e < length line" "isEndOfLine (line ! e)"
  shows "\<exists>j ws. lex_quoted line linelen q i out = Some (j, out @ ws) \<and> j = i + length ws \<and> j \<le> e \<and> 0 \<notin> set ws"
  using assms(1)
proof (induction "e - i" arbitrary: i out)
  case 0
  then show ?case using assms by (subst lex_quoted.simps) (auto intro!: exI [of _ "[]"])
next
  case (Suc k)
  show ?case
  proof (cases "q \<noteq> line ! i \<and> \<not> isEndOfLine (line ! i) \<and> i < linelen")
    case True
    have step: "k = e - (i + 1)" "i + 1 \<le> e" using Suc.hyps(2) by auto
    obtain j ws where "lex_quoted line linelen q (i + 1) (out @ [line ! i]) = Some (j, (out @ [line ! i]) @ ws)"
        "j = i + 1 + length ws" "j \<le> e" "0 \<notin> set ws"
      using Suc.hyps(1) [OF step, of "out @ [line ! i]"] by blast
    then show ?thesis using True Suc.hyps(2) assms(2)
      by (subst lex_quoted.simps) (auto simp: isEndOfLine_def intro!: exI [of _ "line ! i # ws"])
  next
    case False
    then show ?thesis using Suc.prems assms(2) by (subst lex_quoted.simps) (auto intro!: exI [of _ "[]"])
  qed
qed

lemma lex_word_ok:
  assumes "i \<le> e" "e < length line" "isEndOfLine (line ! e)"
  shows "\<exists>j ws. lex_word line linelen i out = Some (j, out @ ws) \<and> j = i + length ws \<and> j \<le> e \<and> 0 \<notin> set ws"
  using assms(1)
proof (induction "e - i" arbitrary: i out)
  case 0
  then show ?case using assms by (subst lex_word.simps) (auto intro!: exI [of _ "[]"])
next
  case (Suc k)
  show ?case
  proof (cases "\<not> isEndOfLine (line ! i) \<and> \<not> isQuote (line ! i) \<and> \<not> isOtherSpecial (line ! i) \<and>
      \<not> isWhitespace (line ! i) \<and> i < linelen")
    case True
    have step: "k = e - (i + 1)" "i + 1 \<le> e" using Suc.hyps(2) by auto
    obtain j ws where "lex_word line linelen (i + 1) (out @ [line ! i]) = Some (j, (out @ [line ! i]) @ ws)"
        "j = i + 1 + length ws" "j \<le> e" "0 \<notin> set ws"
      using Suc.hyps(1) [OF step, of "out @ [line ! i]"] by blast
    then show ?thesis using True Suc.hyps(2) assms(2)
      by (subst lex_word.simps) (auto simp: isEndOfLine_def intro!: exI [of _ "line ! i # ws"])
  next
    case False
    then show ?thesis using Suc.prems assms(2) by (subst lex_word.simps) (auto intro!: exI [of _ "[]"])
  qed
qed

lemma lex_token_ok:
  assumes "i < e" "e < length line" "isEndOfLine (line ! e)" "\<not> isEndOfLine (line ! i)"
  shows "\<exists>ok j ws. lex_token line linelen i out = Some (ok, j, out @ ws) \<and> j = i + length ws \<and> j \<le> e \<and> 0 \<notin> set ws \<and> ws \<noteq> []"
proof -
  let ?c = "line ! i"
  have c: "?c \<noteq> 0" "rd line i = Some ?c" using assms by (auto simp: isEndOfLine_def rd_def)
  obtain j ws where q: "lex_quoted line linelen ?c (i + 1) (out @ [?c]) = Some (j, (out @ [?c]) @ ws)" "j = i + 1 + length ws" "j \<le> e" "0 \<notin> set ws"
    using lex_quoted_ok [of "i + 1" e line linelen ?c "out @ [?c]"] assms by auto
  obtain k vs where w: "lex_word line linelen (i + 1) (out @ [?c]) = Some (k, (out @ [?c]) @ vs)" "k = i + 1 + length vs" "k \<le> e" "0 \<notin> set vs"
    using lex_word_ok [of "i + 1" e line linelen "out @ [?c]"] assms by auto
  have rj: "rd line j = Some (line ! j)" using q(3) assms(2) by (simp add: rd_def)
  consider "isQuote ?c" "?c = line ! j" | "isQuote ?c" "?c \<noteq> line ! j" | "\<not> isQuote ?c" "isOtherSpecial ?c" | "\<not> isQuote ?c" "\<not> isOtherSpecial ?c"
    by blast
  then show ?thesis
  proof cases
    case 1
    then have "j \<noteq> e" using assms(3) by (auto simp: isQuote_def isEndOfLine_def)
    then show ?thesis using 1 c q rj by (auto simp: lex_token_def intro!: exI [of _ "?c # ws @ [?c]"])
  next
    case 2
    then show ?thesis using c q rj by (auto simp: lex_token_def intro!: exI [of _ "?c # ws"])
  next
    case 3
    then show ?thesis using c assms(1) by (auto simp: lex_token_def intro!: exI [of _ "[?c]"])
  next
    case 4
    then show ?thesis using c w by (auto simp: lex_token_def intro!: exI [of _ "?c # vs"])
  qed
qed

text \<open>The contents of \<^verbatim>\<open>tokbuf\<close> and \<^verbatim>\<open>tok\<close> for the tokens \<open>ts\<close>.\<close>

definition tok_bytes :: "bytes list \<Rightarrow> bytes" where
  "tok_bytes ts = concat (map (\<lambda>t. t @ [0]) ts)"

definition tok_offsets :: "bytes list \<Rightarrow> nat list" where
  "tok_offsets ts = map (\<lambda>k. length (tok_bytes (take k ts))) [0..<length ts]"

lemma tok_snoc [simp]:
  "tok_bytes (ts @ [t]) = tok_bytes ts @ t @ [0]" "tok_offsets (ts @ [t]) = tok_offsets ts @ [length (tok_bytes ts)]"
  by (simp_all add: tok_bytes_def tok_offsets_def)

lemma lex_loop_ok:
  assumes e: "e < linelen" "e < length line" "isEndOfLine (line ! e)"
    and "i \<le> e" "length ts \<le> SHELL_MAXTOK" "length (tok_bytes ts) \<le> i + length ts" "\<forall>t\<in>set ts. t \<noteq> [] \<and> 0 \<notin> set t"
  shows "\<exists>ts' rest r. lex_loop line linelen (length ts) i (tok_bytes ts) (tok_offsets ts) = Some (r, tok_bytes ts' @ rest, tok_offsets ts' @ (if r = SYSERR then [length (tok_bytes ts')] else [])) \<and>
    (r = SYSERR \<or> r = int (length ts') \<and> rest = []) \<and> length ts' \<le> SHELL_MAXTOK \<and> (\<forall>t\<in>set ts'. t \<noteq> [] \<and> 0 \<notin> set t) \<and>
    length (tok_bytes ts' @ rest) \<le> e + length ts'"
  using assms(4-)
proof (induction "SHELL_MAXTOK - length ts" arbitrary: i ts)
  case 0
  have "int (length ts) \<noteq> SYSERR" by simp
  then show ?case using 0 by (subst lex_loop.simps) (intro exI [of _ ts] exI [of _ "[]"], auto)
next
  case (Suc n)
  obtain j where j: "lex_skip line linelen i = Some j" "i \<le> j" "j \<le> e" using lex_skip_ok [OF Suc.prems(1) e(2,3)] by blast
  have rj: "rd line j = Some (line ! j)" using j(3) e(2) by (simp add: rd_def)
  show ?case
  proof (cases "isEndOfLine (line ! j)")
    case True
    then have "lex_loop line linelen (length ts) i (tok_bytes ts) (tok_offsets ts) = Some (int (length ts), tok_bytes ts, tok_offsets ts)"
      using Suc.hyps(2) Suc.prems(1) e(1) j(1) rj by (subst lex_loop.simps) auto
    then show ?thesis using Suc.prems by (intro exI [of _ ts] exI [of _ "[]"] exI [of _ "int (length ts)"]) auto
  next
    case False
    then have "j < e" using j(3) e(3) by (cases "j = e") auto
    then obtain ok k ws where t: "lex_token line linelen j (tok_bytes ts) = Some (ok, k, tok_bytes ts @ ws)" "k = j + length ws" "k \<le> e" "0 \<notin> set ws" "ws \<noteq> []"
      using lex_token_ok [OF _ e(2,3) False] by blast
    have run: "lex_loop line linelen (length ts) i (tok_bytes ts) (tok_offsets ts) =
        (if \<not> ok then Some (SYSERR, tok_bytes ts @ ws, tok_offsets ts @ [length (tok_bytes ts)])
         else lex_loop line linelen (length (ts @ [ws])) k (tok_bytes (ts @ [ws])) (tok_offsets (ts @ [ws])))"
      using Suc.hyps(2) Suc.prems(1) e(1) j(1,3) rj False t(1) \<open>j < e\<close> by (subst lex_loop.simps) auto
    show ?thesis
    proof (cases ok)
      case True
      have "length (tok_bytes (ts @ [ws])) \<le> k + length (ts @ [ws])" using Suc.prems(3) t(2) j(2) by simp
      moreover have "\<forall>t\<in>set (ts @ [ws]). t \<noteq> [] \<and> 0 \<notin> set t" using Suc.prems(4) t(4,5) by auto
      ultimately show ?thesis using Suc.hyps(1) [of "ts @ [ws]" k] Suc.hyps(2) t(3) True run by simp
    next
      case False
      then show ?thesis using run Suc.prems t j
        by (intro exI [of _ ts] exI [of _ ws] exI [of _ SYSERR]) simp
    qed
  qed
qed

section \<open>Command line options\<close>

record getopt =
  gargc :: int
  gargv :: "bytes list"
  optstring :: bytes
  optarg :: bytes
  optind :: int
  optopt :: int
  opterr :: int
  optreset :: bool

text \<open>The result is the character as a number, \<^verbatim>\<open>'?'\<close> being 63 and \<^verbatim>\<open>':'\<close> 58.\<close>

definition getopt_c :: "int \<Rightarrow> bytes list \<Rightarrow> bytes \<Rightarrow> getopt \<Rightarrow> (int \<times> getopt) option" where
  "getopt_c argc argv optstr opts = do {
     let opts = (if optreset opts
       then opts\<lparr>gargc := argc, gargv := argv, optstring := optstr, optarg := [0], optind := 1, optopt := 0, opterr := 0,
              optreset := False\<rparr>
       else opts);
     if gargc opts \<le> optind opts then Some (-1, opts)
     else if \<not> (0 \<le> optind opts \<and> nat (optind opts) < length (gargv opts)) then None
     else do {
       let currarg = gargv opts ! nat (optind opts);
       c0 \<leftarrow> rd currarg 0;
       if c0 = 45
       then do {
         let opts = opts\<lparr>optind := optind opts + 1\<rparr>;
         c1 \<leftarrow> rd currarg 1;
         optpos \<leftarrow> strchr (optstring opts) (uint c1);
         case optpos of
           None \<Rightarrow> Some (63, opts)
         | Some p \<Rightarrow> do {
             d \<leftarrow> rd (optstring opts) (p + 1);
             if d = 58 \<and> gargc opts > optind opts
             then if \<not> nat (optind opts) < length (gargv opts) then None
                  else Some (uint c1, opts\<lparr>optarg := gargv opts ! nat (optind opts), optind := optind opts + 1\<rparr>)
             else Some (58, opts)
           }
       }
       else Some (-1, opts)
     }
   }"

text \<open>An option that takes no argument is never recognised: the code reports a missing argument.\<close>

lemma getopt_flag:
  assumes o: "optreset opts = False" "0 \<le> optind opts" "optind opts < gargc opts" "nat (optind opts) < length (gargv opts)"
    and a: "gargv opts ! nat (optind opts) = 45 # c # cs" and s: "strchr (optstring opts) (uint c) = Some (Some p)"
      "rd (optstring opts) (p + 1) = Some d" "d \<noteq> 58"
  shows "getopt_c argc argv optstr opts = Some (58, opts\<lparr>optind := optind opts + 1\<rparr>)"
proof -
  have r: "rd (45 # c # cs) 0 = Some 45" "rd (45 # c # cs) (Suc 0) = Some c" by (simp_all add: rd_def)
  show ?thesis using o s by (simp add: getopt_c_def Let_def a r)
qed

lemma getopt_arg:
  assumes o: "optreset opts = False" "0 \<le> optind opts" "optind opts + 1 < gargc opts" "nat (optind opts + 1) < length (gargv opts)"
    and a: "gargv opts ! nat (optind opts) = 45 # c # cs" and s: "strchr (optstring opts) (uint c) = Some (Some p)"
      "rd (optstring opts) (p + 1) = Some 58"
  shows "getopt_c argc argv optstr opts =
    Some (uint c, opts\<lparr>optind := optind opts + 2, optarg := gargv opts ! nat (optind opts + 1)\<rparr>)"
proof -
  have r: "rd (45 # c # cs) 0 = Some 45" "rd (45 # c # cs) (Suc 0) = Some c" by (simp_all add: rd_def)
  have n: "nat (optind opts) < length (gargv opts)" using o(2,4) by linarith
  have "opts\<lparr>optind := optind opts + 1, optarg := gargv opts ! nat (optind opts + 1), optind := optind opts + 1 + 1\<rparr> =
    opts\<lparr>optind := optind opts + 2, optarg := gargv opts ! nat (optind opts + 1)\<rparr>" by simp
  then show ?thesis using o s n by (simp add: getopt_c_def Let_def a r)
qed

end
