(* ===== verification/Lib_Props.thy ===== *)
theory Lib_Props
  imports Qsort Convert Ulaw Shell
begin

text \<open>
  The properties of the C library, the signal processing library and the shell's parsers, with their
  witnesses.
\<close>

section \<open>C library\<close>

text \<open>
  C30. \<^verbatim>\<open>qsort\<close> terminates and sorts: for a comparison function that is total and transitive, and a
  range inside the array, the result is a permutation that changes nothing outside the range and whose
  range is sorted.
\<close>

theorem qsort_sorts:
  assumes "ordering_fun compar" "base + n \<le> length xs"
  shows "\<exists>ys. qsort compar base n xs = Some ys \<and> length ys = length xs \<and> mset ys = mset xs \<and>
    take base ys = take base xs \<and> drop (base + n) ys = drop (base + n) xs \<and>
    (\<forall>i j. base \<le> i \<and> i < j \<and> j < base + n \<longrightarrow> compar (ys ! i) (ys ! j) \<le> 0)"
  using qsort_ok [OF assms] by (auto simp: perm_in_def sorted_in_def)

theorem qsort_sorts_witness:
  "\<exists>ys. qsort (\<lambda>x y. x - y) 1 3 [9, 5, -2, 7, 0 :: int] = Some ys \<and> length ys = length [9, 5, -2, 7, 0 :: int] \<and> mset ys = mset [9, 5, -2, 7, 0] \<and>
    take 1 ys = [9] \<and> drop 4 ys = [0] \<and> (\<forall>i j. 1 \<le> i \<and> i < j \<and> j < 4 \<longrightarrow> ys ! i - ys ! j \<le> 0)"
proof -
  have "ordering_fun (\<lambda>x y :: int. x - y)" by (auto simp: ordering_fun_def)
  then show ?thesis using qsort_sorts [of "\<lambda>x y. x - y" 1 3 "[9, 5, -2, 7, 0 :: int]"] by simp
qed

text \<open>
  C31. \<^verbatim>\<open>strlcpy\<close> never writes past the given size: for a terminated source and a non-empty destination of
  at least \<open>n\<close> bytes it returns the length of the source, the destination holds its longest prefix that
  fits and a terminator, and the bytes from \<open>n\<close> on are unchanged.
\<close>

theorem strlcpy_bounded:
  assumes "cstr src xs" "0 < n" "n \<le> length dest"
  shows "\<exists>dest'. strlcpy dest src n = Some (length xs, dest') \<and> cstr dest' (take (n - 1) xs) \<and>
    length dest' = length dest \<and> drop n dest' = drop n dest"
  by (rule strlcpy_ok [OF assms])

theorem strlcpy_bounded_witness:
  "\<exists>dest'. strlcpy [1, 1, 1, 1] [65, 66, 67, 0] 3 = Some (length [65, 66, 67 :: u8], dest') \<and>
    cstr dest' (take (3 - 1) [65, 66, 67]) \<and> length dest' = length [1, 1, 1, 1 :: u8] \<and> drop 3 dest' = drop 3 [1, 1, 1, 1]"
  using strlcpy_bounded [of "[65, 66, 67, 0]" "[65, 66, 67]" 3 "[1, 1, 1, 1]"] by (simp add: cstr_def)

text \<open>
  \<^verbatim>\<open>strcmp\<close> of two terminated strings is the three-way lexicographic comparison of their characters
  as unsigned bytes, and it is zero exactly when they are equal.
\<close>

theorem strcmp_lexicographic:
  assumes "cstr s xs" "cstr t ys"
  shows "strcmp s t = Some (lexcmp xs ys) \<and> (lexcmp xs ys = 0 \<longleftrightarrow> xs = ys)"
  using strcmp_lexcmp [OF assms] assms lexcmp_eq by (auto simp: cstr_def)

theorem strcmp_lexicographic_witness:
  "strcmp [65, 200, 0] [65, 66, 0] = Some (lexcmp [65, 200] [65, 66]) \<and>
    (lexcmp [65, 200] [65, 66] = 0 \<longleftrightarrow> [65, 200 :: u8] = [65, 66])"
  by (rule strcmp_lexicographic) (simp_all add: cstr_def)

text \<open>
  C32. The number formatting of \<^verbatim>\<open>printf\<close>: for every base from 2 to 16 \<^verbatim>\<open>ulong_to_string\<close> stays inside its
  buffer and leaves the digits of the number, without a leading zero unless the number is zero, and a
  terminator; reading the digits back in that base gives the number.
\<close>

theorem ulong_to_string_reads_back:
  assumes "2 \<le> unat base" "unat base \<le> 16"
  shows "\<exists>ds. ulong_to_string num base alt =
      Some (map (\<lambda>d. (if alt then digits_uc else digits_lc) ! d) (rev ds) @ [CHR 0x00]) \<and>
    from_digits (unat base) ds = unat num \<and> (\<forall>d \<in> set ds. d < unat base) \<and> ds \<noteq> []"
proof -
  have "to_digits (unat base) (unat num) \<noteq> []" using assms(1) by (subst to_digits.simps) simp
  then show ?thesis
    using ulong_to_string_digits [OF assms] from_to_digits [OF assms(1)] to_digits_range [OF assms(1)] by blast
qed

theorem ulong_to_string_reads_back_witness:
  "\<exists>ds. ulong_to_string 4000000000 10 False =
      Some (map (\<lambda>d. (if False then digits_uc else digits_lc) ! d) (rev ds) @ [CHR 0x00]) \<and>
    from_digits 10 ds = 4000000000 \<and> (\<forall>d \<in> set ds. d < 10) \<and> ds \<noteq> []"
  using ulong_to_string_reads_back [of 10 4000000000 False] by simp

section \<open>Signal processing\<close>

text \<open>
  Decoding a \<^verbatim>\<open>u-law\<close> byte and encoding the result gives the byte back, for every byte except the
  negative zero \<^verbatim>\<open>0x7F\<close>, which comes back as the positive one, and \<^verbatim>\<open>0x00\<close>, which the encoder's zero trap
  turns into \<^verbatim>\<open>0x02\<close>.
\<close>

theorem ulaw_roundtrip:
  "linear2ulaw (ulaw2linear b) = (if b = 0 then 2 else if b = 0x7F then 0xFF else b)"
  using ulaw_round_all [of b] by (simp add: ulaw_round_def)

section \<open>Shell\<close>

text \<open>
  The shell's lexical analyser on a line that has an end-of-line character at \<open>e\<close>, inside the given
  length: it terminates without reading outside the line, and either reports a syntax error or returns
  at most \<^verbatim>\<open>SHELL_MAXTOK\<close> tokens, each of them non-empty and terminated, at the returned offsets of the
  token buffer; it has then written at most \<open>e\<close> bytes and one terminator for each token.
\<close>

theorem lexan_tokens:
  assumes "e < linelen" "e < length line" "isEndOfLine (line ! e)"
  shows "\<exists>ts rest r. lexan line linelen = Some (r, tok_bytes ts @ rest,
      tok_offsets ts @ (if r = SYSERR then [length (tok_bytes ts)] else [])) \<and>
    (r = SYSERR \<or> r = int (length ts) \<and> rest = []) \<and> length ts \<le> SHELL_MAXTOK \<and>
    (\<forall>t \<in> set ts. t \<noteq> [] \<and> 0 \<notin> set t) \<and> length (tok_bytes ts @ rest) \<le> e + length ts"
  using lex_loop_ok [OF assms, of 0 "[]"] by (simp add: lexan_def tok_bytes_def tok_offsets_def)

theorem lexan_tokens_witness:
  "\<exists>ts rest r. lexan [108, 115, 32, 38, 10] 160 = Some (r, tok_bytes ts @ rest,
      tok_offsets ts @ (if r = SYSERR then [length (tok_bytes ts)] else [])) \<and>
    (r = SYSERR \<or> r = int (length ts) \<and> rest = []) \<and> length ts \<le> SHELL_MAXTOK \<and>
    (\<forall>t \<in> set ts. t \<noteq> [] \<and> 0 \<notin> set t) \<and> length (tok_bytes ts @ rest) \<le> 4 + length ts"
  by (rule lexan_tokens) (simp_all add: isEndOfLine_def)

text \<open>
  \<^verbatim>\<open>getopt\<close> cannot parse a flag: for an option character that is in the option string without a
  colon after it, so that it takes no argument, the call reports a missing argument (\<^verbatim>\<open>':'\<close>) instead of the
  option character.
\<close>

theorem getopt_rejects_flag:
  assumes "optreset opts = False" "0 \<le> optind opts" "optind opts < gargc opts" "nat (optind opts) < length (gargv opts)"
    and "gargv opts ! nat (optind opts) = 45 # c # cs" "strchr (optstring opts) (uint c) = Some (Some p)"
      "rd (optstring opts) (p + 1) = Some d" "d \<noteq> 58"
  shows "getopt_c argc argv optstr opts = Some (58, opts\<lparr>optind := optind opts + 1\<rparr>)"
  by (rule getopt_flag [OF assms])

definition sample_opts :: getopt where
  "sample_opts = \<lparr>gargc = 2, gargv = [[120, 0], [45, 118, 0]], optstring = [118, 104, 0], optarg = [0], optind = 1,
     optopt = 0, opterr = 0, optreset = False\<rparr>"

theorem getopt_rejects_flag_witness:
  "getopt_c 2 (gargv sample_opts) (optstring sample_opts) sample_opts = Some (58, sample_opts\<lparr>optind := 2\<rparr>)"
proof -
  have "strchr (optstring sample_opts) (uint (118::u8)) = Some (Some 0)"
    by (simp add: sample_opts_def strchr_def strchr_from.simps rd_def)
  then show ?thesis
    using getopt_rejects_flag [of sample_opts 118 "[0]" 0 104 2 "gargv sample_opts" "optstring sample_opts"]
    by (simp add: sample_opts_def rd_def)
qed

end
