(* ===== verification/Tcp.thy ===== *)
theory Tcp
  imports Net
begin

text \<open>
  The transmission control block and the sending side of the TCP device, \<^verbatim>\<open>include/tcp.h\<close> and
  \<^verbatim>\<open>device/tcp/tcpSend*.c\<close>.  The calls a routine makes into other parts (semaphores, timers, packet buffers,
  the IPv4 sender) are appended to the trace \<open>calls\<close> of the block it works on, and the answer to a call is
  given by an environment, a function of the calls made so far; so a statement that holds for every
  environment holds whatever these parts answer.  A routine that waits for the mutex of its block is modelled
  from the moment the mutex is granted.  Sequence comparisons subtract signed integers, so they are \<open>None\<close> where
  that overflows.
\<close>

section \<open>Sequence numbers\<close>

abbreviation (input) TCP_MAXSEQ :: u32 where "TCP_MAXSEQ \<equiv> 0xFFFFFFFF"

definition seqlt :: "u32 \<Rightarrow> u32 \<Rightarrow> bool option" where
  "seqlt a b = do { d \<leftarrow> c_int (to_int a - to_int b); Some (d < 0) }"

definition seqlte :: "u32 \<Rightarrow> u32 \<Rightarrow> bool option" where
  "seqlte a b = do { d \<leftarrow> c_int (to_int a - to_int b); Some (d \<le> 0) }"

definition seqadd :: "u32 \<Rightarrow> u32 \<Rightarrow> u32" where
  "seqadd a b = (a + b) mod TCP_MAXSEQ"

definition tcpSeqdiff :: "u32 \<Rightarrow> u32 \<Rightarrow> u32" where
  "tcpSeqdiff first second =
     (if first < TCP_MAXSEQ div 2 \<and> second > TCP_MAXSEQ div 2 then (TCP_MAXSEQ - first) + second
      else if second < TCP_MAXSEQ div 2 \<and> first > TCP_MAXSEQ div 2 then (TCP_MAXSEQ - first) + second
      else first - second)"

section \<open>The control block\<close>

abbreviation (input) TCP_IBLEN :: nat where "TCP_IBLEN \<equiv> 16384"
abbreviation (input) TCP_OBLEN :: nat where "TCP_OBLEN \<equiv> 16384"
abbreviation (input) TCP_HDR_LEN :: int where "TCP_HDR_LEN \<equiv> 20"
abbreviation (input) TCP_INIT_MSS :: u16 where "TCP_INIT_MSS \<equiv> 1460"
abbreviation (input) TCP_INIT_WND :: u32 where "TCP_INIT_WND \<equiv> 1460"
abbreviation (input) NET_MAX_PKTLEN :: int where "NET_MAX_PKTLEN \<equiv> 1598"
abbreviation (input) TCP_TWOMSL :: int where "TCP_TWOMSL \<equiv> 5000"
abbreviation (input) TCP_PST_INITTIME :: int where "TCP_PST_INITTIME \<equiv> 3000"
abbreviation (input) TCP_PST_MAXTIME :: int where "TCP_PST_MAXTIME \<equiv> 64000"
abbreviation (input) TCP_RXT_MINTIME :: int where "TCP_RXT_MINTIME \<equiv> 100"
abbreviation (input) TCP_RXT_MAXTIME :: int where "TCP_RXT_MAXTIME \<equiv> 32000"
abbreviation (input) TCP_RXT_INITTIME :: int where "TCP_RXT_INITTIME \<equiv> 500"
abbreviation (input) TCP_MAX_WND :: u32 where "TCP_MAX_WND \<equiv> 65535"
abbreviation (input) TCP_SEQINCR :: int where "TCP_SEQINCR \<equiv> 904"
abbreviation (input) TCP_RXT_MAXCOUNT :: u32 where "TCP_RXT_MAXCOUNT \<equiv> 10"

abbreviation (input) TCP_CTRL_ACK :: u8 where "TCP_CTRL_ACK \<equiv> 0x10"
abbreviation (input) TCP_CTRL_PSH :: u8 where "TCP_CTRL_PSH \<equiv> 0x08"
abbreviation (input) TCP_CTRL_RST :: u8 where "TCP_CTRL_RST \<equiv> 0x04"
abbreviation (input) TCP_CTRL_SYN :: u8 where "TCP_CTRL_SYN \<equiv> 0x02"
abbreviation (input) TCP_CTRL_FIN :: u8 where "TCP_CTRL_FIN \<equiv> 0x01"

abbreviation (input) TCP_FLG_SYN :: u8 where "TCP_FLG_SYN \<equiv> 0x01"
abbreviation (input) TCP_FLG_FIN :: u8 where "TCP_FLG_FIN \<equiv> 0x02"
abbreviation (input) TCP_FLG_SNDACK :: u8 where "TCP_FLG_SNDACK \<equiv> 0x04"
abbreviation (input) TCP_FLG_SNDDATA :: u8 where "TCP_FLG_SNDDATA \<equiv> 0x08"
abbreviation (input) TCP_FLG_SNDRST :: u8 where "TCP_FLG_SNDRST \<equiv> 0x10"
abbreviation (input) TCP_FLG_PERSIST :: u8 where "TCP_FLG_PERSIST \<equiv> 0x20"

abbreviation (input) TCP_ERR_RESET :: int where "TCP_ERR_RESET \<equiv> -2"
abbreviation (input) TCP_ERR_CLOSING :: int where "TCP_ERR_CLOSING \<equiv> -4"
abbreviation (input) TCP_ERR_NOCONN :: int where "TCP_ERR_NOCONN \<equiv> -5"
abbreviation (input) TCP_ERR_NOSPEC :: int where "TCP_ERR_NOSPEC \<equiv> -6"

datatype tcp_state = TCP_CLOSED | TCP_LISTEN | TCP_SYNSENT | TCP_SYNRECV | TCP_ESTAB | TCP_FINWT1 | TCP_FINWT2
  | TCP_CLOSEWT | TCP_CLOSING | TCP_LASTACK | TCP_TIMEWT

abbreviation (input) TCP_FREE :: u8 where "TCP_FREE \<equiv> 0"
abbreviation (input) TCP_ALLOC :: u8 where "TCP_ALLOC \<equiv> 1"
abbreviation (input) TCP_PASSIVE :: u8 where "TCP_PASSIVE \<equiv> 0"
abbreviation (input) TCP_ACTIVE :: u8 where "TCP_ACTIVE \<equiv> 1"

datatype tcp_evt = EVT_ALL | EVT_TIMEWT | EVT_RXT | EVT_PERSIST

text \<open>A segment as it is handed to \<^verbatim>\<open>ipv4Send\<close>, with the header fields in host order: ports, sequence and
  acknowledgement numbers, header length, control bits, window, the maximum segment size option and the
  data.  The urgent field and the two bytes behind the option are whatever the buffer held.\<close>

record segment =
  sgsrcpt :: u16
  sgdstpt :: u16
  sgseq :: u32
  sgack :: u32
  sghlen :: nat
  sgctrl :: u8
  sgwindow :: u16
  sgmss :: "u16 option"
  sgdata :: bytes

datatype tcp_call =
    Wait u32 | Signal u32 | Signaln u32 int | Semcount u32 | Semcreate int | Semfree u32
  | TimerSched int tcp_evt | TimerPurge tcp_evt | TimerRemain tcp_evt
  | Getbuf | IpSend netaddr netaddr segment | Freebuf

record tcb =
  tdev :: u16
  tcpstate :: tcp_state
  devstate :: u8
  tmutex :: u32
  localpt :: u16
  remotept :: u16
  localip :: netaddr
  remoteip :: netaddr
  opentype :: u8
  openclose :: u32
  rcvnxt :: u32
  rcvwnd :: u32
  rcvfin :: u32
  rcvmss :: u16
  rcvflg :: u8
  readers :: u32
  istart :: u32
  icount :: u32
  inxt :: u32
  ibuf :: "nat \<Rightarrow> u8"
  imark :: "nat \<Rightarrow> bool"
  ibytes :: u32
  snduna :: u32
  sndnxt :: u32
  sndwnd :: u32
  sndcwn :: u32
  sndsst :: u32
  sndwl1 :: u32
  sndwl2 :: u32
  iss :: u32
  sndfin :: u32
  sndmss :: u16
  sndflg :: u8
  sndrtt :: int
  sndrtd :: int
  rxttime :: int
  rxtcount :: u32
  psttime :: int
  writers :: u32
  ostart :: u32
  ocount :: u32
  obuf :: "nat \<Rightarrow> u8"
  obytes :: u32
  calls :: "tcp_call list"

type_synonym tcp_env = "tcp_call list \<Rightarrow> int"

definition ask :: "tcp_env \<Rightarrow> tcp_call \<Rightarrow> tcb \<Rightarrow> int \<times> tcb" where
  "ask env c t = (env (calls t @ [c]), t\<lparr>calls := calls t @ [c]\<rparr>)"

definition notify :: "tcp_call \<Rightarrow> tcb \<Rightarrow> tcb" where
  \<comment> \<open>a call whose answer is not used\<close>
  "notify c t = t\<lparr>calls := calls t @ [c]\<rparr>"

abbreviation (input) has :: "u8 \<Rightarrow> u8 \<Rightarrow> bool" where "has flags f \<equiv> flags AND f \<noteq> 0"

definition set_flg :: "u8 \<Rightarrow> tcb \<Rightarrow> tcb" where
  "set_flg f t = t\<lparr>sndflg := sndflg t OR f\<rparr>"

definition clear_flg :: "u8 \<Rightarrow> tcb \<Rightarrow> tcb" where
  "clear_flg f t = t\<lparr>sndflg := sndflg t AND NOT f\<rparr>"

text \<open>The short-circuit operators of C on conditions that may be undefined.\<close>

definition and_then :: "bool option \<Rightarrow> bool option \<Rightarrow> bool option" where
  "and_then a b = do { x \<leftarrow> a; if x then b else Some False }"

definition or_else :: "bool option \<Rightarrow> bool option \<Rightarrow> bool option" where
  "or_else a b = do { x \<leftarrow> a; if x then Some True else b }"

section \<open>Releasing a control block\<close>

definition no_addr :: netaddr where
  "no_addr = \<lparr>natype = 0, nalen = 0, naddr = replicate NET_MAX_ALEN 0\<rparr>"

definition tcb0 :: tcb where
  \<comment> \<open>a control block of zero bytes\<close>
  "tcb0 = \<lparr>tdev = 0, tcpstate = TCP_CLOSED, devstate = TCP_FREE, tmutex = 0, localpt = 0, remotept = 0,
     localip = no_addr, remoteip = no_addr, opentype = TCP_PASSIVE, openclose = 0, rcvnxt = 0, rcvwnd = 0,
     rcvfin = 0, rcvmss = 0, rcvflg = 0, readers = 0, istart = 0, icount = 0, inxt = 0, ibuf = (\<lambda>_. 0),
     imark = (\<lambda>_. False), ibytes = 0, snduna = 0, sndnxt = 0, sndwnd = 0, sndcwn = 0, sndsst = 0, sndwl1 = 0,
     sndwl2 = 0, iss = 0, sndfin = 0, sndmss = 0, sndflg = 0, sndrtt = 0, sndrtd = 0, rxttime = 0, rxtcount = 0,
     psttime = 0, writers = 0, ostart = 0, ocount = 0, obuf = (\<lambda>_. 0), obytes = 0, calls = []\<rparr>"

definition tcpFree :: "tcb \<Rightarrow> int \<times> tcb" where
  "tcpFree t =
     (if tcpstate t = TCP_CLOSED then (SYSERR, notify (Signal (tmutex t)) t)
      else let t = notify (Semfree (openclose t)) t;
               t = notify (Semfree (readers t)) t;
               t = notify (Semfree (writers t)) t;
               t = notify (TimerPurge EVT_ALL) t;
               t = tcb0\<lparr>tcpstate := TCP_CLOSED, devstate := TCP_FREE, tmutex := tmutex t, calls := calls t\<rparr>
           in (OK, notify (Signal (tmutex t)) t))"

section \<open>Sending\<close>

definition tcpSendWindow :: "tcb \<Rightarrow> u16 \<times> tcb" where
  "tcpSendWindow t =
     (let window = word_of_int (int TCP_IBLEN - uint (icount t)) :: u16
      in if tcpstate t = TCP_CLOSED then (0, t)
         else if tcpstate t \<in> {TCP_LISTEN, TCP_SYNSENT, TCP_SYNRECV}
         then (window, t\<lparr>rcvwnd := seqadd (rcvnxt t) (ucast window)\<rparr>)
         else let unused = ucast (tcpSeqdiff (rcvwnd t) (rcvnxt t)) :: u16;
                  window = (if uint window * 4 < int TCP_IBLEN \<or> window < rcvmss t then 0 else window)
              in if window > unused then (window, t\<lparr>rcvwnd := seqadd (rcvnxt t) (ucast window)\<rparr>)
                 else (unused, t))"

definition out_bytes :: "tcb \<Rightarrow> u32 \<Rightarrow> nat \<Rightarrow> bytes" where
  \<comment> \<open>the copy loop of \<^verbatim>\<open>tcpSend\<close>\<close>
  "out_bytes t start n = map (\<lambda>i. obuf t (unat ((start + of_nat i) mod of_nat TCP_OBLEN))) [0..<n]"

definition tcpSend :: "tcp_env \<Rightarrow> u8 \<Rightarrow> u32 \<Rightarrow> u32 \<Rightarrow> u32 \<Rightarrow> u16 \<Rightarrow> tcb \<Rightarrow> (int \<times> tcb) option" where
  "tcpSend env ctrl seq ack datastart datalen t =
     (let datalen = (if has ctrl TCP_CTRL_SYN then datalen - 1 else datalen);
          msslen = (if has ctrl TCP_CTRL_SYN then 8 else 0) :: int;
          datalen = (if has ctrl TCP_CTRL_FIN then datalen - 1 else datalen);
          tcplen = word_of_int (TCP_HDR_LEN + uint datalen + msslen) :: u16
      in if uint tcplen > NET_MAX_PKTLEN then Some (SYSERR, t)
         else let (pkt, t) = ask env Getbuf t
         in if pkt = SYSERR then Some (SYSERR, t)
         else if uint tcplen < TCP_HDR_LEN + uint datalen + msslen then None
         else let (window, t) = tcpSendWindow t;
                  (result, t) = ask env (IpSend (localip t) (remoteip t)
                     \<lparr>sgsrcpt = localpt t, sgdstpt = remotept t, sgseq = seq, sgack = ack,
                       sghlen = nat (TCP_HDR_LEN + msslen), sgctrl = ctrl, sgwindow = window,
                       sgmss = (if msslen \<noteq> 0 then Some (rcvmss t + 20) else None),
                       sgdata = out_bytes t datastart (unat datalen)\<rparr>) t;
                  (freed, t) = ask env Freebuf t
         in if freed = SYSERR then Some (SYSERR, t) else Some (result, t))"

definition tcpSendAck :: "tcp_env \<Rightarrow> tcb \<Rightarrow> (int \<times> tcb) option" where
  "tcpSendAck env t =
     (let t = clear_flg TCP_FLG_SNDACK t in tcpSend env TCP_CTRL_ACK (sndnxt t) (rcvnxt t) 0 0 t)"

definition tcpSendSyn :: "tcp_env \<Rightarrow> tcb \<Rightarrow> (int \<times> tcb) option" where
  "tcpSendSyn env t = do {
     let (ctrl, t) = (if has (sndflg t) TCP_FLG_SNDACK then (TCP_CTRL_SYN OR TCP_CTRL_ACK, clear_flg TCP_FLG_SNDACK t)
                      else (TCP_CTRL_SYN, t));
     (r, t) \<leftarrow> tcpSend env ctrl (sndnxt t) (rcvnxt t) 0 1 t;
     if r = SYSERR then Some (SYSERR, t)
     else let t = set_flg TCP_FLG_SYN (t\<lparr>sndnxt := sndnxt t + 1\<rparr>);
              (r, t) = ask env (TimerSched (rxttime t) EVT_RXT) t
          in Some (if r = SYSERR then SYSERR else OK, t) }"

lemma unat_u16: "unat (w::u16) < 65536"
  using unsigned_less [of w, where ?'a = nat] by simp

lemma unat_ucast_u16 [simp]: "unat (ucast (w::u16) :: u32) = unat w"
  using unat_u16 [of w] by (simp add: unsigned_ucast_eq take_bit_eq_mod)

lemma unat_sub_less: "(b::u32) \<le> a \<Longrightarrow> b \<noteq> 0 \<Longrightarrow> unat (a - b) < unat a"
proof -
  assume a: "b \<le> a" "b \<noteq> 0"
  then have "0 < unat b" by (simp add: unat_gt_0)
  then show ?thesis using a(1) unat_sub_no_wrap [OF a(1)] by (simp add: word_le_nat_alt)
qed

lemma ucast_u16_neq_0: "(w::u16) \<noteq> 0 \<Longrightarrow> (ucast w :: u32) \<noteq> 0"
  using unat_ucast_u16 [of w] by (metis unat_0 unat_eq_0)

function send_segments :: "tcp_env \<Rightarrow> u32 \<Rightarrow> u32 \<Rightarrow> u32 \<Rightarrow> tcb \<Rightarrow> (u32 \<times> u32 \<times> u32 \<times> tcb) option" where
  "send_segments env tosend sent wndused t =
     (if tosend > ucast (sndmss t)
      then if sndmss t = 0 then None
           else do {
             (_, t') \<leftarrow> tcpSend env TCP_CTRL_ACK (sndnxt t) (rcvnxt t) ((ostart t + wndused) mod of_nat TCP_OBLEN) (sndmss t) t;
             send_segments env (tosend - ucast (sndmss t)) (sent + ucast (sndmss t)) (wndused + ucast (sndmss t))
               (t'\<lparr>sndnxt := seqadd (sndnxt t) (ucast (sndmss t))\<rparr>) }
      else Some (tosend, sent, wndused, t))"
  by pat_completeness auto
termination
  by (relation "measure (\<lambda>(env, tosend, sent, wndused, t). unat tosend)")
    (simp_all only: wf_measure in_measure case_prod_conv unat_sub_less [OF less_imp_le] ucast_u16_neq_0 not_False_eq_True)

declare send_segments.simps [simp del]

definition tcpSendData :: "tcp_env \<Rightarrow> tcb \<Rightarrow> (int \<times> tcb) option" where
  "tcpSendData env t =
     (if sndmss t = 0 then Some (SYSERR, t) else do {
        finsent \<leftarrow> and_then (Some (has (sndflg t) TCP_FLG_FIN)) (seqlt (sndfin t) (sndnxt t));
        if finsent then Some (SYSERR, t)
        else if rxtcount t > 0 \<or> has (sndflg t) TCP_FLG_PERSIST then Some (0, t)
        else if sndwnd t = 0
        then let t = (set_flg TCP_FLG_PERSIST t)\<lparr>psttime := TCP_PST_INITTIME\<rparr>
             in Some (0, notify (TimerSched (psttime t) EVT_PERSIST) t)
        else do {
          full \<leftarrow> seqlte (seqadd (snduna t) (sndwnd t)) (sndnxt t);
          if full then Some (0, t)
          else let pending = (if has (sndflg t) TCP_FLG_FIN then ocount t + 1 else ocount t);
                   wndused = tcpSeqdiff (sndnxt t) (snduna t)
          in if pending = wndused
          then do {
            unacked \<leftarrow> seqlt (snduna t) (sndnxt t);
            let (remain, t) = (if unacked then ask env (TimerRemain EVT_RXT) t else (1, t));
            Some (0, if unacked \<and> remain \<le> 0 then notify (TimerSched (rxttime t) EVT_RXT) t else t) }
          else do {
            let tosend = (if pending > sndwnd t then sndwnd t - wndused else pending - wndused);
            let ctrl = (if \<not> pending > sndwnd t \<and> has (sndflg t) TCP_FLG_FIN then TCP_CTRL_ACK OR TCP_CTRL_FIN
                        else TCP_CTRL_ACK);
            (tosend, sent, wndused, t) \<leftarrow> send_segments env tosend 0 wndused t;
            (_, t) \<leftarrow> tcpSend env ctrl (sndnxt t) (rcvnxt t) ((ostart t + wndused) mod of_nat TCP_OBLEN) (ucast tosend) t;
            let sent = sent + tosend;
            let t = t\<lparr>sndnxt := seqadd (sndnxt t) tosend\<rparr>;
            let (remain, t) = ask env (TimerRemain EVT_RXT) t;
            let t = (if remain \<le> 0 then notify (TimerSched (rxttime t) EVT_RXT) t else t);
            let t = (if sent > 0 then clear_flg TCP_FLG_SNDACK t else t);
            Some (to_int sent, clear_flg TCP_FLG_SNDDATA t) } } })"

definition tcpSendPersist :: "tcp_env \<Rightarrow> tcb \<Rightarrow> (int \<times> tcb) option" where
  "tcpSendPersist env t =
     (let t = notify (Wait (tmutex t)) t
      in if ocount t = 0
         then let t = clear_flg TCP_FLG_PERSIST t in Some (SYSERR, notify (Signal (tmutex t)) t)
         else do {
           time \<leftarrow> c_int (psttime t * 2);
           let t = t\<lparr>psttime := (if time > TCP_PST_MAXTIME then TCP_PST_MAXTIME else time)\<rparr>;
           let t = notify (TimerSched (psttime t) EVT_PERSIST) t;
           let tosend = (if ocount t > ucast (sndmss t) then ucast (sndmss t) else ocount t);
           (_, t) \<leftarrow> tcpSend env TCP_CTRL_ACK (snduna t) (rcvnxt t) (ostart t) (ucast tosend) t;
           Some (to_int tosend, notify (Signal (tmutex t)) t) })"

definition rxt_congestion :: "bool \<Rightarrow> tcb \<Rightarrow> tcb" where
  \<comment> \<open>the last part of \<^verbatim>\<open>tcpSendRxt\<close>: the sender congestion window\<close>
  "rxt_congestion first t =
     (let t = (if first then t\<lparr>sndsst := sndcwn t\<rparr> else t);
          t = (if sndwnd t < sndsst t then t\<lparr>sndsst := drop_bit 1 (sndwnd t)\<rparr> else t\<lparr>sndsst := drop_bit 1 (sndsst t)\<rparr>);
          t = (if sndsst t < ucast (sndmss t) then t\<lparr>sndsst := ucast (sndmss t)\<rparr> else t)
      in t\<lparr>sndcwn := ucast (sndmss t)\<rparr>)"

definition tcpSendRxt :: "tcp_env \<Rightarrow> tcb \<Rightarrow> (int \<times> tcb) option" where
  "tcpSendRxt env t = do {
     let t = notify (Wait (tmutex t)) t;
     unacked \<leftarrow> seqlt (snduna t) (sndnxt t);
     if \<not> unacked \<or> has (sndflg t) TCP_FLG_PERSIST then Some (SYSERR, notify (Signal (tmutex t)) t)
     else let first = (rxtcount t = 0); t = t\<lparr>rxtcount := rxtcount t + 1\<rparr>
     in if rxtcount t > TCP_RXT_MAXCOUNT then Some (0, snd (tcpFree t))
     else do {
       time \<leftarrow> c_int (rxttime t * 2 ^ unat (rxtcount t));
       let t = notify (TimerSched (if time > TCP_RXT_MAXTIME then TCP_RXT_MAXTIME else time) EVT_RXT) t;
       if has (sndflg t) TCP_FLG_SYN \<and> snduna t = iss t
       then do {
         (_, t) \<leftarrow> tcpSend env (if has (rcvflg t) TCP_FLG_SYN then TCP_CTRL_SYN OR TCP_CTRL_ACK else TCP_CTRL_SYN)
           (snduna t) (rcvnxt t) 0 1 t;
         Some (1, notify (Signal (tmutex t)) t) }
       else do {
         let pending = tcpSeqdiff (sndnxt t) (snduna t);
         fin \<leftarrow> and_then (Some (has (sndflg t) TCP_FLG_FIN))
                 (and_then (seqlte (snduna t) (sndfin t)) (seqlt (sndfin t) (sndnxt t)));
         let tosend = (if pending > ucast (sndmss t) then ucast (sndmss t) else pending);
         let ctrl = (if fin \<and> \<not> pending > ucast (sndmss t) then TCP_CTRL_ACK OR TCP_CTRL_FIN else TCP_CTRL_ACK);
         (_, t) \<leftarrow> tcpSend env ctrl (snduna t) (rcvnxt t) (ostart t) (ucast tosend) t;
         let t = rxt_congestion first t;
         Some (to_int tosend, notify (Signal (tmutex t)) t) } } }"

end
