(* ===== verification/Tcp_Recv.thy ===== *)
theory Tcp_Recv
  imports Tcp
begin

text \<open>
  The receiving side of the TCP device, \<^verbatim>\<open>device/tcp/tcpRecv*.c\<close>: options, acceptance test,
  acknowledgements and round trip times, data, and the handlers of the connection states.  A handler gets the
  packet and the control block and returns both, since the code changes control bits and the length in the
  packet itself.
\<close>

section \<open>The received packet\<close>

text \<open>The header fields in host order, the bytes of the packet buffer from the TCP header on, and the length
  \<^verbatim>\<open>tcplen\<close> that the handlers compute from \<^verbatim>\<open>pkt->len\<close>.\<close>

record tcpPkt =
  srcpt :: u16
  dstpt :: u16
  seqnum :: u32
  acknum :: u32
  offset :: u8
  control :: u8
  window :: u16
  tbytes :: bytes
  tcplen :: u16

definition offset2octets :: "u8 \<Rightarrow> int" where
  "offset2octets x = uint (drop_bit 4 x) * 4"

definition tcpSeglen :: "tcpPkt \<Rightarrow> u16" where
  "tcpSeglen p = word_of_int (uint (tcplen p) - offset2octets (offset p))"

section \<open>Options\<close>

abbreviation (input) TCP_OPT_END :: u8 where "TCP_OPT_END \<equiv> 0"
abbreviation (input) TCP_OPT_MSS :: u8 where "TCP_OPT_MSS \<equiv> 2"

function opts_loop :: "bytes \<Rightarrow> nat \<Rightarrow> int \<Rightarrow> tcb \<Rightarrow> tcb option" where
  "opts_loop d options endopt t =
     (case rd d options of
        None \<Rightarrow> None
      | Some kind \<Rightarrow>
          if kind \<noteq> TCP_OPT_END \<and> int options < endopt
          then if kind = TCP_OPT_MSS
               then do {
                 lo \<leftarrow> rd d (options + 2);
                 hi \<leftarrow> rd d (options + 3);
                 opts_loop d (options + 4) endopt (t\<lparr>sndmss := (ucast lo + push_bit 8 (ucast hi)) - 20\<rparr>) }
               else opts_loop d (options + 1) endopt t
          else Some t)"
  by pat_completeness auto
termination
  by (relation "measure (\<lambda>(d, options, endopt, t). length d - options)") (auto simp: rd_def split: if_splits)

declare opts_loop.simps [simp del]

definition tcpRecvOpts :: "tcpPkt \<Rightarrow> tcb \<Rightarrow> tcb option" where
  "tcpRecvOpts p t =
     (if offset2octets (offset p) = TCP_HDR_LEN then Some t
      else opts_loop (tbytes p) 20 (offset2octets (offset p)) t)"

section \<open>Acceptance test\<close>

definition tcpRecvValid :: "tcpPkt \<Rightarrow> tcb \<Rightarrow> (bool \<times> tcpPkt) option" where
  "tcpRecvValid p t = do {
     let seglen = tcpSeglen p;
     let availwnd = tcpSeqdiff (rcvwnd t) (rcvnxt t);
     let seglen = (if has (control p) TCP_CTRL_SYN then seglen + 1 else seglen);
     let seglen = (if has (control p) TCP_CTRL_FIN then seglen + 1 else seglen);
     result \<leftarrow>
       (if seglen = 0 \<and> availwnd = 0 then Some (seqnum p = rcvnxt t)
        else if seglen = 0 \<and> availwnd > 0
        then do { a \<leftarrow> seqlte (rcvnxt t) (seqnum p); b \<leftarrow> seqlt (seqnum p) (rcvwnd t); Some (a \<and> b) }
        else if seglen > 0 \<and> availwnd = 0 then Some False
        else do {
          a \<leftarrow> seqlte (rcvnxt t) (seqnum p);
          b \<leftarrow> seqlt (seqnum p) (rcvwnd t);
          let temp = seqadd (seqnum p) (ucast seglen - 1);
          c \<leftarrow> seqlte (rcvnxt t) temp;
          d \<leftarrow> seqlt temp (rcvwnd t);
          Some (a \<and> b \<or> c \<and> d) });
     Some (result,
       if availwnd = 0
       then p\<lparr>control := control p AND NOT (TCP_CTRL_PSH OR TCP_CTRL_SYN OR TCP_CTRL_FIN), tcplen := tcplen p - seglen\<rparr>
       else p) }"

section \<open>Acknowledgements\<close>

definition rtt_estimate :: "int \<Rightarrow> tcb \<Rightarrow> tcb option" where
  \<comment> \<open>the estimates of \<^verbatim>\<open>tcpRecvRtt\<close> for a measured round trip time\<close>
  "rtt_estimate rtt t = do {
     srtt \<leftarrow> (if sndrtt t = 0 then c_int (rtt * 8) else Some (sndrtt t));
     delta \<leftarrow> c_int (rtt - srtt div 8);
     srtt \<leftarrow> c_int (srtt + delta);
     delta \<leftarrow> c_int (abs delta);
     dev \<leftarrow> c_int (delta - sndrtd t div 4);
     dev \<leftarrow> c_int (sndrtd t + dev);
     time \<leftarrow> c_int (srtt div 4 + dev);
     let time = time div 2;
     Some (t\<lparr>sndrtt := srtt, sndrtd := dev, rxttime := (if time < TCP_RXT_MINTIME then TCP_RXT_MINTIME else time)\<rparr>) }"

definition tcpRecvRtt :: "tcp_env \<Rightarrow> tcb \<Rightarrow> (int \<times> tcb) option" where
  "tcpRecvRtt env t = do {
     let (rtt, t) = ask env (TimerPurge EVT_RXT) t;
     t \<leftarrow> (if rtt \<noteq> SYSERR \<and> rxtcount t = 0 then rtt_estimate rtt t else Some t);
     if sndcwn t < sndsst t then Some (OK, t\<lparr>sndcwn := sndcwn t + ucast (sndmss t)\<rparr>)
     else do {
       sq \<leftarrow> c_int (uint (sndmss t) * uint (sndmss t));
       if sndcwn t = 0 then None
       else Some (OK, t\<lparr>sndcwn := sndcwn t + to_u32 sq div sndcwn t\<rparr>) } }"

definition recv_acked :: "tcp_env \<Rightarrow> tcpPkt \<Rightarrow> tcb \<Rightarrow> tcb option" where
  \<comment> \<open>the part of \<^verbatim>\<open>tcpRecvAck\<close> for an acknowledgement of new data\<close>
  "recv_acked env p t = do {
     let amt = tcpSeqdiff (acknum p) (snduna t);
     let amt = (if has (sndflg t) TCP_FLG_SYN \<and> snduna t = iss t then amt - 1 else amt);
     fin \<leftarrow> and_then (Some (has (sndflg t) TCP_FLG_FIN)) (seqlt (sndfin t) (acknum p));
     let amt = (if fin then amt - 1 else amt);
     let t = t\<lparr>ostart := (ostart t + amt) mod of_nat TCP_OBLEN, ocount := ocount t - amt, obytes := obytes t + amt\<rparr>;
     let t = (if unat (ocount t) < TCP_OBLEN then notify (Signal (writers t)) t else t);
     let t = t\<lparr>snduna := acknum p, rxtcount := 0\<rparr>;
     (_, t) \<leftarrow> tcpRecvRtt env t;
     unacked \<leftarrow> seqlt (snduna t) (sndnxt t);
     Some (set_flg TCP_FLG_SNDDATA (if unacked then notify (TimerSched (rxttime t) EVT_RXT) t else t)) }"

definition recv_window :: "tcpPkt \<Rightarrow> tcb \<Rightarrow> tcb option" where
  \<comment> \<open>the part of \<^verbatim>\<open>tcpRecvAck\<close> that updates the send window\<close>
  "recv_window p t = do {
     let oldend = seqadd (sndwl2 t) (sndwnd t);
     let newend = seqadd (acknum p) (ucast (window p));
     let t = t\<lparr>sndwnd := ucast (window p), sndwl1 := seqnum p, sndwl2 := acknum p\<rparr>;
     notgrown \<leftarrow> seqlte newend oldend;
     Some (if notgrown then t
           else set_flg TCP_FLG_SNDDATA (clear_flg TCP_FLG_PERSIST (notify (TimerPurge EVT_PERSIST) t))) }"

definition tcpRecvAck :: "tcp_env \<Rightarrow> tcpPkt \<Rightarrow> tcb \<Rightarrow> (int \<times> tcb) option" where
  "tcpRecvAck env p t = do {
     new \<leftarrow> and_then (seqlt (snduna t) (acknum p)) (seqlte (acknum p) (sndnxt t));
     t \<leftarrow> (if new then recv_acked env p t else Some t);
     upd \<leftarrow> or_else (seqlt (sndwl1 t) (seqnum p))
             (and_then (Some (sndwl1 t = seqnum p)) (seqlte (sndwl2 t) (acknum p)));
     t \<leftarrow> (if upd then recv_window p t else Some t);
     ahead \<leftarrow> seqlt (sndnxt t) (acknum p);
     Some (OK, if ahead then set_flg TCP_FLG_SNDACK t else t) }"

section \<open>Data\<close>

fun recv_copy :: "bytes \<Rightarrow> nat \<Rightarrow> u32 \<Rightarrow> nat \<Rightarrow> nat \<Rightarrow> tcb \<Rightarrow> tcb option" where
  \<comment> \<open>the copy loop of \<^verbatim>\<open>tcpRecvData\<close> with \<open>n\<close> bytes left, at byte \<open>i\<close> of the data\<close>
  "recv_copy d data start i 0 t = Some t"
| "recv_copy d data start i (Suc n) t = do {
     b \<leftarrow> rd d (data + i);
     let index = unat ((start + of_nat i) mod of_nat TCP_IBLEN);
     recv_copy d data start (i + 1) n (t\<lparr>ibuf := (ibuf t)(index := b), imark := (imark t)(index := True)\<rparr>) }"

function recv_marked :: "tcb \<Rightarrow> (bool \<times> tcb) option" where
  \<comment> \<open>the loop over bytes that arrived out of order; the result says whether a stored FIN was reached\<close>
  "recv_marked t =
     (if \<not> unat (icount t) < TCP_IBLEN then Some (False, t)
      else if \<not> unat (inxt t) < TCP_IBLEN then None
      else if \<not> imark t (unat (inxt t)) then Some (False, t)
      else let t' = t\<lparr>icount := icount t + 1, ibytes := ibytes t + 1, inxt := (inxt t + 1) mod of_nat TCP_IBLEN,
                     rcvnxt := seqadd (rcvnxt t) 1\<rparr>
           in if has (rcvflg t') TCP_FLG_FIN \<and> rcvnxt t' = rcvfin t' then Some (True, t') else recv_marked t')"
  by pat_completeness auto
termination
  by (relation "measure (\<lambda>t. TCP_IBLEN - unat (icount t))") (auto simp: unat_word_ariths)

declare recv_marked.simps [simp del]

definition recv_advance :: "tcp_env \<Rightarrow> u16 \<Rightarrow> tcb \<Rightarrow> (bool \<times> tcb) option" where
  \<comment> \<open>the data starts at the beginning of the window: acknowledge it and what follows\<close>
  "recv_advance env seglen t = do {
     let t = t\<lparr>icount := icount t + ucast seglen, ibytes := ibytes t + ucast seglen,
               inxt := (inxt t + ucast seglen) mod of_nat TCP_IBLEN, rcvnxt := seqadd (rcvnxt t) (ucast seglen)\<rparr>;
     (fin, t) \<leftarrow> recv_marked t;
     let (n, t) = ask env (Semcount (readers t)) t;
     let t = (if n < 1 then notify (Signal (readers t)) t else t);
     Some (fin, set_flg TCP_FLG_SNDACK t) }"

definition recv_place :: "tcpPkt \<Rightarrow> tcb \<Rightarrow> (tcpPkt \<times> u16 \<times> nat \<times> u32) option" where
  \<comment> \<open>where the data starts in the segment and in the buffer and how much of it is copied\<close>
  "recv_place p t = do {
     let seglen = tcpSeglen p;
     let data = nat (offset2octets (offset p));
     old \<leftarrow> seqlt (seqnum p) (rcvnxt t);
     let offs = (if old then tcpSeqdiff (rcvnxt t) (seqnum p) else tcpSeqdiff (seqnum p) (rcvnxt t));
     let data = (if old then data + unat offs else data);
     let seglen = (if old then ucast (ucast seglen - offs) else seglen);
     let start = (if old then inxt t else (inxt t + offs) mod of_nat TCP_IBLEN);
     let wnd = tcpSeqdiff (rcvwnd t) (rcvnxt t) - offs;
     let p = (if ucast seglen > wnd then p\<lparr>control := control p AND NOT TCP_CTRL_FIN\<rparr> else p);
     let seglen = (if ucast seglen > wnd then ucast wnd else seglen);
     Some (p, seglen, data, start) }"

definition recv_text :: "tcp_env \<Rightarrow> tcpPkt \<Rightarrow> tcb \<Rightarrow> (u16 \<times> tcpPkt \<times> tcb) option" where
  \<comment> \<open>the part of \<^verbatim>\<open>tcpRecvData\<close> that stores the data in the input buffer\<close>
  "recv_text env p t = do {
     (p, seglen, data, start) \<leftarrow> recv_place p t;
     t \<leftarrow> recv_copy (tbytes p) data start 0 (unat seglen) t;
     if start = inxt t
     then do {
       (fin, t) \<leftarrow> recv_advance env seglen t;
       Some (seglen, if fin then p\<lparr>control := control p OR TCP_CTRL_FIN\<rparr> else p, t) }
     else Some (seglen, p, t) }"

definition wake_readers :: "tcp_env \<Rightarrow> tcb \<Rightarrow> tcb" where
  "wake_readers env t =
     (let (n, t) = ask env (Semcount (readers t)) t
      in if n < 0 then let (n, t) = ask env (Semcount (readers t)) t in notify (Signaln (readers t) (- n)) t else t)"

definition recv_fin_state :: "tcb \<Rightarrow> tcb option" where
  \<comment> \<open>the switch of \<^verbatim>\<open>tcpRecvData\<close> on the state when a FIN is expected next\<close>
  "recv_fin_state t = (case tcpstate t of
       TCP_SYNRECV \<Rightarrow> Some (t\<lparr>rcvnxt := seqadd (rcvnxt t) 1, tcpstate := TCP_CLOSEWT\<rparr>)
     | TCP_ESTAB \<Rightarrow> Some (t\<lparr>rcvnxt := seqadd (rcvnxt t) 1, tcpstate := TCP_CLOSEWT\<rparr>)
     | TCP_FINWT1 \<Rightarrow> do {
         let t = t\<lparr>rcvnxt := seqadd (rcvnxt t) 1\<rparr>;
         finacked \<leftarrow> seqlt (sndfin t) (snduna t);
         Some (if finacked
               then (notify (TimerPurge EVT_ALL) (notify (TimerSched TCP_TWOMSL EVT_TIMEWT) t))\<lparr>tcpstate := TCP_TIMEWT\<rparr>
               else t\<lparr>tcpstate := TCP_CLOSING\<rparr>) }
     | TCP_FINWT2 \<Rightarrow>
         Some (notify (TimerSched TCP_TWOMSL EVT_TIMEWT) (notify (TimerPurge EVT_ALL) (t\<lparr>rcvnxt := seqadd (rcvnxt t) 1\<rparr>)))
     | TCP_TIMEWT \<Rightarrow>
         Some (set_flg TCP_FLG_SNDACK (notify (TimerSched TCP_TWOMSL EVT_TIMEWT) (notify (TimerPurge EVT_ALL) t)))
     | TCP_CLOSEWT \<Rightarrow> Some (set_flg TCP_FLG_SNDACK t)
     | TCP_CLOSING \<Rightarrow> Some (set_flg TCP_FLG_SNDACK t)
     | TCP_LASTACK \<Rightarrow> Some (set_flg TCP_FLG_SNDACK t)
     | _ \<Rightarrow> Some t)"

definition recv_fin :: "tcp_env \<Rightarrow> u16 \<Rightarrow> tcpPkt \<Rightarrow> tcb \<Rightarrow> tcb option" where
  "recv_fin env seglen p t = do {
     let t = (if has (rcvflg t) TCP_FLG_FIN then t
              else t\<lparr>rcvfin := seqadd (seqnum p) (ucast seglen), rcvflg := rcvflg t OR TCP_FLG_FIN\<rparr>);
     if rcvnxt t = rcvfin t
     then do { t \<leftarrow> recv_fin_state (wake_readers env t); Some (set_flg TCP_FLG_SNDACK t) }
     else Some t }"

definition send_pending :: "tcp_env \<Rightarrow> tcb \<Rightarrow> tcb option" where
  \<comment> \<open>the end of \<^verbatim>\<open>tcpRecvData\<close>: send data and acknowledgement as the flags demand\<close>
  "send_pending env t = do {
     t \<leftarrow> (if has (sndflg t) TCP_FLG_SNDDATA then map_option snd (tcpSendData env t) else Some t);
     if has (sndflg t) TCP_FLG_SNDACK then map_option snd (tcpSendAck env t) else Some t }"

definition tcpRecvData :: "tcp_env \<Rightarrow> tcpPkt \<Rightarrow> tcb \<Rightarrow> (int \<times> tcpPkt \<times> tcb) option" where
  "tcpRecvData env p t = do {
     (seglen, p, t) \<leftarrow>
       (if tcpSeglen p > 0 \<and> tcpstate t \<in> {TCP_ESTAB, TCP_FINWT1, TCP_FINWT2} then recv_text env p t
        else Some (tcpSeglen p, p, t));
     t \<leftarrow> (if has (control p) TCP_CTRL_FIN then recv_fin env seglen p t else Some t);
     t \<leftarrow> send_pending env t;
     Some (OK, p, t) }"

section \<open>The states\<close>

definition tcpRecvListen :: "tcp_env \<Rightarrow> netaddr \<Rightarrow> tcpPkt \<Rightarrow> tcb \<Rightarrow> (int \<times> tcpPkt \<times> tcb) option" where
  "tcpRecvListen env src p t =
     (if has (control p) TCP_CTRL_RST then Some (OK, p, t)
      else if has (control p) TCP_CTRL_ACK then Some (OK, p, set_flg TCP_FLG_SNDRST t)
      else if has (control p) TCP_CTRL_SYN
      then do {
        let t = t\<lparr>rcvnxt := seqadd (seqnum p) 1, rcvwnd := seqadd (seqnum p) TCP_INIT_WND, rcvflg := rcvflg t OR TCP_FLG_SYN\<rparr>;
        let t = set_flg TCP_FLG_SNDACK t;
        let t = (if remotept t = 0 then t\<lparr>remotept := srcpt p\<rparr> else t);
        let t = (if natype (remoteip t) = 0 then t\<lparr>remoteip := src\<rparr> else t);
        let t = t\<lparr>sndwnd := ucast (window p), sndwl1 := seqnum p\<rparr>;
        (_, t) \<leftarrow> tcpSendSyn env t;
        t \<leftarrow> (if has (sndflg t) TCP_FLG_SNDACK then map_option snd (tcpSendAck env t) else Some t);
        tcpRecvData env p (t\<lparr>tcpstate := TCP_SYNRECV\<rparr>) }
      else Some (OK, p, t))"

definition synsent_syn :: "tcp_env \<Rightarrow> bool \<Rightarrow> tcpPkt \<Rightarrow> tcb \<Rightarrow> (int \<times> tcpPkt \<times> tcb) option" where
  \<comment> \<open>the SYN part of \<^verbatim>\<open>tcpRecvSynsent\<close>\<close>
  "synsent_syn env ackAccept p t = do {
     let t = t\<lparr>sndwnd := ucast (window p), sndwl1 := seqnum p, rcvnxt := seqadd (seqnum p) 1,
               rcvwnd := seqadd (seqnum p) TCP_INIT_WND, rcvflg := rcvflg t OR TCP_FLG_SYN\<rparr>;
     let t = set_flg TCP_FLG_SNDACK t;
     let t = (if ackAccept then t\<lparr>snduna := acknum p, sndwl2 := acknum p\<rparr> else t);
     let t = notify (TimerPurge EVT_RXT) (t\<lparr>rxtcount := 0\<rparr>);
     unacked \<leftarrow> seqlt (snduna t) (sndnxt t);
     let t = (if unacked then notify (TimerSched (rxttime t) EVT_RXT) t else t);
     acked \<leftarrow> seqlt (iss t) (snduna t);
     if acked
     then tcpRecvData env p (set_flg TCP_FLG_SNDDATA (notify (Signal (openclose t)) (t\<lparr>tcpstate := TCP_ESTAB\<rparr>)))
     else do {
       let t = t\<lparr>tcpstate := TCP_SYNRECV\<rparr>;
       (_, t) \<leftarrow> tcpSend env (TCP_CTRL_SYN OR TCP_CTRL_ACK) (iss t) (rcvnxt t) 0 1 t;
       tcpRecvData env p t } }"

definition tcpRecvSynsent :: "tcp_env \<Rightarrow> tcpPkt \<Rightarrow> tcb \<Rightarrow> (int \<times> tcpPkt \<times> tcb) option" where
  "tcpRecvSynsent env p t = do {
     bad \<leftarrow> and_then (Some (has (control p) TCP_CTRL_ACK))
             (or_else (seqlte (acknum p) (iss t)) (seqlt (sndnxt t) (acknum p)));
     if bad then Some (OK, p, if has (control p) TCP_CTRL_RST then t else set_flg TCP_FLG_SNDRST t)
     else do {
       ackAccept \<leftarrow> and_then (Some (has (control p) TCP_CTRL_ACK))
                     (and_then (seqlte (snduna t) (acknum p)) (seqlte (acknum p) (sndnxt t)));
       if has (control p) TCP_CTRL_RST then Some (if ackAccept then TCP_ERR_RESET else OK, p, t)
       else if has (control p) TCP_CTRL_SYN then synsent_syn env ackAccept p t
       else Some (OK, p, t) } }"

definition fin_acked :: "tcb \<Rightarrow> bool option" where
  "fin_acked t = seqlte (sndfin t) (snduna t)"

text \<open>The switch of \<^verbatim>\<open>tcpRecvOther\<close> on the state for a segment with an acknowledgement.  The first component of
  the result is a value with which the handler returns at once.\<close>

definition other_ack :: "tcp_env \<Rightarrow> tcpPkt \<Rightarrow> tcb \<Rightarrow> (int option \<times> tcb) option" where
  "other_ack env p t = (case tcpstate t of
       TCP_SYNRECV \<Rightarrow> do {
         good \<leftarrow> and_then (seqlte (snduna t) (acknum p)) (seqlte (acknum p) (sndnxt t));
         if good
         then do { (_, t) \<leftarrow> tcpRecvAck env p (notify (Signal (openclose t)) (t\<lparr>tcpstate := TCP_ESTAB\<rparr>)); Some (None, t) }
         else Some (Some OK, set_flg TCP_FLG_SNDRST t) }
     | TCP_CLOSEWT \<Rightarrow> do { (_, t) \<leftarrow> tcpRecvAck env p t; Some (None, t) }
     | TCP_ESTAB \<Rightarrow> do { (_, t) \<leftarrow> tcpRecvAck env p t; Some (None, t) }
     | TCP_FINWT1 \<Rightarrow> do {
         (_, t) \<leftarrow> tcpRecvAck env p t;
         acked \<leftarrow> fin_acked t;
         Some (None, if acked then (notify (Signal (openclose t)) t)\<lparr>tcpstate := TCP_FINWT2\<rparr> else t) }
     | TCP_FINWT2 \<Rightarrow> do {
         (_, t) \<leftarrow> tcpRecvAck env p t;
         let (remain, t) = ask env (TimerRemain EVT_RXT) t;
         Some (None, if remain \<le> 0 then notify (Signal (openclose t)) t else t) }
     | TCP_CLOSING \<Rightarrow> do {
         (_, t) \<leftarrow> tcpRecvAck env p t;
         acked \<leftarrow> fin_acked t;
         Some (None, if acked
           then notify (TimerSched TCP_TWOMSL EVT_TIMEWT) ((notify (Signal (openclose t)) t)\<lparr>tcpstate := TCP_FINWT2\<rparr>)
           else t) }
     | TCP_LASTACK \<Rightarrow> do {
         acked \<leftarrow> fin_acked t;
         Some (if acked then (Some TCP_ERR_RESET, notify (Signal (openclose t)) t) else (None, t)) }
     | TCP_TIMEWT \<Rightarrow> Some (None, notify (TimerSched TCP_TWOMSL EVT_TIMEWT) (notify (TimerPurge EVT_ALL) t))
     | _ \<Rightarrow> Some (None, t))"

definition tcpRecvOther :: "tcp_env \<Rightarrow> tcpPkt \<Rightarrow> tcb \<Rightarrow> (int \<times> tcpPkt \<times> tcb) option" where
  "tcpRecvOther env p t = do {
     (segAccept, p) \<leftarrow> tcpRecvValid p t;
     if \<not> segAccept
     then if has (control p) TCP_CTRL_RST then Some (OK, p, t)
          else do { (_, t) \<leftarrow> tcpSendAck env t; Some (OK, p, t) }
     else if has (control p) TCP_CTRL_RST \<and> tcpstate t = TCP_SYNRECV
     then let t = notify (TimerPurge EVT_RXT) (t\<lparr>rxtcount := 0\<rparr>)
          in if opentype t = TCP_PASSIVE then Some (OK, p, t\<lparr>tcpstate := TCP_LISTEN\<rparr>) else Some (TCP_ERR_RESET, p, t)
     else if has (control p) TCP_CTRL_RST \<and>
       tcpstate t \<in> {TCP_ESTAB, TCP_FINWT1, TCP_FINWT2, TCP_CLOSEWT, TCP_CLOSING, TCP_LASTACK, TCP_TIMEWT}
     then Some (TCP_ERR_RESET, p, t)
     else if has (control p) TCP_CTRL_SYN then Some (TCP_ERR_RESET, p, set_flg TCP_FLG_SNDRST t)
     else if \<not> has (control p) TCP_CTRL_ACK then Some (OK, p, t)
     else do {
       (r, t) \<leftarrow> other_ack env p t;
       case r of Some v \<Rightarrow> Some (v, p, t) | None \<Rightarrow> tcpRecvData env p t } }"

end
