(* ===== verification/Tcp_Dev.thy ===== *)
theory Tcp_Dev
  imports Tcp_Recv
begin

text \<open>
  The TCP device: the table of control blocks, the delivery of a received packet (\<^verbatim>\<open>tcpRecv.c\<close>,
  \<^verbatim>\<open>tcpDemux.c\<close>, \<^verbatim>\<open>tcpChksum.c\<close>, \<^verbatim>\<open>tcpSendRst.c\<close>) and the device operations open, close, read, write, getc,
  putc and control.  An operation on the table keeps the trace of its calls in \<open>tcptrace\<close> and lends it to the
  control block it works on.
\<close>

record tcps =
  tcptab :: "tcb list"
  tcptrace :: "tcp_call list"
  nextseq :: int
  nextport :: nat

definition at_tcb :: "nat \<Rightarrow> (tcb \<Rightarrow> ('a \<times> tcb) option) \<Rightarrow> tcps \<Rightarrow> ('a \<times> tcps) option" where
  \<comment> \<open>work on the control block \<open>&tcptab[i]\<close>\<close>
  "at_tcb i f s =
     (if i < length (tcptab s)
      then do {
        (r, t) \<leftarrow> f ((tcptab s ! i)\<lparr>calls := tcptrace s\<rparr>);
        Some (r, s\<lparr>tcptab := (tcptab s)[i := t\<lparr>calls := []\<rparr>], tcptrace := calls t\<rparr>) }
      else None)"

definition told :: "tcp_call \<Rightarrow> tcps \<Rightarrow> tcps" where
  "told c s = s\<lparr>tcptrace := tcptrace s @ [c]\<rparr>"

section \<open>Receiving a packet\<close>

definition tcpChksum :: "bytes \<Rightarrow> u16 \<Rightarrow> netaddr \<Rightarrow> netaddr \<Rightarrow> u16 option" where
  "tcpChksum d len src dst =
     (if length (naddr src) < 4 \<or> length (naddr dst) < 4 then None
      else netChksum (take 4 (naddr src) @ take 4 (naddr dst) @ [0, 6] @ [ucast (drop_bit 8 len), ucast len] @ d)
             (unat len + 12))"

definition rd32 :: "bytes \<Rightarrow> nat \<Rightarrow> u32 option" where
  "rd32 d i = do { lo \<leftarrow> rd16 d i; hi \<leftarrow> rd16 d (i + 2); Some (lo + push_bit 16 hi) }"

definition tcp_host :: "bytes \<Rightarrow> u16 \<Rightarrow> tcpPkt option" where
  \<comment> \<open>the header fields of a packet, converted to host order\<close>
  "tcp_host d len = do {
     sp \<leftarrow> rd16 d 0; dp \<leftarrow> rd16 d 2; sq \<leftarrow> rd32 d 4; ak \<leftarrow> rd32 d 8; off \<leftarrow> rd d 12; ctl \<leftarrow> rd d 13; win \<leftarrow> rd16 d 14;
     Some \<lparr>srcpt = ucast (net2hs sp), dstpt = ucast (net2hs dp), seqnum = net2hl sq, acknum = net2hl ak,
       offset = off, control = ctl, window = ucast (net2hs win), tbytes = d, tcplen = len\<rparr> }"

definition tcpSendRst :: "tcp_env \<Rightarrow> u16 \<Rightarrow> tcpPkt \<Rightarrow> netaddr \<Rightarrow> netaddr \<Rightarrow> tcps \<Rightarrow> int \<times> tcps" where
  \<comment> \<open>the window field is not set: it is \<open>junk\<close>, what the new buffer held\<close>
  "tcpSendRst env junk p src dst s =
     (if has (control p) TCP_CTRL_RST then (OK, s)
      else let s = told Getbuf s
      in if env (tcptrace s) = SYSERR then (SYSERR, s)
      else let datalen = tcpSeglen p;
               datalen = (if has (control p) TCP_CTRL_SYN then datalen + 1 else datalen);
               datalen = (if has (control p) TCP_CTRL_FIN then datalen + 1 else datalen);
               s = told (IpSend src dst
                 \<lparr>sgsrcpt = dstpt p, sgdstpt = srcpt p,
                   sgseq = (if has (control p) TCP_CTRL_ACK then acknum p else 0),
                   sgack = seqnum p + ucast datalen, sghlen = 20,
                   sgctrl = (if has (control p) TCP_CTRL_ACK then TCP_CTRL_RST else TCP_CTRL_RST OR TCP_CTRL_ACK),
                   sgwindow = junk, sgmss = None, sgdata = []\<rparr>) s;
               result = env (tcptrace s);
               s = told Freebuf s
           in if env (tcptrace s) = SYSERR then (SYSERR, s) else (result, s))"

text \<open>One step of the search for the best matching control block: the best index and its level so far.\<close>

definition demux_step :: "u16 \<Rightarrow> u16 \<Rightarrow> netaddr \<Rightarrow> netaddr \<Rightarrow> nat \<Rightarrow> tcb \<Rightarrow> nat option \<times> nat \<Rightarrow> (nat option \<times> nat) option" where
  "demux_step dpt spt dst src i t best =
     (if tcpstate t = TCP_CLOSED then Some best
      else do {
        full \<leftarrow> and_then (Some (snd best < 3 \<and> localpt t = dpt \<and> remotept t = spt))
                 (and_then (netaddrequal (localip t) dst) (netaddrequal (remoteip t) src));
        let best = (if full then (Some i, 3) else best);
        ports \<leftarrow> and_then (Some (snd best < 2 \<and> localpt t = dpt \<and> remotept t = spt))
                  (and_then (netaddrequal (localip t) dst) (Some (natype (remoteip t) = 0)));
        let best = (if ports then (Some i, 2) else best);
        port \<leftarrow> and_then (Some (snd best < 1 \<and> localpt t = dpt \<and> remotept t = 0))
                 (and_then (netaddrequal (localip t) dst) (Some (natype (remoteip t) = 0)));
        Some (if port then (Some i, 1) else best) })"

fun demux_loop :: "u16 \<Rightarrow> u16 \<Rightarrow> netaddr \<Rightarrow> netaddr \<Rightarrow> nat \<Rightarrow> tcb list \<Rightarrow> nat option \<times> nat \<Rightarrow> (nat option \<times> nat) option" where
  "demux_loop dpt spt dst src i [] best = Some best"
| "demux_loop dpt spt dst src i (t # ts) best = do {
     best \<leftarrow> demux_step dpt spt dst src i t best;
     demux_loop dpt spt dst src (i + 1) ts best }"

definition tcpDemux :: "u16 \<Rightarrow> u16 \<Rightarrow> netaddr \<Rightarrow> netaddr \<Rightarrow> tcps \<Rightarrow> (nat option \<times> tcps) option" where
  "tcpDemux dpt spt dst src s = do {
     (best, _) \<leftarrow> demux_loop dpt spt dst src 0 (tcptab s) (None, 0);
     Some (best, s\<lparr>tcptrace := tcptrace s @ concat (map (\<lambda>t. [Wait (tmutex t), Signal (tmutex t)]) (tcptab s))\<rparr>) }"

definition recv_dispatch :: "tcp_env \<Rightarrow> netaddr \<Rightarrow> tcpPkt \<Rightarrow> tcb \<Rightarrow> ((int \<times> tcpPkt) \<times> tcb) option" where
  \<comment> \<open>options and the switch of \<^verbatim>\<open>tcpRecv\<close> on the state\<close>
  "recv_dispatch env src p t = do {
     t \<leftarrow> tcpRecvOpts p t;
     (r, p, t) \<leftarrow>
       (if tcpstate t = TCP_LISTEN then tcpRecvListen env src p t
        else if tcpstate t = TCP_SYNSENT then tcpRecvSynsent env p t
        else tcpRecvOther env p t);
     Some ((r, p), t) }"

definition tcpRecv :: "tcp_env \<Rightarrow> u16 \<Rightarrow> bytes \<Rightarrow> u16 \<Rightarrow> netaddr \<Rightarrow> netaddr \<Rightarrow> tcps \<Rightarrow> (int \<times> tcps) option" where
  "tcpRecv env junk d len src dst s = do {
     sum \<leftarrow> tcpChksum d len src dst;
     if sum \<noteq> 0 then Some (OK, told Freebuf s)
     else do {
       p \<leftarrow> tcp_host d len;
       (found, s) \<leftarrow> tcpDemux (dstpt p) (srcpt p) dst src s;
       case found of
         None \<Rightarrow> let s = told Freebuf (snd (tcpSendRst env junk p src dst s)) in Some (env (tcptrace s), s)
       | Some i \<Rightarrow>
           let s = told (Wait (tmutex (tcptab s ! i))) s
           in if tcpstate (tcptab s ! i) = TCP_CLOSED
           then let s = snd (tcpSendRst env junk p src dst s);
                    s = told Freebuf (told (Signal (tmutex (tcptab s ! i))) s)
                in Some (env (tcptrace s), s)
           else do {
             ((r, p), s) \<leftarrow> at_tcb i (recv_dispatch env src p) s;
             let s = (if has (sndflg (tcptab s ! i)) TCP_FLG_SNDRST then snd (tcpSendRst env junk p src dst s) else s);
             if r = TCP_ERR_RESET
             then let s = told Freebuf s
                  in if env (tcptrace s) = SYSERR then Some (SYSERR, s) else at_tcb i (\<lambda>t. Some (tcpFree t)) s
             else let s = told Freebuf (told (Signal (tmutex (tcptab s ! i))) s)
                  in Some (if env (tcptrace s) = SYSERR then SYSERR else r, s) } } }"

definition tcpTimerTrigger :: "tcp_env \<Rightarrow> tcp_evt \<Rightarrow> tcb \<Rightarrow> tcb option" where
  "tcpTimerTrigger env ty t = (case ty of
       EVT_TIMEWT \<Rightarrow> Some (snd (tcpFree (notify (Wait (tmutex t)) t)))
     | EVT_RXT \<Rightarrow> map_option snd (tcpSendRxt env t)
     | EVT_PERSIST \<Rightarrow> map_option snd (tcpSendPersist env t)
     | EVT_ALL \<Rightarrow> Some t)"

section \<open>Opening and closing\<close>

definition tcpInit :: "tcp_env \<Rightarrow> nat \<Rightarrow> tcps \<Rightarrow> (int \<times> tcps) option" where
  "tcpInit env i s = at_tcb i (\<lambda>t. do {
     let t = tcb0\<lparr>tcpstate := TCP_CLOSED, devstate := TCP_FREE, calls := calls t\<rparr>;
     let (m, t) = ask env (Semcreate 1) t;
     Some (if m = SYSERR then SYSERR else OK, t\<lparr>tmutex := to_u32 m\<rparr>) }) s"

fun tcpAlloc_loop :: "nat \<Rightarrow> tcb list \<Rightarrow> tcp_call list \<Rightarrow> int \<times> tcb list \<times> tcp_call list" where
  "tcpAlloc_loop i [] tr = (SYSERR, [], tr)"
| "tcpAlloc_loop i (t # ts) tr =
     (let tr = tr @ [Wait (tmutex t), Signal (tmutex t)]
      in if devstate t = TCP_FREE then (int i + 17, t\<lparr>devstate := TCP_ALLOC\<rparr> # ts, tr)
         else let (r, ts, tr) = tcpAlloc_loop (i + 1) ts tr in (r, t # ts, tr))"

definition tcpAlloc :: "tcps \<Rightarrow> u16 \<times> tcps" where
  "tcpAlloc s = (let (r, ts, tr) = tcpAlloc_loop 0 (tcptab s) (tcptrace s)
                 in (word_of_int r, s\<lparr>tcptab := ts, tcptrace := tr\<rparr>))"

definition tcpIss :: "u32 \<Rightarrow> tcps \<Rightarrow> (u32 \<times> tcps) option" where
  "tcpIss clktime s = do {
     let n = (if nextseq s = 0 then to_int clktime else nextseq s);
     n \<leftarrow> c_int (n + TCP_SEQINCR);
     Some (to_u32 n, s\<lparr>nextseq := n\<rparr>) }"

definition tcpSetup :: "tcp_env \<Rightarrow> u32 \<Rightarrow> tcb \<Rightarrow> int \<times> tcb" where
  \<comment> \<open>\<open>start\<close> is the result of \<^verbatim>\<open>tcpIss\<close>\<close>
  "tcpSetup env start t =
     (let (oc, t) = ask env (Semcreate 0) t;
          t = t\<lparr>openclose := to_u32 oc, istart := 0, inxt := 0, icount := 0, ibytes := 0\<rparr>;
          (rd, t) = ask env (Semcreate 0) t;
          t = t\<lparr>readers := to_u32 rd, ostart := 0, ocount := 0, obytes := 0\<rparr>;
          (wr, t) = ask env (Semcreate 1) t;
          t = t\<lparr>writers := to_u32 wr, iss := start, snduna := start, sndnxt := start, sndwl2 := start,
                sndmss := TCP_INIT_MSS, sndflg := 0, sndcwn := ucast TCP_INIT_MSS, sndsst := TCP_MAX_WND,
                rxttime := TCP_RXT_INITTIME, rxtcount := 0, psttime := TCP_PST_INITTIME,
                rcvmss := TCP_INIT_MSS - 20, rcvflg := 0\<rparr>
      in (if openclose t = SYSERR_u \<or> readers t = SYSERR_u \<or> writers t = SYSERR_u then SYSERR else OK, t))"

definition tcpOpenActive :: "tcp_env \<Rightarrow> tcb \<Rightarrow> (int \<times> tcb) option" where
  "tcpOpenActive env t =
     (if remotept t = 0 \<or> natype (remoteip t) = 0 \<or> natype (localip t) = 0 then Some (TCP_ERR_NOSPEC, t)
      else do {
        (r, t) \<leftarrow> tcpSendSyn env t;
        Some (if r = SYSERR then (SYSERR, t) else (OK, t\<lparr>tcpstate := TCP_SYNSENT\<rparr>)) })"

text \<open>The port search restarts its loop variable at 0 and the loop then increments it, so a restarted search
  begins with entry 1.\<close>

partial_function (option) allocPort_loop :: "tcb list \<Rightarrow> nat \<Rightarrow> nat \<Rightarrow> nat option" where
  "allocPort_loop tab i port =
     (if i < length tab
      then if tcpstate (tab ! i) \<noteq> TCP_CLOSED \<and> unat (localpt (tab ! i)) = port + 10000
           then allocPort_loop tab 1 ((port + 1) mod 55000)
           else allocPort_loop tab (i + 1) port
      else Some port)"

definition allocPort :: "tcps \<Rightarrow> (u16 \<times> tcps) option" where
  "allocPort s = do {
     port \<leftarrow> allocPort_loop (tcptab s) 0 ((nextport s + 1) mod 55000);
     Some (of_nat (port + 10000), s\<lparr>nextport := port\<rparr>) }"

definition open_tcb :: "tcp_env \<Rightarrow> u16 \<Rightarrow> netaddr \<Rightarrow> netaddr option \<Rightarrow> u16 \<Rightarrow> u16 \<Rightarrow> u8 \<Rightarrow> u32 \<Rightarrow> tcb \<Rightarrow> (int \<times> tcb) option" where
  \<comment> \<open>\<^verbatim>\<open>tcpOpen\<close> from the link to the device table on\<close>
  "open_tcb env num lip rip lpt rpt mode start t = do {
     let t = t\<lparr>tdev := num, localpt := lpt, localip := lip, remotept := rpt\<rparr>;
     let t = (case rip of None \<Rightarrow> t\<lparr>remoteip := (remoteip t)\<lparr>natype := 0\<rparr>\<rparr> | Some a \<Rightarrow> t\<lparr>remoteip := a\<rparr>);
     let t = t\<lparr>opentype := mode\<rparr>;
     let (r, t) = tcpSetup env start t;
     if r = SYSERR then Some (SYSERR, snd (tcpFree t))
     else do {
       (r, t) \<leftarrow> (if mode = TCP_PASSIVE then Some (OK, t\<lparr>tcpstate := TCP_LISTEN\<rparr>)
                  else if mode = TCP_ACTIVE then tcpOpenActive env t
                  else Some (SYSERR, t));
       if r = SYSERR then Some (SYSERR, snd (tcpFree t))
       else Some (OK, notify (Wait (openclose t)) (notify (Signal (tmutex t)) t)) } }"

definition tcpOpen :: "tcp_env \<Rightarrow> u32 \<Rightarrow> nat \<Rightarrow> u16 \<Rightarrow> netaddr option \<Rightarrow> netaddr option \<Rightarrow> u16 \<Rightarrow> u16 \<Rightarrow> u8 \<Rightarrow> tcps \<Rightarrow> (int \<times> tcps) option" where
  "tcpOpen env clktime minor num lip rip lpt rpt mode s = do {
     (st, s) \<leftarrow> at_tcb minor (\<lambda>t. Some (tcpstate t, (notify (Wait (tmutex t)) t)\<lparr>devstate := TCP_ALLOC\<rparr>)) s;
     if st \<noteq> TCP_CLOSED \<and> st \<noteq> TCP_LISTEN
     then at_tcb minor (\<lambda>t. Some (SYSERR, notify (Signal (tmutex t)) t)) s
     else case lip of
       None \<Rightarrow> at_tcb minor (\<lambda>t. Some (SYSERR, notify (Signal (tmutex t)) (t\<lparr>devstate := TCP_FREE\<rparr>))) s
     | Some lip \<Rightarrow> do {
         (lpt, s) \<leftarrow> (if lpt = 0 then allocPort s else Some (lpt, s));
         (start, s) \<leftarrow> tcpIss clktime s;
         at_tcb minor (open_tcb env num lip rip lpt rpt mode start) s } }"

definition wake_all :: "tcp_env \<Rightarrow> u32 \<Rightarrow> tcb \<Rightarrow> tcb" where
  \<comment> \<open>return outstanding readers or writers with an error\<close>
  "wake_all env q t =
     (let (n, t) = ask env (Semcount q) t
      in if n < 0 then let (n, t) = ask env (Semcount q) t in notify (Signaln q (- n)) t else t)"

definition close_fin :: "tcb \<Rightarrow> tcb" where
  \<comment> \<open>the FIN follows the data in the output buffer\<close>
  "close_fin t = set_flg TCP_FLG_FIN (t\<lparr>sndfin := seqadd (snduna t) (ocount t)\<rparr>)"

definition close_end :: "tcp_env \<Rightarrow> tcb \<Rightarrow> (int \<times> tcb) option" where
  "close_end env t = do {
     t \<leftarrow> (if has (sndflg t) TCP_FLG_SNDDATA then map_option snd (tcpSendData env t) else Some t);
     let t = notify (Signal (tmutex t)) t;
     Some (OK, notify (Wait (openclose t)) t) }"

definition tcpClose :: "tcp_env \<Rightarrow> tcb \<Rightarrow> (int \<times> tcb) option" where
  "tcpClose env t =
     (let t = notify (Wait (tmutex t)) t in case tcpstate t of
       TCP_CLOSED \<Rightarrow> Some (SYSERR, notify (Signal (tmutex t)) (t\<lparr>devstate := TCP_FREE\<rparr>))
     | TCP_SYNSENT \<Rightarrow> (let t = wake_all env (writers t) t; t = wake_all env (readers t) t in close_end env (snd (tcpFree t)))
     | TCP_LISTEN \<Rightarrow> (let t = wake_all env (readers t) t in close_end env (snd (tcpFree t)))
     | TCP_SYNRECV \<Rightarrow>
         (let t = close_fin t
          in close_end env (if ocount t = 0 then (set_flg TCP_FLG_SNDDATA t)\<lparr>tcpstate := TCP_FINWT1\<rparr> else t))
     | TCP_ESTAB \<Rightarrow> close_end env ((set_flg TCP_FLG_SNDDATA (close_fin t))\<lparr>tcpstate := TCP_FINWT1\<rparr>)
     | TCP_CLOSEWT \<Rightarrow> close_end env ((set_flg TCP_FLG_SNDDATA (close_fin t))\<lparr>tcpstate := TCP_LASTACK\<rparr>)
     | _ \<Rightarrow> Some (SYSERR, notify (Signal (tmutex t)) t))"

section \<open>Reading and writing\<close>

definition read_check :: "tcb \<Rightarrow> int \<times> tcb" where
  \<comment> \<open>\<^verbatim>\<open>stateCheck\<close> of \<^verbatim>\<open>tcpRead.c\<close>\<close>
  "read_check t = (case tcpstate t of
       TCP_CLOSED \<Rightarrow> (TCP_ERR_NOCONN, notify (Signal (tmutex t)) t)
     | TCP_CLOSEWT \<Rightarrow> (if icount t > 0 then (OK, t) else (TCP_ERR_CLOSING, notify (Signal (tmutex t)) t))
     | TCP_CLOSING \<Rightarrow> (TCP_ERR_CLOSING, notify (Signal (tmutex t)) t)
     | TCP_LASTACK \<Rightarrow> (TCP_ERR_CLOSING, notify (Signal (tmutex t)) t)
     | TCP_TIMEWT \<Rightarrow> (TCP_ERR_CLOSING, notify (Signal (tmutex t)) t)
     | _ \<Rightarrow> (OK, t))"

function read_ring :: "u32 \<Rightarrow> u32 \<Rightarrow> bytes \<Rightarrow> tcb \<Rightarrow> (u32 \<times> bytes \<times> tcb) option" where
  "read_ring len count buf t =
     (if icount t > 0 \<and> count < len
      then if unat (istart t) < TCP_IBLEN
           then read_ring len (count + 1) (buf @ [ibuf t (unat (istart t))])
                  (t\<lparr>imark := (imark t)(unat (istart t) := False), istart := (istart t + 1) mod of_nat TCP_IBLEN,
                     icount := icount t - 1\<rparr>)
           else None
      else Some (count, buf, t))"
  by pat_completeness auto
termination
  by (relation "measure (\<lambda>(len, count, buf, t). unat (icount t))") (auto intro!: unat_sub_less simp: word_le_nat_alt word_less_nat_alt)

declare read_ring.simps [simp del]

text \<open>A round of the loop of \<^verbatim>\<open>tcpRead\<close>, from the moment both semaphores are granted; \<open>Inl\<close> is an early return.\<close>

definition read_round :: "tcp_env \<Rightarrow> u32 \<Rightarrow> u32 \<Rightarrow> bytes \<Rightarrow> tcb \<Rightarrow> ((int + u32 \<times> bytes) \<times> tcb) option" where
  "read_round env len count buf t = do {
     let t = notify (Wait (tmutex t)) (notify (Wait (readers t)) t);
     let (check, t) = read_check t;
     if check \<noteq> OK then Some (Inl SYSERR, t)
     else do {
       (count, buf, t) \<leftarrow> read_ring len count buf t;
       let (n, t) = (if icount t > 0 then ask env (Semcount (readers t)) t else (1, t));
       let t = (if icount t > 0 \<and> n < 1 then notify (Signal (readers t)) t else t);
       Some (Inr (count, buf), notify (Signal (tmutex t)) t) } }"

text \<open>While a reader or writer waits, other threads work on the control block: \<open>others\<close> is what they do to it
  during a wait.\<close>

partial_function (option) read_loop ::
    "tcp_env \<Rightarrow> (tcb \<Rightarrow> tcb) \<Rightarrow> u32 \<Rightarrow> u32 \<Rightarrow> bytes \<Rightarrow> tcb \<Rightarrow> ((int \<times> bytes) \<times> tcb) option" where
  "read_loop env others len count buf t =
     (if count < len
      then do {
        (r, t) \<leftarrow> read_round env len count buf (others t);
        case r of Inl e \<Rightarrow> Some ((e, buf), t) | Inr (count, buf) \<Rightarrow> read_loop env others len count buf t }
      else Some ((to_int count, buf), t))"

definition tcpRead :: "tcp_env \<Rightarrow> (tcb \<Rightarrow> tcb) \<Rightarrow> u32 \<Rightarrow> tcb \<Rightarrow> ((int \<times> bytes) \<times> tcb) option" where
  "tcpRead env others len t =
     (let t = notify (Wait (tmutex t)) t; (check, t) = read_check t
      in if check \<noteq> OK then Some ((SYSERR, []), t)
         else read_loop env others len 0 [] (notify (Signal (tmutex t)) t))"

definition write_check :: "tcp_env \<Rightarrow> tcb \<Rightarrow> (int \<times> tcb) option" where
  \<comment> \<open>\<^verbatim>\<open>stateCheck\<close> of \<^verbatim>\<open>tcpWrite.c\<close>\<close>
  "write_check env t = (case tcpstate t of
       TCP_CLOSED \<Rightarrow> Some (TCP_ERR_NOCONN, notify (Signal (tmutex t)) t)
     | TCP_LISTEN \<Rightarrow>
         if remotept t \<noteq> 0 \<and> natype (remoteip t) \<noteq> 0
         then do {
           (r, t) \<leftarrow> tcpOpenActive env (t\<lparr>tcpstate := TCP_SYNSENT\<rparr>);
           if r \<noteq> OK then Some (SYSERR, notify (Signal (tmutex t)) t)
           else do {
             t \<leftarrow> (if has (sndflg t) TCP_FLG_SYN then map_option snd (tcpSendSyn env t) else Some t);
             Some (TCP_ERR_NOSPEC, notify (Signal (tmutex t)) t) } }
         else Some (TCP_ERR_NOSPEC, notify (Signal (tmutex t)) t)
     | TCP_SYNSENT \<Rightarrow> Some (OK, t) | TCP_SYNRECV \<Rightarrow> Some (OK, t) | TCP_ESTAB \<Rightarrow> Some (OK, t) | TCP_CLOSEWT \<Rightarrow> Some (OK, t)
     | _ \<Rightarrow> Some (TCP_ERR_CLOSING, notify (Signal (tmutex t)) t))"

function write_ring :: "bytes \<Rightarrow> u32 \<Rightarrow> u32 \<Rightarrow> tcb \<Rightarrow> (u32 \<times> tcb) option" where
  "write_ring buf len count t =
     (if unat (ocount t) < TCP_OBLEN \<and> count < len
      then case rd buf (unat count) of
             None \<Rightarrow> None
           | Some ch \<Rightarrow> write_ring buf len (count + 1)
               (t\<lparr>obuf := (obuf t)(unat ((ostart t + ocount t) mod of_nat TCP_OBLEN) := ch), ocount := ocount t + 1\<rparr>)
      else Some (count, t))"
  by pat_completeness auto
termination
  by (relation "measure (\<lambda>(buf, len, count, t). TCP_OBLEN - unat (ocount t))") (auto simp: unat_word_ariths)

declare write_ring.simps [simp del]

definition write_round :: "tcp_env \<Rightarrow> bytes \<Rightarrow> u32 \<Rightarrow> u32 \<Rightarrow> tcb \<Rightarrow> ((int + u32) \<times> tcb) option" where
  "write_round env buf len count t = do {
     let t = notify (Wait (tmutex t)) (notify (Wait (writers t)) t);
     (check, t) \<leftarrow> write_check env t;
     if check \<noteq> OK then Some (Inl check, notify (Signal (writers t)) t)
     else do {
       (count, t) \<leftarrow> write_ring buf len count t;
       let t = (if unat (ocount t) < TCP_OBLEN then notify (Signal (writers t)) t else t);
       t \<leftarrow> (if tcpstate t = TCP_ESTAB \<or> tcpstate t = TCP_CLOSEWT then map_option snd (tcpSendData env t) else Some t);
       Some (Inr count, notify (Signal (tmutex t)) t) } }"

partial_function (option) write_loop ::
    "tcp_env \<Rightarrow> (tcb \<Rightarrow> tcb) \<Rightarrow> bytes \<Rightarrow> u32 \<Rightarrow> u32 \<Rightarrow> tcb \<Rightarrow> (int \<times> tcb) option" where
  "write_loop env others buf len count t =
     (if count < len
      then do {
        (r, t) \<leftarrow> write_round env buf len count (others t);
        case r of Inl e \<Rightarrow> Some (e, t) | Inr count \<Rightarrow> write_loop env others buf len count t }
      else Some (to_int count, t))"

definition tcpWrite :: "tcp_env \<Rightarrow> (tcb \<Rightarrow> tcb) \<Rightarrow> bytes \<Rightarrow> u32 \<Rightarrow> tcb \<Rightarrow> (int \<times> tcb) option" where
  "tcpWrite env others buf len t = do {
     (check, t) \<leftarrow> write_check env (notify (Wait (tmutex t)) t);
     let t = notify (Signal (tmutex t)) t;
     if check \<noteq> OK then Some (check, t) else write_loop env others buf len 0 t }"

definition tcpGetc :: "tcp_env \<Rightarrow> (tcb \<Rightarrow> tcb) \<Rightarrow> tcb \<Rightarrow> (int \<times> tcb) option" where
  "tcpGetc env others t = do {
     ((result, buf), t) \<leftarrow> tcpRead env others 1 t;
     if result \<noteq> 1 then Some (result, t) else do { ch \<leftarrow> rd buf 0; Some (uint ch, t) } }"

definition tcpPutc :: "tcp_env \<Rightarrow> (tcb \<Rightarrow> tcb) \<Rightarrow> u8 \<Rightarrow> tcb \<Rightarrow> (int \<times> tcb) option" where
  "tcpPutc env others ch t = do {
     (ret, t) \<leftarrow> tcpWrite env others [ch] 1 t;
     Some (if ret = 1 then uint ch else SYSERR, t) }"

definition tcpControl :: "int \<Rightarrow> tcb \<Rightarrow> int \<times> tcb" where
  "tcpControl func t =
     (let t = notify (Wait (tmutex t)) t
      in (if func = 3 then to_int (obytes t) else if func = 2 then to_int (ibytes t) else SYSERR,
          notify (Signal (tmutex t)) t))"

end
