(* ===== verification/Tcp_Stream.thy ===== *)
theory Tcp_Stream
  imports Tcp_Dev
begin

text \<open>
  The byte streams of a connection.  The input and output buffers are rings that refine lists of bytes:
  reading takes from the front of the input list, received data in order is appended to it, writing appends
  to the output list, an acknowledgement removes from its front, and \<^verbatim>\<open>tcpSendData\<close> cuts the unsent part of it
  into segments.  Sequence numbers are taken below \<open>2^31\<close>, where the comparisons of the code are those of
  numbers; what happens at the wrap is stated separately.
\<close>

section \<open>Sequence numbers below \<open>2^31\<close>\<close>

definition low :: "u32 \<Rightarrow> bool" where
  "low a \<longleftrightarrow> unat a < 2147483648"

lemma low_uint: "low a \<longleftrightarrow> uint a < 2147483648"
proof -
  have "low a \<longleftrightarrow> a < 2147483648" by (simp add: low_def word_less_nat_alt)
  then show ?thesis by (simp add: word_less_def)
qed

lemma unat_cmp: "unat (a::u32) < unat (b::u32) \<longleftrightarrow> uint a < uint b" "unat a \<le> unat b \<longleftrightarrow> uint a \<le> uint b"
  using word_less_nat_alt [of a b] word_less_def [of a b] word_le_nat_alt [of a b] word_le_def [of a b] by auto

lemma to_int_low: "low a \<Longrightarrow> to_int a = uint a"
  using to_int_small [of a] by (simp add: low_uint)

lemma low_diff: "low a \<Longrightarrow> low b \<Longrightarrow> c_int (uint a - uint b) = Some (uint a - uint b)"
  using uint_ge_0 [of a] uint_ge_0 [of b] unfolding low_uint by (intro c_int_Some) linarith+

lemma seqlt_low: "low a \<Longrightarrow> low b \<Longrightarrow> seqlt a b = Some (unat a < unat b)"
  by (simp add: seqlt_def to_int_low low_diff unat_cmp)

lemma seqlte_low: "low a \<Longrightarrow> low b \<Longrightarrow> seqlte a b = Some (unat a \<le> unat b)"
  by (simp add: seqlte_def to_int_low low_diff unat_cmp)

lemma tcpSeqdiff_low: "low a \<Longrightarrow> low b \<Longrightarrow> tcpSeqdiff a b = a - b"
  by (simp add: tcpSeqdiff_def low_def word_less_nat_alt)

lemma unat_tcpSeqdiff: "low a \<Longrightarrow> low b \<Longrightarrow> unat b \<le> unat a \<Longrightarrow> unat (tcpSeqdiff a b) = unat a - unat b"
  by (simp add: tcpSeqdiff_low unat_sub word_le_nat_alt)

lemma unat_seqadd: "unat a + unat b < 4294967295 \<Longrightarrow> unat (seqadd a b) = unat a + unat b"
  by (simp add: seqadd_def unat_mod_distrib unat_add_no_wrap)

lemma low_seqadd: "unat a + unat b < 2147483648 \<Longrightarrow> low (seqadd a b)"
  by (simp add: low_def unat_seqadd)

section \<open>Rings\<close>

definition ring :: "(nat \<Rightarrow> u8) \<Rightarrow> nat \<Rightarrow> nat \<Rightarrow> bytes" where
  "ring buf start n = map (\<lambda>k. buf ((start + k) mod 16384)) [0..<n]"

abbreviation (input) in_ring :: "tcb \<Rightarrow> bytes" where
  "in_ring t \<equiv> ring (ibuf t) (unat (istart t)) (unat (icount t))"

abbreviation (input) out_ring :: "tcb \<Rightarrow> bytes" where
  "out_ring t \<equiv> ring (obuf t) (unat (ostart t)) (unat (ocount t))"

lemma length_ring [simp]: "length (ring buf s n) = n"
  by (simp add: ring_def)

lemma nth_ring: "k < n \<Longrightarrow> ring buf s n ! k = buf ((s + k) mod 16384)"
  by (simp add: ring_def)

lemma ring_word_index: "unat ((a + of_nat i) mod 16384 :: u32) = (unat a + i) mod 16384"
proof -
  have "unat ((a + of_nat i) mod 16384) = unat (a + of_nat i) mod 16384" by (simp add: unat_mod_distrib)
  also have "\<dots> = (unat a + i) mod 16384"
    by (simp add: unat_word_ariths unat_of_nat mod_mod_cancel [of 16384 4294967296] mod_add_right_eq [of "unat a" i]
        flip: mod_add_right_eq [of _ "i mod 4294967296" 16384])
  finally show ?thesis .
qed

lemma ring_drop: "j \<le> n \<Longrightarrow> ring buf ((s + j) mod 16384) (n - j) = drop j (ring buf s n)"
  by (rule nth_equalityI) (auto simp: nth_ring mod_add_left_eq add.assoc)

lemma ring_write:
  assumes "n < 16384"
  shows "ring (buf((s + n) mod 16384 := b)) s (Suc n) = ring buf s n @ [b]"
proof (rule nth_equalityI)
  fix k assume "k < length (ring (buf((s + n) mod 16384 := b)) s (Suc n))"
  moreover have "(s + k) mod 16384 \<noteq> (s + n) mod 16384" if "k < n"
  proof
    assume "(s + k) mod 16384 = (s + n) mod 16384"
    then have "16384 dvd (s + n) - (s + k)" using that by (subst mod_eq_dvd_iff_nat [symmetric]) auto
    then have "16384 \<le> n - k" using that by (intro dvd_imp_le) auto
    then show False using assms by simp
  qed
  ultimately show "ring (buf((s + n) mod 16384 := b)) s (Suc n) ! k = (ring buf s n @ [b]) ! k"
    by (auto simp: nth_ring nth_append less_Suc_eq)
qed simp


section \<open>Reading and writing\<close>

text \<open>The ring part of the well-formedness of a control block.\<close>

definition rings_ok :: "tcb \<Rightarrow> bool" where
  "rings_ok t \<longleftrightarrow> unat (istart t) < 16384 \<and> unat (icount t) \<le> 16384 \<and> unat (inxt t) = (unat (istart t) + unat (icount t)) mod 16384 \<and>
     unat (ostart t) < 16384 \<and> unat (ocount t) \<le> 16384"

lemma unat_pred: "0 < (a::u32) \<Longrightarrow> unat (a - 1) = unat a - 1"
  by (simp add: unat_sub word_le_nat_alt word_less_nat_alt)

lemma unat_succ: "unat (a::u32) < 4294967295 \<Longrightarrow> unat (a + 1) = unat a + 1"
  by (simp add: unat_word_ariths)

lemma ring_Cons: "0 < n \<Longrightarrow> s < 16384 \<Longrightarrow> ring buf s n = buf s # ring buf ((s + 1) mod 16384) (n - 1)"
  using ring_drop [of 1 n buf s] nth_ring [of 0 n buf s] Cons_nth_drop_Suc [of 0 "ring buf s n"] by simp

lemma read_ring_ok:
  assumes "rings_ok t" "n = min (unat (icount t)) (unat len - unat count)"
  shows "\<exists>t'. read_ring len count buf t = Some (count + of_nat n, buf @ take n (in_ring t), t') \<and>
    rings_ok t' \<and> in_ring t' = drop n (in_ring t) \<and> out_ring t' = out_ring t \<and> unat (icount t') = unat (icount t) - n \<and>
    t'\<lparr>imark := imark t, istart := istart t, icount := icount t\<rparr> = t"
  using assms
proof (induction len count buf t arbitrary: n rule: read_ring.induct)
  case (1 len count buf t)
  show ?case
  proof (cases "icount t > 0 \<and> count < len")
    case False
    then have "n = 0" using 1(3) by (auto simp: word_less_nat_alt)
    moreover have "read_ring len count buf t = Some (count, buf, t)"
      using False by (subst read_ring.simps) (simp only: if_False)
    ultimately show ?thesis using 1(2) by simp
  next
    case True
    have r: "unat (istart t) < 16384" "unat (icount t) \<le> 16384" using 1(2) by (auto simp: rings_ok_def)
    let ?t = "t\<lparr>imark := (imark t)(unat (istart t) := False), istart := (istart t + 1) mod 16384, icount := icount t - 1\<rparr>"
    have i: "unat (icount ?t) = unat (icount t) - 1" "unat (istart ?t) = (unat (istart t) + 1) mod 16384"
      using unat_pred True ring_word_index [of "istart t" 1] by auto
    have c: "unat (count + 1) = unat count + 1"
      using True unat_succ [of count] unsigned_less [of len, where ?'a = nat] by (auto simp: word_less_nat_alt)
    have pos: "0 < unat (icount t)" "unat count < unat len" using True by (auto simp: word_less_nat_alt)
    have "((unat (istart t) + 1) mod 16384 + (unat (icount t) - 1)) mod 16384 = (unat (istart t) + unat (icount t)) mod 16384"
      by (subst mod_add_left_eq) (use pos(1) in simp)
    moreover have "unat (icount t) - 1 \<le> 16384" using r(2) by simp
    ultimately have ok: "rings_ok ?t" using 1(2) i unfolding rings_ok_def by (simp del: One_nat_def)
    have n: "n - 1 = min (unat (icount ?t)) (unat len - unat (count + 1))" "0 < n"
      using 1(3) i c pos by (auto simp: min_def)
    obtain t' where t': "read_ring len (count + 1) (buf @ [ibuf t (unat (istart t))]) ?t =
        Some (count + 1 + of_nat (n - 1), (buf @ [ibuf t (unat (istart t))]) @ take (n - 1) (in_ring ?t), t')"
      "rings_ok t'" "in_ring t' = drop (n - 1) (in_ring ?t)" "out_ring t' = out_ring ?t" "unat (icount t') = unat (icount ?t) - (n - 1)"
      "t'\<lparr>imark := imark ?t, istart := istart ?t, icount := icount ?t\<rparr> = ?t"
      using 1(1) [OF True r(1), of "n - 1"] ok n(1) unfolding of_nat_numeral by blast
    have ring: "in_ring t = ibuf t (unat (istart t)) # in_ring ?t"
      using ring_Cons [OF pos(1) r(1), of "ibuf t"] i by simp
    have "read_ring len count buf t = read_ring len (count + 1) (buf @ [ibuf t (unat (istart t))]) ?t"
      using True r(1) by (subst read_ring.simps) simp
    moreover have "count + 1 + of_nat (n - 1) = count + of_nat n" using n(2) by (cases n) auto
    moreover have "(buf @ [ibuf t (unat (istart t))]) @ take (n - 1) (in_ring ?t) = buf @ take n (in_ring t)"
      "drop (n - 1) (in_ring ?t) = drop n (in_ring t)"
      unfolding ring using n(2) by (cases n; simp)+
    moreover have "unat (icount ?t) - (n - 1) = unat (icount t) - n" using i(1) n(2) by simp
    moreover have "t'\<lparr>imark := imark t, istart := istart t, icount := icount t\<rparr> = t"
      using arg_cong [OF t'(6), of "\<lambda>u. u\<lparr>imark := imark t, istart := istart t, icount := icount t\<rparr>"] by simp
    ultimately show ?thesis using t'(1-5) by simp
  qed
qed


lemma write_ring_ok:
  assumes "rings_ok t" "n = min (16384 - unat (ocount t)) (unat len - unat count)" "unat len \<le> length buf"
  shows "\<exists>t'. write_ring buf len count t = Some (count + of_nat n, t') \<and> rings_ok t' \<and>
    out_ring t' = out_ring t @ take n (drop (unat count) buf) \<and> unat (ocount t') = unat (ocount t) + n \<and>
    t'\<lparr>obuf := obuf t, ocount := ocount t\<rparr> = t"
  using assms
proof (induction buf len count t arbitrary: n rule: write_ring.induct)
  case (1 buf len count t)
  show ?case
  proof (cases "unat (ocount t) < 16384 \<and> count < len")
    case False
    then have "n = 0" using 1(3) by (auto simp: word_less_nat_alt)
    moreover have "write_ring buf len count t = Some (count, t)"
      using False by (subst write_ring.simps) (simp only: if_False)
    ultimately show ?thesis using 1(2) by simp
  next
    case True
    then have lt: "unat count < unat len" "unat (ocount t) < 16384" by (auto simp: word_less_nat_alt)
    have r: "rd buf (unat count) = Some (buf ! unat count)" using 1(4) lt by (simp add: rd_def)
    let ?t = "t\<lparr>obuf := (obuf t)(unat ((ostart t + ocount t) mod 16384) := buf ! unat count), ocount := ocount t + 1\<rparr>"
    have i: "unat ((ostart t + ocount t) mod 16384) = (unat (ostart t) + unat (ocount t)) mod 16384"
      using ring_word_index [of "ostart t" "unat (ocount t)"] by simp
    have c: "unat (count + 1) = unat count + 1" "unat (ocount ?t) = unat (ocount t) + 1"
      using lt unat_succ [of count] unat_succ [of "ocount t"] unsigned_less [of len, where ?'a = nat] by auto
    have ok: "rings_ok ?t" using 1(2) c lt by (auto simp: rings_ok_def)
    have n: "n - 1 = min (16384 - unat (ocount ?t)) (unat len - unat (count + 1))" "0 < n"
      using 1(3) c lt by (auto simp: min_def)
    obtain t' where t': "write_ring buf len (count + 1) ?t = Some (count + 1 + of_nat (n - 1), t')" "rings_ok t'"
      "out_ring t' = out_ring ?t @ take (n - 1) (drop (unat (count + 1)) buf)" "unat (ocount t') = unat (ocount ?t) + (n - 1)"
      "t'\<lparr>obuf := obuf ?t, ocount := ocount ?t\<rparr> = ?t"
      using 1(1) [OF True r, of "n - 1"] ok n(1) 1(4) unfolding of_nat_numeral by blast
    have "write_ring buf len count t = write_ring buf len (count + 1) ?t"
      using True r by (subst write_ring.simps) simp
    moreover have "count + 1 + of_nat (n - 1) = count + of_nat n" using n(2) by (cases n) auto
    moreover have "out_ring ?t = out_ring t @ [buf ! unat count]"
      using ring_write [OF lt(2), of "obuf t" "unat (ostart t)"] c(2) i by simp
    moreover have "take n (drop (unat count) buf) = buf ! unat count # take (n - 1) (drop (unat (count + 1)) buf)"
      using n(2) c(1) lt(1) 1(4) Cons_nth_drop_Suc [of "unat count" buf, symmetric] by (cases n) auto
    moreover have "t'\<lparr>obuf := obuf t, ocount := ocount t\<rparr> = t"
      using arg_cong [OF t'(5), of "\<lambda>u. u\<lparr>obuf := obuf t, ocount := ocount t\<rparr>"] by simp
    ultimately show ?thesis using t'(1-4) c(2) n(2) by simp
  qed
qed


section \<open>Round trip times\<close>

text \<open>The range in which the estimates stay.\<close>

definition rtt_ok :: "tcb \<Rightarrow> bool" where
  "rtt_ok t \<longleftrightarrow> 0 \<le> sndrtt t \<and> sndrtt t \<le> 2 ^ 30 \<and> 0 \<le> sndrtd t \<and> sndrtd t \<le> 2 ^ 30 \<and>
     TCP_RXT_MINTIME \<le> rxttime t \<and> rxttime t \<le> 2 ^ 30"

lemma rtt_estimate_ok:
  assumes "rtt_ok t" "0 \<le> rtt" "rtt \<le> 2 ^ 27"
  shows "\<exists>a b c. rtt_estimate rtt t = Some (t\<lparr>sndrtt := a, sndrtd := b, rxttime := c\<rparr>) \<and>
    rtt_ok (t\<lparr>sndrtt := a, sndrtd := b, rxttime := c\<rparr>)"
proof -
  define srtt where "srtt = (if sndrtt t = 0 then rtt * 8 else sndrtt t)"
  define delta where "delta = rtt - srtt div 8"
  define dev where "dev = sndrtd t + (abs delta - sndrtd t div 4)"
  define time where "time = ((srtt + delta) div 4 + dev) div 2"
  have r: "0 \<le> srtt" "srtt \<le> 1073741824" "rtt \<le> 134217728" "0 \<le> sndrtd t" "sndrtd t \<le> 1073741824"
    using assms by (auto simp: rtt_ok_def srtt_def)
  have d: "- 134217728 \<le> delta" "delta \<le> 134217728" unfolding delta_def using r(1-3) assms(2) by linarith+
  have s: "0 \<le> srtt + delta" "srtt + delta \<le> 1073741824" unfolding delta_def using r(1-3) assms(2) by linarith+
  have v: "0 \<le> dev" "dev \<le> 1073741824" "abs delta - sndrtd t div 4 \<le> 134217728" "- 268435456 \<le> abs delta - sndrtd t div 4"
    unfolding dev_def using d r(4,5) by linarith+
  have t: "time \<le> 1073741824" unfolding time_def using s v by linarith
  have "(if sndrtt t = 0 then c_int (rtt * 8) else Some (sndrtt t)) = Some srtt"
    using assms(2,3) by (auto simp: srtt_def intro!: c_int_Some)
  moreover have "c_int (rtt - srtt div 8) = Some delta" unfolding delta_def [symmetric] using d by (intro c_int_Some) auto
  moreover have "c_int (srtt + delta) = Some (srtt + delta)" using s by (intro c_int_Some) auto
  moreover have "c_int (abs delta) = Some (abs delta)" using d by (intro c_int_Some) auto
  moreover have "c_int (abs delta - sndrtd t div 4) = Some (abs delta - sndrtd t div 4)" using v by (intro c_int_Some) auto
  moreover have "c_int (sndrtd t + (abs delta - sndrtd t div 4)) = Some dev" unfolding dev_def [symmetric] using v by (intro c_int_Some) auto
  moreover have "c_int ((srtt + delta) div 4 + dev) = Some ((srtt + delta) div 4 + dev)" using s v by (intro c_int_Some) linarith+
  ultimately have "rtt_estimate rtt t = Some (t\<lparr>sndrtt := srtt + delta, sndrtd := dev, rxttime := (if time < 100 then 100 else time)\<rparr>)"
    unfolding rtt_estimate_def by (simp add: time_def)
  moreover have "rtt_ok (t\<lparr>sndrtt := srtt + delta, sndrtd := dev, rxttime := (if time < 100 then 100 else time)\<rparr>)"
    using s v t by (simp add: rtt_ok_def)
  ultimately show ?thesis by blast
qed

text \<open>What the timers may answer to a purge of the retransmission event.\<close>

definition rtt_env :: "tcp_env \<Rightarrow> bool" where
  "rtt_env env \<longleftrightarrow> (\<forall>cs. SYSERR \<le> env (cs @ [TimerPurge EVT_RXT]) \<and> env (cs @ [TimerPurge EVT_RXT]) \<le> 2 ^ 27)"

lemma tcpRecvRtt_ok:
  assumes "rtt_ok t" "rtt_env env" "unat (sndmss t) \<le> 46340" "sndcwn t \<noteq> 0"
  shows "\<exists>a b c d. tcpRecvRtt env t =
      Some (OK, t\<lparr>calls := calls t @ [TimerPurge EVT_RXT], sndrtt := a, sndrtd := b, rxttime := c, sndcwn := d\<rparr>) \<and>
    rtt_ok (t\<lparr>sndrtt := a, sndrtd := b, rxttime := c\<rparr>)"
proof -
  define rtt where "rtt = env (calls t @ [TimerPurge EVT_RXT])"
  define u where "u = t\<lparr>calls := calls t @ [TimerPurge EVT_RXT]\<rparr>"
  have u: "rtt_ok u" using assms(1) by (simp add: u_def rtt_ok_def)
  have sq: "c_int (uint (sndmss t) * uint (sndmss t)) = Some (uint (sndmss t) * uint (sndmss t))"
  proof -
    have "int (unat (sndmss t)) \<le> 46340" using assms(3) by linarith
    then have "uint (sndmss t) \<le> 46340" by simp
    then have "uint (sndmss t) * uint (sndmss t) \<le> 46340 * 46340" by (intro mult_mono) auto
    then show ?thesis by (intro c_int_Some) (auto intro: order_trans [of _ 0])
  qed
  obtain a b c where e: "(if rtt \<noteq> SYSERR \<and> rxtcount u = 0 then rtt_estimate rtt u else Some u) =
      Some (u\<lparr>sndrtt := a, sndrtd := b, rxttime := c\<rparr>)" "rtt_ok (u\<lparr>sndrtt := a, sndrtd := b, rxttime := c\<rparr>)"
  proof (cases "rtt \<noteq> SYSERR \<and> rxtcount u = 0")
    case True
    have "SYSERR \<le> rtt" "rtt \<le> 2 ^ 27" using assms(2) unfolding rtt_env_def rtt_def by blast+
    then have "0 \<le> rtt" "rtt \<le> 2 ^ 27" using True by auto
    then show ?thesis using rtt_estimate_ok [OF u] that True by auto
  next
    case False
    have "u\<lparr>sndrtt := sndrtt u, sndrtd := sndrtd u, rxttime := rxttime u\<rparr> = u" by simp
    then show ?thesis using that [of "rxttime u" "sndrtd u" "sndrtt u"] False u by (simp only: if_False simp_thms)
  qed
  have f: "sndcwn u = sndcwn t" "sndmss u = sndmss t" by (simp_all add: u_def)
  have "tcpRecvRtt env t = (if sndcwn t < sndsst u then Some (OK, u\<lparr>sndrtt := a, sndrtd := b, rxttime := c, sndcwn := sndcwn t + ucast (sndmss t)\<rparr>)
      else Some (OK, u\<lparr>sndrtt := a, sndrtd := b, rxttime := c, sndcwn := sndcwn t + to_u32 (uint (sndmss t) * uint (sndmss t)) div sndcwn t\<rparr>))"
    using e(1) sq assms(4) f by (simp add: tcpRecvRtt_def ask_def flip: rtt_def u_def)
  moreover have "rtt_ok (t\<lparr>sndrtt := a, sndrtd := b, rxttime := c\<rparr>)" using e(2) by (simp add: rtt_ok_def u_def)
  ultimately show ?thesis unfolding u_def by (cases "sndcwn t < sndsst u") auto
qed


section \<open>Acknowledgements\<close>

text \<open>The number of data bytes that an acknowledgement covers: SYN and FIN take a sequence number each.\<close>

definition acked_bytes :: "u32 \<Rightarrow> tcb \<Rightarrow> nat" where
  "acked_bytes ack t = unat ack - unat (snduna t) - (if has (sndflg t) TCP_FLG_SYN \<and> snduna t = iss t then 1 else 0)
     - (if has (sndflg t) TCP_FLG_FIN \<and> unat (sndfin t) < unat ack then 1 else 0)"

lemma unat_dec: "unat (a::u32) = n \<Longrightarrow> (b \<Longrightarrow> 0 < n) \<Longrightarrow> unat (if b then a - 1 else a) = n - (if b then 1 else 0)"
  using unat_pred [of a] by (auto simp: word_less_nat_alt)

lemma ring_advance:
  assumes "rings_ok t" "unat amt \<le> unat (ocount t)"
  shows "rings_ok (t\<lparr>ostart := (ostart t + amt) mod 16384, ocount := ocount t - amt\<rparr>)"
    and "ring (obuf t) (unat ((ostart t + amt) mod 16384)) (unat (ocount t - amt)) = drop (unat amt) (out_ring t)"
proof -
  have i: "unat ((ostart t + amt) mod 16384) = (unat (ostart t) + unat amt) mod 16384"
    using ring_word_index [of "ostart t" "unat amt"] by simp
  moreover have c: "unat (ocount t - amt) = unat (ocount t) - unat amt"
    using assms(2) by (simp add: unat_sub word_le_nat_alt)
  ultimately show "ring (obuf t) (unat ((ostart t + amt) mod 16384)) (unat (ocount t - amt)) = drop (unat amt) (out_ring t)"
    using ring_drop [OF assms(2)] by simp
  show "rings_ok (t\<lparr>ostart := (ostart t + amt) mod 16384, ocount := ocount t - amt\<rparr>)"
    using assms i c le_trans [OF diff_le_self [of "unat (ocount t)" "unat amt"]] by (simp add: rings_ok_def)
qed

lemma recv_acked_ok:
  assumes ok: "rings_ok t" "rtt_ok t" "rtt_env env" "unat (sndmss t) \<le> 46340" "sndcwn t \<noteq> 0"
    and lo: "low (snduna t)" "low (acknum p)" "low (sndnxt t)" "low (sndfin t)"
    and a: "unat (snduna t) < unat (acknum p)" "acked_bytes (acknum p) t \<le> unat (ocount t)"
    and two: "has (sndflg t) TCP_FLG_SYN \<and> snduna t = iss t \<and> has (sndflg t) TCP_FLG_FIN \<and> unat (sndfin t) < unat (acknum p) \<Longrightarrow>
      unat (snduna t) + 1 < unat (acknum p)"
  shows "\<exists>t'. recv_acked env p t = Some t' \<and> rings_ok t' \<and> rtt_ok t' \<and>
    out_ring t' = drop (acked_bytes (acknum p) t) (out_ring t) \<and> snduna t' = acknum p \<and>
    unat (ocount t') = unat (ocount t) - acked_bytes (acknum p) t \<and> rxtcount t' = 0 \<and>
    t'\<lparr>ostart := ostart t, ocount := ocount t, obytes := obytes t, snduna := snduna t, rxtcount := rxtcount t, sndrtt := sndrtt t,
      sndrtd := sndrtd t, rxttime := rxttime t, sndcwn := sndcwn t, sndflg := sndflg t, calls := calls t\<rparr> = t"
proof -
  define syn where "syn \<longleftrightarrow> has (sndflg t) TCP_FLG_SYN \<and> snduna t = iss t"
  define fin where "fin \<longleftrightarrow> has (sndflg t) TCP_FLG_FIN \<and> unat (sndfin t) < unat (acknum p)"
  define amt where "amt = (let amt = tcpSeqdiff (acknum p) (snduna t); amt = (if syn then amt - 1 else amt) in if fin then amt - 1 else amt)"
  have d: "unat (tcpSeqdiff (acknum p) (snduna t)) = unat (acknum p) - unat (snduna t)"
    using unat_tcpSeqdiff [OF lo(2,1)] a(1) by simp
  have two': "syn \<and> fin \<Longrightarrow> unat (snduna t) + 1 < unat (acknum p)" using two by (simp add: syn_def fin_def)
  have amt: "unat amt = acked_bytes (acknum p) t"
    unfolding amt_def acked_bytes_def Let_def syn_def [symmetric] fin_def [symmetric]
    by (intro unat_dec d) (use a(1) two' in auto)
  have fin: "and_then (Some (has (sndflg t) TCP_FLG_FIN)) (seqlt (sndfin t) (acknum p)) = Some fin"
    using seqlt_low [OF lo(4,2)] by (simp add: and_then_def fin_def)
  define u where "u = t\<lparr>ostart := (ostart t + amt) mod 16384, ocount := ocount t - amt, obytes := obytes t + amt\<rparr>"
  define v where "v = (if unat (ocount u) < 16384 then notify (Signal (writers u)) u else u)\<lparr>snduna := acknum p, rxtcount := 0\<rparr>"
  have v: "rtt_ok v" "sndmss v = sndmss t" "sndcwn v = sndcwn t" "sndnxt v = sndnxt t" "snduna v = acknum p" "rxtcount v = 0"
    using ok(2) by (simp_all add: v_def u_def notify_def rtt_ok_def)
  obtain b c d e where r: "tcpRecvRtt env v = Some (OK, v\<lparr>calls := calls v @ [TimerPurge EVT_RXT], sndrtt := b, sndrtd := c, rxttime := d, sndcwn := e\<rparr>)"
      "rtt_ok (v\<lparr>sndrtt := b, sndrtd := c, rxttime := d\<rparr>)"
    using tcpRecvRtt_ok [OF v(1) ok(3)] v(2,3) ok(4,5) by auto
  define w where "w = v\<lparr>calls := calls v @ [TimerPurge EVT_RXT], sndrtt := b, sndrtd := c, rxttime := d, sndcwn := e\<rparr>"
  define t' where "t' = set_flg TCP_FLG_SNDDATA (if unat (acknum p) < unat (sndnxt t) then notify (TimerSched (rxttime w) EVT_RXT) w else w)"
  have "recv_acked env p t = do { (_, t) \<leftarrow> tcpRecvRtt env v; unacked \<leftarrow> seqlt (snduna t) (sndnxt t);
      Some (set_flg TCP_FLG_SNDDATA (if unacked then notify (TimerSched (rxttime t) EVT_RXT) t else t)) }"
    by (simp only: recv_acked_def Let_def fin syn_def [symmetric] Option.bind.simps v_def u_def amt_def of_nat_numeral)
  then have "recv_acked env p t = Some t'"
    using r(1) seqlt_low [OF lo(2,3)] v(4,5) by (simp add: t'_def flip: w_def) (simp add: w_def)
  moreover have "ocount t' = ocount t - amt" "ostart t' = (ostart t + amt) mod 16384" "obuf t' = obuf t" "snduna t' = acknum p" "rxtcount t' = 0"
    "istart t' = istart t" "icount t' = icount t" "inxt t' = inxt t"
    by (simp_all add: t'_def w_def v_def u_def notify_def set_flg_def)
  moreover have "rtt_ok t'" using r(2) by (simp add: t'_def w_def notify_def set_flg_def rtt_ok_def)
  moreover have "t'\<lparr>ostart := ostart t, ocount := ocount t, obytes := obytes t, snduna := snduna t, rxtcount := rxtcount t, sndrtt := sndrtt t,
      sndrtd := sndrtd t, rxttime := rxttime t, sndcwn := sndcwn t, sndflg := sndflg t, calls := calls t\<rparr> = t"
    by (simp add: t'_def w_def v_def u_def notify_def set_flg_def)
  moreover have "unat (ocount t - amt) = unat (ocount t) - unat amt" using a(2) amt by (simp add: unat_sub word_le_nat_alt)
  ultimately show ?thesis
    using ring_advance [OF ok(1), of amt] amt a(2) by (intro exI [of _ t']) (simp add: rings_ok_def)
qed


text \<open>An update of the send window changes nothing else but flags and calls.\<close>

definition window_end :: "u32 \<Rightarrow> u32 \<Rightarrow> bool" where
  \<comment> \<open>the window that starts at a sequence number ends below \<open>2^31\<close>\<close>
  "window_end a w \<longleftrightarrow> unat a + unat w < 2147483648"

lemma recv_window_ok:
  assumes "window_end (acknum p) (ucast (window p))" "window_end (sndwl2 t) (sndwnd t)"
  shows "\<exists>t'. recv_window p t = Some t' \<and> sndwnd t' = ucast (window p) \<and> sndwl1 t' = seqnum p \<and> sndwl2 t' = acknum p \<and>
    t'\<lparr>sndwnd := sndwnd t, sndwl1 := sndwl1 t, sndwl2 := sndwl2 t, sndflg := sndflg t, calls := calls t\<rparr> = t"
proof -
  have "seqlte (seqadd (acknum p) (ucast (window p))) (seqadd (sndwl2 t) (sndwnd t)) \<noteq> None"
    using seqlte_low low_seqadd assms by (simp add: window_end_def)
  then show ?thesis
    by (auto simp: recv_window_def Let_def set_flg_def clear_flg_def notify_def)
qed

lemma tcpRecvAck_ok:
  assumes ok: "rings_ok t" "rtt_ok t" "rtt_env env" "unat (sndmss t) \<le> 46340" "sndcwn t \<noteq> 0"
    and lo: "low (snduna t)" "low (acknum p)" "low (sndnxt t)" "low (sndfin t)" "low (sndwl1 t)" "low (sndwl2 t)" "low (seqnum p)"
    and a: "unat (snduna t) < unat (acknum p)" "unat (acknum p) \<le> unat (sndnxt t)" "acked_bytes (acknum p) t \<le> unat (ocount t)"
    and two: "has (sndflg t) TCP_FLG_SYN \<and> snduna t = iss t \<and> has (sndflg t) TCP_FLG_FIN \<and> unat (sndfin t) < unat (acknum p) \<Longrightarrow>
      unat (snduna t) + 1 < unat (acknum p)"
    and w: "window_end (acknum p) (ucast (window p))" "window_end (sndwl2 t) (sndwnd t)"
  shows "\<exists>t'. tcpRecvAck env p t = Some (OK, t') \<and> rings_ok t' \<and> rtt_ok t' \<and>
    out_ring t' = drop (acked_bytes (acknum p) t) (out_ring t) \<and> in_ring t' = in_ring t \<and> snduna t' = acknum p \<and>
    unat (ocount t') = unat (ocount t) - acked_bytes (acknum p) t \<and> rxtcount t' = 0 \<and>
    sndwnd t' = (if unat (sndwl1 t) < unat (seqnum p) \<or> sndwl1 t = seqnum p \<and> unat (sndwl2 t) \<le> unat (acknum p)
                 then ucast (window p) else sndwnd t) \<and>
    tcpstate t' = tcpstate t \<and> sndnxt t' = sndnxt t \<and> rcvnxt t' = rcvnxt t \<and> sndfin t' = sndfin t"
proof -
  obtain u where u: "recv_acked env p t = Some u" "rings_ok u" "rtt_ok u"
      "out_ring u = drop (acked_bytes (acknum p) t) (out_ring t)" "snduna u = acknum p"
      "unat (ocount u) = unat (ocount t) - acked_bytes (acknum p) t" "rxtcount u = 0"
      "u\<lparr>ostart := ostart t, ocount := ocount t, obytes := obytes t, snduna := snduna t, rxtcount := rxtcount t, sndrtt := sndrtt t,
      sndrtd := sndrtd t, rxttime := rxttime t, sndcwn := sndcwn t, sndflg := sndflg t, calls := calls t\<rparr> = t"
    using recv_acked_ok [OF ok lo(1-4) a(1,3) two] by auto
  have fu: "sndwl1 u = sndwl1 t" "sndwl2 u = sndwl2 t" "sndwnd u = sndwnd t" "sndnxt u = sndnxt t" "rcvnxt u = rcvnxt t"
    "sndfin u = sndfin t" "tcpstate u = tcpstate t" "ibuf u = ibuf t" "istart u = istart t" "icount u = icount t"
    using arg_cong [OF u(8), of sndwl1] arg_cong [OF u(8), of sndwl2] arg_cong [OF u(8), of sndwnd] arg_cong [OF u(8), of sndnxt]
      arg_cong [OF u(8), of rcvnxt] arg_cong [OF u(8), of sndfin] arg_cong [OF u(8), of tcpstate] arg_cong [OF u(8), of ibuf]
      arg_cong [OF u(8), of istart] arg_cong [OF u(8), of icount] by simp_all
  define upd where "upd \<longleftrightarrow> unat (sndwl1 t) < unat (seqnum p) \<or> sndwl1 t = seqnum p \<and> unat (sndwl2 t) \<le> unat (acknum p)"
  obtain v where v: "(if upd then recv_window p u else Some u) = Some v" "sndwnd v = (if upd then ucast (window p) else sndwnd u)"
      "v\<lparr>sndwnd := sndwnd u, sndwl1 := sndwl1 u, sndwl2 := sndwl2 u, sndflg := sndflg u, calls := calls u\<rparr> = u"
    using recv_window_ok [OF w(1), of u] w(2) fu by (cases upd) auto
  note fv = arg_cong [OF v(3), of sndnxt] arg_cong [OF v(3), of rcvnxt] arg_cong [OF v(3), of sndfin] arg_cong [OF v(3), of tcpstate]
    arg_cong [OF v(3), of ibuf] arg_cong [OF v(3), of istart] arg_cong [OF v(3), of icount] arg_cong [OF v(3), of inxt]
    arg_cong [OF v(3), of ostart] arg_cong [OF v(3), of ocount] arg_cong [OF v(3), of obuf] arg_cong [OF v(3), of snduna]
    arg_cong [OF v(3), of rxtcount] arg_cong [OF v(3), of sndrtt] arg_cong [OF v(3), of sndrtd] arg_cong [OF v(3), of rxttime]
  have "and_then (seqlt (snduna t) (acknum p)) (seqlte (acknum p) (sndnxt t)) = Some True"
    using seqlt_low [OF lo(1,2)] seqlte_low [OF lo(2,3)] a by (simp add: and_then_def)
  moreover have "or_else (seqlt (sndwl1 u) (seqnum p)) (and_then (Some (sndwl1 u = seqnum p)) (seqlte (sndwl2 u) (acknum p))) = Some upd"
    using seqlt_low [OF lo(5,7)] seqlte_low [OF lo(6,2)] fu by (simp add: and_then_def or_else_def upd_def)
  moreover have "seqlt (sndnxt v) (acknum p) = Some False" using seqlt_low [OF lo(3,2)] a fv fu by simp
  ultimately have "tcpRecvAck env p t = Some (OK, v)" using u(1) v(1) by (simp add: tcpRecvAck_def)
  moreover have "rings_ok v" "rtt_ok v" using u(2,3) fv by (auto simp: rings_ok_def rtt_ok_def)
  ultimately show ?thesis using u(4-7) fu fv v(2) by (simp add: upd_def)
qed


section \<open>Received data\<close>

lemma mod_ring_inj: "(s + j) mod 16384 = (s + k) mod 16384 \<Longrightarrow> j < 16384 \<Longrightarrow> k < 16384 \<Longrightarrow> j = (k::nat)"
proof (induction j k rule: linorder_wlog)
  case (le j k)
  then have "16384 dvd (s + k) - (s + j)" by (subst mod_eq_dvd_iff_nat [symmetric]) auto
  then have "16384 dvd k - j" by simp
  then show ?case using le by (auto dest!: dvd_imp_le)
qed simp

lemma recv_copy_ok:
  assumes "data + i + n \<le> length d" "i + n \<le> 16384"
  shows "\<exists>f m. recv_copy d data start i n t = Some (t\<lparr>ibuf := f, imark := m\<rparr>) \<and>
    (\<forall>k. i \<le> k \<and> k < i + n \<longrightarrow> f ((unat start + k) mod 16384) = d ! (data + k) \<and> m ((unat start + k) mod 16384)) \<and>
    (\<forall>j. (\<forall>k. i \<le> k \<and> k < i + n \<longrightarrow> j \<noteq> (unat start + k) mod 16384) \<longrightarrow> f j = ibuf t j \<and> m j = imark t j)"
  using assms
proof (induction n arbitrary: i t)
  case 0
  show ?case by (intro exI [of _ "ibuf t"] exI [of _ "imark t"]) auto
next
  case (Suc n)
  let ?x = "(unat start + i) mod 16384"
  let ?t = "t\<lparr>ibuf := (ibuf t)(?x := d ! (data + i)), imark := (imark t)(?x := True)\<rparr>"
  obtain f m where fm: "recv_copy d data start (i + 1) n ?t = Some (?t\<lparr>ibuf := f, imark := m\<rparr>)"
    "\<forall>k. i + 1 \<le> k \<and> k < i + 1 + n \<longrightarrow> f ((unat start + k) mod 16384) = d ! (data + k) \<and> m ((unat start + k) mod 16384)"
    "\<forall>j. (\<forall>k. i + 1 \<le> k \<and> k < i + 1 + n \<longrightarrow> j \<noteq> (unat start + k) mod 16384) \<longrightarrow> f j = ibuf ?t j \<and> m j = imark ?t j"
  proof -
    have "data + (i + 1) + n \<le> length d" "i + 1 + n \<le> 16384" using Suc.prems by auto
    then show ?thesis using that Suc.IH [of "i + 1" ?t] by blast
  qed
  have ne: "?x \<noteq> (unat start + k) mod 16384" if "i + 1 \<le> k" "k < i + 1 + n" for k
    using mod_ring_inj [of "unat start" i k] that Suc.prems(2) by auto
  have x: "f ?x = d ! (data + i)" "m ?x" using fm(3) ne by auto
  have "recv_copy d data start i (Suc n) t = Some (t\<lparr>ibuf := f, imark := m\<rparr>)"
    using fm(1) Suc.prems(1) by (simp add: rd_def ring_word_index Let_def)
  moreover have "\<forall>k. i \<le> k \<and> k < i + Suc n \<longrightarrow> f ((unat start + k) mod 16384) = d ! (data + k) \<and> m ((unat start + k) mod 16384)"
    using fm(2) x by (metis add_Suc_right add_Suc le_eq_less_or_eq Suc_eq_plus1 Suc_leI)
  moreover have "\<forall>j. (\<forall>k. i \<le> k \<and> k < i + Suc n \<longrightarrow> j \<noteq> (unat start + k) mod 16384) \<longrightarrow> f j = ibuf t j \<and> m j = imark t j"
    using fm(3) by (auto split: if_splits)
  ultimately show ?case by blast
qed

text \<open>The loop over bytes that had arrived out of order.\<close>

abbreviation (input) advanced :: "nat \<Rightarrow> tcb \<Rightarrow> tcb" where
  "advanced m t \<equiv> t\<lparr>icount := icount t + of_nat m, ibytes := ibytes t + of_nat m,
     inxt := (inxt t + of_nat m) mod 16384, rcvnxt := rcvnxt t + of_nat m\<rparr>"

lemma recv_marked_ok:
  assumes "rings_ok t" "unat (rcvnxt t) + (16384 - unat (icount t)) < 2147483648" "\<not> has (rcvflg t) TCP_FLG_FIN"
  shows "\<exists>m. recv_marked t = Some (False, advanced m t) \<and> unat (icount t) + m \<le> 16384 \<and>
    (\<forall>k<m. imark t ((unat (inxt t) + k) mod 16384)) \<and>
    (unat (icount t) + m = 16384 \<or> \<not> imark t ((unat (inxt t) + m) mod 16384))"
  using assms
proof (induction t rule: recv_marked.induct)
  case (1 t)
  have r: "unat (inxt t) < 16384" "unat (icount t) \<le> 16384" using 1(2) by (auto simp: rings_ok_def)
  show ?case
  proof (cases "unat (icount t) < 16384 \<and> imark t (unat (inxt t))")
    case False
    then have "recv_marked t = Some (False, t)" using r by (subst recv_marked.simps) auto
    moreover have "t = advanced 0 t" using r(1) ring_word_index [of "inxt t" 0] by (simp add: word_eq_iff_unsigned [where ?'a = nat])
    ultimately show ?thesis using False r by (intro exI [of _ 0]) auto
  next
    case True
    define t' where "t' = t\<lparr>icount := icount t + 1, ibytes := ibytes t + 1, inxt := (inxt t + 1) mod 16384, rcvnxt := seqadd (rcvnxt t) 1\<rparr>"
    have c: "unat (icount t + 1) = unat (icount t) + 1" using True by (intro unat_succ) auto
    have s: "unat (rcvnxt t) + 1 < 2147483648" using 1(3) True by linarith
    then have q: "unat (seqadd (rcvnxt t) 1) = unat (rcvnxt t) + 1" using unat_seqadd [of "rcvnxt t" 1] by simp
    have i: "unat ((inxt t + 1) mod 16384) = (unat (inxt t) + 1) mod 16384" using ring_word_index [of "inxt t" 1] by simp
    have ok: "rings_ok t'" using 1(2) c i True by (auto simp: rings_ok_def t'_def mod_Suc_eq)
    have e: "recv_marked t = recv_marked t'" using True r 1(4) by (subst recv_marked.simps) (simp add: t'_def Let_def)
    obtain m where m: "recv_marked t' = Some (False, advanced m t')" "unat (icount t') + m \<le> 16384"
      "\<forall>k<m. imark t' ((unat (inxt t') + k) mod 16384)" "unat (icount t') + m = 16384 \<or> \<not> imark t' ((unat (inxt t') + m) mod 16384)"
    proof -
      have "\<exists>m. recv_marked t' = Some (False, advanced m t') \<and> unat (icount t') + m \<le> 16384 \<and>
          (\<forall>k<m. imark t' ((unat (inxt t') + k) mod 16384)) \<and>
          (unat (icount t') + m = 16384 \<or> \<not> imark t' ((unat (inxt t') + m) mod 16384))"
        by (rule 1(1)) (use True r ok 1(3,4) q c in \<open>auto simp: t'_def\<close>)
      then show ?thesis using that by blast
    qed
    have x: "(unat (inxt t') + k) mod 16384 = (unat (inxt t) + Suc k) mod 16384" for k
      using i by (simp add: t'_def mod_simps)
    have "advanced m t' = advanced (Suc m) t"
    proof -
      have "((inxt t + 1) mod 16384 + of_nat m) mod 16384 = (inxt t + of_nat (Suc m)) mod 16384"
        unfolding word_unat_eq_iff ring_word_index i by (simp add: mod_simps)
      moreover have "seqadd (rcvnxt t) 1 = rcvnxt t + 1"
        unfolding word_unat_eq_iff q using s by (simp add: unat_succ)
      ultimately show ?thesis by (simp add: t'_def add.assoc)
    qed
    moreover have "imark t ((unat (inxt t) + k) mod 16384)" if "k < Suc m" for k
      using that True r(1) m(3) x by (cases k) (auto simp: t'_def)
    moreover have "imark t' = imark t" "unat (icount t') = unat (icount t) + 1" using c by (simp_all add: t'_def)
    ultimately show ?thesis using e m x by (intro exI [of _ "Suc m"]) auto
  qed
qed


lemma ring_append: "ring buf s (c + k) = ring buf s c @ ring buf ((s + c) mod 16384) k"
  by (induction k) (auto simp: ring_def mod_simps add.assoc)

lemma of_nat_unat_u16 [simp]: "(of_nat (unat (w::u16)) :: u32) = ucast w"
  using unat_u16 [of w] by (simp add: word_unat_eq_iff unat_of_nat)

lemma ring_cong: "(\<And>k. k < n \<Longrightarrow> f ((s + k) mod 16384) = g ((s + k) mod 16384)) \<Longrightarrow> ring f s n = ring g s n"
  by (simp add: ring_def)

text \<open>Copying \<open>n\<close> bytes behind the bytes of the ring.\<close>

lemma ring_copied:
  assumes "c + n + m \<le> 16384" "\<forall>k<n. f ((s + c + k) mod 16384) = d ! (j + k)" "j + n \<le> length d"
    and "\<forall>i. (\<forall>k<n. i \<noteq> (s + c + k) mod 16384) \<longrightarrow> f i = g i"
  shows "ring f s (c + n + m) = ring g s c @ take n (drop j d) @ ring g ((s + c + n) mod 16384) m"
proof -
  have "ring f s c = ring g s c"
  proof (rule ring_cong)
    fix k assume k: "k < c"
    have "(s + k) mod 16384 \<noteq> (s + c + k') mod 16384" if "k' < n" for k'
      using mod_ring_inj [of s k "c + k'"] that k assms(1) by (auto simp: add.assoc)
    then show "f ((s + k) mod 16384) = g ((s + k) mod 16384)" using assms(4) by blast
  qed
  moreover have "ring f ((s + c) mod 16384) n = take n (drop j d)"
    using assms(2,3) by (intro nth_equalityI) (auto simp: nth_ring mod_simps)
  moreover have "ring f ((s + c + n) mod 16384) m = ring g ((s + c + n) mod 16384) m"
  proof (rule ring_cong)
    fix k assume k: "k < m"
    have "(s + (c + n + k)) mod 16384 \<noteq> (s + (c + k')) mod 16384" if "k' < n" for k'
      using mod_ring_inj [of s "c + n + k" "c + k'"] that k assms(1) by auto
    then have "f ((s + (c + n + k)) mod 16384) = g ((s + (c + n + k)) mod 16384)" using assms(4) by (auto simp: add.assoc)
    then show "f (((s + c + n) mod 16384 + k) mod 16384) = g (((s + c + n) mod 16384 + k) mod 16384)"
      by (simp add: mod_simps add.assoc)
  qed
  ultimately show ?thesis by (simp add: ring_append add.assoc mod_simps)
qed

text \<open>What the data part of \<^verbatim>\<open>tcpRecvData\<close> does to the control block: \<open>n\<close> bytes of the packet and \<open>m\<close> bytes that had
  arrived before join the input stream.\<close>

definition delivered :: "bytes \<Rightarrow> nat \<Rightarrow> nat \<Rightarrow> tcb \<Rightarrow> tcb \<Rightarrow> bool" where
  "delivered new n m t t' \<longleftrightarrow>
     in_ring t' = in_ring t @ new @ ring (ibuf t) ((unat (inxt t) + n) mod 16384) m \<and> out_ring t' = out_ring t \<and>
     (\<forall>k<m. imark t ((unat (inxt t) + n + k) mod 16384)) \<and>
     (unat (icount t) + n + m = 16384 \<or> \<not> imark t ((unat (inxt t) + n + m) mod 16384)) \<and>
     unat (rcvnxt t') = unat (rcvnxt t) + n + m \<and> unat (icount t') = unat (icount t) + n + m \<and> rings_ok t' \<and>
     unat (inxt t') = (unat (inxt t) + n + m) mod 16384 \<and>
     (\<forall>k. n + k < 16384 \<longrightarrow> imark t' ((unat (inxt t) + n + k) mod 16384) = imark t ((unat (inxt t) + n + k) mod 16384)) \<and>
     tcpstate t' = tcpstate t \<and> snduna t' = snduna t \<and> sndnxt t' = sndnxt t \<and> rcvflg t' = rcvflg t"

lemma recv_advance_ok:
  assumes ok: "rings_ok t" and n: "unat (icount t) + unat seglen \<le> 16384"
    and s: "unat (rcvnxt t) + (16384 - unat (icount t)) < 2147483648" "\<not> has (rcvflg t) TCP_FLG_FIN"
  shows "\<exists>m t'. recv_advance env seglen t = Some (False, t') \<and> unat (icount t) + unat seglen + m \<le> 16384 \<and>
    (\<forall>k<m. imark t ((unat (inxt t) + unat seglen + k) mod 16384)) \<and>
    (unat (icount t) + unat seglen + m = 16384 \<or> \<not> imark t ((unat (inxt t) + unat seglen + m) mod 16384)) \<and>
    unat (rcvnxt t') = unat (rcvnxt t) + unat seglen + m \<and> unat (icount t') = unat (icount t) + unat seglen + m \<and>
    unat (inxt t') = (unat (inxt t) + unat seglen + m) mod 16384 \<and> sndflg t' = sndflg t OR TCP_FLG_SNDACK \<and>
    t'\<lparr>icount := icount t, ibytes := ibytes t, inxt := inxt t, rcvnxt := rcvnxt t, sndflg := sndflg t, calls := calls t\<rparr> = t"
proof -
  define u where "u = t\<lparr>icount := icount t + ucast seglen, ibytes := ibytes t + ucast seglen,
      inxt := (inxt t + ucast seglen) mod 16384, rcvnxt := seqadd (rcvnxt t) (ucast seglen)\<rparr>"
  have u: "unat (icount u) = unat (icount t) + unat seglen" "unat (inxt u) = (unat (inxt t) + unat seglen) mod 16384"
    "unat (rcvnxt u) = unat (rcvnxt t) + unat seglen"
    using n s ring_word_index [of "inxt t" "unat seglen"]
    by (simp_all add: u_def unat_add_no_wrap unat_seqadd)
  have "rings_ok u" using ok n u by (simp add: rings_ok_def mod_simps add.assoc) (simp add: u_def)
  moreover have "unat (rcvnxt u) + (16384 - unat (icount u)) < 2147483648" using s n u by simp
  moreover have "\<not> has (rcvflg u) TCP_FLG_FIN" using s(2) by (simp add: u_def)
  ultimately obtain m where m: "recv_marked u = Some (False, advanced m u)" "unat (icount u) + m \<le> 16384"
    "\<forall>k<m. imark u ((unat (inxt u) + k) mod 16384)" "unat (icount u) + m = 16384 \<or> \<not> imark u ((unat (inxt u) + m) mod 16384)"
    using recv_marked_ok by blast
  define v where "v = advanced m u"
  define w where "w = notify (Semcount (readers v)) v"
  define t' where "t' = set_flg TCP_FLG_SNDACK (if env (calls w) < 1 then notify (Signal (readers w)) w else w)"
  have "recv_advance env seglen t = do { (fin, t) \<leftarrow> recv_marked u; let (n, t) = ask env (Semcount (readers t)) t;
      let t = (if n < 1 then notify (Signal (readers t)) t else t); Some (fin, set_flg TCP_FLG_SNDACK t) }"
    by (simp add: recv_advance_def Let_def u_def)
  then have "recv_advance env seglen t = Some (False, t')"
    using m(1) by (simp add: ask_def notify_def Let_def t'_def w_def v_def)
  moreover have "unat (rcvnxt v) = unat (rcvnxt t) + unat seglen + m" "unat (icount v) = unat (icount t) + unat seglen + m"
    "unat (inxt v) = (unat (inxt t) + unat seglen + m) mod 16384"
    using u m(2) s n unat_add_no_wrap [of "rcvnxt u" "of_nat m"] unat_add_no_wrap [of "icount u" "of_nat m"] ring_word_index [of "inxt u" m]
    by (simp_all add: v_def unat_of_nat mod_simps)
  moreover have "rcvnxt t' = rcvnxt v" "icount t' = icount v" "inxt t' = inxt v" "sndflg t' = sndflg t OR TCP_FLG_SNDACK"
    "t'\<lparr>icount := icount t, ibytes := ibytes t, inxt := inxt t, rcvnxt := rcvnxt t, sndflg := sndflg t, calls := calls t\<rparr> = t"
    by (simp_all add: t'_def w_def v_def u_def set_flg_def notify_def)
  moreover have "imark u = imark t" by (simp add: u_def)
  ultimately show ?thesis using m u by (intro exI [of _ m] exI [of _ t']) (simp add: mod_simps)
qed


text \<open>A segment that starts at or before the next expected byte: \<open>ov\<close> bytes of it have been received before.\<close>

definition seg_ok :: "nat \<Rightarrow> tcpPkt \<Rightarrow> tcb \<Rightarrow> bool" where
  "seg_ok ov p t \<longleftrightarrow> rings_ok t \<and> low (seqnum p) \<and> low (rcvnxt t) \<and> low (rcvwnd t) \<and>
     unat (seqnum p) + ov = unat (rcvnxt t) \<and> ov \<le> unat (tcpSeglen p) \<and>
     unat (rcvnxt t) + ov \<le> unat (rcvwnd t) \<and> unat (rcvwnd t) - unat (rcvnxt t) \<le> 16384 - unat (icount t) \<and>
     nat (offset2octets (offset p)) + unat (tcpSeglen p) \<le> length (tbytes p) \<and>
     unat (rcvnxt t) + (16384 - unat (icount t)) < 2147483648 \<and> \<not> has (rcvflg t) TCP_FLG_FIN"

definition seg_bytes :: "nat \<Rightarrow> tcpPkt \<Rightarrow> tcb \<Rightarrow> nat" where
  \<comment> \<open>how many bytes of the segment are taken\<close>
  "seg_bytes ov p t = min (unat (tcpSeglen p) - ov) (unat (rcvwnd t) - unat (rcvnxt t) - ov)"

lemma ucast_u16_of_nat: "(ucast (w::u32) :: u16) = of_nat (unat w)"
  by (simp add: word_unat_eq_iff unsigned_ucast_eq unat_of_nat take_bit_eq_mod)

lemma recv_text_start:
  assumes "seg_ok ov p t"
  shows "recv_text env p t = do {
     let n = seg_bytes ov p t;
     let p = (if n < unat (tcpSeglen p) - ov then p\<lparr>control := control p AND NOT TCP_CTRL_FIN\<rparr> else p);
     t \<leftarrow> recv_copy (tbytes p) (nat (offset2octets (offset p)) + ov) (inxt t) 0 n t;
     (fin, t) \<leftarrow> recv_advance env (of_nat n) t;
     Some (of_nat n, if fin then p\<lparr>control := control p OR TCP_CTRL_FIN\<rparr> else p, t) }"
proof -
  define L W where "L = unat (tcpSeglen p)" and "W = unat (rcvwnd t) - unat (rcvnxt t)"
  have lo: "low (seqnum p)" "low (rcvnxt t)" "low (rcvwnd t)" using assms by (auto simp: seg_ok_def)
  have b: "ov \<le> L" "L < 65536" "ov \<le> W" "W \<le> 16384" "unat (seqnum p) + ov = unat (rcvnxt t)" "unat (inxt t) < 16384"
    "unat (rcvnxt t) \<le> unat (rcvwnd t)"
    using assms unat_u16 [of "tcpSeglen p"] by (auto simp: seg_ok_def L_def W_def rings_ok_def)
  have old: "seqlt (seqnum p) (rcvnxt t) = Some (0 < ov)" using seqlt_low [OF lo(1,2)] b(5) by auto
  have uo: "unat (of_nat ov :: u32) = ov" using b by (simp add: unat_of_nat)
  have offs: "(if 0 < ov then tcpSeqdiff (rcvnxt t) (seqnum p) else tcpSeqdiff (seqnum p) (rcvnxt t)) = of_nat ov"
    using b(5) uo unat_tcpSeqdiff [OF lo(2,1)] unat_tcpSeqdiff [OF lo(1,2)] by (auto simp: word_unat_eq_iff)
  have us: "unat (of_nat (L - ov) :: u16) = L - ov" "unat (of_nat (W - ov) :: u32) = W - ov" 
    by (simp_all only: unat_of_nat) (use b in simp_all)
  have seglen: "(if 0 < ov then ucast (ucast (tcpSeglen p) - of_nat ov :: u32) else tcpSeglen p) = (of_nat (L - ov) :: u16)"
  proof (cases "0 < ov")
    case True
    have "ucast (ucast (tcpSeglen p) - of_nat ov :: u32) = (of_nat (unat (ucast (tcpSeglen p) - of_nat ov :: u32)) :: u16)"
      by (rule ucast_u16_of_nat)
    also have "unat (ucast (tcpSeglen p) - of_nat ov :: u32) = L - ov"
      using b(1) uo by (simp add: unat_sub word_le_nat_alt L_def)
    finally show ?thesis using True by simp
  qed (simp add: L_def)
  have start: "(if 0 < ov then inxt t else (inxt t + of_nat ov) mod 16384) = inxt t"
    using ring_word_index [of "inxt t" 0] b(6) by (auto simp: word_unat_eq_iff)
  have wnd: "tcpSeqdiff (rcvwnd t) (rcvnxt t) - of_nat ov = of_nat (W - ov)"
  proof -
    have d: "unat (tcpSeqdiff (rcvwnd t) (rcvnxt t)) = W" using unat_tcpSeqdiff [OF lo(3,2)] b(7) by (simp add: W_def)
    then have "unat (tcpSeqdiff (rcvwnd t) (rcvnxt t) - of_nat ov) = W - ov" using b(3) uo by (simp add: unat_sub word_le_nat_alt)
    then show ?thesis unfolding word_unat_eq_iff us(2) .
  qed
  have data: "(if 0 < ov then nat (offset2octets (offset p)) + unat (of_nat ov :: u32) else nat (offset2octets (offset p))) =
      nat (offset2octets (offset p)) + ov" using uo by simp
  have cmp: "(of_nat (W - ov) :: u32) < ucast (of_nat (L - ov) :: u16) \<longleftrightarrow> seg_bytes ov p t < L - ov"
    using us by (auto simp: word_less_nat_alt seg_bytes_def L_def W_def)
  have fin: "(if seg_bytes ov p t < L - ov then ucast (of_nat (W - ov) :: u32) else of_nat (L - ov)) = (of_nat (seg_bytes ov p t) :: u16)"
  proof (cases "seg_bytes ov p t < L - ov")
    case True
    then have "seg_bytes ov p t = W - ov" by (auto simp: seg_bytes_def L_def W_def)
    moreover have "ucast (of_nat (W - ov) :: u32) = (of_nat (W - ov) :: u16)"
      using us(2) by (simp add: ucast_u16_of_nat)
    ultimately show ?thesis using True by simp
  next
    case False
    then have "seg_bytes ov p t = L - ov" by (auto simp: seg_bytes_def L_def W_def)
    then show ?thesis by simp
  qed
  have n: "unat (of_nat (seg_bytes ov p t) :: u16) = seg_bytes ov p t" using b by (simp add: unat_of_nat seg_bytes_def flip: L_def W_def)
  have inxt: "recv_copy d j s i n t = Some t' \<Longrightarrow> inxt t' = inxt t" for d j s i n t t'
    by (induction n arbitrary: i t) (auto simp: bind_Some_iff Let_def)
  show ?thesis
    unfolding recv_text_def recv_place_def old Let_def Option.bind.simps prod.case offs seglen start wnd of_nat_numeral data cmp fin n L_def [symmetric]
    by (intro Option.bind_cong) (auto dest: inxt)
qed


lemma recv_text_ok:
  assumes ok: "seg_ok ov p t" and n: "n = seg_bytes ov p t"
  shows "\<exists>m p' t'. recv_text env p t = Some (of_nat n, p', t') \<and> (p' = p \<or> p' = p\<lparr>control := control p AND NOT TCP_CTRL_FIN\<rparr>) \<and>
    delivered (take n (drop (nat (offset2octets (offset p)) + ov) (tbytes p))) n m t t' \<and>
    sndflg t' = sndflg t OR TCP_FLG_SNDACK \<and> rcvwnd t' = rcvwnd t"
proof -
  let ?d = "nat (offset2octets (offset p)) + ov"
  define p' where "p' = (if n < unat (tcpSeglen p) - ov then p\<lparr>control := control p AND NOT TCP_CTRL_FIN\<rparr> else p)"
  have r: "rings_ok t" "unat (icount t) \<le> 16384" "unat (inxt t) = (unat (istart t) + unat (icount t)) mod 16384"
    using ok by (auto simp: seg_ok_def rings_ok_def)
  have le: "unat (icount t) + n \<le> 16384" "?d + n \<le> length (tbytes p)" using ok r(2) by (auto simp: seg_ok_def n seg_bytes_def)
  obtain f g where fg: "recv_copy (tbytes p) ?d (inxt t) 0 n t = Some (t\<lparr>ibuf := f, imark := g\<rparr>)"
    "\<forall>k. k < n \<longrightarrow> f ((unat (inxt t) + k) mod 16384) = tbytes p ! (?d + k) \<and> g ((unat (inxt t) + k) mod 16384)"
    "\<forall>j. (\<forall>k. k < n \<longrightarrow> j \<noteq> (unat (inxt t) + k) mod 16384) \<longrightarrow> f j = ibuf t j \<and> g j = imark t j"
    using recv_copy_ok [of ?d 0 n "tbytes p" "inxt t" t] le by auto
  define u where "u = t\<lparr>ibuf := f, imark := g\<rparr>"
  have un: "unat (of_nat n :: u16) = n" using le by (simp add: unat_of_nat)
  have "rings_ok u" using r(1) by (simp add: u_def rings_ok_def)
  moreover have "unat (rcvnxt u) + (16384 - unat (icount u)) < 2147483648" "\<not> has (rcvflg u) TCP_FLG_FIN" "unat (icount u) + unat (of_nat n :: u16) \<le> 16384"
    using ok le un by (auto simp: u_def seg_ok_def)
  ultimately obtain m t' where m: "recv_advance env (of_nat n) u = Some (False, t')" "unat (icount u) + n + m \<le> 16384"
    "\<forall>k<m. imark u ((unat (inxt u) + n + k) mod 16384)"
    "unat (icount u) + n + m = 16384 \<or> \<not> imark u ((unat (inxt u) + n + m) mod 16384)"
    "unat (rcvnxt t') = unat (rcvnxt u) + n + m" "unat (icount t') = unat (icount u) + n + m"
    "unat (inxt t') = (unat (inxt u) + n + m) mod 16384" "sndflg t' = sndflg u OR TCP_FLG_SNDACK"
    "t'\<lparr>icount := icount u, ibytes := ibytes u, inxt := inxt u, rcvnxt := rcvnxt u, sndflg := sndflg u, calls := calls u\<rparr> = u"
    using recv_advance_ok [of u "of_nat n" env] un by auto
  note fr = arg_cong [OF m(9), of ibuf] arg_cong [OF m(9), of istart] arg_cong [OF m(9), of obuf] arg_cong [OF m(9), of ostart]
    arg_cong [OF m(9), of ocount] arg_cong [OF m(9), of rcvwnd] arg_cong [OF m(9), of tcpstate] arg_cong [OF m(9), of snduna] arg_cong [OF m(9), of sndnxt]
    arg_cong [OF m(9), of rcvflg] arg_cong [OF m(9), of imark]
  have mk: "imark u ((unat (inxt t) + n + k) mod 16384) = imark t ((unat (inxt t) + n + k) mod 16384)" if "n + k < 16384" for k
  proof -
    have "(unat (inxt t) + (n + k)) mod 16384 \<noteq> (unat (inxt t) + k') mod 16384" if "k' < n" for k'
      using mod_ring_inj [of "unat (inxt t)" "n + k" k'] that \<open>n + k < 16384\<close> by auto
    then show ?thesis using fg(3) by (simp add: u_def add.assoc)
  qed
  have "in_ring t' = in_ring t @ take n (drop ?d (tbytes p)) @ ring (ibuf t) ((unat (inxt t) + n) mod 16384) m"
  proof -
    have "ring f (unat (istart t)) (unat (icount t) + n + m) =
        in_ring t @ take n (drop ?d (tbytes p)) @ ring (ibuf t) ((unat (istart t) + unat (icount t) + n) mod 16384) m"
      by (rule ring_copied) (use m(2) le(2) fg(2,3) r(3) in \<open>auto simp: u_def mod_simps add.assoc\<close>)
    then show ?thesis using fr m(6) r(3) by (simp add: u_def mod_simps)
  qed
  moreover have "rings_ok t'" using r fr m(2,6,7) by (auto simp: rings_ok_def u_def mod_simps add.assoc)
  moreover have "\<forall>k<m. imark t ((unat (inxt t) + n + k) mod 16384)"
    using m(2,3) mk by (auto simp: u_def)
  moreover have "unat (icount t) + n + m = 16384 \<or> \<not> imark t ((unat (inxt t) + n + m) mod 16384)"
    using m(2,4) mk [of m] by (cases "n + m < 16384") (auto simp: u_def)
  ultimately have "delivered (take n (drop ?d (tbytes p))) n m t t'"
    using fr m(5,6,7) mk by (simp add: delivered_def u_def)
  moreover have "tbytes p' = tbytes p" "offset p' = offset p" by (simp_all add: p'_def)
  then have "recv_text env p t = Some (of_nat n, p', t')"
    unfolding recv_text_start [OF ok] Let_def n [symmetric] p'_def [symmetric] using fg(1) m(1) by (simp add: u_def)
  ultimately show ?thesis using m(8) fr by (auto simp: p'_def u_def)
qed


section \<open>Sending\<close>

lemma tcpSendWindow_frame: "snd (tcpSendWindow t) = t\<lparr>rcvwnd := rcvwnd (snd (tcpSendWindow t))\<rparr>"
  by (simp add: tcpSendWindow_def Let_def)

lemma tcpSendWindow_calls [simp]:
  "fst (tcpSendWindow (t\<lparr>calls := c\<rparr>)) = fst (tcpSendWindow t)" "rcvwnd (snd (tcpSendWindow (t\<lparr>calls := c\<rparr>))) = rcvwnd (snd (tcpSendWindow t))"
  "fst (tcpSendWindow (t\<lparr>sndflg := f\<rparr>)) = fst (tcpSendWindow t)" "rcvwnd (snd (tcpSendWindow (t\<lparr>sndflg := f\<rparr>))) = rcvwnd (snd (tcpSendWindow t))"
  by (simp_all add: tcpSendWindow_def Let_def)

lemma uint_hdr_len: "unat (len::u16) \<le> 1578 \<Longrightarrow> uint (20 + len) = 20 + uint len"
proof -
  assume "unat len \<le> 1578"
  then have "int (unat len) \<le> 1578" by linarith
  then have "uint (word_of_int (20 + uint len) :: u16) = 20 + uint len" by (simp only: uint_word_of_int) simp
  then show ?thesis by simp
qed

lemma has_or: "has (x OR f) (g::u8) \<longleftrightarrow> has x g \<or> has f g"
  by (simp add: bit.conj_disj_distrib2 or_eq_0_iff)

lemma has_cleared: "\<not> has (x AND NOT f) (f::u8)"
proof -
  have "(x AND NOT f) AND f = 0" by (rule bit_eqI) (auto simp: bit_simps)
  then show ?thesis by simp
qed

text \<open>The segment that \<^verbatim>\<open>tcpSend\<close> builds.\<close>

definition seg_of :: "u8 \<Rightarrow> u32 \<Rightarrow> u32 \<Rightarrow> u32 \<Rightarrow> nat \<Rightarrow> tcb \<Rightarrow> segment" where
  "seg_of ctrl seq ack start n t =
     \<lparr>sgsrcpt = localpt t, sgdstpt = remotept t, sgseq = seq, sgack = ack, sghlen = 20, sgctrl = ctrl,
       sgwindow = fst (tcpSendWindow t), sgmss = None, sgdata = out_bytes t start n\<rparr>"

lemma tcpSend_plain:
  assumes "\<not> has ctrl TCP_CTRL_SYN" "\<not> has ctrl TCP_CTRL_FIN" "unat len \<le> 1578" "env (calls t @ [Getbuf]) \<noteq> SYSERR"
  shows "\<exists>r. tcpSend env ctrl seq ack start len t = Some (r, t\<lparr>rcvwnd := rcvwnd (snd (tcpSendWindow t)),
     calls := calls t @ [Getbuf, IpSend (localip t) (remoteip t) (seg_of ctrl seq ack start (unat len) (t\<lparr>calls := calls t @ [Getbuf]\<rparr>)), Freebuf]\<rparr>)"
proof -
  have l: "int (unat len) \<le> 1578" using assms(3) by linarith
  note u = uint_hdr_len [OF assms(3)]
  obtain x where x: "tcpSendWindow (t\<lparr>calls := calls t @ [Getbuf]\<rparr>) = (x, (t\<lparr>calls := calls t @ [Getbuf]\<rparr>)\<lparr>rcvwnd := rcvwnd (snd (tcpSendWindow t))\<rparr>)"
    using tcpSendWindow_frame [of "t\<lparr>calls := calls t @ [Getbuf]\<rparr>"] by (metis prod.collapse tcpSendWindow_calls(2))
  show ?thesis
    using assms(1,2,4) l u x by (auto simp: tcpSend_def ask_def Let_def seg_of_def out_bytes_def)
qed

lemma tcpSend_nobuf:
  assumes "\<not> has ctrl TCP_CTRL_SYN" "\<not> has ctrl TCP_CTRL_FIN" "unat len \<le> 1578" "env (calls t @ [Getbuf]) = SYSERR"
  shows "tcpSend env ctrl seq ack start len t = Some (SYSERR, t\<lparr>calls := calls t @ [Getbuf]\<rparr>)"
proof -
  have l: "int (unat len) \<le> 1578" using assms(3) by linarith
  then show ?thesis using assms uint_hdr_len [OF assms(3)] by (simp add: tcpSend_def ask_def Let_def)
qed

lemma tcpSendAck_ok:
  "\<exists>r. tcpSendAck env t = Some (r, t\<lparr>sndflg := sndflg t AND NOT TCP_FLG_SNDACK,
     rcvwnd := (if env (calls t @ [Getbuf]) = SYSERR then rcvwnd t else rcvwnd (snd (tcpSendWindow t))),
     calls := calls t @ (if env (calls t @ [Getbuf]) = SYSERR then [Getbuf]
       else [Getbuf, IpSend (localip t) (remoteip t) (seg_of TCP_CTRL_ACK (sndnxt t) (rcvnxt t) 0 0 t), Freebuf])\<rparr>)"
proof (cases "env (calls t @ [Getbuf]) = SYSERR")
  case True
  then show ?thesis
    using tcpSend_nobuf [of TCP_CTRL_ACK 0 env "clear_flg TCP_FLG_SNDACK t" "sndnxt t" "rcvnxt t" 0]
    by (intro exI [of _ SYSERR]) (simp add: tcpSendAck_def clear_flg_def)
next
  case False
  have "seg_of TCP_CTRL_ACK a b 0 0 (t\<lparr>sndflg := f, calls := c\<rparr>) = seg_of TCP_CTRL_ACK a b 0 0 t" for a b f c
    by (simp add: seg_of_def tcpSendWindow_def out_bytes_def Let_def)
  then show ?thesis
    using False tcpSend_plain [of TCP_CTRL_ACK 0 env "clear_flg TCP_FLG_SNDACK t" "sndnxt t" "rcvnxt t" 0]
    by (auto simp: tcpSendAck_def clear_flg_def)
qed


lemma delivered_frame [simp]:
  "delivered b n m t (u\<lparr>sndflg := f, rcvwnd := w, calls := c\<rparr>) = delivered b n m t u"
  by (simp add: delivered_def rings_ok_def)

lemma tcpRecvData_ok:
  assumes ok: "seg_ok ov p t" "n = seg_bytes ov p t" "0 < tcpSeglen p" "tcpstate t \<in> {TCP_ESTAB, TCP_FINWT1, TCP_FINWT2}"
    and fl: "\<not> has (control p) TCP_CTRL_FIN" "\<not> has (sndflg t) TCP_FLG_SNDDATA"
    and buf: "\<forall>cs. env (cs @ [Getbuf]) \<noteq> SYSERR"
  shows "\<exists>m p' t' cs seg. tcpRecvData env p t = Some (OK, p', t') \<and>
    delivered (take n (drop (nat (offset2octets (offset p)) + ov) (tbytes p))) n m t t' \<and>
    calls t' = cs @ [Getbuf, IpSend (localip t') (remoteip t') seg, Freebuf] \<and>
    sgctrl seg = TCP_CTRL_ACK \<and> sgack seg = rcvnxt t' \<and> sgdata seg = [] \<and> \<not> has (sndflg t') TCP_FLG_SNDDATA \<and>
    rcvwnd t' = rcvwnd (snd (tcpSendWindow (t'\<lparr>rcvwnd := rcvwnd t\<rparr>)))"
proof -
  obtain m p' u where u: "recv_text env p t = Some (of_nat n, p', u)" "p' = p \<or> p' = p\<lparr>control := control p AND NOT TCP_CTRL_FIN\<rparr>"
    "delivered (take n (drop (nat (offset2octets (offset p)) + ov) (tbytes p))) n m t u" "sndflg u = sndflg t OR TCP_FLG_SNDACK" "rcvwnd u = rcvwnd t"
    using recv_text_ok [OF ok(1,2)] by blast
  have nofin: "\<not> has (control p') TCP_CTRL_FIN" using u(2) fl(1) has_cleared [of "control p" TCP_CTRL_FIN] by auto
  have f: "\<not> has (sndflg u) TCP_FLG_SNDDATA" "has (sndflg u) TCP_FLG_SNDACK"
    using fl(2) unfolding u(4) by (simp_all add: has_or)
  obtain r where a: "tcpSendAck env u = Some (r, u\<lparr>sndflg := sndflg u AND NOT TCP_FLG_SNDACK, rcvwnd := rcvwnd (snd (tcpSendWindow u)),
     calls := calls u @ [Getbuf, IpSend (localip u) (remoteip u) (seg_of TCP_CTRL_ACK (sndnxt u) (rcvnxt u) 0 0 u), Freebuf]\<rparr>)"
    using tcpSendAck_ok [of env u] buf by auto
  define t' where "t' = u\<lparr>sndflg := sndflg u AND NOT TCP_FLG_SNDACK, rcvwnd := rcvwnd (snd (tcpSendWindow u)),
     calls := calls u @ [Getbuf, IpSend (localip u) (remoteip u) (seg_of TCP_CTRL_ACK (sndnxt u) (rcvnxt u) 0 0 u), Freebuf]\<rparr>"
  have "tcpRecvData env p t = Some (OK, p', t')"
    using ok(3,4) u(1) nofin f a by (simp add: tcpRecvData_def send_pending_def t'_def)
  moreover have "delivered (take n (drop (nat (offset2octets (offset p)) + ov) (tbytes p))) n m t t'"
    using u(3) by (simp add: t'_def)
  moreover have "\<not> has (sndflg t') TCP_FLG_SNDDATA"
    using f(1) by (auto simp: t'_def and.assoc and.left_commute and.commute)
  moreover have "rcvwnd t' = rcvwnd (snd (tcpSendWindow (t'\<lparr>rcvwnd := rcvwnd t\<rparr>)))"
    using u(5) by (simp add: t'_def tcpSendWindow_def Let_def)
  ultimately show ?thesis
    by (intro exI [of _ m] exI [of _ p'] exI [of _ t'] exI [of _ "calls u"]
        exI [of _ "seg_of TCP_CTRL_ACK (sndnxt u) (rcvnxt u) 0 0 u"]) (simp add: t'_def seg_of_def out_bytes_def)
qed


text \<open>The segments among the calls, and that their sequence numbers count the bytes they carry.\<close>

fun segs :: "tcp_call list \<Rightarrow> segment list" where
  "segs [] = []"
| "segs (IpSend a b s # cs) = s # segs cs"
| "segs (_ # cs) = segs cs"

fun seq_chain :: "nat \<Rightarrow> segment list \<Rightarrow> bool" where
  "seq_chain q [] \<longleftrightarrow> True"
| "seq_chain q (s # ss) \<longleftrightarrow> unat (sgseq s) = q \<and> seq_chain (q + length (sgdata s)) ss"

lemma segs_append [simp]: "segs (xs @ ys) = segs xs @ segs ys"
  by (induction xs rule: segs.induct) auto

lemma seq_chain_append [simp]: "seq_chain q (xs @ ys) \<longleftrightarrow> seq_chain q xs \<and> seq_chain (q + length (concat (map sgdata xs))) ys"
  by (induction xs arbitrary: q) (auto simp: add.assoc)

lemma out_bytes_ring:
  assumes "used + n \<le> unat (ocount t)"
  shows "out_bytes t ((ostart t + of_nat used) mod 16384) n = take n (drop used (out_ring t))"
proof -
  have "out_bytes t ((ostart t + of_nat used) mod 16384) n = ring (obuf t) ((unat (ostart t) + used) mod 16384) n"
    by (simp add: out_bytes_def ring_def ring_word_index)
  moreover have "take n (drop used (out_ring t)) = take n (ring (obuf t) ((unat (ostart t) + used) mod 16384) (unat (ocount t) - used))"
    using ring_drop [of used "unat (ocount t)"] assms by simp
  moreover have "take n (ring b s k) = ring b s n" if "n \<le> k" for b s k
    using that by (simp add: ring_def take_map min_def)
  ultimately show ?thesis using assms by simp
qed

text \<open>\<open>k\<close> bytes of the output stream, from the byte after the \<open>used\<close> first, have gone out in the segments \<open>ss\<close>.\<close>

definition emitted :: "nat \<Rightarrow> nat \<Rightarrow> segment list \<Rightarrow> tcb \<Rightarrow> tcb \<Rightarrow> bool" where
  "emitted used k ss t t' \<longleftrightarrow> (\<exists>cs. calls t' = calls t @ cs \<and> segs cs = ss) \<and> concat (map sgdata ss) = take k (drop used (out_ring t)) \<and>
     seq_chain (unat (sndnxt t)) ss \<and> (\<forall>s\<in>set ss. sgack s = rcvnxt t \<and> sgdata s \<noteq> [] \<and> length (sgdata s) \<le> unat (sndmss t)) \<and>
     unat (sndnxt t') = unat (sndnxt t) + k \<and> t'\<lparr>sndnxt := sndnxt t, rcvwnd := rcvwnd t, sndflg := sndflg t, calls := calls t\<rparr> = t"

lemma emitted_nil: "emitted used 0 [] t t"
  by (auto simp: emitted_def)

lemma emitted_trans:
  assumes "emitted used k ss t u" "emitted (used + k) l rs u v" "used + k + l \<le> unat (ocount t)"
  shows "emitted used (k + l) (ss @ rs) t v"
proof -
  have e: "u\<lparr>sndnxt := sndnxt t, rcvwnd := rcvwnd t, sndflg := sndflg t, calls := calls t\<rparr> = t"
    "v\<lparr>sndnxt := sndnxt u, rcvwnd := rcvwnd u, sndflg := sndflg u, calls := calls u\<rparr> = u"
    using assms(1,2) by (auto simp: emitted_def)
  have f: "out_ring u = out_ring t" "rcvnxt u = rcvnxt t" "sndmss u = sndmss t"
    using arg_cong [OF e(1), of obuf] arg_cong [OF e(1), of ostart] arg_cong [OF e(1), of ocount] arg_cong [OF e(1), of rcvnxt]
      arg_cong [OF e(1), of sndmss] by simp_all
  have "v\<lparr>sndnxt := sndnxt t, rcvwnd := rcvwnd t, sndflg := sndflg t, calls := calls t\<rparr> = t"
    using arg_cong [OF e(2), of "\<lambda>x. x\<lparr>sndnxt := sndnxt t, rcvwnd := rcvwnd t, sndflg := sndflg t, calls := calls t\<rparr>"] e(1) by simp
  moreover have "length (concat (map sgdata ss)) = k" using assms(1,3) by (simp add: emitted_def)
  moreover have "take k (drop used (out_ring t)) @ take l (drop (used + k) (out_ring t)) = take (k + l) (drop used (out_ring t))"
    by (simp add: take_add drop_drop add.commute)
  ultimately show ?thesis using assms(1,2) f by (auto simp: emitted_def)
qed

lemma send_one:
  assumes "0 < len" "unat len \<le> 1578" "unat len \<le> unat (sndmss t)" "used + unat len \<le> unat (ocount t)" "unat (sndnxt t) + unat len < 2147483648"
    and "\<forall>cs. env (cs @ [Getbuf]) \<noteq> SYSERR"
  shows "\<exists>r t' s. tcpSend env TCP_CTRL_ACK (sndnxt t) (rcvnxt t) ((ostart t + of_nat used) mod 16384) len t = Some (r, t') \<and>
    emitted used (unat len) [s] t (t'\<lparr>sndnxt := seqadd (sndnxt t) (ucast len)\<rparr>) \<and> sgctrl s = TCP_CTRL_ACK \<and> sndnxt t' = sndnxt t"
proof -
  let ?b = "(ostart t + of_nat used) mod 16384"
  let ?s = "seg_of TCP_CTRL_ACK (sndnxt t) (rcvnxt t) ?b (unat len) (t\<lparr>calls := calls t @ [Getbuf]\<rparr>)"
  obtain r w where r: "tcpSend env TCP_CTRL_ACK (sndnxt t) (rcvnxt t) ?b len t =
      Some (r, t\<lparr>rcvwnd := w, calls := calls t @ [Getbuf, IpSend (localip t) (remoteip t) ?s, Freebuf]\<rparr>)"
    using tcpSend_plain [of TCP_CTRL_ACK len env t "sndnxt t" "rcvnxt t" ?b] assms(2,6) by auto
  have d: "sgdata ?s = take (unat len) (drop used (out_ring t))"
    using out_bytes_ring [OF assms(4)] by (simp add: seg_of_def out_bytes_def)
  have "emitted used (unat len) [?s] t
      ((t\<lparr>rcvwnd := w, calls := calls t @ [Getbuf, IpSend (localip t) (remoteip t) ?s, Freebuf]\<rparr>)\<lparr>sndnxt := seqadd (sndnxt t) (ucast len)\<rparr>)"
    using d assms(1,3-5) by (auto simp: emitted_def unat_seqadd word_less_nat_alt) (simp_all add: seg_of_def)
  then show ?thesis using r by (auto simp: seg_of_def)
qed


lemma emitted_fields:
  assumes "emitted used k ss t u"
  shows "sndmss u = sndmss t" "rcvnxt u = rcvnxt t" "ostart u = ostart t" "ocount u = ocount t" "sndflg u = sndflg t \<or> True"
    "rxttime u = rxttime t" "unat (sndnxt u) = unat (sndnxt t) + k"
proof -
  have e: "u\<lparr>sndnxt := sndnxt t, rcvwnd := rcvwnd t, sndflg := sndflg t, calls := calls t\<rparr> = t" using assms by (simp add: emitted_def)
  show "sndmss u = sndmss t" "rcvnxt u = rcvnxt t" "ostart u = ostart t" "ocount u = ocount t" "rxttime u = rxttime t"
    using arg_cong [OF e, of sndmss] arg_cong [OF e, of rcvnxt] arg_cong [OF e, of ostart] arg_cong [OF e, of ocount] arg_cong [OF e, of rxttime]
    by simp_all
qed (use assms in \<open>simp_all add: emitted_def\<close>)

lemma send_segments_ok:
  assumes "0 < sndmss t" "unat (sndmss t) \<le> 1578" "used + unat tosend \<le> unat (ocount t)" "unat (sndnxt t) + unat tosend < 2147483648"
    and "\<forall>cs. env (cs @ [Getbuf]) \<noteq> SYSERR"
  shows "\<exists>k rest t' ss. send_segments env tosend sent (of_nat used) t = Some (rest, sent + of_nat k, of_nat (used + k), t') \<and>
    k + unat rest = unat tosend \<and> unat rest \<le> unat (sndmss t) \<and> (0 < tosend \<longrightarrow> 0 < rest) \<and> emitted used k ss t t' \<and>
    (\<forall>s\<in>set ss. sgctrl s = TCP_CTRL_ACK)"
  using assms
proof (induction "unat tosend" arbitrary: tosend sent used t rule: less_induct)
  case less
  have mss: "unat (ucast (sndmss t) :: u32) = unat (sndmss t)" "0 < unat (sndmss t)" using less.prems(1) by (auto simp: word_less_nat_alt)
  show ?case
  proof (cases "ucast (sndmss t) < tosend")
    case False
    then have "send_segments env tosend sent (of_nat used) t = Some (tosend, sent + of_nat 0, of_nat (used + 0), t)"
      by (subst send_segments.simps) simp
    moreover have "unat tosend \<le> unat (sndmss t)" using False mss by (simp add: not_less word_le_nat_alt)
    ultimately show ?thesis
      using emitted_nil by (intro exI [of _ 0] exI [of _ tosend] exI [of _ t] exI [of _ "[]"]) simp
  next
    case True
    let ?m = "unat (sndmss t)"
    have lt: "?m < unat tosend" using True mss by (simp add: word_less_nat_alt)
    have sub: "unat (tosend - ucast (sndmss t)) = unat tosend - ?m" using True by (simp add: unat_sub less_imp_le)
    obtain r t1 s where s: "tcpSend env TCP_CTRL_ACK (sndnxt t) (rcvnxt t) ((ostart t + of_nat used) mod 16384) (sndmss t) t = Some (r, t1)"
      "emitted used ?m [s] t (t1\<lparr>sndnxt := seqadd (sndnxt t) (ucast (sndmss t))\<rparr>)" "sgctrl s = TCP_CTRL_ACK"
      using send_one [of "sndmss t" t used env] less.prems lt by auto
    define u where "u = t1\<lparr>sndnxt := seqadd (sndnxt t) (ucast (sndmss t))\<rparr>"
    note f = emitted_fields [OF s(2), folded u_def]
    obtain k rest t' ss where IH: "send_segments env (tosend - ucast (sndmss t)) (sent + ucast (sndmss t)) (of_nat (used + ?m)) u =
        Some (rest, (sent + ucast (sndmss t)) + of_nat k, of_nat ((used + ?m) + k), t')"
      "k + unat rest = unat tosend - ?m" "unat rest \<le> unat (sndmss t)" "0 < rest" "emitted (used + ?m) k ss u t'"
      "\<forall>s\<in>set ss. sgctrl s = TCP_CTRL_ACK"
      using less.hyps [of "tosend - ucast (sndmss t)" u "used + ?m" "sent + ucast (sndmss t)"] less.prems sub lt mss f
      by (auto simp: word_less_nat_alt)
    have "send_segments env tosend sent (of_nat used) t =
        send_segments env (tosend - ucast (sndmss t)) (sent + ucast (sndmss t)) (of_nat (used + ?m)) u"
      using True mss(2) s(1) by (subst send_segments.simps) (auto simp add: u_def)
    moreover have "emitted used (?m + k) ([s] @ ss) t t'"
      using emitted_trans [OF s(2) [folded u_def] IH(5)] IH(2) less.prems(3) lt by simp
    ultimately show ?thesis
      using IH(1-4,6) s(3) lt
      by (intro exI [of _ "?m + k"] exI [of _ rest] exI [of _ t'] exI [of _ "[s] @ ss"]) (simp add: add.assoc)
  qed
qed

lemma emitted_frame:
  assumes "emitted used k ss t v" "segs cs = []"
  shows "emitted used k ss t (v\<lparr>calls := calls v @ cs, sndflg := f\<rparr>)"
proof -
  have e: "v\<lparr>sndnxt := sndnxt t, rcvwnd := rcvwnd t, sndflg := sndflg t, calls := calls t\<rparr> = t" using assms(1) by (simp add: emitted_def)
  have "(v\<lparr>calls := calls v @ cs, sndflg := f\<rparr>)\<lparr>sndnxt := sndnxt t, rcvwnd := rcvwnd t, sndflg := sndflg t, calls := calls t\<rparr> = t"
    using e by simp
  then show ?thesis using assms by (auto simp: emitted_def)
qed

lemma tcpSendData_ok:
  assumes mss: "0 < sndmss t" "unat (sndmss t) \<le> 1578" and fl: "\<not> has (sndflg t) TCP_FLG_FIN" "\<not> has (sndflg t) TCP_FLG_PERSIST" "rxtcount t = 0"
    and lo: "low (snduna t)" "window_end (snduna t) (sndwnd t)" "unat (sndnxt t) = unat (snduna t) + used"
    and us: "used < unat (sndwnd t)" "used < unat (ocount t)" "unat (ocount t) \<le> 16384"
    and buf: "\<forall>cs. env (cs @ [Getbuf]) \<noteq> SYSERR" and N: "N = min (unat (ocount t)) (unat (sndwnd t)) - used"
  shows "\<exists>t' ss. tcpSendData env t = Some (int N, t') \<and> emitted used N ss t t' \<and> (\<forall>s\<in>set ss. sgctrl s = TCP_CTRL_ACK)"
proof -
  have w: "unat (snduna t) + unat (sndwnd t) < 2147483648" using lo(2) by (simp add: window_end_def)
  have ln: "low (sndnxt t)" using lo(3) us(1) w by (simp add: low_def)
  have full: "seqlte (seqadd (snduna t) (sndwnd t)) (sndnxt t) = Some False"
    using seqlte_low [OF low_seqadd [OF w] ln] unat_seqadd [of "snduna t" "sndwnd t"] w lo(3) us(1) by simp
  have wnd: "tcpSeqdiff (sndnxt t) (snduna t) = of_nat used"
    using unat_tcpSeqdiff [OF ln lo(1)] lo(3) us by (simp add: word_unat_eq_iff unat_of_nat)
  have uu: "unat (of_nat used :: u32) = used" using us by (simp add: unat_of_nat)
  define tosend where "tosend = (if ocount t > sndwnd t then sndwnd t - of_nat used else ocount t - of_nat used)"
  have ts: "unat tosend = N"
    using us uu unat_sub [of "of_nat used" "sndwnd t"] unat_sub [of "of_nat used" "ocount t"]
    by (auto simp: tosend_def N word_less_nat_alt word_le_nat_alt min_def)
  have ne: "ocount t \<noteq> of_nat used" using us(2) uu by auto
  have bN: "unat (sndnxt t) + N < 2147483648" "used + N \<le> unat (ocount t)" "0 < N" using w lo(3) us N by (auto simp: min_def)
  obtain k rest u ss where s: "send_segments env tosend 0 (of_nat used) t = Some (rest, 0 + of_nat k, of_nat (used + k), u)"
      "k + unat rest = N" "unat rest \<le> unat (sndmss t)" "emitted used k ss t u" "0 < rest" "\<forall>s\<in>set ss. sgctrl s = TCP_CTRL_ACK"
    using send_segments_ok [OF mss, of used tosend env 0] ts bN buf by (auto simp: word_less_nat_alt)
  note f = emitted_fields [OF s(4)]
  have kN: "k \<le> N" "used + N \<le> unat (ocount t)" "N \<le> 16384" using s(2) us N by auto
  have ur: "unat (ucast rest :: u16) = unat rest" using s(2) kN(3) by (simp add: unsigned_ucast_eq take_bit_eq_mod)
  then have ur': "ucast (ucast rest :: u16) = rest" by (simp only: word_unat_eq_iff unat_ucast_u16)
  have pos: "0 < (ucast rest :: u16)" using ur s(5) by (simp add: word_less_nat_alt)
  obtain r v0 x where x: "tcpSend env TCP_CTRL_ACK (sndnxt u) (rcvnxt u) ((ostart u + of_nat (used + k)) mod 16384) (ucast rest) u = Some (r, v0)"
      "emitted (used + k) (unat rest) [x] u (v0\<lparr>sndnxt := seqadd (sndnxt u) rest\<rparr>)" "sgctrl x = TCP_CTRL_ACK" "sndnxt v0 = sndnxt u"
    using send_one [of "ucast rest" u "used + k" env] ur ur' pos s(2,3) mss(2) f kN bN buf by auto
  define v where "v = v0\<lparr>sndnxt := seqadd (sndnxt u) rest\<rparr>"
  have ev: "emitted used N (ss @ [x]) t v"
    using emitted_trans [OF s(4) x(2) [folded v_def]] s(2) kN(2) by simp
  define sent where "sent = of_nat k + rest"
  have sent: "unat sent = N" "0 < sent" "to_int sent = int N"
  proof -
    show a: "unat sent = N" using s(2) kN(3) by (simp add: sent_def unat_word_ariths unat_of_nat)
    then show "0 < sent" using bN(3) by (simp add: word_less_nat_alt)
    have "low sent" using a kN(3) by (simp add: low_def)
    then show "to_int sent = int N" using to_int_low a by (metis uint_nat)
  qed
  define c where "c = (if env (calls v @ [TimerRemain EVT_RXT]) \<le> 0 then [TimerRemain EVT_RXT, TimerSched (rxttime v) EVT_RXT] else [TimerRemain EVT_RXT])"
  define fl' where "fl' = (sndflg v AND NOT TCP_FLG_SNDACK) AND NOT TCP_FLG_SNDDATA"
  have nz: "sndwnd t \<noteq> 0" "calls v = calls v0" using us(1) by (auto simp: v_def)
  have "tcpSendData env t = Some (to_int sent, v\<lparr>calls := calls v @ c, sndflg := fl'\<rparr>)"
    unfolding tcpSendData_def
    using mss(1) fl nz full wnd ne s(1) x(1,4) sent(2)
    by (simp add: and_then_def ask_def notify_def clear_flg_def c_def fl'_def word_gt_0 Let_def flip: tosend_def sent_def v_def)
  moreover have "emitted used N (ss @ [x]) t (v\<lparr>calls := calls v @ c, sndflg := fl'\<rparr>)"
    by (rule emitted_frame [OF ev]) (simp add: c_def)
  ultimately show ?thesis using sent(3) s(6) x(3)
    by (intro exI [of _ "v\<lparr>calls := calls v @ c, sndflg := fl'\<rparr>"] exI [of _ "ss @ [x]"]) auto
qed

end
