(* ===== verification/Wire.thy ===== *)
theory Wire
  imports Net
begin

text \<open>
  Numbers in network byte order: the bytes of a short and of a long, high byte first, and the conversions
  \<^verbatim>\<open>hs2net\<close> and \<^verbatim>\<open>hl2net\<close> of \<^verbatim>\<open>include/network.h\<close> that write and read them.
\<close>

definition be16 :: "u16 \<Rightarrow> bytes" where
  "be16 x = [ucast (drop_bit 8 x), ucast x]"

definition be32 :: "u32 \<Rightarrow> bytes" where
  "be32 x = [ucast (drop_bit 24 x), ucast (drop_bit 16 x), ucast (drop_bit 8 x), ucast x]"

lemma ucast_sum: "(ucast (a::u8) :: u32) + 256 * ucast (b::u8) = ucast a OR push_bit 8 (ucast b)"
proof -
  have "(256::u32) * ucast b = push_bit 8 (ucast b)" by (simp add: push_bit_eq_mult)
  moreover have "(ucast a :: u32) + push_bit 8 (ucast b) = ucast a OR push_bit 8 (ucast b)"
    by (rule disjunctive_add) (auto simp: bit_simps dest: bit_imp_le_length)
  ultimately show ?thesis by simp
qed

lemma bit_bytes:
  "bit (ucast (b::u8) :: u32) n \<longleftrightarrow> n < 8 \<and> bit b n" "bit (ucast (v::u32) :: u16) n \<longleftrightarrow> n < 16 \<and> bit v n"
  "bit (ucast (w::u16) :: u8) n \<longleftrightarrow> n < 8 \<and> bit w n" "bit (ucast (v::u32) :: u8) n \<longleftrightarrow> n < 8 \<and> bit v n"
  "bit (push_bit k v) n \<longleftrightarrow> k \<le> n \<and> n < 32 \<and> bit v (n - k)"
  by (auto simp: bit_simps dest: bit_imp_le_length)

lemma net2hs_be16: "ucast (net2hs (ucast (ucast (drop_bit 8 x) :: u8) + 256 * ucast (ucast x :: u8))) = (x::u16)"
proof -
  have ff: "(0xff::u32) = mask 8" by (simp add: mask_eq_exp_minus_1)
  show ?thesis unfolding hs2net_def ff ucast_sum
  proof (rule bit_word_eqI)
    fix n assume "n < LENGTH(16)"
    then show "bit (ucast ((drop_bit 8 (ucast (ucast (drop_bit 8 x) :: u8) OR push_bit 8 (ucast (ucast x :: u8))) AND mask 8) OR
        push_bit 8 ((ucast (ucast (drop_bit 8 x) :: u8) OR push_bit 8 (ucast (ucast x :: u8))) AND mask 8) :: u32) :: u16) n = bit x n"
      unfolding bit_bytes bit_or_iff bit_and_iff bit_drop_bit_eq bit_mask_iff o_apply
      by (cases "n < 8") (simp_all add: less_diff_conv2, arith)
  qed
qed

text \<open>The four bytes of a long in the other order.\<close>

lemma bits_swapped:
  assumes y: "y = ucast (ucast (drop_bit 24 x) :: u8) OR push_bit 8 (ucast (ucast (drop_bit 16 x) :: u8)) OR
    push_bit 16 (ucast (ucast (drop_bit 8 x) :: u8)) OR push_bit 24 (ucast (ucast x :: u8))"
  shows "push_bit 24 (y AND mask 8) OR (drop_bit 24 y AND mask 8) OR
     drop_bit 8 (y AND push_bit 16 (mask 8)) OR push_bit 8 (y AND push_bit 8 (mask 8)) = (x::u32)" (is "?l = x")
proof (rule bit_word_eqI)
  fix n assume n: "n < LENGTH(32)"
  have "bit y k \<longleftrightarrow> k < 8 \<and> bit x (k + 24) \<or> 8 \<le> k \<and> k < 16 \<and> bit x (k + 8) \<or> 16 \<le> k \<and> k < 24 \<and> bit x (k - 8) \<or>
      24 \<le> k \<and> k < 32 \<and> bit x (k - 24)" for k
    unfolding y by (auto simp: bit_bytes bit_or_iff bit_drop_bit_eq less_diff_conv2 add.commute)
  then have Y: "bit y k \<Longrightarrow> k < 32" "m < 8 \<Longrightarrow> bit y m \<longleftrightarrow> bit x (m + 24)" "m < 8 \<Longrightarrow> bit y (8 + m) \<longleftrightarrow> bit x (m + 16)"
    "m < 8 \<Longrightarrow> bit y (16 + m) \<longleftrightarrow> bit x (m + 8)" "m < 8 \<Longrightarrow> bit y (24 + m) \<longleftrightarrow> bit x m" for k m
    by (auto simp: add.commute)
  obtain m where m: "m < 8" "n = m \<or> n = m + 8 \<or> n = m + 16 \<or> n = m + 24"
    using n by (intro that [of "n mod 8"]) (auto, presburger)
  show "bit ?l n = bit x n"
    using m(2) by (elim disjE) (use m(1) Y in \<open>simp_all add: bit_bytes(5) bit_or_iff bit_and_iff bit_drop_bit_eq bit_mask_iff\<close>)
qed

lemma net2hl_be32:
  "net2hl ((ucast (ucast (drop_bit 24 x) :: u8) + 256 * ucast (ucast (drop_bit 16 x) :: u8)) +
     push_bit 16 (ucast (ucast (drop_bit 8 x) :: u8) + 256 * ucast (ucast x :: u8))) = (x::u32)"
proof -
  have ff: "(0xff::u32) = mask 8" "(0xff0000::u32) = push_bit 16 (mask 8)" "(0xff00::u32) = push_bit 8 (mask 8)"
    by (simp_all add: mask_eq_exp_minus_1 push_bit_eq_mult)
  have "(ucast (a::u8) OR push_bit 8 (ucast (b::u8))) + push_bit 16 (ucast (c::u8) OR push_bit 8 (ucast (d::u8))) =
      (ucast a OR push_bit 8 (ucast b)) OR push_bit 16 (ucast c OR push_bit 8 (ucast d) :: u32)" for a b c d
    by (rule disjunctive_add) (auto simp only: bit_bytes bit_or_iff)
  then have "(ucast (a::u8) OR push_bit 8 (ucast (b::u8))) + push_bit 16 (ucast (c::u8) OR push_bit 8 (ucast (d::u8))) =
      (ucast a OR push_bit 8 (ucast b) OR push_bit 16 (ucast c) OR push_bit 24 (ucast d) :: u32)" for a b c d
    by (simp add: push_bit_or or.assoc)
  then show ?thesis unfolding hl2net_def ff ucast_sum by (intro bits_swapped) simp
qed

end
