(* ===== verification/Tcp_Transfer.thy ===== *)
theory Tcp_Transfer
  imports Tcp_Stream Wire
begin

text \<open>
  Two ends of a TCP connection together: the bytes of a segment on the wire and what \<^verbatim>\<open>tcpRecv\<close> reads from
  them, the receive window that the acknowledgements keep, and a byte stream that goes from the sender's
  output buffer to the receiver's input buffer.
\<close>

section \<open>Segments on the wire\<close>

definition wire :: "u16 \<Rightarrow> segment \<Rightarrow> bytes" where
  \<comment> \<open>a segment with no options, its checksum field given\<close>
  "wire ck s = be16 (sgsrcpt s) @ be16 (sgdstpt s) @ be32 (sgseq s) @ be32 (sgack s) @ [0x50, sgctrl s] @
     be16 (sgwindow s) @ be16 ck @ [0, 0] @ sgdata s"

definition arrived :: "u16 \<Rightarrow> segment \<Rightarrow> tcpPkt" where
  "arrived ck s = \<lparr>srcpt = sgsrcpt s, dstpt = sgdstpt s, seqnum = sgseq s, acknum = sgack s, offset = 0x50,
     control = sgctrl s, window = sgwindow s, tbytes = wire ck s, tcplen = 20 + of_nat (length (sgdata s))\<rparr>"

lemma tcp_host_wire: "tcp_host (wire ck s) (20 + of_nat (length (sgdata s))) = Some (arrived ck s)"
  by (simp add: tcp_host_def rd32_def rd16_def rd_def wire_def be16_def be32_def arrived_def net2hs_be16 net2hl_be32
      flip: numeral_eq_Suc)

section \<open>The receive window\<close>

definition can_receive :: "tcb \<Rightarrow> bool" where
  \<comment> \<open>an end of a connection that takes data: no byte behind the stream has arrived, and the window it has
    offered fits into its buffer and ends below \<open>2^31\<close>\<close>
  "can_receive t \<longleftrightarrow> rings_ok t \<and> unat (rcvnxt t) \<le> unat (rcvwnd t) \<and> unat (rcvwnd t) - unat (rcvnxt t) \<le> 16384 - unat (icount t) \<and>
     unat (rcvnxt t) + (16384 - unat (icount t)) < 2147483648 \<and> \<not> has (rcvflg t) TCP_FLG_FIN \<and> \<not> has (sndflg t) TCP_FLG_SNDDATA \<and>
     tcpstate t \<in> {TCP_ESTAB, TCP_FINWT1, TCP_FINWT2} \<and>
     (\<forall>k < 16384 - unat (icount t). \<not> imark t ((unat (inxt t) + k) mod 16384))"

lemma send_window_kept:
  assumes "unat (icount t) \<le> 16384" "unat (rcvnxt t) \<le> unat (rcvwnd t)" "unat (rcvwnd t) - unat (rcvnxt t) \<le> 16384 - unat (icount t)"
    and "unat (rcvnxt t) + (16384 - unat (icount t)) < 2147483648" "tcpstate t \<in> {TCP_ESTAB, TCP_FINWT1, TCP_FINWT2}"
  shows "unat (rcvwnd t) \<le> unat (rcvwnd (snd (tcpSendWindow t))) \<and>
    unat (rcvwnd (snd (tcpSendWindow t))) - unat (rcvnxt t) \<le> 16384 - unat (icount t)"
proof -
  define window where "window = (word_of_int (int 16384 - uint (icount t)) :: u16)"
  define unused where "unused = (ucast (tcpSeqdiff (rcvwnd t) (rcvnxt t)) :: u16)"
  define w where "w = (if uint window * 4 < int 16384 \<or> window < rcvmss t then 0 else window)"
  have lo: "low (rcvwnd t)" "low (rcvnxt t)" using assms by (auto simp: low_def)
  have un: "unat unused = unat (rcvwnd t) - unat (rcvnxt t)"
    using unat_tcpSeqdiff [OF lo assms(2)] assms(3) by (simp add: unused_def unsigned_ucast_eq take_bit_eq_mod)
  have win: "unat window = 16384 - unat (icount t)"
  proof -
    have "int 16384 - uint (icount t) = int (16384 - unat (icount t))" using assms(1) by simp
    then have "window = of_nat (16384 - unat (icount t))" by (simp add: window_def)
    then show ?thesis using assms(1) by (simp only: unat_of_nat) simp
  qed
  have wle: "unat w \<le> 16384 - unat (icount t)" using win by (simp add: w_def)
  have e: "rcvwnd (snd (tcpSendWindow t)) = (if w > unused then seqadd (rcvnxt t) (ucast w) else rcvwnd t)"
    using assms(5) by (auto simp: tcpSendWindow_def Let_def window_def unused_def w_def)
  show ?thesis
  proof (cases "w > unused")
    case True
    have "unat (seqadd (rcvnxt t) (ucast w)) = unat (rcvnxt t) + unat w" using unat_seqadd [of "rcvnxt t" "ucast w"] wle assms(4) by simp
    then show ?thesis using True un wle assms(2) by (simp add: e word_less_nat_alt)
  qed (use assms(3) e in simp)
qed

section \<open>A stream of segments\<close>

lemma arrived_seglen: "length (sgdata s) \<le> 1578 \<Longrightarrow> unat (tcpSeglen (arrived ck s)) = length (sgdata s)"
proof -
  assume a: "length (sgdata s) \<le> 1578"
  have "tcpSeglen (arrived ck s) = of_nat (length (sgdata s))"
    by (simp add: tcpSeglen_def arrived_def offset2octets_def)
  then show ?thesis using a by (simp only: unat_of_nat) simp
qed

lemma drop_wire: "drop 20 (wire ck s) = sgdata s"
  by (simp add: wire_def be16_def be32_def)

lemma receive_one:
  assumes ok: "can_receive r" and s: "unat (sgseq s) = unat (rcvnxt r)" "sgdata s \<noteq> []" "length (sgdata s) \<le> 1578" "sgctrl s = TCP_CTRL_ACK"
    and w: "length (sgdata s) \<le> unat (rcvwnd r) - unat (rcvnxt r)" and buf: "\<forall>cs. env (cs @ [Getbuf]) \<noteq> SYSERR"
  shows "\<exists>p' r'. tcpRecvData env (arrived ck s) r = Some (OK, p', r') \<and> can_receive r' \<and> in_ring r' = in_ring r @ sgdata s \<and>
    unat (rcvnxt r') = unat (rcvnxt r) + length (sgdata s) \<and> unat (rcvwnd r) \<le> unat (rcvwnd r')"
proof -
  let ?p = "arrived ck s" and ?n = "length (sgdata s)"
  have len: "unat (tcpSeglen ?p) = ?n" by (rule arrived_seglen [OF s(3)])
  have off: "nat (offset2octets (offset ?p)) = 20" by (simp add: arrived_def offset2octets_def)
  have tb: "drop 20 (tbytes ?p) = sgdata s" "length (tbytes ?p) = 20 + ?n"
    by (simp_all add: arrived_def drop_wire) (simp add: wire_def be16_def be32_def)
  have "seg_ok 0 ?p r" using ok s(1) len off tb by (auto simp: seg_ok_def can_receive_def low_def arrived_def)
  moreover have n: "?n = seg_bytes 0 ?p r" using len w by (simp add: seg_bytes_def)
  moreover have "0 < tcpSeglen ?p" using len s(2) by (simp add: word_less_nat_alt)
  moreover have "\<not> has (control ?p) TCP_CTRL_FIN" using s(4) by (simp add: arrived_def)
  ultimately obtain m p' r' where r': "tcpRecvData env ?p r = Some (OK, p', r')" "delivered (sgdata s) ?n m r r'"
    "\<not> has (sndflg r') TCP_FLG_SNDDATA" "rcvwnd r' = rcvwnd (snd (tcpSendWindow (r'\<lparr>rcvwnd := rcvwnd r\<rparr>)))"
    using tcpRecvData_ok [of 0 ?p r ?n env] ok buf tb off by (auto simp: can_receive_def)
  have m: "m = 0"
  proof (rule ccontr)
    assume "m \<noteq> 0"
    then have "imark r ((unat (inxt r) + ?n) mod 16384)" "unat (icount r) + ?n + m \<le> 16384"
      using r'(2) by (auto simp: delivered_def rings_ok_def)
    then show False using ok \<open>m \<noteq> 0\<close> by (auto simp: can_receive_def)
  qed
  have d: "in_ring r' = in_ring r @ sgdata s" "unat (rcvnxt r') = unat (rcvnxt r) + ?n" "unat (icount r') = unat (icount r) + ?n" "rings_ok r'"
    "unat (inxt r') = (unat (inxt r) + ?n) mod 16384" "tcpstate r' = tcpstate r" "rcvflg r' = rcvflg r"
    "\<And>k. ?n + k < 16384 \<Longrightarrow> imark r' ((unat (inxt r) + ?n + k) mod 16384) = imark r ((unat (inxt r) + ?n + k) mod 16384)"
    using r'(2) m by (auto simp: delivered_def ring_def)
  have c: "unat (icount r') \<le> 16384" using d(4) by (simp add: rings_ok_def)
  have win: "unat (rcvwnd r) \<le> unat (rcvwnd r') \<and> unat (rcvwnd r') - unat (rcvnxt r') \<le> 16384 - unat (icount r')"
    using send_window_kept [of "r'\<lparr>rcvwnd := rcvwnd r\<rparr>"] r'(4) ok w c d by (auto simp: can_receive_def)
  have "\<not> imark r' ((unat (inxt r') + k) mod 16384)" if "k < 16384 - unat (icount r')" for k
    using that ok d(3,5) d(8) [of k] by (auto simp: can_receive_def mod_simps add.assoc)
  then have "can_receive r'" using win ok w c d r'(3) by (auto simp: can_receive_def)
  then show ?thesis using r'(1) d win by blast
qed

fun receive_all :: "tcp_env \<Rightarrow> (segment \<Rightarrow> u16) \<Rightarrow> segment list \<Rightarrow> tcb \<Rightarrow> tcb option" where
  \<comment> \<open>the segments arrive one after the other\<close>
  "receive_all env ck [] r = Some r"
| "receive_all env ck (s # ss) r = do { (_, _, r) \<leftarrow> tcpRecvData env (arrived (ck s) s) r; receive_all env ck ss r }"

lemma receive_all_ok:
  assumes "can_receive r" "seq_chain (unat (rcvnxt r)) ss" "\<forall>s\<in>set ss. sgdata s \<noteq> [] \<and> length (sgdata s) \<le> 1578 \<and> sgctrl s = TCP_CTRL_ACK"
    and "length (concat (map sgdata ss)) \<le> unat (rcvwnd r) - unat (rcvnxt r)" "\<forall>cs. env (cs @ [Getbuf]) \<noteq> SYSERR"
  shows "\<exists>r'. receive_all env ck ss r = Some r' \<and> can_receive r' \<and> in_ring r' = in_ring r @ concat (map sgdata ss) \<and>
    unat (rcvnxt r') = unat (rcvnxt r) + length (concat (map sgdata ss))"
  using assms
proof (induction ss arbitrary: r)
  case (Cons s ss)
  obtain p' u where u: "tcpRecvData env (arrived (ck s) s) r = Some (OK, p', u)" "can_receive u" "in_ring u = in_ring r @ sgdata s"
    "unat (rcvnxt u) = unat (rcvnxt r) + length (sgdata s)" "unat (rcvwnd r) \<le> unat (rcvwnd u)"
    using receive_one [OF Cons.prems(1), of s env "ck s"] Cons.prems by auto
  have "\<exists>r'. receive_all env ck ss u = Some r' \<and> can_receive r' \<and> in_ring r' = in_ring u @ concat (map sgdata ss) \<and>
      unat (rcvnxt r') = unat (rcvnxt u) + length (concat (map sgdata ss))"
    by (rule Cons.IH) (use Cons.prems u in auto)
  then show ?case using u by auto
qed simp

text \<open>From the writer's buffer to the reader's: the sender has nothing outstanding, the receiver has read
  everything it has received.\<close>

definition idle_sender :: "tcb \<Rightarrow> bool" where
  "idle_sender t \<longleftrightarrow> rings_ok t \<and> ocount t = 0 \<and> snduna t = sndnxt t \<and> low (snduna t) \<and> window_end (snduna t) (sndwnd t) \<and>
     0 < sndmss t \<and> unat (sndmss t) \<le> 1578 \<and> \<not> has (sndflg t) TCP_FLG_FIN \<and> \<not> has (sndflg t) TCP_FLG_PERSIST \<and> rxtcount t = 0"

lemma transfer_ok:
  assumes s: "idle_sender t" "can_receive r" "icount r = 0" "sndnxt t = rcvnxt r"
    and len: "unat len = n" "0 < n" "n \<le> length buf" "n \<le> 16384" "n \<le> unat (sndwnd t)" "n \<le> unat (rcvwnd r) - unat (rcvnxt r)"
    and buf: "\<forall>cs. env (cs @ [Getbuf]) \<noteq> SYSERR"
  shows "\<exists>t1 t2 cs r1 r2. write_ring buf len 0 t = Some (len, t1) \<and> tcpSendData env t1 = Some (int n, t2) \<and>
    calls t2 = calls t @ cs \<and> receive_all env ck (segs cs) r = Some r1 \<and>
    read_ring len 0 [] r1 = Some (len, take n buf, r2) \<and> icount r2 = 0 \<and> rcvnxt r2 = sndnxt t2"
proof -
  have i: "rings_ok t" "ocount t = 0" "snduna t = sndnxt t" "low (snduna t)" "window_end (snduna t) (sndwnd t)"
     "0 < sndmss t" "unat (sndmss t) \<le> 1578" "\<not> has (sndflg t) TCP_FLG_FIN" "\<not> has (sndflg t) TCP_FLG_PERSIST" "rxtcount t = 0"
    using s(1) unfolding idle_sender_def by blast+
  have c0: "unat (ocount t) = 0" "unat (icount r) = 0" using i(2) s(3) by simp_all
  have l: "(0::u32) + of_nat n = len" using len(1) by auto
  obtain t1 where t1: "write_ring buf len 0 t = Some (len, t1)" "rings_ok t1" "out_ring t1 = take n buf"
    "unat (ocount t1) = n" "t1\<lparr>obuf := obuf t, ocount := ocount t\<rparr> = t"
    using write_ring_ok [OF i(1), of n len 0 buf, unfolded l] len c0 by (auto simp: ring_def)
  note f = arg_cong [OF t1(5), of sndmss] arg_cong [OF t1(5), of sndflg] arg_cong [OF t1(5), of rxtcount] arg_cong [OF t1(5), of snduna]
    arg_cong [OF t1(5), of sndnxt] arg_cong [OF t1(5), of sndwnd] arg_cong [OF t1(5), of calls]
  have g: "sndmss t1 = sndmss t" "sndflg t1 = sndflg t" "rxtcount t1 = rxtcount t" "snduna t1 = snduna t" "sndnxt t1 = sndnxt t"
    "sndwnd t1 = sndwnd t" "calls t1 = calls t" using f by simp_all
  obtain t2 ss where t2: "tcpSendData env t1 = Some (int n, t2)" "emitted 0 n ss t1 t2" "\<forall>s\<in>set ss. sgctrl s = TCP_CTRL_ACK"
  proof -
    have "\<exists>t2 ss. tcpSendData env t1 = Some (int n, t2) \<and> emitted 0 n ss t1 t2 \<and> (\<forall>s\<in>set ss. sgctrl s = TCP_CTRL_ACK)"
      by (rule tcpSendData_ok) (use i len t1(4) buf in \<open>simp_all add: g\<close>)
    then show ?thesis using that by blast
  qed
  obtain cs where cs: "calls t2 = calls t @ cs" "segs cs = ss" using t2(2) g(7) by (auto simp: emitted_def)
  have e: "concat (map sgdata ss) = take n buf" "seq_chain (unat (rcvnxt r)) ss" "unat (sndnxt t2) = unat (rcvnxt r) + n"
    "\<forall>s\<in>set ss. sgdata s \<noteq> [] \<and> length (sgdata s) \<le> unat (sndmss t)"
    using t2(2) t1(3) g s(4) by (simp_all add: emitted_def)
  have len_ss: "length (concat (map sgdata ss)) = n" using e(1) len by simp
  obtain r1 where r1: "receive_all env ck ss r = Some r1" "can_receive r1" "in_ring r1 = in_ring r @ concat (map sgdata ss)"
    "unat (rcvnxt r1) = unat (rcvnxt r) + length (concat (map sgdata ss))"
  proof -
    have "\<exists>r'. receive_all env ck ss r = Some r' \<and> can_receive r' \<and> in_ring r' = in_ring r @ concat (map sgdata ss) \<and>
        unat (rcvnxt r') = unat (rcvnxt r) + length (concat (map sgdata ss))"
    proof (rule receive_all_ok [OF s(2) e(2) _ _ buf])
      show "\<forall>s\<in>set ss. sgdata s \<noteq> [] \<and> length (sgdata s) \<le> 1578 \<and> sgctrl s = TCP_CTRL_ACK"
        using e(4) t2(3) i(7) by (meson le_trans)
    qed (simp only: len_ss len(6))
    then show ?thesis using that by blast
  qed
  have in1: "in_ring r1 = take n buf" using r1(3) e(1) c0(2) by (simp add: ring_def)
  have ic: "unat (icount r1) = n" using arg_cong [OF in1, of length] len by simp
  have ok1: "rings_ok r1" using r1(2) by (simp add: can_receive_def)
  obtain r2 where r2: "read_ring len 0 [] r1 = Some (len, take n buf, r2)" "unat (icount r2) = 0"
    "r2\<lparr>imark := imark r1, istart := istart r1, icount := icount r1\<rparr> = r1"
    using read_ring_ok [OF ok1, of n len 0 "[]", unfolded l in1] ic len by (auto simp: min_def)
  have "rcvnxt r2 = sndnxt t2" using arg_cong [OF r2(3), of rcvnxt] r1(4) e(3) len_ss by (simp add: word_unat_eq_iff)
  moreover have "icount r2 = 0" using r2(2) by (simp add: unat_eq_zero)
  ultimately show ?thesis using t1(1) t2(1) cs r1(1) r2(1) by blast
qed

end
