(* ===== verification/Tcp_States.thy ===== *)
theory Tcp_States
  imports Tcp_Dev
begin

text \<open>
  The connection states: which transitions a received segment can cause, and the state machine of one control
  block under received segments, timer events and the calls open, close and write.
\<close>

section \<open>What leaves the state alone\<close>

text \<open>The fields that decide about transitions.\<close>

definition same_conn :: "tcb \<Rightarrow> tcb \<Rightarrow> bool" where
  "same_conn t t' \<longleftrightarrow> tcpstate t' = tcpstate t \<and> sndfin t' = sndfin t \<and> snduna t' = snduna t"

lemma same_conn_refl [simp]: "same_conn t t"
  by (simp add: same_conn_def)

lemma same_conn_trans: "same_conn t u \<Longrightarrow> same_conn u v \<Longrightarrow> same_conn t v"
  by (simp add: same_conn_def)

lemma notify_frame [simp]: "tcpstate (notify c t) = tcpstate t" "sndfin (notify c t) = sndfin t" "snduna (notify c t) = snduna t"
  by (simp_all add: notify_def)

lemma flg_frame [simp]:
  "tcpstate (set_flg f t) = tcpstate t" "sndfin (set_flg f t) = sndfin t" "snduna (set_flg f t) = snduna t"
  "tcpstate (clear_flg f t) = tcpstate t" "sndfin (clear_flg f t) = sndfin t" "snduna (clear_flg f t) = snduna t"
  by (simp_all add: set_flg_def clear_flg_def)

lemma tcpSendWindow_conn: "tcpSendWindow t = (w, t') \<Longrightarrow> same_conn t t'"
  by (auto simp: tcpSendWindow_def same_conn_def Let_def split: if_splits)

lemma tcpSend_conn: "tcpSend env c s a d l t = Some (r, t') \<Longrightarrow> same_conn t t'"
  by (auto simp: tcpSend_def ask_def Let_def split: if_splits prod.splits dest!: tcpSendWindow_conn simp: same_conn_def)

lemma tcpSendAck_conn: "tcpSendAck env t = Some (r, t') \<Longrightarrow> same_conn t t'"
  by (auto simp: tcpSendAck_def Let_def same_conn_def dest!: tcpSend_conn)

lemma tcpSendSyn_conn: "tcpSendSyn env t = Some (r, t') \<Longrightarrow> same_conn t t'"
  by (auto simp: tcpSendSyn_def Let_def ask_def bind_Some_iff same_conn_def split: if_splits prod.splits dest!: tcpSend_conn)

lemma send_segments_conn: "send_segments env n s w t = Some (n', s', w', t') \<Longrightarrow> same_conn t t'"
proof (induction env n s w t rule: send_segments.induct)
  case (1 env n s w t)
  show ?case
  proof (cases "ucast (sndmss t) < n")
    case True
    then obtain r b where b: "tcpSend env TCP_CTRL_ACK (sndnxt t) (rcvnxt t) ((ostart t + w) mod of_nat TCP_OBLEN) (sndmss t) t = Some (r, b)"
        "sndmss t \<noteq> 0" "send_segments env (n - ucast (sndmss t)) (s + ucast (sndmss t)) (w + ucast (sndmss t))
          (b\<lparr>sndnxt := seqadd (sndnxt t) (ucast (sndmss t))\<rparr>) = Some (n', s', w', t')"
      using 1(2) by (subst (asm) send_segments.simps) (auto simp: bind_Some_iff split: if_splits)
    have "same_conn (b\<lparr>sndnxt := seqadd (sndnxt t) (ucast (sndmss t))\<rparr>) t'"
      by (rule 1(1) [OF True b(2,1) _ b(3)]) simp
    then show ?thesis using tcpSend_conn [OF b(1)] by (simp add: same_conn_def)
  next
    case False
    then show ?thesis using 1(2) by (subst (asm) send_segments.simps) simp
  qed
qed

lemma tcpSendData_conn: "tcpSendData env t = Some (r, t') \<Longrightarrow> same_conn t t'"
  by (auto simp: tcpSendData_def Let_def ask_def bind_Some_iff same_conn_def split: if_splits prod.splits
      dest!: tcpSend_conn send_segments_conn)

lemma recv_copy_conn: "recv_copy d j s i n t = Some t' \<Longrightarrow> same_conn t t'"
  by (induction n arbitrary: i t) (auto simp: bind_Some_iff Let_def same_conn_def)

lemma recv_marked_conn: "recv_marked t = Some (f, t') \<Longrightarrow> same_conn t t'"
proof (induction t rule: recv_marked.induct)
  case (1 t)
  then show ?case by (subst (asm) (2) recv_marked.simps) (auto simp: same_conn_def Let_def split: if_splits)
qed

lemma recv_advance_conn: "recv_advance env n t = Some (f, t') \<Longrightarrow> same_conn t t'"
  by (auto simp: recv_advance_def ask_def Let_def bind_Some_iff same_conn_def split: if_splits dest!: recv_marked_conn)

lemma recv_text_conn: "recv_text env p t = Some (n, p', t') \<Longrightarrow> same_conn t t'"
  by (auto simp: recv_text_def bind_Some_iff split: if_splits dest!: recv_copy_conn recv_advance_conn intro: same_conn_trans)

lemma wake_readers_conn [simp]: "tcpstate (wake_readers env t) = tcpstate t" "sndfin (wake_readers env t) = sndfin t"
  "snduna (wake_readers env t) = snduna t"
  by (simp_all add: wake_readers_def ask_def Let_def)

lemma send_pending_conn: "send_pending env t = Some t' \<Longrightarrow> same_conn t t'"
  by (auto simp: send_pending_def bind_Some_iff same_conn_def split: if_splits dest!: tcpSendData_conn tcpSendAck_conn)

lemma rtt_estimate_state: "rtt_estimate r t = Some t' \<Longrightarrow> tcpstate t' = tcpstate t"
  by (unfold rtt_estimate_def Let_def bind_Some_iff option.inject) (elim exE conjE, hypsubst, simp (no_asm))

lemma cwn_state:
  "(if a then Some (OK, t\<lparr>sndcwn := x\<rparr>) else do { sq \<leftarrow> m; if c then None else Some (OK, t\<lparr>sndcwn := f sq\<rparr>) }) = Some (r, t') \<Longrightarrow>
    tcpstate t' = tcpstate t"
  by (auto simp: bind_Some_iff split: if_splits)

lemma tcpRecvRtt_state: "tcpRecvRtt env t = Some (r, t') \<Longrightarrow> tcpstate t' = tcpstate t"
proof -
  assume a: "tcpRecvRtt env t = Some (r, t')"
  obtain x u where u: "ask env (TimerPurge EVT_RXT) t = (x, u)" "tcpstate u = tcpstate t" by (simp add: ask_def)
  obtain v where v: "(if x \<noteq> SYSERR \<and> rxtcount u = 0 then rtt_estimate x u else Some u) = Some v" "tcpstate t' = tcpstate v"
    using a unfolding tcpRecvRtt_def u(1) prod.case Let_def bind_Some_iff by (elim exE conjE) (drule cwn_state, blast)
  then show ?thesis using u(2) rtt_estimate_state [of x u v] by (cases "x \<noteq> SYSERR \<and> rxtcount u = 0") simp_all
qed

lemma recv_acked_state: "recv_acked env p t = Some t' \<Longrightarrow> tcpstate t' = tcpstate t"
  by (unfold recv_acked_def Let_def bind_Some_iff option.inject)
    (elim exE conjE, force split: prod.splits if_splits simp: bind_Some_iff dest!: tcpRecvRtt_state)

lemma recv_window_state: "recv_window p t = Some t' \<Longrightarrow> tcpstate t' = tcpstate t"
  by (auto simp: recv_window_def Let_def bind_Some_iff)

lemma tcpRecvAck_state: "tcpRecvAck env p t = Some (r, t') \<Longrightarrow> tcpstate t' = tcpstate t"
  by (auto simp: tcpRecvAck_def bind_Some_iff split: if_splits dest!: recv_acked_state recv_window_state)

lemma opts_loop_state: "opts_loop d i e t = Some t' \<Longrightarrow> tcpstate t' = tcpstate t"
proof (induction d i e t rule: opts_loop.induct)
  case (1 d i e t)
  then show ?case
    by (subst (asm) (3) opts_loop.simps) (auto simp: bind_Some_iff split: option.splits if_splits)
qed

lemma tcpRecvOpts_state: "tcpRecvOpts p t = Some t' \<Longrightarrow> tcpstate t' = tcpstate t"
  by (auto simp: tcpRecvOpts_def split: if_splits dest: opts_loop_state)


section \<open>Transitions of a received segment\<close>

lemma seqlte_seqlt: "seqlte a b = Some False \<Longrightarrow> seqlt a b = Some x \<Longrightarrow> \<not> x"
  by (auto simp: seqlte_def seqlt_def bind_Some_iff)

text \<open>The states that a FIN can lead to.\<close>

fun fin_next :: "tcp_state \<Rightarrow> tcp_state set" where
  "fin_next TCP_SYNRECV = {TCP_SYNRECV, TCP_CLOSEWT}"
| "fin_next TCP_ESTAB = {TCP_ESTAB, TCP_CLOSEWT}"
| "fin_next TCP_FINWT1 = {TCP_FINWT1, TCP_CLOSING}"
| "fin_next s = {s}"

lemma recv_fin_state_next:
  assumes "recv_fin_state t = Some t'" "tcpstate t = TCP_FINWT1 \<longrightarrow> seqlte (sndfin t) (snduna t) = Some False"
  shows "tcpstate t' \<in> fin_next (tcpstate t)"
proof (cases "tcpstate t")
  case TCP_FINWT1
  then show ?thesis using assms by (auto simp: recv_fin_state_def Let_def bind_Some_iff dest: seqlte_seqlt)
qed (use assms(1) in \<open>simp_all add: recv_fin_state_def\<close>, auto)

lemma tcpRecvData_next:
  assumes "tcpRecvData env p t = Some (r, p', t')" "tcpstate t = TCP_FINWT1 \<longrightarrow> seqlte (sndfin t) (snduna t) = Some False"
  shows "tcpstate t' \<in> fin_next (tcpstate t)"
proof -
  have self: "s \<in> fin_next s" for s by (cases s) auto
  obtain n q u where u: "(if tcpSeglen p > 0 \<and> tcpstate t \<in> {TCP_ESTAB, TCP_FINWT1, TCP_FINWT2} then recv_text env p t
      else Some (tcpSeglen p, p, t)) = Some (n, q, u)"
    and rest: "do { t \<leftarrow> (if has (control q) TCP_CTRL_FIN then recv_fin env n q u else Some u); t \<leftarrow> send_pending env t; Some (OK, q, t) } = Some (r, p', t')"
    using assms(1) unfolding tcpRecvData_def by (elim bind_SomeE) (auto simp: bind_Some_iff)
  obtain v where v: "(if has (control q) TCP_CTRL_FIN then recv_fin env n q u else Some u) = Some v" "send_pending env v = Some t'"
    using rest by (elim bind_SomeE) auto
  have cu: "same_conn t u" using u by (auto split: if_splits dest: recv_text_conn)
  have "tcpstate v \<in> fin_next (tcpstate u)"
  proof (cases "has (control q) TCP_CTRL_FIN \<and> recv_fin env n q u \<noteq> Some u")
    case True
    then have "recv_fin env n q u = Some v" using v(1) by simp
    then show ?thesis
      using recv_fin_state_next [of "wake_readers env _"] cu assms(2) self
      by (auto simp: recv_fin_def Let_def bind_Some_iff same_conn_def split: if_splits dest!: recv_fin_state_next)
  next
    case False
    then show ?thesis using v(1) self by (auto split: if_splits)
  qed
  then show ?thesis using cu send_pending_conn [OF v(2)] by (simp add: same_conn_def)
qed

text \<open>The states that a received segment can lead to.\<close>

fun seg_next :: "tcp_state \<Rightarrow> tcp_state set" where
  "seg_next TCP_LISTEN = {TCP_LISTEN, TCP_SYNRECV, TCP_CLOSEWT}"
| "seg_next TCP_SYNSENT = {TCP_SYNSENT, TCP_SYNRECV, TCP_ESTAB, TCP_CLOSEWT}"
| "seg_next TCP_SYNRECV = {TCP_SYNRECV, TCP_LISTEN, TCP_ESTAB, TCP_CLOSEWT}"
| "seg_next TCP_ESTAB = {TCP_ESTAB, TCP_CLOSEWT}"
| "seg_next TCP_FINWT1 = {TCP_FINWT1, TCP_FINWT2, TCP_CLOSING}"
| "seg_next TCP_CLOSING = {TCP_CLOSING, TCP_FINWT2}"
| "seg_next s = {s}"

lemma tcpRecvListen_next:
  assumes "tcpRecvListen env src p t = Some (r, p', t')" "tcpstate t = TCP_LISTEN"
  shows "tcpstate t' \<in> seg_next TCP_LISTEN"
proof (cases "has (control p) TCP_CTRL_RST \<or> has (control p) TCP_CTRL_ACK \<or> \<not> has (control p) TCP_CTRL_SYN")
  case True
  then show ?thesis using assms by (auto simp: tcpRecvListen_def split: if_splits)
next
  case False
  then obtain u where "tcpRecvData env p (u\<lparr>tcpstate := TCP_SYNRECV\<rparr>) = Some (r, p', t')"
    using assms(1) unfolding tcpRecvListen_def by (auto simp: Let_def elim!: bind_SomeE)
  then show ?thesis using tcpRecvData_next by fastforce
qed

lemma tcpRecvSynsent_next:
  assumes "tcpRecvSynsent env p t = Some (r, p', t')" "tcpstate t = TCP_SYNSENT"
  shows "tcpstate t' \<in> seg_next TCP_SYNSENT"
proof -
  have syn: "tcpstate t' \<in> {TCP_SYNRECV, TCP_ESTAB, TCP_CLOSEWT}" if s: "synsent_syn env a p t = Some (r, p', t')" for a
  proof -
    obtain u where "tcpRecvData env p u = Some (r, p', t')" "tcpstate u \<in> {TCP_SYNRECV, TCP_ESTAB}"
      using s unfolding synsent_syn_def Let_def bind_Some_iff
      by (auto simp: bind_Some_iff split: if_splits dest!: tcpSend_conn simp: same_conn_def)
    then show ?thesis using tcpRecvData_next [of env p u r p' t'] by auto
  qed
  show ?thesis
    using assms unfolding tcpRecvSynsent_def bind_Some_iff by (auto simp: bind_Some_iff split: if_splits dest!: syn)
qed


fun ack_next :: "tcp_state \<Rightarrow> tcp_state set" where
  "ack_next TCP_SYNRECV = {TCP_SYNRECV, TCP_ESTAB}"
| "ack_next TCP_FINWT1 = {TCP_FINWT1, TCP_FINWT2}"
| "ack_next TCP_CLOSING = {TCP_CLOSING, TCP_FINWT2}"
| "ack_next s = {s}"

lemma other_ack_next:
  assumes "other_ack env p t = Some (x, t')"
  shows "tcpstate t' \<in> ack_next (tcpstate t)"
    and "tcpstate t' = TCP_FINWT1 \<longrightarrow> seqlte (sndfin t') (snduna t') = Some False"
proof -
  have "tcpstate t' \<in> ack_next (tcpstate t) \<and> (tcpstate t' = TCP_FINWT1 \<longrightarrow> seqlte (sndfin t') (snduna t') = Some False)"
    using assms by (cases "tcpstate t")
      (auto simp: other_ack_def fin_acked_def ask_def elim!: bind_SomeE split: if_splits dest!: tcpRecvAck_state)
  then show "tcpstate t' \<in> ack_next (tcpstate t)" "tcpstate t' = TCP_FINWT1 \<longrightarrow> seqlte (sndfin t') (snduna t') = Some False"
    by auto
qed

lemma fin_ack_next: "s' \<in> ack_next s \<Longrightarrow> s'' \<in> fin_next s' \<Longrightarrow> s'' \<in> seg_next s \<or> s = TCP_LISTEN \<or> s = TCP_SYNSENT"
  by (cases s) auto

lemma tcpRecvOther_next:
  assumes "tcpRecvOther env p t = Some (r, p', t')" "tcpstate t \<noteq> TCP_LISTEN" "tcpstate t \<noteq> TCP_SYNSENT"
  shows "tcpstate t' \<in> seg_next (tcpstate t)"
proof -
  have self: "s \<in> seg_next s" for s by (cases s) auto
  obtain acc q where v: "tcpRecvValid p t = Some (acc, q)" using assms(1) by (auto simp: tcpRecvOther_def elim!: bind_SomeE)
  have data: "tcpstate t' \<in> seg_next (tcpstate t)" if "other_ack env q t = Some (None, u)" "tcpRecvData env q u = Some (r, p', t')" for u
    using fin_ack_next [OF other_ack_next(1) [OF that(1)] tcpRecvData_next [OF that(2) other_ack_next(2) [OF that(1)]]] assms(2,3) by auto
  have early: "tcpstate t' \<in> seg_next (tcpstate t)" if "other_ack env q t = Some (Some x, t')" for x
    using fin_ack_next [OF other_ack_next(1) [OF that], of "tcpstate t'"] assms(2,3) by (cases "tcpstate t'") auto
  consider "\<not> acc" | "acc" "has (control q) TCP_CTRL_RST \<or> has (control q) TCP_CTRL_SYN \<or> \<not> has (control q) TCP_CTRL_ACK"
    | "acc" "\<not> has (control q) TCP_CTRL_RST" "\<not> has (control q) TCP_CTRL_SYN" "has (control q) TCP_CTRL_ACK" by blast
  then show ?thesis
  proof cases
    case 1
    then show ?thesis using assms(1) v self by (auto simp: tcpRecvOther_def same_conn_def elim!: bind_SomeE split: if_splits dest!: tcpSendAck_conn)
  next
    case 2
    then show ?thesis using assms(1) v self [of "tcpstate t"] data early
      by (auto simp: tcpRecvOther_def Let_def elim!: bind_SomeE split: if_splits option.splits)
  next
    case 3
    then obtain x u where "other_ack env q t = Some (x, u)" "(case x of Some v \<Rightarrow> Some (v, q, u) | None \<Rightarrow> tcpRecvData env q u) = Some (r, p', t')"
      using assms(1) v by (auto simp: tcpRecvOther_def elim!: bind_SomeE)
    then show ?thesis using data early by (cases x) auto
  qed
qed

lemma recv_dispatch_next:
  assumes "recv_dispatch env src p t = Some ((r, p'), t')"
  shows "tcpstate t' \<in> seg_next (tcpstate t)"
proof -
  obtain u where u: "tcpRecvOpts p t = Some u"
    "(if tcpstate u = TCP_LISTEN then tcpRecvListen env src p u
      else if tcpstate u = TCP_SYNSENT then tcpRecvSynsent env p u else tcpRecvOther env p u) = Some (r, p', t')"
    using assms by (auto simp: recv_dispatch_def elim!: bind_SomeE)
  show ?thesis
    using u(2) tcpRecvOpts_state [OF u(1)]
    by (auto split: if_splits dest: tcpRecvListen_next tcpRecvSynsent_next tcpRecvOther_next)
qed


section \<open>The state machine of a control block\<close>

text \<open>A step is the work of one routine while it holds the mutex of the control block.\<close>

inductive tcp_step :: "tcb \<Rightarrow> tcb \<Rightarrow> bool" where
  segment: "tcpstate t \<noteq> TCP_CLOSED \<Longrightarrow> recv_dispatch env src p t = Some ((r, p'), t') \<Longrightarrow> tcp_step t t'"
| reset: "tcp_step t (snd (tcpFree t))"
| timer: "tcpTimerTrigger env ty t = Some t' \<Longrightarrow> tcp_step t t'"
| open_call: "tcpstate t \<in> {TCP_CLOSED, TCP_LISTEN} \<Longrightarrow> open_tcb env num lip rip lpt rpt mode start t = Some (r, t') \<Longrightarrow> tcp_step t t'"
| close_call: "tcpClose env t = Some (r, t') \<Longrightarrow> tcp_step t t'"
| write_call: "write_round env buf len count t = Some (w, t') \<Longrightarrow> tcp_step t t'"
| write_enter: "write_check env t = Some (r, t') \<Longrightarrow> tcp_step t t'"
| read_call: "read_round env len count buf t = Some (x, t') \<Longrightarrow> tcp_step t t'"

inductive_cases tcp_stepE: "tcp_step t t'"

lemma tcpFree_next: "tcpstate (snd (tcpFree t)) = TCP_CLOSED"
  by (simp add: tcpFree_def Let_def)

lemma tcpSendPersist_next: "tcpSendPersist env t = Some (r, t') \<Longrightarrow> tcpstate t' = tcpstate t"
  by (auto simp: tcpSendPersist_def Let_def same_conn_def elim!: bind_SomeE split: if_splits dest!: tcpSend_conn)

lemma rxt_congestion_state [simp]: "tcpstate (rxt_congestion b t) = tcpstate t"
  by (simp add: rxt_congestion_def Let_def)

lemma tcpSendRxt_next:
  assumes "tcpSendRxt env t = Some (r, t')"
  shows "tcpstate t' = tcpstate t \<or> tcpstate t' = TCP_CLOSED"
  using assms unfolding tcpSendRxt_def
  by (auto simp: Let_def tcpFree_next same_conn_def elim!: bind_SomeE split: if_splits dest!: tcpSend_conn)

lemma tcpTimerTrigger_next: "tcpTimerTrigger env ty t = Some t' \<Longrightarrow> tcpstate t' = tcpstate t \<or> tcpstate t' = TCP_CLOSED"
  by (auto simp: tcpTimerTrigger_def tcpFree_next split: tcp_evt.splits dest: tcpSendRxt_next tcpSendPersist_next)

lemma tcpOpenActive_next: "tcpOpenActive env t = Some (r, t') \<Longrightarrow> tcpstate t' \<in> {tcpstate t, TCP_SYNSENT}"
  by (auto simp: tcpOpenActive_def same_conn_def elim!: bind_SomeE split: if_splits dest!: tcpSendSyn_conn)

lemma tcpSetup_state: "tcpSetup env q t = (r, t') \<Longrightarrow> tcpstate t' = tcpstate t"
  by (auto simp: tcpSetup_def ask_def Let_def)

lemma open_tcb_next:
  assumes "open_tcb env num lip rip lpt rpt mode start t = Some (r, t')"
  shows "tcpstate t' \<in> {tcpstate t, TCP_CLOSED, TCP_LISTEN, TCP_SYNSENT}"
  using assms unfolding open_tcb_def
  by (auto simp: Let_def tcpFree_next elim!: bind_SomeE split: if_splits prod.splits option.splits dest!: tcpOpenActive_next tcpSetup_state)

lemma wake_all_state [simp]: "tcpstate (wake_all env q t) = tcpstate t"
  by (simp add: wake_all_def ask_def Let_def)

lemma close_fin_state [simp]: "tcpstate (close_fin t) = tcpstate t"
  by (simp add: close_fin_def)

lemma close_end_state: "close_end env t = Some (r, t') \<Longrightarrow> tcpstate t' = tcpstate t"
  by (auto simp: close_end_def Let_def same_conn_def elim!: bind_SomeE split: if_splits dest!: tcpSendData_conn)

lemma tcpClose_next: "tcpClose env t = Some (r, t') \<Longrightarrow> tcpstate t' \<in> {tcpstate t, TCP_CLOSED, TCP_FINWT1, TCP_LASTACK}"
  by (auto simp: tcpClose_def Let_def tcpFree_next split: tcp_state.splits if_splits dest!: close_end_state)

lemma write_check_next: "write_check env t = Some (r, t') \<Longrightarrow> tcpstate t' \<in> {tcpstate t, TCP_SYNSENT}"
  by (auto simp: write_check_def same_conn_def elim!: bind_SomeE split: tcp_state.splits if_splits dest!: tcpOpenActive_next tcpSendSyn_conn)

lemma write_ring_state: "write_ring buf len count t = Some (c, t') \<Longrightarrow> tcpstate t' = tcpstate t"
proof (induction buf len count t rule: write_ring.induct)
  case (1 buf len count t)
  then show ?case by (subst (asm) (2) write_ring.simps) (auto split: if_splits option.splits)
qed

lemma write_round_next: "write_round env buf len count t = Some (r, t') \<Longrightarrow> tcpstate t' \<in> {tcpstate t, TCP_SYNSENT}"
  by (auto simp: write_round_def Let_def same_conn_def elim!: bind_SomeE split: if_splits
      dest!: write_check_next write_ring_state tcpSendData_conn)

lemma read_check_state: "read_check t = (c, t') \<Longrightarrow> tcpstate t' = tcpstate t"
  by (auto simp: read_check_def split: tcp_state.splits if_splits)

lemma read_ring_state: "read_ring len count buf t = Some (c, b, t') \<Longrightarrow> tcpstate t' = tcpstate t"
proof (induction len count buf t rule: read_ring.induct)
  case (1 len count buf t)
  then show ?case by (subst (asm) (2) read_ring.simps) (auto split: if_splits)
qed

lemma read_round_next: "read_round env len count buf t = Some (r, t') \<Longrightarrow> tcpstate t' = tcpstate t"
  by (auto simp: read_round_def ask_def Let_def elim!: bind_SomeE split: if_splits prod.splits dest!: read_check_state read_ring_state)

lemmas step_next = recv_dispatch_next tcpTimerTrigger_next open_tcb_next tcpClose_next write_round_next write_check_next
  read_round_next

lemma seg_next_timewt: "TCP_TIMEWT \<in> seg_next s \<Longrightarrow> s = TCP_TIMEWT"
  by (cases s) auto

lemma tcp_step_timewt: "tcp_step t t' \<Longrightarrow> tcpstate t \<noteq> TCP_TIMEWT \<Longrightarrow> tcpstate t' \<noteq> TCP_TIMEWT"
  by (erule tcp_stepE) (auto dest!: step_next seg_next_timewt simp: tcpFree_next)

lemma tcp_steps_timewt: "tcp_step\<^sup>*\<^sup>* t t' \<Longrightarrow> tcpstate t \<noteq> TCP_TIMEWT \<Longrightarrow> tcpstate t' \<noteq> TCP_TIMEWT"
  by (induction rule: rtranclp_induct) (auto dest: tcp_step_timewt)

end
