(* ===== verification/Tcp_Table.thy ===== *)
theory Tcp_Table
  imports Tcp_Dev
begin

text \<open>
  The table of control blocks: \<^verbatim>\<open>tcpDemux\<close> finds the most specific match, a received packet changes one control
  block only, the port allocation terminates, and where resets go.
\<close>

section \<open>Demultiplexing\<close>

text \<open>How well a control block matches a packet: connection, ports with any remote address, local port only.\<close>

definition addr_eq :: "netaddr \<Rightarrow> netaddr \<Rightarrow> bool" where
  "addr_eq a b \<longleftrightarrow> same_kind a b \<and> octets a = octets b"

definition match_level :: "u16 \<Rightarrow> u16 \<Rightarrow> netaddr \<Rightarrow> netaddr \<Rightarrow> tcb \<Rightarrow> nat" where
  "match_level dpt spt dst src t =
     (if tcpstate t = TCP_CLOSED \<or> localpt t \<noteq> dpt \<or> \<not> addr_eq (localip t) dst then 0
      else if remotept t = spt \<and> addr_eq (remoteip t) src then 3
      else if remotept t = spt \<and> natype (remoteip t) = 0 then 2
      else if remotept t = 0 \<and> natype (remoteip t) = 0 then 1
      else 0)"

lemma demux_step_ok:
  assumes "wf_addr (localip t)" "wf_addr (remoteip t)" "wf_addr dst" "wf_addr src"
  shows "demux_step dpt spt dst src i t (b, l) =
    Some (if l < match_level dpt spt dst src t then (Some i, match_level dpt spt dst src t) else (b, l))"
  using netaddrequal_ok [OF assms(1,3)] netaddrequal_ok [OF assms(2,4)]
  by (auto simp: demux_step_def match_level_def addr_eq_def and_then_def Let_def)

text \<open>The first control block with the highest level.\<close>

definition best_match :: "(tcb \<Rightarrow> nat) \<Rightarrow> tcb list \<Rightarrow> nat option \<Rightarrow> bool" where
  "best_match lev ts r = (case r of
       None \<Rightarrow> \<forall>t\<in>set ts. lev t = 0
     | Some i \<Rightarrow> i < length ts \<and> 0 < lev (ts ! i) \<and> (\<forall>t\<in>set ts. lev t \<le> lev (ts ! i)) \<and> (\<forall>j<i. lev (ts ! j) < lev (ts ! i)))"

lemma best_match_snoc:
  assumes "best_match lev ts r" "l = (case r of None \<Rightarrow> 0 | Some i \<Rightarrow> lev (ts ! i))"
  shows "best_match lev (ts @ [t]) (if l < lev t then Some (length ts) else r)"
proof (cases "l < lev t")
  case True
  have "\<forall>u\<in>set ts. lev u \<le> l" using assms by (auto simp: best_match_def split: option.splits)
  then show ?thesis using True by (auto simp: best_match_def nth_append dest!: nth_mem)
next
  case False
  then show ?thesis using assms by (auto simp: best_match_def nth_append split: option.splits)
qed

lemma demux_loop_ok:
  assumes "\<forall>t\<in>set (us @ ts). wf_addr (localip t) \<and> wf_addr (remoteip t)" "wf_addr dst" "wf_addr src"
    and "best_match (match_level dpt spt dst src) us r" "l = (case r of None \<Rightarrow> 0 | Some i \<Rightarrow> match_level dpt spt dst src (us ! i))"
  shows "\<exists>r' l'. demux_loop dpt spt dst src (length us) ts (r, l) = Some (r', l') \<and> best_match (match_level dpt spt dst src) (us @ ts) r'"
  using assms
proof (induction ts arbitrary: us r l)
  case (Cons t ts)
  let ?lev = "match_level dpt spt dst src"
  define r1 l1 where "r1 = (if l < ?lev t then Some (length us) else r)" and "l1 = (if l < ?lev t then ?lev t else l)"
  have "demux_step dpt spt dst src (length us) t (r, l) = Some (r1, l1)"
    using demux_step_ok [of t dst src dpt spt "length us" r l] Cons.prems(1-3) by (simp add: r1_def l1_def)
  moreover have b: "best_match ?lev (us @ [t]) r1" unfolding r1_def by (rule best_match_snoc [OF Cons.prems(4,5)])
  moreover have "l1 = (case r1 of None \<Rightarrow> 0 | Some i \<Rightarrow> ?lev ((us @ [t]) ! i))"
    using Cons.prems(4,5) by (auto simp: r1_def l1_def nth_append best_match_def split: option.splits)
  ultimately show ?case using Cons.IH [of "us @ [t]" r1 l1] Cons.prems(1-3) by auto
qed auto

lemma tcpDemux_ok:
  assumes "\<forall>t\<in>set (tcptab s). wf_addr (localip t) \<and> wf_addr (remoteip t)" "wf_addr dst" "wf_addr src"
  shows "\<exists>r s'. tcpDemux dpt spt dst src s = Some (r, s') \<and> best_match (match_level dpt spt dst src) (tcptab s) r \<and> tcptab s' = tcptab s"
proof -
  have "best_match (match_level dpt spt dst src) [] None" by (simp add: best_match_def)
  then show ?thesis
    using demux_loop_ok [of "[]" "tcptab s" dst src dpt spt None 0] assms by (auto simp: tcpDemux_def)
qed

section \<open>Isolation\<close>

lemma at_tcb_frame: "at_tcb i f s = Some (r, s') \<Longrightarrow> j \<noteq> i \<Longrightarrow> tcptab s' ! j = tcptab s ! j \<and> length (tcptab s') = length (tcptab s)"
  by (auto simp: at_tcb_def bind_Some_iff split: if_splits)

lemma told_tab [simp]: "tcptab (told c s) = tcptab s"
  by (simp add: told_def)

lemma tcpSendRst_tab [simp]: "tcptab (snd (tcpSendRst env junk p src dst s)) = tcptab s"
  by (simp add: tcpSendRst_def Let_def)

lemma tcpDemux_tab: "tcpDemux dpt spt dst src s = Some (r, s') \<Longrightarrow> tcptab s' = tcptab s"
  by (auto simp: tcpDemux_def bind_Some_iff)

lemma tcpRecv_frame:
  assumes "tcpRecv env junk d len src dst s = Some (r, s')" "tcp_host d len = Some p"
    and "tcpDemux (dstpt p) (srcpt p) dst src s = Some (found, s1)" "found \<noteq> Some j"
  shows "tcptab s' ! j = tcptab s ! j"
proof -
  obtain sum where sum: "tcpChksum d len src dst = Some sum" using assms(1) by (auto simp: tcpRecv_def elim!: bind_SomeE)
  have tab: "tcptab s1 = tcptab s" by (rule tcpDemux_tab [OF assms(3)])
  show ?thesis
  proof (cases found)
    case None
    then show ?thesis using assms(1-3) sum tab by (auto simp: tcpRecv_def Let_def split: if_splits)
  next
    case (Some i)
    then have ne: "j \<noteq> i" using assms(4) by simp
    show ?thesis
    proof (cases "sum \<noteq> 0 \<or> tcpstate (tcptab s ! i) = TCP_CLOSED")
      case True
      then show ?thesis using assms(1-3) sum tab Some by (auto simp: tcpRecv_def Let_def split: if_splits)
    next
      case False
      define s2 where "s2 = told (Wait (tmutex (tcptab s1 ! i))) s1"
      obtain r1 p1 s3 where s3: "at_tcb i (recv_dispatch env src p) s2 = Some ((r1, p1), s3)"
        using assms(1-3) sum tab Some False by (auto simp: tcpRecv_def Let_def s2_def elim!: bind_SomeE)
      define s4 where "s4 = (if has (sndflg (tcptab s3 ! i)) TCP_FLG_SNDRST then snd (tcpSendRst env junk p1 src dst s3) else s3)"
      have t4: "tcptab s4 ! j = tcptab s ! j" using at_tcb_frame [OF s3 ne] tab by (simp add: s4_def s2_def)
      have "(if r1 = TCP_ERR_RESET
             then let s = told Freebuf s4 in if env (tcptrace s) = SYSERR then Some (SYSERR, s) else at_tcb i (\<lambda>t. Some (tcpFree t)) s
             else let s = told Freebuf (told (Signal (tmutex (tcptab s4 ! i))) s4) in Some (if env (tcptrace s) = SYSERR then SYSERR else r1, s))
           = Some (r, s')"
        using assms(1-3) sum tab Some False s3
        by (cases "has (sndflg (tcptab s3 ! i)) TCP_FLG_SNDRST") (auto simp: tcpRecv_def s2_def s4_def Let_def split: if_splits)
      then show ?thesis using t4 at_tcb_frame [of i "\<lambda>t. Some (tcpFree t)" "told Freebuf s4" r s' j] ne
        by (auto simp: Let_def split: if_splits)
    qed
  qed
qed

section \<open>Resets\<close>

lemma tcpSendRst_trace:
  assumes "\<not> has (control p) TCP_CTRL_RST" "env (tcptrace s @ [Getbuf]) \<noteq> SYSERR"
  shows "\<exists>seg. tcptrace (snd (tcpSendRst env junk p src dst s)) = tcptrace s @ [Getbuf, IpSend src dst seg, Freebuf] \<and>
    sgsrcpt seg = dstpt p \<and> sgdstpt seg = srcpt p"
  using assms by (auto simp: tcpSendRst_def Let_def told_def)

section \<open>Ports\<close>

text \<open>The distance from a port to the next one that no control block has.\<close>

definition port_taken :: "tcb list \<Rightarrow> nat \<Rightarrow> bool" where
  "port_taken ts port \<longleftrightarrow> (\<exists>t\<in>set ts. tcpstate t \<noteq> TCP_CLOSED \<and> unat (localpt t) = port + 10000)"

lemma scan_no_conflict:
  assumes "\<forall>j. i \<le> j \<and> j < length tab \<longrightarrow> \<not> (tcpstate (tab ! j) \<noteq> TCP_CLOSED \<and> unat (localpt (tab ! j)) = port + 10000)"
  shows "allocPort_loop tab i port = Some port"
  using assms
proof (induction "length tab - i" arbitrary: i)
  case 0
  then show ?case by (subst allocPort_loop.simps) auto
next
  case (Suc n)
  then show ?case by (subst allocPort_loop.simps) auto
qed

lemma scan_conflict:
  assumes "i \<le> j" "j < length tab" "tcpstate (tab ! j) \<noteq> TCP_CLOSED" "unat (localpt (tab ! j)) = port + 10000"
  shows "allocPort_loop tab i port = allocPort_loop tab 1 ((port + 1) mod 55000)"
  using assms
proof (induction "j - i" arbitrary: i)
  case 0
  then show ?case by (subst allocPort_loop.simps) auto
next
  case (Suc n)
  show ?case
  proof (cases "tcpstate (tab ! i) \<noteq> TCP_CLOSED \<and> unat (localpt (tab ! i)) = port + 10000")
    case True
    then show ?thesis using Suc by (subst allocPort_loop.simps) auto
  next
    case False
    then have "allocPort_loop tab i port = allocPort_loop tab (i + 1) port" using Suc by (subst allocPort_loop.simps) auto
    moreover have "allocPort_loop tab (i + 1) port = allocPort_loop tab 1 ((port + 1) mod 55000)" using Suc by (intro Suc.hyps(1)) auto
    ultimately show ?thesis by simp
  qed
qed

lemma allocPort_loop_ok:
  assumes "port < 55000" "\<not> port_taken tab ((port + k) mod 55000)" "i \<le> 1"
  shows "\<exists>p. allocPort_loop tab i port = Some p \<and> p < 55000 \<and> \<not> port_taken (drop 1 tab) p"
  using assms
proof (induction k arbitrary: port i)
  case 0
  then have "\<not> port_taken tab port" by simp
  moreover from this have "allocPort_loop tab i port = Some port"
    by (intro scan_no_conflict) (auto simp: port_taken_def dest: nth_mem)
  moreover have "set (drop 1 tab) \<subseteq> set tab" by (rule set_drop_subset)
  ultimately show ?case using 0(1) by (auto simp: port_taken_def)
next
  case (Suc k)
  show ?case
  proof (cases "\<exists>j. i \<le> j \<and> j < length tab \<and> tcpstate (tab ! j) \<noteq> TCP_CLOSED \<and> unat (localpt (tab ! j)) = port + 10000")
    case True
    then have "allocPort_loop tab i port = allocPort_loop tab 1 ((port + 1) mod 55000)" using scan_conflict by blast
    moreover have "((port + 1) mod 55000 + k) mod 55000 = (port + Suc k) mod 55000" by (simp add: mod_simps)
    ultimately show ?thesis using Suc.IH [of "(port + 1) mod 55000" 1] Suc.prems by simp
  next
    case False
    then have "allocPort_loop tab i port = Some port" by (intro scan_no_conflict) blast
    moreover have "\<not> port_taken (drop 1 tab) port"
    proof
      assume "port_taken (drop 1 tab) port"
      then obtain j where "j < length (drop 1 tab)" "tcpstate (drop 1 tab ! j) \<noteq> TCP_CLOSED" "unat (localpt (drop 1 tab ! j)) = port + 10000"
        by (auto simp: port_taken_def in_set_conv_nth)
      then show False using False Suc.prems(3) by (auto dest: spec [of _ "Suc j"])
    qed
    ultimately show ?thesis using Suc.prems(1) by blast
  qed
qed

lemma port_free:
  assumes "length tab < 55000" "port < 55000"
  shows "\<exists>k<55000. \<not> port_taken tab ((port + k) mod 55000)"
proof (rule ccontr)
  assume "\<not> ?thesis"
  then have a: "\<forall>k<55000. port_taken tab ((port + k) mod 55000)" by blast
  have "{0..<55000} \<subseteq> (\<lambda>t. unat (localpt t) - 10000) ` set tab"
  proof
    fix x :: nat assume x: "x \<in> {0..<55000}"
    define k where "k = (x + (55000 - port)) mod 55000"
    have "(port + k) mod 55000 = x"
    proof -
      have "(port + k) mod 55000 = (port + (x + (55000 - port))) mod 55000" unfolding k_def by (simp only: mod_add_right_eq)
      also have "\<dots> = (x + 55000) mod 55000" using assms(2) by simp
      finally show ?thesis using x by simp
    qed
    moreover have "k < 55000" by (simp add: k_def)
    ultimately have "port_taken tab x" using a by metis
    then show "x \<in> (\<lambda>t. unat (localpt t) - 10000) ` set tab" by (force simp: port_taken_def)
  qed
  then have "card {0..<55000::nat} \<le> card (set tab)" by (rule surj_card_le [rotated]) simp
  then show False using card_length [of tab] assms(1) by simp
qed

lemma allocPort_ok:
  assumes "length (tcptab s) < 55000"
  shows "\<exists>p s'. allocPort s = Some (p, s') \<and> 10000 \<le> unat p \<and> unat p < 65000 \<and>
    (\<forall>i. 1 \<le> i \<and> i < length (tcptab s) \<and> tcpstate (tcptab s ! i) \<noteq> TCP_CLOSED \<longrightarrow> localpt (tcptab s ! i) \<noteq> p) \<and> tcptab s' = tcptab s"
proof -
  let ?q = "(nextport s + 1) mod 55000"
  obtain k where "\<not> port_taken (tcptab s) ((?q + k) mod 55000)" using port_free [OF assms, of ?q] by auto
  then obtain p where p: "allocPort_loop (tcptab s) 0 ?q = Some p" "p < 55000" "\<not> port_taken (drop 1 (tcptab s)) p"
    using allocPort_loop_ok [of ?q "tcptab s" k 0] by auto
  have u: "unat (of_nat (p + 10000) :: u16) = p + 10000" by (simp only: unat_of_nat) (use p(2) in simp)
  have "localpt (tcptab s ! i) \<noteq> of_nat (p + 10000)" if i: "1 \<le> i" "i < length (tcptab s)" "tcpstate (tcptab s ! i) \<noteq> TCP_CLOSED" for i
  proof
    assume e: "localpt (tcptab s ! i) = of_nat (p + 10000)"
    have "drop 1 (tcptab s) ! (i - 1) \<in> set (drop 1 (tcptab s))" using i by (intro nth_mem) auto
    then have "tcptab s ! i \<in> set (drop 1 (tcptab s))" using i by simp
    then show False using p(3) i(3) e u by (auto simp: port_taken_def)
  qed
  then show ?thesis using p u by (auto simp: allocPort_def simp del: of_nat_add)
qed

end
