(* ===== verification/Tcp_Timer.thy ===== *)
theory Tcp_Timer
  imports Tcp Clock
begin

text \<open>
  The TCP timer events, \<^verbatim>\<open>device/tcp/tcpTimer*.c\<close>: a table of events, of which entry 0 heads a delta queue
  linked by \<^verbatim>\<open>next\<close> pointers.  Every routine holds \<^verbatim>\<open>tcpmutex\<close> from begin to end and is modelled as one step;
  the timer thread gives the mutex up while an event is triggered, and a parameter says what happens to the
  events meanwhile.  \<^verbatim>\<open>TCP_NEVENTS\<close> is an unparenthesised sum, so \<^verbatim>\<open>(x) % TCP_NEVENTS\<close> is
  \<^verbatim>\<open>((x) % (3*NTCP)) + 1\<close>; \<^verbatim>\<open>NTCP\<close> is 7.
\<close>

record tcpEvent =
  eused :: bool
  etime :: int
  eremain :: int
  etype :: tcp_evt
  etcb :: nat
  enext :: "int option"

record timers =
  evtab :: "int \<Rightarrow> tcpEvent"
  nextevt :: int

definition evt_at :: "int \<Rightarrow> timers \<Rightarrow> tcpEvent option" where
  "evt_at i s = (if 0 \<le> i \<and> i < 22 then Some (evtab s i) else None)"

definition upd_evt :: "int \<Rightarrow> (tcpEvent \<Rightarrow> tcpEvent) \<Rightarrow> timers \<Rightarrow> timers option" where
  "upd_evt i f s = (if 0 \<le> i \<and> i < 22 then Some (s\<lparr>evtab := (evtab s)(i := f (evtab s i))\<rparr>) else None)"

section \<open>Operations\<close>

definition next_slot :: "int \<Rightarrow> int" where
  "next_slot n = (n + 1) mod 21 + 1"

fun allocEvent_loop :: "nat \<Rightarrow> timers \<Rightarrow> (int \<times> timers) option" where
  "allocEvent_loop 0 s = Some (SYSERR, s)"
| "allocEvent_loop (Suc n) s =
     (let s = s\<lparr>nextevt := next_slot (nextevt s)\<rparr>
      in if nextevt s = 0 then allocEvent_loop n s
         else do {
           e \<leftarrow> evt_at (nextevt s) s;
           if \<not> eused e then do { s \<leftarrow> upd_evt (nextevt s) (eused_update (\<lambda>_. True)) s; Some (nextevt s, s) }
           else allocEvent_loop n s })"

definition allocEvent :: "timers \<Rightarrow> (int \<times> timers) option" where
  "allocEvent s = allocEvent_loop 22 s"

partial_function (option) sched_scan :: "timers \<Rightarrow> int \<Rightarrow> int option \<Rightarrow> int \<Rightarrow> (int \<times> int option \<times> int) option" where
  "sched_scan s prev nxt time = (case nxt of
       None \<Rightarrow> Some (prev, nxt, time)
     | Some n \<Rightarrow> do {
         e \<leftarrow> evt_at n s;
         if eremain e \<le> time then do { time \<leftarrow> c_int (time - eremain e); sched_scan s n (enext e) time }
         else Some (prev, nxt, time) })"

definition tcpTimerSched :: "int \<Rightarrow> nat option \<Rightarrow> tcp_evt \<Rightarrow> timers \<Rightarrow> (int \<times> timers) option" where
  "tcpTimerSched time tcbptr ty s = (case tcbptr of
       None \<Rightarrow> Some (SYSERR, s)
     | Some t \<Rightarrow>
         if time < 0 then Some (SYSERR, s)
         else do {
           (evt, s) \<leftarrow> allocEvent s;
           if evt = SYSERR then Some (SYSERR, s)
           else do {
             s \<leftarrow> upd_evt evt (\<lambda>e. e\<lparr>etime := time, etype := ty, etcb := t\<rparr>) s;
             head \<leftarrow> evt_at 0 s;
             (prev, nxt, time) \<leftarrow> sched_scan s 0 (enext head) time;
             s \<leftarrow> upd_evt evt (enext_update (\<lambda>_. nxt)) s;
             s \<leftarrow> upd_evt prev (enext_update (\<lambda>_. Some evt)) s;
             s \<leftarrow> upd_evt evt (eremain_update (\<lambda>_. time)) s;
             s \<leftarrow> (case nxt of
                     None \<Rightarrow> Some s
                   | Some n \<Rightarrow> do {
                       e \<leftarrow> evt_at n s;
                       r \<leftarrow> c_int (eremain e - time);
                       upd_evt n (eremain_update (\<lambda>_. r)) s });
             Some (OK, s) } })"

definition evt_match :: "nat \<Rightarrow> tcp_evt \<Rightarrow> tcpEvent \<Rightarrow> bool" where
  "evt_match t ty e \<longleftrightarrow> etcb e = t \<and> (ty = EVT_ALL \<or> etype e = ty)"

definition purge_one :: "int \<Rightarrow> int \<Rightarrow> timers \<Rightarrow> timers option" where
  \<comment> \<open>the body of the loop of \<^verbatim>\<open>tcpTimerPurge\<close> for a matching event\<close>
  "purge_one prev cur s = do {
     e \<leftarrow> evt_at cur s;
     s \<leftarrow> (case enext e of
             None \<Rightarrow> Some s
           | Some n \<Rightarrow> do {
               f \<leftarrow> evt_at n s;
               r \<leftarrow> c_int (eremain f + eremain e);
               upd_evt n (eremain_update (\<lambda>_. r)) s });
     s \<leftarrow> upd_evt prev (enext_update (\<lambda>_. enext e)) s;
     upd_evt cur (eused_update (\<lambda>_. False)) s }"

partial_function (option) purge_loop :: "nat \<Rightarrow> tcp_evt \<Rightarrow> int \<Rightarrow> int option \<Rightarrow> int \<Rightarrow> timers \<Rightarrow> (int \<times> timers) option" where
  "purge_loop t ty prev cur result s = (case cur of
       None \<Rightarrow> Some (result, s)
     | Some c \<Rightarrow> do {
         e \<leftarrow> evt_at c s;
         if evt_match t ty e
         then do {
           result \<leftarrow> (if result = SYSERR then c_int (etime e - eremain e) else Some result);
           s \<leftarrow> purge_one prev c s;
           purge_loop t ty c (enext (evtab s c)) result s }
         else purge_loop t ty c (enext e) result s })"

definition tcpTimerPurge :: "nat \<Rightarrow> tcp_evt \<Rightarrow> timers \<Rightarrow> (int \<times> timers) option" where
  "tcpTimerPurge t ty s = do { head \<leftarrow> evt_at 0 s; purge_loop t ty 0 (enext head) SYSERR s }"

partial_function (option) remain_loop :: "nat \<Rightarrow> tcp_evt \<Rightarrow> timers \<Rightarrow> int option \<Rightarrow> int \<Rightarrow> int option" where
  "remain_loop t ty s cur time = (case cur of
       None \<Rightarrow> Some 0
     | Some c \<Rightarrow> do {
         e \<leftarrow> evt_at c s;
         time \<leftarrow> c_int (time + eremain e);
         if etcb e = t \<and> etype e = ty then Some time else remain_loop t ty s (enext e) time })"

definition tcpTimerRemain :: "nat \<Rightarrow> tcp_evt \<Rightarrow> timers \<Rightarrow> int option" where
  "tcpTimerRemain t ty s = do { head \<leftarrow> evt_at 0 s; remain_loop t ty s (enext head) 0 }"

definition calcElapsed :: "int \<Rightarrow> int \<Rightarrow> int \<Rightarrow> int \<Rightarrow> int option" where
  \<comment> \<open>the last two arguments are \<^verbatim>\<open>clkticks\<close> and \<^verbatim>\<open>clktime\<close>\<close>
  "calcElapsed lastticks lasttime nowticks nowtime =
     (if lasttime = nowtime then c_int (nowticks - lastticks)
      else do {
        ticks \<leftarrow> c_int (1000 - lastticks);
        d \<leftarrow> c_int (nowtime - lasttime - 1);
        d \<leftarrow> c_int (d * 1000);
        ticks \<leftarrow> c_int (ticks + d);
        c_int (ticks + nowticks) })"

text \<open>The loops of the timer thread.  The first component of the result lists the events triggered; \<open>trig\<close> is
  what the triggered routine and other threads do to the events while the mutex is free.\<close>

partial_function (option) expire_due ::
    "(tcp_evt \<times> nat \<Rightarrow> timers \<Rightarrow> timers) \<Rightarrow> (tcp_evt \<times> nat) list \<Rightarrow> int option \<Rightarrow> timers \<Rightarrow> ((tcp_evt \<times> nat) list \<times> timers) option" where
  "expire_due trig out first s = (case first of
       None \<Rightarrow> Some (out, s)
     | Some f \<Rightarrow> do {
         e \<leftarrow> evt_at f s;
         if eremain e \<le> 0
         then do {
           s \<leftarrow> upd_evt f (eused_update (\<lambda>_. False)) s;
           s \<leftarrow> upd_evt 0 (enext_update (\<lambda>_. enext e)) s;
           let s = trig (etype e, etcb e) s;
           expire_due trig (out @ [(etype e, etcb e)]) (enext (evtab s 0)) s }
         else Some (out, s) })"

partial_function (option) expire_loop ::
    "(tcp_evt \<times> nat \<Rightarrow> timers \<Rightarrow> timers) \<Rightarrow> (tcp_evt \<times> nat) list \<Rightarrow> u32 \<Rightarrow> timers \<Rightarrow> ((tcp_evt \<times> nat) list \<times> u32 \<times> timers) option" where
  "expire_loop trig out elapse s = (case enext (evtab s 0) of
       None \<Rightarrow> Some (out, elapse, s)
     | Some f \<Rightarrow>
         if elapse = 0 then Some (out, elapse, s)
         else do {
           e \<leftarrow> evt_at f s;
           if to_u32 (eremain e) > elapse
           then do { s \<leftarrow> upd_evt f (eremain_update (\<lambda>_. to_int (to_u32 (eremain e) - elapse))) s; Some (out, elapse, s) }
           else do {
             let elapse = elapse - to_u32 (eremain e);
             s \<leftarrow> upd_evt f (eremain_update (\<lambda>_. 0)) s;
             (out, s) \<leftarrow> expire_due trig out (Some f) s;
             expire_loop trig out elapse s } })"

declare sched_scan.simps [code] purge_loop.simps [code] remain_loop.simps [code]
  expire_due.simps [code] expire_loop.simps [code]

section \<open>The delta queue\<close>

abbreviation (input) rem_of :: "timers \<Rightarrow> int \<Rightarrow> int" where "rem_of s \<equiv> \<lambda>i. eremain (evtab s i)"

fun evq :: "(int \<Rightarrow> tcpEvent) \<Rightarrow> int option \<Rightarrow> int list \<Rightarrow> bool" where
  "evq tab p [] \<longleftrightarrow> p = None"
| "evq tab p (x # xs) \<longleftrightarrow> p = Some x \<and> evq tab (enext (tab x)) xs"

definition timers_ok :: "timers \<Rightarrow> int list \<Rightarrow> bool" where
  "timers_ok s xs \<longleftrightarrow> evq (evtab s) (enext (evtab s 0)) xs \<and> distinct xs \<and> set xs = {i. 1 \<le> i \<and> i \<le> 21 \<and> eused (evtab s i)} \<and>
     (\<forall>x\<in>set xs. 0 \<le> rem_of s x) \<and> (\<forall>x\<in>set xs. 0 \<le> etime (evtab s x) \<and> etime (evtab s x) \<le> INT_MAX) \<and>
     (\<Sum>x\<leftarrow>xs. rem_of s x) \<le> INT_MAX \<and> 0 \<le> nextevt s \<and> nextevt s \<le> 21"

lemma evq_cong: "\<forall>x\<in>set xs. enext (tab' x) = enext (tab x) \<Longrightarrow> evq tab' p xs = evq tab p xs"
  by (induction xs arbitrary: p) auto

lemma evq_unique: "evq tab p xs \<Longrightarrow> evq tab p ys \<Longrightarrow> xs = ys"
proof (induction xs arbitrary: p ys)
  case Nil
  then show ?case by (cases ys) auto
next
  case (Cons x xs)
  then show ?case by (cases ys) auto
qed

lemma evq_head: "evq tab p xs \<Longrightarrow> p = (case xs of [] \<Rightarrow> None | x # _ \<Rightarrow> Some x)"
  by (cases xs) auto

lemma timers_okD:
  assumes "timers_ok s xs"
  shows "evq (evtab s) (enext (evtab s 0)) xs" "distinct xs" "\<forall>x\<in>set xs. 1 \<le> x \<and> x \<le> 21 \<and> eused (evtab s x)"
    "\<forall>x\<in>set xs. 0 \<le> rem_of s x" "(\<Sum>x\<leftarrow>xs. rem_of s x) \<le> INT_MAX" "0 \<le> nextevt s" "nextevt s \<le> 21"
    "\<forall>x\<in>set xs. 0 \<le> etime (evtab s x) \<and> etime (evtab s x) \<le> INT_MAX"
  using assms by (auto simp: timers_ok_def)

lemma range_0: "\<forall>x\<in>set xs. 1 \<le> x \<and> x \<le> (21::int) \<Longrightarrow> 0 \<notin> set xs"
proof
  assume "\<forall>x\<in>set xs. 1 \<le> x \<and> x \<le> (21::int)" "0 \<in> set xs"
  then have "1 \<le> (0::int)" by blast
  then show False by simp
qed

lemma timers_ok_0: "timers_ok s xs \<Longrightarrow> 0 \<notin> set xs"
  by (auto simp: timers_ok_def)

lemma rem_le_sum: "\<forall>x\<in>set xs. 0 \<le> K x \<Longrightarrow> x \<in> set xs \<Longrightarrow> K x \<le> (\<Sum>y\<leftarrow>xs. (K y :: int))"
  by (rule member_le_sum_list [of "K x" "map K xs", simplified]) auto


abbreviation (input) first_of :: "int list \<Rightarrow> int option" where
  "first_of xs \<equiv> (case xs of [] \<Rightarrow> None | x # _ \<Rightarrow> Some x)"

lemma evq_insert:
  assumes "evq tab (enext (tab h)) (a @ b)" "distinct (h # a @ b)" "x \<notin> set (h # a @ b)"
    and "\<forall>i. i \<noteq> x \<and> i \<noteq> last (h # a) \<longrightarrow> enext (tab' i) = enext (tab i)"
    and "enext (tab' x) = first_of b" "enext (tab' (last (h # a))) = Some x"
  shows "evq tab' (enext (tab' h)) (a @ x # b)"
  using assms
proof (induction a arbitrary: h)
  case Nil
  have "evq tab' (first_of b) b \<longleftrightarrow> evq tab (first_of b) b"
    using Nil.prems by (intro evq_cong) auto
  then show ?case using Nil.prems evq_head [of tab "enext (tab h)" b] by auto
next
  case (Cons y a)
  have "last (h # y # a) \<noteq> h" "last (h # y # a) = last (y # a)" using Cons.prems(2) by auto
  then show ?case using Cons.IH [of y] Cons.prems by simp
qed

lemma evq_remove:
  assumes "evq tab (enext (tab h)) (a @ x # b)" "distinct (h # a @ x # b)"
    and "\<forall>i. i \<noteq> last (h # a) \<longrightarrow> enext (tab' i) = enext (tab i)" "enext (tab' (last (h # a))) = enext (tab x)"
  shows "evq tab' (enext (tab' h)) (a @ b)"
  using assms
proof (induction a arbitrary: h)
  case Nil
  have "evq tab' (enext (tab x)) b \<longleftrightarrow> evq tab (enext (tab x)) b"
    using Nil.prems by (intro evq_cong) auto
  then show ?case using Nil.prems by simp
next
  case (Cons y a)
  have "last (h # y # a) \<noteq> h" "last (h # y # a) = last (y # a)" using Cons.prems(2) by auto
  then show ?case using Cons.IH [of y] Cons.prems by simp
qed

lemma last_range: "\<forall>x\<in>set a. 1 \<le> x \<and> x \<le> (21::int) \<Longrightarrow> 0 \<le> last (0 # a) \<and> last (0 # a) < 22"
  using last_in_set [of a] by (cases "a = []") fastforce+

section \<open>Scheduling an event\<close>

lemma next_slot_range: "1 \<le> next_slot n \<and> next_slot n \<le> 21"
proof -
  have "0 \<le> (n + 1) mod 21" "(n + 1) mod 21 < 21" by simp_all
  then show ?thesis by (simp add: next_slot_def)
qed

text \<open>The search steps by two through 21 slots and so reaches every slot.\<close>

lemma slots_covered_check:
  "list_all (\<lambda>p. list_all (\<lambda>i. list_ex (\<lambda>k. (next_slot ^^ Suc k) p = i) [0..<22]) [1..21]) [0..21]"
  by code_simp

lemma slots_covered:
  assumes "0 \<le> p" "p \<le> 21" "1 \<le> i" "i \<le> (21::int)"
  shows "\<exists>k<22. (next_slot ^^ Suc k) p = i"
proof -
  have "list_ex (\<lambda>k. (next_slot ^^ Suc k) p = i) [0..<22]"
    using slots_covered_check assms by (simp only: list_all_iff set_upto) auto
  then show ?thesis by (auto simp only: list_ex_iff set_upt atLeastLessThan_iff)
qed

lemma allocEvent_loop_ok:
  assumes "k < n" "\<not> eused (evtab s ((next_slot ^^ Suc k) (nextevt s)))"
  shows "\<exists>i. allocEvent_loop n s = Some (i, s\<lparr>nextevt := i, evtab := (evtab s)(i := (evtab s i)\<lparr>eused := True\<rparr>)\<rparr>) \<and>
    1 \<le> i \<and> i \<le> 21 \<and> \<not> eused (evtab s i)"
  using assms
proof (induction n arbitrary: k s)
  case (Suc n)
  let ?p = "next_slot (nextevt s)"
  have p: "1 \<le> ?p" "?p \<le> 21" using next_slot_range by auto
  show ?case
  proof (cases "eused (evtab s ?p)")
    case False
    then show ?thesis using p by (simp add: evt_at_def upd_evt_def Let_def fun_upd_def)
  next
    case True
    then obtain k' where k': "k = Suc k'" using Suc.prems(2) by (cases k) auto
    have "allocEvent_loop (Suc n) s = allocEvent_loop n (s\<lparr>nextevt := ?p\<rparr>)"
      using p True by (simp add: evt_at_def Let_def)
    moreover have "\<exists>i. allocEvent_loop n (s\<lparr>nextevt := ?p\<rparr>) = Some (i, (s\<lparr>nextevt := ?p\<rparr>)
        \<lparr>nextevt := i, evtab := (evtab s)(i := (evtab s i)\<lparr>eused := True\<rparr>)\<rparr>) \<and> 1 \<le> i \<and> i \<le> 21 \<and> \<not> eused (evtab s i)"
      using Suc.IH [of k' "s\<lparr>nextevt := ?p\<rparr>"] Suc.prems k' by (simp add: funpow_swap1 fun_upd_def)
    ultimately show ?thesis by (simp add: fun_upd_def)
  qed
qed simp

lemma allocEvent_ok:
  assumes "timers_ok s xs" "1 \<le> j" "j \<le> 21" "\<not> eused (evtab s j)"
  shows "\<exists>i. allocEvent s = Some (i, s\<lparr>nextevt := i, evtab := (evtab s)(i := (evtab s i)\<lparr>eused := True\<rparr>)\<rparr>) \<and>
    1 \<le> i \<and> i \<le> 21 \<and> \<not> eused (evtab s i)"
proof -
  obtain k where "k < 22" "(next_slot ^^ Suc k) (nextevt s) = j"
    using slots_covered [OF timers_okD(6,7) [OF assms(1)] assms(2,3)] by blast
  then show ?thesis using allocEvent_loop_ok [of k 22 s] assms(4) unfolding allocEvent_def by blast
qed

lemma sched_scan_ok:
  assumes "evq (evtab s) p xs" "\<forall>x\<in>set xs. 1 \<le> x \<and> x \<le> 21" "\<forall>x\<in>set xs. 0 \<le> rem_of s x" "0 \<le> time" "time \<le> INT_MAX"
    and "dsplit (rem_of s) time xs = (a, b, k')"
  shows "sched_scan s prev p time = Some (last (prev # a), first_of b, k')"
  using assms
proof (induction xs arbitrary: p prev time a)
  case Nil
  then show ?case by (simp add: sched_scan.simps)
next
  case (Cons x xs)
  show ?case
  proof (cases "rem_of s x \<le> time")
    case True
    then obtain a' where a': "dsplit (rem_of s) (time - rem_of s x) xs = (a', b, k')" "a = x # a'"
      using Cons.prems(6) by (auto split: prod.splits)
    have "sched_scan s x (enext (evtab s x)) (time - rem_of s x) = Some (last (x # a'), first_of b, k')"
      using Cons.IH [OF _ _ _ _ _ a'(1), of "enext (evtab s x)" x] Cons.prems True by force
    then show ?thesis
      using True Cons.prems a'(2) by (subst sched_scan.simps) (simp add: evt_at_def)
  next
    case False
    then show ?thesis using Cons.prems by (subst sched_scan.simps) (auto simp: evt_at_def)
  qed
qed


text \<open>The fields of the table after an event has been put into the queue.\<close>

definition scheduled :: "int \<Rightarrow> int \<Rightarrow> int list \<Rightarrow> int list \<Rightarrow> int \<Rightarrow> nat \<Rightarrow> tcp_evt \<Rightarrow> timers \<Rightarrow> timers \<Rightarrow> bool" where
  "scheduled evt time a b k t ty s s' \<longleftrightarrow>
     (\<forall>i. eremain (evtab s' i) = dkeys (rem_of s) evt k b i) \<and>
     (\<forall>i. i \<noteq> evt \<and> i \<noteq> last (0 # a) \<longrightarrow> enext (evtab s' i) = enext (evtab s i)) \<and>
     enext (evtab s' evt) = first_of b \<and> enext (evtab s' (last (0 # a))) = Some evt \<and>
     (\<forall>i. eused (evtab s' i) \<longleftrightarrow> eused (evtab s i) \<or> i = evt) \<and>
     (\<forall>i. i \<noteq> evt \<longrightarrow> etype (evtab s' i) = etype (evtab s i) \<and> etcb (evtab s' i) = etcb (evtab s i) \<and>
        etime (evtab s' i) = etime (evtab s i)) \<and>
     etype (evtab s' evt) = ty \<and> etcb (evtab s' evt) = t \<and> etime (evtab s' evt) = time \<and> nextevt s' = evt"

lemma tcpTimerSched_run:
  assumes ok: "timers_ok s xs" and time: "0 \<le> time" "time \<le> INT_MAX"
    and al: "allocEvent s = Some (i, s\<lparr>nextevt := i, evtab := (evtab s)(i := (evtab s i)\<lparr>eused := True\<rparr>)\<rparr>)"
    and i: "1 \<le> i" "i \<le> 21" "\<not> eused (evtab s i)"
    and sp: "dsplit (rem_of s) time xs = (a, b, k')"
  shows "\<exists>s'. tcpTimerSched time (Some t) ty s = Some (OK, s') \<and> scheduled i time a b k' t ty s s'"
proof -
  note D = timers_okD [OF ok]
  have p: "xs = a @ b" "0 \<le> k'" "k' \<le> time" "b \<noteq> [] \<longrightarrow> k' < rem_of s (hd b)"
    using dsplit_props [OF sp D(4) time(1)] by auto
  define s1 where "s1 = s\<lparr>nextevt := i, evtab := (evtab s)(i := (evtab s i)\<lparr>eused := True, etime := time, etype := ty, etcb := t\<rparr>)\<rparr>"
  have nin: "i \<notin> set xs" using D(3) i(3) by auto
  have rem: "rem_of s1 x = rem_of s x" "enext (evtab s1 x) = enext (evtab s x)" for x by (simp_all add: s1_def)
  have ch: "evq (evtab s1) (enext (evtab s1 0)) xs" using D(1) rem evq_cong [of xs "evtab s1" "evtab s"] by simp
  have "sched_scan s1 0 (enext (evtab s1 0)) time = Some (last (0 # a), first_of b, k')"
    using sched_scan_ok [OF ch] D(3,4) sp time rem by simp
  moreover have "last (0 # a) \<noteq> i" "0 \<le> last (0 # a)" "last (0 # a) < 22"
    using nin p(1) i D(3) last_in_set [of a] last_range [of a] by (auto split: if_splits)
  moreover have "hd b \<noteq> i \<and> hd b \<noteq> last (0 # a) \<and> 0 \<le> hd b \<and> hd b < 22 \<and> c_int (rem_of s (hd b) - k') = Some (rem_of s (hd b) - k')"
    if b: "b \<noteq> []"
  proof -
    have "hd b \<in> set xs" using b p(1) by simp
    moreover from this have "rem_of s (hd b) \<le> INT_MAX" using rem_le_sum [OF D(4)] D(5) by fastforce
    moreover have "hd b \<noteq> last (0 # a)" using b D(2,3) p(1) last_in_set [of a] by (cases b) (auto split: if_splits)
    ultimately show ?thesis using nin D(3) p(2,4) b by (auto intro!: c_int_Some)
  qed
  moreover have "upd_evt i (\<lambda>e. e\<lparr>etime := time, etype := ty, etcb := t\<rparr>)
      (s\<lparr>nextevt := i, evtab := (evtab s)(i := (evtab s i)\<lparr>eused := True\<rparr>)\<rparr>) = Some s1"
    using i by (simp add: upd_evt_def s1_def)
  ultimately show ?thesis
    using time(1) i al by (cases b) (auto simp: tcpTimerSched_def upd_evt_def evt_at_def scheduled_def s1_def dkeys_def)
qed


lemma dkeys_nonneg:
  assumes "dsplit K k ys = (a, b, k')" "\<forall>y\<in>set ys. 0 \<le> K y" "0 \<le> k" "x \<in> set (a @ i # b)"
  shows "0 \<le> dkeys K i k' b x"
  using dsplit_props [OF assms(1-3)] assms(2,4) by (auto simp: dkeys_def)

lemma scheduled_ok:
  assumes ok: "timers_ok s xs" and time: "0 \<le> time" "time \<le> INT_MAX" and i: "1 \<le> i" "i \<le> 21" "\<not> eused (evtab s i)"
    and sp: "dsplit (rem_of s) time xs = (a, b, k')" and sc: "scheduled i time a b k' t ty s s'"
  shows "timers_ok s' (a @ i # b)" "due (rem_of s') 0 (a @ i # b) = ins_time i time (due (rem_of s) 0 xs)"
proof -
  note D = timers_okD [OF ok]
  have p: "xs = a @ b" using dsplit_props [OF sp D(4) time(1)] by auto
  have nin: "i \<notin> set xs" using D(3) i(3) by auto
  have K: "rem_of s' = dkeys (rem_of s) i k' b" using sc by (auto simp: scheduled_def)
  have "evq (evtab s') (enext (evtab s' 0)) (a @ i # b)"
  proof (rule evq_insert [of "evtab s"])
    show "distinct (0 # a @ b)" "i \<notin> set (0 # a @ b)" using D(2) timers_ok_0 [OF ok] p nin i by auto
  qed (use D(1) p sc in \<open>auto simp: scheduled_def\<close>)
  moreover have "distinct (a @ i # b)" using D(2) p nin by auto
  moreover have "set (a @ i # b) = {j. 1 \<le> j \<and> j \<le> 21 \<and> eused (evtab s' j)}"
    using ok p i sc by (auto simp: timers_ok_def scheduled_def)
  moreover have "\<forall>x\<in>set (a @ i # b). 0 \<le> rem_of s' x"
    using dkeys_nonneg [OF sp D(4) time(1)] fun_cong [OF K] by metis
  moreover have "(\<Sum>x\<leftarrow>a @ i # b. rem_of s' x) \<le> INT_MAX"
    unfolding K using sum_dkeys [OF sp nin D(2) p] D(5) time(2) by auto
  moreover have "\<forall>x\<in>set (a @ i # b). 0 \<le> etime (evtab s' x) \<and> etime (evtab s' x) \<le> INT_MAX"
  proof -
    have "etime (evtab s' x) = (if x = i then time else etime (evtab s x))" for x
      using sc unfolding scheduled_def by metis
    then show ?thesis using D(8) p time by auto
  qed
  ultimately show "timers_ok s' (a @ i # b)" using i sc by (simp add: timers_ok_def scheduled_def)
  show "due (rem_of s') 0 (a @ i # b) = ins_time i time (due (rem_of s) 0 xs)"
    unfolding K using due_dsplit [OF sp nin D(2), of 0] by simp
qed

lemma free_slot:
  assumes "timers_ok s xs" "length xs < 21"
  shows "\<exists>j. 1 \<le> j \<and> j \<le> 21 \<and> \<not> eused (evtab s j)"
proof (rule ccontr)
  assume "\<not> ?thesis"
  then have "set xs = {1..21}" using assms(1) by (auto simp: timers_ok_def)
  then have "card (set xs) = 21" by simp
  then show False using assms(2) card_length [of xs] by simp
qed

lemma tcpTimerSched_ok:
  assumes "timers_ok s xs" "0 \<le> time" "time \<le> INT_MAX" "length xs < 21"
  shows "\<exists>s' i ys. tcpTimerSched time (Some t) ty s = Some (OK, s') \<and> timers_ok s' ys \<and> i \<notin> set xs \<and>
    due (rem_of s') 0 ys = ins_time i time (due (rem_of s) 0 xs) \<and> etype (evtab s' i) = ty \<and> etcb (evtab s' i) = t \<and>
    (\<forall>x\<in>set xs. etype (evtab s' x) = etype (evtab s x) \<and> etcb (evtab s' x) = etcb (evtab s x))"
proof -
  obtain a b k' where sp: "dsplit (rem_of s) time xs = (a, b, k')" using prod_cases3 by blast
  obtain i where i: "allocEvent s = Some (i, s\<lparr>nextevt := i, evtab := (evtab s)(i := (evtab s i)\<lparr>eused := True\<rparr>)\<rparr>)"
    "1 \<le> i" "i \<le> 21" "\<not> eused (evtab s i)"
    using free_slot [OF assms(1,4)] allocEvent_ok [OF assms(1)] by blast
  obtain s' where s': "tcpTimerSched time (Some t) ty s = Some (OK, s')" "scheduled i time a b k' t ty s s'"
    using tcpTimerSched_run [OF assms(1-3) i sp] by blast
  have nin: "i \<notin> set xs" using timers_okD(3) [OF assms(1)] i(4) by auto
  have "\<forall>x\<in>set xs. etype (evtab s' x) = etype (evtab s x) \<and> etcb (evtab s' x) = etcb (evtab s x)"
    using s'(2) nin unfolding scheduled_def by metis
  moreover have "etype (evtab s' i) = ty" "etcb (evtab s' i) = t" using s'(2) by (auto simp: scheduled_def)
  ultimately show ?thesis
    using s'(1) scheduled_ok [OF assms(1-3) i(2-4) sp s'(2)] nin by blast
qed

lemma tcpTimerSched_negative: "time < 0 \<Longrightarrow> tcpTimerSched time (Some t) ty s = Some (SYSERR, s)"
  by (simp add: tcpTimerSched_def)

section \<open>Remaining time\<close>

lemma remain_loop_ok:
  assumes "evq (evtab s) p xs" "\<forall>x\<in>set xs. 1 \<le> x \<and> x \<le> 21 \<and> 0 \<le> rem_of s x" "0 \<le> acc" "acc + (\<Sum>x\<leftarrow>xs. rem_of s x) \<le> INT_MAX"
  shows "remain_loop t ty s p acc =
    Some (case filter (\<lambda>(i, w). etcb (evtab s i) = t \<and> etype (evtab s i) = ty) (due (rem_of s) acc xs) of
            [] \<Rightarrow> 0 | (i, w) # _ \<Rightarrow> w)"
  using assms
proof (induction xs arbitrary: p acc)
  case Nil
  then show ?case by (simp add: remain_loop.simps)
next
  case (Cons x xs)
  have "0 \<le> (\<Sum>x\<leftarrow>xs. rem_of s x)" using Cons.prems(2) by (intro sum_list_nonneg) auto
  then have c: "c_int (acc + rem_of s x) = Some (acc + rem_of s x)" using Cons.prems by (intro c_int_Some) auto
  show ?case
    using Cons.prems Cons.IH [of "enext (evtab s x)" "acc + rem_of s x"] c
    by (subst remain_loop.simps) (auto simp: evt_at_def add.assoc)
qed


section \<open>Removing events\<close>

text \<open>Removing one event: its delay goes to its successor, its predecessor is linked to the successor.\<close>

lemma purge_one_ok:
  assumes "evq (evtab s) (enext (evtab s h)) (y # ys)" "distinct (h # y # ys)" "0 \<le> h" "h < 22"
    and "\<forall>x\<in>set (y # ys). 1 \<le> x \<and> x \<le> 21 \<and> 0 \<le> rem_of s x" "(\<Sum>x\<leftarrow>y # ys. rem_of s x) \<le> INT_MAX"
  shows "\<exists>s'. purge_one h y s = Some s' \<and> enext (evtab s' h) = first_of ys \<and> enext (evtab s' y) = first_of ys \<and>
    (\<forall>i. i \<noteq> h \<longrightarrow> enext (evtab s' i) = enext (evtab s i)) \<and>
    (\<forall>i. rem_of s' i = (if ys \<noteq> [] \<and> i = hd ys then rem_of s i + rem_of s y else rem_of s i)) \<and>
    (\<forall>i. eused (evtab s' i) \<longleftrightarrow> eused (evtab s i) \<and> i \<noteq> y) \<and>
    (\<forall>i. etype (evtab s' i) = etype (evtab s i) \<and> etcb (evtab s' i) = etcb (evtab s i) \<and> etime (evtab s' i) = etime (evtab s i)) \<and>
    nextevt s' = nextevt s"
proof (cases ys)
  case Nil
  then show ?thesis using assms by (auto simp: purge_one_def evt_at_def upd_evt_def)
next
  case (Cons z zs)
  have "0 \<le> (\<Sum>x\<leftarrow>zs. rem_of s x)" using assms(5) Cons by (intro sum_list_nonneg) auto
  then have "c_int (rem_of s z + rem_of s y) = Some (rem_of s z + rem_of s y)"
    using assms(5,6) Cons by (intro c_int_Some) auto
  then show ?thesis using assms Cons by (auto simp: purge_one_def evt_at_def upd_evt_def)
qed

text \<open>What a purge does to the part of the queue behind the entry \<open>h\<close>: the matching events \<open>m\<close> are gone and the
  others are due when they were before.\<close>

definition purged :: "(int \<Rightarrow> bool) \<Rightarrow> int \<Rightarrow> int list \<Rightarrow> timers \<Rightarrow> timers \<Rightarrow> bool" where
  "purged m h ys s s' \<longleftrightarrow>
     evq (evtab s') (enext (evtab s' h)) (filter (\<lambda>i. \<not> m i) ys) \<and>
     (\<forall>acc. due (rem_of s') acc (filter (\<lambda>i. \<not> m i) ys) = filter (\<lambda>(i, w). \<not> m i) (due (rem_of s) acc ys)) \<and>
     (\<forall>x\<in>set ys. rem_of s x \<le> rem_of s' x) \<and>
     (\<forall>i. i \<notin> set ys \<and> i \<noteq> h \<longrightarrow> enext (evtab s' i) = enext (evtab s i)) \<and>
     (\<forall>i. i \<notin> set ys \<longrightarrow> rem_of s' i = rem_of s i) \<and>
     (\<forall>i. eused (evtab s' i) \<longleftrightarrow> eused (evtab s i) \<and> \<not> (i \<in> set ys \<and> m i)) \<and>
     (\<forall>i. etype (evtab s' i) = etype (evtab s i) \<and> etcb (evtab s' i) = etcb (evtab s i) \<and> etime (evtab s' i) = etime (evtab s i)) \<and>
     nextevt s' = nextevt s"

lemma purge_loop_ok:
  assumes "evq (evtab s) (enext (evtab s h)) ys" "distinct (h # ys)" "0 \<le> h" "h < 22"
    and "\<forall>x\<in>set ys. 1 \<le> x \<and> x \<le> 21 \<and> 0 \<le> rem_of s x" "(\<Sum>x\<leftarrow>ys. rem_of s x) \<le> INT_MAX"
    and "\<forall>x\<in>set ys. 0 \<le> etime (evtab s x) \<and> etime (evtab s x) \<le> INT_MAX"
    and "\<forall>x. evt_match t ty (evtab s x) = m x" "successively (\<lambda>x y. \<not> (m x \<and> m y)) ys"
  shows "\<exists>r s'. purge_loop t ty h (enext (evtab s h)) result s = Some (r, s') \<and> purged m h ys s s' \<and>
    (result \<noteq> SYSERR \<longrightarrow> r = result) \<and>
    (\<forall>x zs. result = SYSERR \<and> filter m ys = x # zs \<and> rem_of s x \<le> etime (evtab s x) \<longrightarrow> r = etime (evtab s x) - rem_of s x)"
  using assms
proof (induction "length ys" arbitrary: ys h s result rule: less_induct)
  case less
  show ?case
  proof (cases ys)
    case Nil
    then show ?thesis using less.prems by (subst purge_loop.simps) (auto simp: purged_def)
  next
    case (Cons y zs)
    have y: "enext (evtab s h) = Some y" "evt_at y s = Some (evtab s y)" "evq (evtab s) (enext (evtab s y)) zs"
      using less.prems(1,5) Cons by (auto simp: evt_at_def)
    have nn: "0 \<le> rem_of s y" "0 \<le> (\<Sum>x\<leftarrow>zs. rem_of s x)" using less.prems(5) Cons by (auto intro!: sum_list_nonneg)
    show ?thesis
    proof (cases "m y")
      case False
      obtain r s' where r: "purge_loop t ty y (enext (evtab s y)) result s = Some (r, s')" "purged m y zs s s'"
        "result \<noteq> SYSERR \<longrightarrow> r = result"
        "\<forall>x ws. result = SYSERR \<and> filter m zs = x # ws \<and> rem_of s x \<le> etime (evtab s x) \<longrightarrow> r = etime (evtab s x) - rem_of s x"
        using less.hyps [of zs s y result] less.prems y nn Cons by (auto simp: successively_Cons)
      have "purged m h ys s s'"
        using r(2) False less.prems(2) Cons y(1) by (auto simp: purged_def)
      then show ?thesis
        using r less.prems(8) False Cons y by (subst purge_loop.simps) auto
    next
      case True
      define r1 where "r1 = (if result = SYSERR then etime (evtab s y) - rem_of s y else result)"
      have rem_y: "rem_of s y \<le> INT_MAX" using nn less.prems(6) Cons by simp
      have r1: "(if result = SYSERR then c_int (etime (evtab s y) - rem_of s y) else Some result) = Some r1"
        using less.prems(7) nn(1) rem_y Cons by (auto simp: r1_def intro!: c_int_Some)
      obtain s1 where s1: "purge_one h y s = Some s1" "enext (evtab s1 h) = first_of zs" "enext (evtab s1 y) = first_of zs"
        "\<forall>i. i \<noteq> h \<longrightarrow> enext (evtab s1 i) = enext (evtab s i)"
        "\<forall>i. rem_of s1 i = (if zs \<noteq> [] \<and> i = hd zs then rem_of s i + rem_of s y else rem_of s i)"
        "\<forall>i. eused (evtab s1 i) \<longleftrightarrow> eused (evtab s i) \<and> i \<noteq> y"
        "\<forall>i. etype (evtab s1 i) = etype (evtab s i) \<and> etcb (evtab s1 i) = etcb (evtab s i) \<and> etime (evtab s1 i) = etime (evtab s i)"
        "nextevt s1 = nextevt s"
        using purge_one_ok [of s h y zs] less.prems(1-6) Cons by auto
      have step: "purge_loop t ty h (enext (evtab s h)) result s = purge_loop t ty y (first_of zs) r1 s1"
        using y less.prems(8) True r1 s1(1,3) by (subst purge_loop.simps) simp
      show ?thesis
      proof (cases zs)
        case Nil
        have "purged m h ys s s1" using s1 True Cons Nil by (auto simp: purged_def)
        then show ?thesis using step True Cons Nil by (auto simp: purge_loop.simps r1_def)
      next
        case C2: (Cons z ws)
        have z: "\<not> m z" "evt_match t ty (evtab s1 z) = m z" "evt_at z s1 = Some (evtab s1 z)"
          using less.prems(5,8,9) True Cons C2 s1(7) by (auto simp: evt_at_def evt_match_def)
        have d: "z \<noteq> h" "y \<noteq> h" "z \<noteq> y" "z \<notin> set ws" "y \<notin> set ws" "h \<notin> set ws" "distinct ws"
          using less.prems(2) Cons C2 by auto
        have K: "\<forall>x\<in>set ws. rem_of s1 x = rem_of s x" "rem_of s1 z = rem_of s z + rem_of s y" "rem_of s1 y = rem_of s y"
          using s1(5) d C2 by auto
        have q: "evq (evtab s1) (enext (evtab s1 z)) ws"
        proof -
          have "evq (evtab s1) (enext (evtab s z)) ws \<longleftrightarrow> evq (evtab s) (enext (evtab s z)) ws"
            using s1(4) d by (intro evq_cong) metis
          then show ?thesis using y(3) s1(4) d C2 by simp
        qed
        have nz: "0 \<le> rem_of s z" "0 \<le> (\<Sum>x\<leftarrow>ws. rem_of s x)"
          using less.prems(5) Cons C2 by (auto intro!: sum_list_nonneg)
        have S: "(\<Sum>x\<leftarrow>ws. rem_of s1 x) = (\<Sum>x\<leftarrow>ws. rem_of s x)"
          using K(1) by (auto intro!: arg_cong [where f = sum_list])
        obtain r s' where r: "purge_loop t ty z (enext (evtab s1 z)) r1 s1 = Some (r, s')" "purged m z ws s1 s'"
          "r1 \<noteq> SYSERR \<longrightarrow> r = r1"
          using less.hyps [of ws s1 z r1] less.prems q d nn nz K S s1(7) Cons C2 by (auto simp: successively_Cons evt_match_def)
        have "due (rem_of s1) acc ws = due (rem_of s) acc ws" for acc using K(1) by (rule due_cong)
        moreover have "rem_of s' z = rem_of s1 z" "enext (evtab s' h) = Some z" "rem_of s' y = rem_of s y"
          using r(2) d s1(2) K(3) C2 by (auto simp: purged_def)
        ultimately have "purged m h ys s s'"
          using r(2) True z(1) s1 d K Cons C2 nn by (auto simp: purged_def add.assoc add.commute [of "rem_of s y"])
        moreover have "purge_loop t ty h (enext (evtab s h)) result s = Some (r, s')"
          using step z r(1) C2 by (subst (asm) (2) purge_loop.simps) simp
        ultimately show ?thesis using r(3) True Cons by (auto simp: r1_def)
      qed
    qed
  qed
qed


lemma due_fst: "map fst (due K acc xs) = xs"
  by (induction xs arbitrary: acc) auto

lemma due_last: "xs \<noteq> [] \<Longrightarrow> snd (last (due K acc xs)) = acc + (\<Sum>x\<leftarrow>xs. K x)"
  by (cases xs rule: rev_cases) (auto simp: due_append)

lemma due_upper: "\<forall>x\<in>set xs. 0 \<le> K x \<Longrightarrow> d \<in> set (due K acc xs) \<Longrightarrow> snd d \<le> acc + (\<Sum>x\<leftarrow>xs. (K x :: int))"
proof (induction xs arbitrary: acc)
  case (Cons x xs)
  have "0 \<le> (\<Sum>x\<leftarrow>xs. K x)" using Cons.prems(1) by (intro sum_list_nonneg) auto
  then show ?case using Cons.IH [of "acc + K x"] Cons.prems by (auto simp: add.assoc)
qed simp

text \<open>The total delay of a queue all of whose due times are due times of another one.\<close>

lemma sum_from_due:
  assumes "\<forall>x\<in>set xs. 0 \<le> K x" "\<forall>d\<in>set (due K' 0 ys). \<exists>d'\<in>set (due K 0 xs). snd d \<le> snd d'"
  shows "(\<Sum>x\<leftarrow>ys. K' x) \<le> (\<Sum>x\<leftarrow>xs. (K x :: int))"
proof (cases "ys = []")
  case False
  then have "last (due K' 0 ys) \<in> set (due K' 0 ys)" by (intro last_in_set) (cases ys, auto)
  then obtain d' where "d' \<in> set (due K 0 xs)" "snd (last (due K' 0 ys)) \<le> snd d'" using assms(2) by blast
  then show ?thesis using due_last [OF False, of K' 0] due_upper [OF assms(1), of d' 0] by simp
qed (use assms(1) in \<open>auto intro!: sum_list_nonneg\<close>)

lemma tcpTimerPurge_ok:
  assumes ok: "timers_ok s xs"
    and na: "successively (\<lambda>x y. \<not> (evt_match t ty (evtab s x) \<and> evt_match t ty (evtab s y))) xs"
  shows "\<exists>r s'. tcpTimerPurge t ty s = Some (r, s') \<and> timers_ok s' (filter (\<lambda>i. \<not> evt_match t ty (evtab s i)) xs) \<and>
    due (rem_of s') 0 (filter (\<lambda>i. \<not> evt_match t ty (evtab s i)) xs) =
      filter (\<lambda>(i, w). \<not> evt_match t ty (evtab s i)) (due (rem_of s) 0 xs) \<and>
    (\<forall>x zs. filter (\<lambda>i. evt_match t ty (evtab s i)) xs = x # zs \<and> rem_of s x \<le> etime (evtab s x) \<longrightarrow>
      r = etime (evtab s x) - rem_of s x)"
proof -
  define m where "m = (\<lambda>i. evt_match t ty (evtab s i))"
  let ?ys = "filter (\<lambda>i. \<not> m i) xs"
  note D = timers_okD [OF ok]
  obtain r s' where r: "purge_loop t ty 0 (enext (evtab s 0)) SYSERR s = Some (r, s')" "purged m 0 xs s s'"
    "\<forall>x zs. filter m xs = x # zs \<and> rem_of s x \<le> etime (evtab s x) \<longrightarrow> r = etime (evtab s x) - rem_of s x"
    using purge_loop_ok [OF D(1), of t ty m SYSERR] D timers_ok_0 [OF ok] na by (auto simp: m_def)
  have p: "evq (evtab s') (enext (evtab s' 0)) ?ys" "due (rem_of s') 0 ?ys = filter (\<lambda>(i, w). \<not> m i) (due (rem_of s) 0 xs)"
    "\<forall>x\<in>set xs. rem_of s x \<le> rem_of s' x" "\<forall>i. eused (evtab s' i) \<longleftrightarrow> eused (evtab s i) \<and> \<not> (i \<in> set xs \<and> m i)"
    "\<forall>i. etime (evtab s' i) = etime (evtab s i)" "nextevt s' = nextevt s"
    using r(2) by (auto simp: purged_def)
  have "(\<Sum>x\<leftarrow>?ys. rem_of s' x) \<le> (\<Sum>x\<leftarrow>xs. rem_of s x)"
    by (rule sum_from_due [OF D(4)]) (force simp: p(2))
  then have "(\<Sum>x\<leftarrow>?ys. rem_of s' x) \<le> INT_MAX" using D(5) by linarith
  moreover have "\<forall>x\<in>set ?ys. 0 \<le> rem_of s' x" using p(3) D(4) by (auto intro: order_trans)
  moreover have "set ?ys = {i. 1 \<le> i \<and> i \<le> 21 \<and> eused (evtab s' i)}" using ok p(4) by (auto simp: timers_ok_def)
  moreover have "\<forall>x\<in>set ?ys. 0 \<le> etime (evtab s' x) \<and> etime (evtab s' x) \<le> INT_MAX" "0 \<le> nextevt s'" "nextevt s' \<le> 21" "distinct ?ys"
    using p(5,6) D(2,6-8) by auto
  ultimately have "timers_ok s' ?ys" using p(1) unfolding timers_ok_def by blast
  moreover have "tcpTimerPurge t ty s = Some (r, s')" using r(1) by (simp add: tcpTimerPurge_def evt_at_def)
  ultimately show ?thesis using p(2) r(3) by (auto simp: m_def)
qed

text \<open>Two matching events side by side: the loop takes the removed event as the predecessor of the next one.\<close>

lemma purge_skip:
  assumes "evq (evtab s) (enext (evtab s h)) (a @ b)" "\<forall>x\<in>set a. 1 \<le> x \<and> x \<le> 21 \<and> \<not> evt_match t ty (evtab s x)"
  shows "purge_loop t ty h (enext (evtab s h)) result s = purge_loop t ty (last (h # a)) (enext (evtab s (last (h # a)))) result s"
  using assms
proof (induction a arbitrary: h)
  case (Cons x a)
  then have "purge_loop t ty h (enext (evtab s h)) result s = purge_loop t ty x (enext (evtab s x)) result s"
    by (subst purge_loop.simps) (simp add: evt_at_def)
  then show ?case using Cons by simp
qed simp

lemma evq_suffix: "evq tab (enext (tab h)) (a @ b) \<Longrightarrow> evq tab (enext (tab (last (h # a)))) b"
  by (induction a arbitrary: h) auto

lemma purge_adjacent:
  assumes ok: "timers_ok s (a @ x # y # b)" and no: "\<forall>z\<in>set (a @ b). \<not> evt_match t ty (evtab s z)"
    and xy: "evt_match t ty (evtab s x)" "evt_match t ty (evtab s y)"
  shows "\<exists>r s'. tcpTimerPurge t ty s = Some (r, s') \<and> evq (evtab s') (enext (evtab s' 0)) (a @ y # b) \<and>
    \<not> eused (evtab s' y) \<and> \<not> eused (evtab s' x)"
proof -
  note D = timers_okD [OF ok]
  define h where "h = last (0 # a)"
  have d: "distinct (0 # a @ x # y # b)" using D(2) timers_ok_0 [OF ok] by simp
  have h: "0 \<le> h" "h < 22" using last_range [of a] D(3) by (auto simp: h_def)
  have hn: "h \<noteq> x" "h \<noteq> y" "h \<notin> set b" using d last_in_set [of "0 # a"] by (auto simp: h_def)
  have nn: "0 \<le> (\<Sum>z\<leftarrow>a. rem_of s z)" "0 \<le> (\<Sum>z\<leftarrow>b. rem_of s z)" "0 \<le> rem_of s x" "0 \<le> rem_of s y" using D(4) by (auto intro!: sum_list_nonneg)
  have q: "evq (evtab s) (enext (evtab s h)) (x # y # b)" using evq_suffix [OF D(1)] by (simp only: h_def)
  obtain u where u: "purge_one h x s = Some u" "enext (evtab u h) = Some y" "enext (evtab u x) = Some y"
    "\<forall>i. i \<noteq> h \<longrightarrow> enext (evtab u i) = enext (evtab s i)" "\<forall>i. rem_of u i = (if i = y then rem_of s i + rem_of s x else rem_of s i)"
    "\<forall>i. eused (evtab u i) \<longleftrightarrow> eused (evtab s i) \<and> i \<noteq> x"
    "\<forall>i. etype (evtab u i) = etype (evtab s i) \<and> etcb (evtab u i) = etcb (evtab s i) \<and> etime (evtab u i) = etime (evtab s i)"
    using purge_one_ok [OF q _ h] d hn D(3-5) nn by auto
  have qu: "evq (evtab u) (enext (evtab u x)) (y # b)"
  proof -
    have "\<forall>z\<in>set b. enext (evtab u z) = enext (evtab s z)" using u(4) hn(3) by metis
    then show ?thesis using q u(3,4) hn(2) evq_cong [of b "evtab u" "evtab s" "enext (evtab s y)"] by auto
  qed
  have K: "\<forall>z\<in>set b. rem_of u z = rem_of s z" "rem_of u y = rem_of s y + rem_of s x" using u(5) d by auto
  have Su: "(\<Sum>z\<leftarrow>b. rem_of u z) = (\<Sum>z\<leftarrow>b. rem_of s z)" using K(1) by (auto intro!: arg_cong [where f = sum_list])
  obtain v where v: "purge_one x y u = Some v" "enext (evtab v y) = first_of b" "\<forall>i. i \<noteq> x \<longrightarrow> enext (evtab v i) = enext (evtab u i)"
    "\<forall>i. eused (evtab v i) \<longleftrightarrow> eused (evtab u i) \<and> i \<noteq> y"
    "\<forall>i. etype (evtab v i) = etype (evtab u i) \<and> etcb (evtab v i) = etcb (evtab u i) \<and> etime (evtab v i) = etime (evtab u i)"
    using purge_one_ok [OF qu] d D(3-5) nn K Su by auto
  have nf: "\<forall>z\<in>set b. 1 \<le> z \<and> z \<le> 21 \<and> \<not> evt_match t ty (evtab v z)" using no D(3) u(7) v(5) by (auto simp: evt_match_def)
  have qs: "evq (evtab s) (enext (evtab s y)) b" using q by simp
  have qv: "evq (evtab v) (enext (evtab v y)) b"
  proof -
    have "x \<notin> set b" "x \<noteq> y" using d by auto
    then have "\<forall>z\<in>set b. enext (evtab v z) = enext (evtab s z)" "enext (evtab v y) = enext (evtab s y)"
      using u(4) v(3) hn(2,3) by metis+
    then show ?thesis using qs evq_cong [of b "evtab v" "evtab s" "enext (evtab s y)"] by simp
  qed
  have ints: "c_int (etime (evtab s x) - rem_of s x) = Some (etime (evtab s x) - rem_of s x)"
    "c_int (etime (evtab s y) - rem_of u y) = Some (etime (evtab s y) - rem_of u y)"
    using D(5,8) nn K by (auto intro!: c_int_Some)
  define r1 where "r1 = etime (evtab s x) - rem_of s x"
  define r2 where "r2 = (if r1 = SYSERR then etime (evtab s y) - rem_of u y else r1)"
  have "purge_loop t ty 0 (enext (evtab s 0)) SYSERR s = purge_loop t ty h (enext (evtab s h)) SYSERR s"
    using purge_skip [OF D(1)] D(3) no by (auto simp: h_def)
  also have "\<dots> = purge_loop t ty x (Some y) r1 u"
    using q xy(1) D(3) ints(1) u(1,3) by (subst purge_loop.simps) (simp add: evt_at_def r1_def)
  also have "\<dots> = purge_loop t ty y (enext (evtab v y)) r2 v"
    using xy(2) D(3) ints(2) u(7) v(1) by (subst purge_loop.simps) (simp add: evt_at_def r2_def evt_match_def)
  also have "\<dots> = purge_loop t ty (last (y # b)) (enext (evtab v (last (y # b)))) r2 v"
    using purge_skip [of v y b "[]" t ty r2] qv nf by simp
  also have "enext (evtab v (last (y # b))) = None" using evq_suffix [of "evtab v" y b "[]"] qv by simp
  finally have run: "tcpTimerPurge t ty s = Some (r2, v)" by (simp add: tcpTimerPurge_def evt_at_def purge_loop.simps)
  have hx: "x \<noteq> 0" "x \<notin> set (a @ y # b)" using d by auto
  let ?tab = "(evtab v)(x := evtab s x)"
  have "evq ?tab (enext (?tab 0)) (a @ y # b)"
    by (rule evq_remove [OF D(1) d]) (use u(2,4) v(3) hn(1) q in \<open>simp_all only: fun_upd_apply h_def [symmetric], auto\<close>)
  moreover have "evq ?tab (enext (evtab v 0)) (a @ y # b) \<longleftrightarrow> evq (evtab v) (enext (evtab v 0)) (a @ y # b)"
    using hx by (intro evq_cong) auto
  ultimately have "evq (evtab v) (enext (evtab v 0)) (a @ y # b)" using hx(1) by simp
  then show ?thesis using run u(6) v(4) by auto
qed

section \<open>Expiry\<close>

text \<open>The loops of the timer thread with handlers that touch no timer.\<close>

abbreviation (input) evt_of :: "timers \<Rightarrow> int \<Rightarrow> tcp_evt \<times> nat" where
  "evt_of s i \<equiv> (etype (evtab s i), etcb (evtab s i))"

definition expired :: "int list \<Rightarrow> int list \<Rightarrow> timers \<Rightarrow> timers \<Rightarrow> bool" where
  \<comment> \<open>the events \<open>zs\<close> have been taken from the front of the queue, \<open>fs\<close> follow\<close>
  "expired zs fs s s' \<longleftrightarrow>
     enext (evtab s' 0) = first_of fs \<and> (\<forall>i. i \<noteq> 0 \<longrightarrow> enext (evtab s' i) = enext (evtab s i)) \<and>
     (\<forall>i. rem_of s' i = rem_of s i) \<and> (\<forall>i. eused (evtab s' i) \<longleftrightarrow> eused (evtab s i) \<and> i \<notin> set zs) \<and>
     (\<forall>i. etype (evtab s' i) = etype (evtab s i) \<and> etcb (evtab s' i) = etcb (evtab s i) \<and> etime (evtab s' i) = etime (evtab s i)) \<and>
     nextevt s' = nextevt s"

lemma expire_due_ok:
  assumes "evq (evtab s) (enext (evtab s 0)) (zs @ fs)" "\<forall>x\<in>set (zs @ fs). 1 \<le> x \<and> x \<le> 21" "distinct (zs @ fs)"
    and "\<forall>z\<in>set zs. rem_of s z \<le> 0" "fs \<noteq> [] \<longrightarrow> 0 < rem_of s (hd fs)"
  shows "\<exists>s'. expire_due (\<lambda>_ s. s) out (enext (evtab s 0)) s = Some (out @ map (evt_of s) zs, s') \<and> expired zs fs s s'"
  using assms
proof (induction zs arbitrary: s out)
  case Nil
  then show ?case
    by (cases fs) (auto simp: expire_due.simps expired_def evt_at_def)
next
  case (Cons z zs)
  define u where "u = s\<lparr>evtab := (evtab s)(z := (evtab s z)\<lparr>eused := False\<rparr>, 0 := (evtab s 0)\<lparr>enext := enext (evtab s z)\<rparr>)\<rparr>"
  have z: "1 \<le> z" "z \<le> 21" "enext (evtab s 0) = Some z" "rem_of s z \<le> 0" "z \<noteq> 0" using Cons.prems by auto
  have u: "enext (evtab u 0) = enext (evtab s z)" "\<forall>i. i \<noteq> 0 \<longrightarrow> enext (evtab u i) = enext (evtab s i)" "\<forall>i. rem_of u i = rem_of s i"
    "\<forall>i. eused (evtab u i) \<longleftrightarrow> eused (evtab s i) \<and> i \<noteq> z" "nextevt u = nextevt s"
    "\<forall>i. etype (evtab u i) = etype (evtab s i) \<and> etcb (evtab u i) = etcb (evtab s i) \<and> etime (evtab u i) = etime (evtab s i)"
    using z(5) by (auto simp: u_def)
  have n0: "0 \<notin> set (zs @ fs)" using range_0 [of "zs @ fs"] Cons.prems(2) by simp
  have "evq (evtab u) (enext (evtab s z)) (zs @ fs) \<longleftrightarrow> evq (evtab s) (enext (evtab s z)) (zs @ fs)"
    using u(2) n0 by (intro evq_cong) metis
  then have q: "evq (evtab u) (enext (evtab u 0)) (zs @ fs)" using Cons.prems(1) u(1) by simp
  obtain s' where s': "expire_due (\<lambda>_ s. s) (out @ [evt_of s z]) (enext (evtab u 0)) u = Some ((out @ [evt_of s z]) @ map (evt_of u) zs, s')"
      "expired zs fs u s'"
    using Cons.IH [OF q, of "out @ [evt_of s z]"] Cons.prems(2-5) u(3) by auto
  have "expire_due (\<lambda>_ s. s) out (enext (evtab s 0)) s = expire_due (\<lambda>_ s. s) (out @ [evt_of s z]) (enext (evtab u 0)) u"
    using z by (subst expire_due.simps) (simp add: evt_at_def upd_evt_def u_def Let_def)
  moreover have "expired (z # zs) fs s s'" using s'(2) u by (auto simp: expired_def)
  ultimately show ?case using s'(1) u(6) by auto
qed

lemma split_zeros:
  "\<forall>x\<in>set xs. 0 \<le> (K x :: int) \<Longrightarrow> \<exists>zs gs. xs = zs @ gs \<and> (\<forall>z\<in>set zs. K z = 0) \<and> (gs \<noteq> [] \<longrightarrow> 0 < K (hd gs))"
proof (induction xs)
  case (Cons x xs)
  show ?case
  proof (cases "K x = 0")
    case True
    then obtain zs gs where "xs = zs @ gs" "\<forall>z\<in>set zs. K z = 0" "gs \<noteq> [] \<longrightarrow> 0 < K (hd gs)" using Cons by auto
    then show ?thesis using True by (intro exI [of _ "x # zs"] exI [of _ gs]) simp
  next
    case False
    then show ?thesis using Cons.prems by (intro exI [of _ "[]"] exI [of _ "x # xs"]) auto
  qed
qed simp

lemma due_zeros: "\<forall>z\<in>set zs. K z = 0 \<Longrightarrow> due K a zs = map (\<lambda>z. (z, a)) zs"
  by (induction zs arbitrary: a) auto

lemma due_front:
  assumes "\<forall>z\<in>set zs. K z = 0"
  shows "due K 0 (f # zs @ gs) = map (\<lambda>z. (z, K f)) (f # zs) @ map (\<lambda>(i, w). (i, w + K f)) (due K 0 gs)"
proof -
  have "(\<Sum>z\<leftarrow>zs. K z) = 0" using assms by (induction zs) auto
  then show ?thesis using due_shift [of K 0 "K f" gs] by (simp add: due_append due_zeros [OF assms])
qed

lemma due_later:
  assumes "e < K f" "\<forall>x\<in>set fs. 0 \<le> K x"
  shows "filter (\<lambda>(i, w). w \<le> e) (due K 0 (f # fs)) = []" "filter (\<lambda>(i, w). e < w) (due K 0 (f # fs)) = due K 0 (f # fs)"
  using assms due_lower [of fs K _ _ "K f"] by (force simp: filter_empty_conv filter_id_conv)+

lemma due_first_less:
  assumes "f \<notin> set fs"
  shows "due (K(f := K f - e)) 0 (f # fs) = map (\<lambda>(i, w). (i, w - e)) (due K 0 (f # fs))"
proof -
  have "due (K(f := K f - e)) (K f - e) fs = due K (K f - e) fs" using assms by (intro due_cong) auto
  then show ?thesis using due_shift [of K "K f" "- e" fs] by simp
qed

lemma to_u32_less: "0 \<le> r \<Longrightarrow> r \<le> INT_MAX \<Longrightarrow> e < to_u32 r \<longleftrightarrow> uint e < r"
  using uint_to_u32 [of r] by (simp add: word_less_def)

lemma expire_sub:
  assumes "uint e < r" "r \<le> INT_MAX"
  shows "to_int (to_u32 r - e) = r - uint e"
proof -
  have "0 \<le> uint e" by simp
  then have a: "uint (to_u32 r) = r" using assms by (intro uint_to_u32) linarith+
  then have "uint (to_u32 r - e) = r - uint e" using assms(1) by (subst uint_sub_if') simp
  then show ?thesis using assms(2) \<open>0 \<le> uint e\<close> to_int_small [of "to_u32 r - e"] by linarith
qed

lemma expire_loop_ok:
  assumes "evq (evtab s) (enext (evtab s 0)) xs" "\<forall>x\<in>set xs. 1 \<le> x \<and> x \<le> 21 \<and> 0 \<le> rem_of s x \<and> rem_of s x \<le> INT_MAX" "distinct xs"
    and "e \<noteq> 0 \<or> (xs \<noteq> [] \<longrightarrow> 0 < rem_of s (hd xs))" "uint e \<le> INT_MAX"
  shows "\<exists>e' s' zs fs. xs = zs @ fs \<and> expire_loop (\<lambda>_ s. s) out e s = Some (out @ map (evt_of s) zs, e', s') \<and>
    evq (evtab s') (enext (evtab s' 0)) fs \<and> due (rem_of s) 0 zs = filter (\<lambda>(i, w). w \<le> uint e) (due (rem_of s) 0 xs) \<and>
    due (rem_of s') 0 fs = map (\<lambda>(i, w). (i, w - uint e)) (filter (\<lambda>(i, w). uint e < w) (due (rem_of s) 0 xs)) \<and>
    (\<forall>x\<in>set fs. 0 \<le> rem_of s' x) \<and>
    (\<forall>i. eused (evtab s' i) \<longleftrightarrow> eused (evtab s i) \<and> i \<notin> set zs) \<and>
    (\<forall>i. etype (evtab s' i) = etype (evtab s i) \<and> etcb (evtab s' i) = etcb (evtab s i) \<and> etime (evtab s' i) = etime (evtab s i)) \<and>
    nextevt s' = nextevt s"
  using assms
proof (induction "length xs" arbitrary: xs out e s rule: less_induct)
  case less
  show ?case
  proof (cases xs)
    case Nil
    then show ?thesis using less.prems(1) by (auto simp: expire_loop.simps)
  next
    case (Cons f fs)
    have f: "enext (evtab s 0) = Some f" "1 \<le> f" "f \<le> 21" "0 \<le> rem_of s f" "rem_of s f \<le> INT_MAX" "\<forall>x\<in>set fs. 0 \<le> rem_of s x"
      using less.prems(1,2) Cons by auto
    consider "e = 0" | "e \<noteq> 0" "uint e < rem_of s f" | "e \<noteq> 0" "rem_of s f \<le> uint e" by linarith
    then show ?thesis
    proof cases
      case 1
      then have "uint e < rem_of s f" using less.prems(4) Cons by simp
      then show ?thesis
        using due_later [OF _ f(6)] 1 less.prems f(1) Cons
        by (intro exI [of _ e] exI [of _ s] exI [of _ "[]"] exI [of _ xs]) (simp add: expire_loop.simps)
    next
      case 2
      let ?s = "s\<lparr>evtab := (evtab s)(f := (evtab s f)\<lparr>eremain := rem_of s f - uint e\<rparr>)\<rparr>"
      have "expire_loop (\<lambda>_ s. s) out e s = Some (out, e, ?s)"
        using f 2 expire_sub [OF _ f(5)] by (subst expire_loop.simps) (simp add: evt_at_def upd_evt_def to_u32_less fun_upd_def)
      moreover have "evq (evtab ?s) (enext (evtab s 0)) xs \<longleftrightarrow> evq (evtab s) (enext (evtab s 0)) xs" by (intro evq_cong) auto
      moreover have "due (rem_of ?s) 0 xs = map (\<lambda>(i, w). (i, w - uint e)) (due (rem_of s) 0 xs)"
      proof -
        have K: "rem_of ?s = (rem_of s)(f := rem_of s f - uint e)" by auto
        show ?thesis unfolding K Cons by (rule due_first_less) (use less.prems(3) Cons in simp)
      qed
      ultimately show ?thesis
        using due_later [OF 2(2) f(6)] less.prems(1,2) f Cons 2
        by (intro exI [of _ e] exI [of _ ?s] exI [of _ "[]"] exI [of _ xs]) auto
    next
      case 3
      obtain zs gs where sp: "fs = zs @ gs" "\<forall>z\<in>set zs. rem_of s z = 0" "gs \<noteq> [] \<longrightarrow> 0 < rem_of s (hd gs)"
        using split_zeros [OF f(6)] by blast
      define u where "u = s\<lparr>evtab := (evtab s)(f := (evtab s f)\<lparr>eremain := 0\<rparr>)\<rparr>"
      have u: "\<forall>i. rem_of u i = (if i = f then 0 else rem_of s i)" "\<forall>i. enext (evtab u i) = enext (evtab s i)"
        "\<forall>i. eused (evtab u i) = eused (evtab s i)" "nextevt u = nextevt s"
        "\<forall>i. etype (evtab u i) = etype (evtab s i) \<and> etcb (evtab u i) = etcb (evtab s i) \<and> etime (evtab u i) = etime (evtab s i)"
        by (auto simp: u_def)
      have nf: "f \<notin> set zs" "f \<notin> set gs" "0 \<notin> set gs" "distinct gs" "\<forall>x\<in>set ((f # zs) @ gs). 1 \<le> x \<and> x \<le> 21"
        using less.prems(2,3) Cons sp(1) range_0 [of gs] by auto
      have "evq (evtab u) (enext (evtab u 0)) ((f # zs) @ gs)"
        using less.prems(1) Cons sp(1) u(2) evq_cong [of "zs @ gs" "evtab u" "evtab s" "enext (evtab s f)"] by simp
      moreover have "gs \<noteq> [] \<longrightarrow> 0 < rem_of u (hd gs)" using sp(3) nf(2) u(1) hd_in_set by metis
      moreover have "\<forall>z\<in>set (f # zs). rem_of u z \<le> 0" using u(1) sp(2) by auto
      moreover have "distinct ((f # zs) @ gs)" using less.prems(3) Cons sp(1) by simp
      ultimately obtain v where v: "expire_due (\<lambda>_ s. s) out (enext (evtab u 0)) u = Some (out @ map (evt_of u) (f # zs), v)"
        "expired (f # zs) gs u v"
        using expire_due_ok [OF _ nf(5), of u out] by blast
      have Kv: "\<forall>x\<in>set gs. rem_of v x = rem_of s x" using v(2) u(1) nf(2) by (auto simp: expired_def)
      have qv: "evq (evtab v) (enext (evtab v 0)) gs"
      proof -
        have "evq (evtab s) (enext (evtab s (last (f # zs)))) gs"
          using evq_suffix [of "evtab s" f zs gs] less.prems(1) Cons sp(1) by simp
        moreover have "evq (evtab v) (first_of gs) gs \<longleftrightarrow> evq (evtab s) (first_of gs) gs"
          using v(2) u(2) nf(3) by (intro evq_cong) (metis expired_def)
        ultimately show ?thesis using v(2) evq_head by (fastforce simp: expired_def)
      qed
      define e1 where "e1 = e - to_u32 (rem_of s f)"
      have e1: "uint e1 = uint e - rem_of s f" unfolding e1_def using uint_to_u32 [of "rem_of s f"] f(4,5) 3(2) by (subst uint_sub_if') simp
      obtain e' s' ys ws where s': "gs = ys @ ws"
        "expire_loop (\<lambda>_ s. s) (out @ map (evt_of s) (f # zs)) e1 v = Some ((out @ map (evt_of s) (f # zs)) @ map (evt_of v) ys, e', s')"
        "evq (evtab s') (enext (evtab s' 0)) ws" "due (rem_of v) 0 ys = filter (\<lambda>(i, w). w \<le> uint e1) (due (rem_of v) 0 gs)"
        "due (rem_of s') 0 ws = map (\<lambda>(i, w). (i, w - uint e1)) (filter (\<lambda>(i, w). uint e1 < w) (due (rem_of v) 0 gs))"
        "\<forall>x\<in>set ws. 0 \<le> rem_of s' x" "\<forall>i. eused (evtab s' i) \<longleftrightarrow> eused (evtab v i) \<and> i \<notin> set ys"
        "\<forall>i. etype (evtab s' i) = etype (evtab v i) \<and> etcb (evtab s' i) = etcb (evtab v i) \<and> etime (evtab s' i) = etime (evtab v i)"
        "nextevt s' = nextevt v"
        using less.hyps [of gs v e1 "out @ map (evt_of s) (f # zs)"] less.prems(2,5) Cons sp qv Kv nf(4) e1 f(4) by fastforce
      have dv: "due (rem_of v) 0 gs = due (rem_of s) 0 gs" "due (rem_of v) 0 ys = due (rem_of s) 0 ys"
        using Kv s'(1) by (auto intro!: due_cong)
      show ?thesis
      proof (intro exI conjI)
        show "xs = (f # zs @ ys) @ ws" using Cons sp(1) s'(1) by simp
        have "expire_loop (\<lambda>_ s. s) out e s = expire_loop (\<lambda>_ s. s) (out @ map (evt_of s) (f # zs)) e1 v"
          using f(1-5) 3 v(1) u(2,5) by (subst expire_loop.simps) (simp add: evt_at_def upd_evt_def to_u32_less not_less flip: u_def e1_def)
        then show "expire_loop (\<lambda>_ s. s) out e s = Some (out @ map (evt_of s) (f # zs @ ys), e', s')"
          using s'(2) v(2) u(5) by (simp add: expired_def)
        show "due (rem_of s) 0 (f # zs @ ys) = filter (\<lambda>(i, w). w \<le> uint e) (due (rem_of s) 0 xs)"
          unfolding Cons sp(1) due_front [OF sp(2)] using s'(4) dv e1 3(2)
          by (simp add: filter_map comp_def case_prod_unfold algebra_simps)
        show "due (rem_of s') 0 ws = map (\<lambda>(i, w). (i, w - uint e)) (filter (\<lambda>(i, w). uint e < w) (due (rem_of s) 0 xs))"
          unfolding Cons sp(1) due_front [OF sp(2)] using s'(5) dv e1 3(2)
          by (simp add: filter_map comp_def case_prod_unfold algebra_simps)
      qed (use s' v(2) u in \<open>auto simp: expired_def\<close>)
    qed
  qed
qed

lemma expire_ok:
  assumes ok: "timers_ok s xs" and e: "e \<noteq> 0" "uint e \<le> INT_MAX"
  shows "\<exists>e' s' zs fs. xs = zs @ fs \<and> expire_loop (\<lambda>_ s. s) [] e s = Some (map (evt_of s) zs, e', s') \<and> timers_ok s' fs \<and>
    due (rem_of s) 0 zs = filter (\<lambda>(i, w). w \<le> uint e) (due (rem_of s) 0 xs) \<and>
    due (rem_of s') 0 fs = map (\<lambda>(i, w). (i, w - uint e)) (filter (\<lambda>(i, w). uint e < w) (due (rem_of s) 0 xs))"
proof -
  have t: "evq (evtab s) (enext (evtab s 0)) xs" "distinct xs" "set xs = {i. 1 \<le> i \<and> i \<le> 21 \<and> eused (evtab s i)}" "\<forall>x\<in>set xs. 0 \<le> rem_of s x"
    "\<forall>x\<in>set xs. 0 \<le> etime (evtab s x) \<and> etime (evtab s x) \<le> INT_MAX" "(\<Sum>x\<leftarrow>xs. rem_of s x) \<le> INT_MAX" "0 \<le> nextevt s" "nextevt s \<le> 21"
    using ok by (auto simp: timers_ok_def)
  have le: "\<forall>x\<in>set xs. 1 \<le> x \<and> x \<le> 21 \<and> 0 \<le> rem_of s x \<and> rem_of s x \<le> INT_MAX"
  proof
    fix x assume x: "x \<in> set xs"
    then have "rem_of s x \<le> (\<Sum>x\<leftarrow>xs. rem_of s x)" using t(4) by (intro member_le_sum_list) auto
    then show "1 \<le> x \<and> x \<le> 21 \<and> 0 \<le> rem_of s x \<and> rem_of s x \<le> INT_MAX" using x t(3,4,6) by auto
  qed
  obtain e' s' zs fs where s': "xs = zs @ fs" "expire_loop (\<lambda>_ s. s) [] e s = Some ([] @ map (evt_of s) zs, e', s')"
    "evq (evtab s') (enext (evtab s' 0)) fs" "due (rem_of s) 0 zs = filter (\<lambda>(i, w). w \<le> uint e) (due (rem_of s) 0 xs)"
    "due (rem_of s') 0 fs = map (\<lambda>(i, w). (i, w - uint e)) (filter (\<lambda>(i, w). uint e < w) (due (rem_of s) 0 xs))"
    "\<forall>x\<in>set fs. 0 \<le> rem_of s' x" "\<forall>i. eused (evtab s' i) \<longleftrightarrow> eused (evtab s i) \<and> i \<notin> set zs"
    "\<forall>i. etype (evtab s' i) = etype (evtab s i) \<and> etcb (evtab s' i) = etcb (evtab s i) \<and> etime (evtab s' i) = etime (evtab s i)"
    "nextevt s' = nextevt s"
    using expire_loop_ok [OF t(1) le t(2), of e "[]"] e by blast
  have sum: "(\<Sum>x\<leftarrow>fs. rem_of s' x) \<le> INT_MAX"
  proof (cases "fs = []")
    case False
    have "last (due (rem_of s') 0 fs) \<in> set (due (rem_of s') 0 fs)" using False by (intro last_in_set) (cases fs, auto)
    then obtain i w where "(i, w) \<in> set (due (rem_of s) 0 xs)" "snd (last (due (rem_of s') 0 fs)) = w - uint e" unfolding s'(5) by auto
    moreover have "w \<le> (\<Sum>x\<leftarrow>xs. rem_of s x)" if "(i, w) \<in> set (due (rem_of s) 0 xs)" for i w
      using due_upper [of xs "rem_of s" "(i, w)" 0] that t(4) by simp
    ultimately show ?thesis using due_last [OF False, of "rem_of s'" 0] t(6) uint_lt2p [of e] by (smt (verit) unsigned_greater_eq)
  qed simp
  have "timers_ok s' fs" using s' sum t by (auto simp: timers_ok_def)
  then show ?thesis using s' by auto
qed

end
