(* ===== verification/Tcp_Props.thy ===== *)
theory Tcp_Props
  imports Tcp_Transfer Tcp_States Tcp_Table Tcp_Timer
begin

text \<open>
  The properties of the TCP device, with their witnesses.
\<close>

section \<open>The byte stream\<close>

definition est_tcb :: tcb where
  \<comment> \<open>an established connection with empty buffers, for the witnesses\<close>
  "est_tcb = tcb0\<lparr>tcpstate := TCP_ESTAB, sndmss := 536, sndwnd := 8000, snduna := 5000, sndnxt := 5000, rcvnxt := 5000, rcvwnd := 13000,
     rcvmss := 536, sndcwn := 536, sndsst := 65535, rxttime := 500\<rparr>"

abbreviation (input) free_env :: tcp_env where
  \<comment> \<open>every call succeeds\<close>
  "free_env \<equiv> \<lambda>_. 0"

lemma est_rings: "rings_ok est_tcb"
  by (simp add: est_tcb_def tcb0_def rings_ok_def)

lemma est_can_receive: "can_receive est_tcb"
  using est_rings by (simp add: can_receive_def est_tcb_def tcb0_def)

lemma est_idle: "idle_sender est_tcb"
  using est_rings by (simp add: idle_sender_def est_tcb_def tcb0_def low_def window_end_def word_less_nat_alt)

text \<open>
  C2. The TCP data path is a byte stream: when a sender that has nothing outstanding writes \<open>n\<close> bytes that fit into
  the window both ends agree on, the segments that \<^verbatim>\<open>tcpSendData\<close> passes to the network, parsed by the other end and
  given to \<^verbatim>\<open>tcpRecvData\<close> one after the other, let a reader of the other end read exactly these bytes in order, and
  the receiver then expects the byte that the sender will send next.
\<close>

theorem tcp_transfer:
  assumes "idle_sender t" "can_receive r" "icount r = 0" "sndnxt t = rcvnxt r"
    and "unat len = n" "0 < n" "n \<le> length buf" "n \<le> 16384" "n \<le> unat (sndwnd t)" "n \<le> unat (rcvwnd r) - unat (rcvnxt r)"
    and "\<forall>cs. env (cs @ [Getbuf]) \<noteq> SYSERR"
  shows "\<exists>t1 t2 cs r1 r2. write_ring buf len 0 t = Some (len, t1) \<and> tcpSendData env t1 = Some (int n, t2) \<and>
    calls t2 = calls t @ cs \<and> receive_all env ck (segs cs) r = Some r1 \<and>
    (\<forall>s\<in>set (segs cs). tcp_host (wire (ck s) s) (20 + of_nat (length (sgdata s))) = Some (arrived (ck s) s)) \<and>
    read_ring len 0 [] r1 = Some (len, take n buf, r2) \<and> icount r2 = 0 \<and> rcvnxt r2 = sndnxt t2"
  using transfer_ok [OF assms, of ck] tcp_host_wire by blast

theorem tcp_transfer_witness:
  "\<exists>t1 t2 cs r1 r2. write_ring (replicate 2000 7) 2000 0 est_tcb = Some (2000, t1) \<and> tcpSendData free_env t1 = Some (int 2000, t2) \<and>
    calls t2 = calls est_tcb @ cs \<and> receive_all free_env (\<lambda>_. 0) (segs cs) est_tcb = Some r1 \<and>
    (\<forall>s\<in>set (segs cs). tcp_host (wire 0 s) (20 + of_nat (length (sgdata s))) = Some (arrived 0 s)) \<and>
    read_ring 2000 0 [] r1 = Some (2000, take 2000 (replicate 2000 7), r2) \<and> icount r2 = 0 \<and> rcvnxt r2 = sndnxt t2"
  by (rule tcp_transfer [OF est_idle est_can_receive]) (simp_all add: est_tcb_def tcb0_def)




definition sent_tcb :: tcb where
  \<comment> \<open>three bytes and a SYN are outstanding\<close>
  "sent_tcb = est_tcb\<lparr>iss := 4000, snduna := 4000, sndnxt := 4004, sndflg := TCP_FLG_SYN, ocount := 3, obuf := (\<lambda>i. of_nat i),
     sndwl1 := 4990, sndwl2 := 4000\<rparr>"


section \<open>Connections\<close>


definition syn_pkt :: tcpPkt where
  "syn_pkt = arrived 0 \<lparr>sgsrcpt = 80, sgdstpt = 2000, sgseq = 100, sgack = 0, sghlen = 20, sgctrl = TCP_CTRL_SYN, sgwindow = 500,
     sgmss = None, sgdata = []\<rparr>"


text \<open>
  C12. No connection ever waits in \<^verbatim>\<open>TIMEWT\<close>: from a block in any other state, no sequence of arriving segments, resets,
  timer events and device calls leads there.  Segments of a finished connection that are still under way are
  therefore answered by whatever uses the port next.
\<close>

theorem tcp_no_timewait:
  assumes "tcp_step\<^sup>*\<^sup>* t t'" "tcpstate t \<noteq> TCP_TIMEWT"
  shows "tcpstate t' \<noteq> TCP_TIMEWT"
  by (rule tcp_steps_timewt [OF assms])

theorem tcp_no_timewait_witness:
  "\<exists>t'. tcp_step\<^sup>*\<^sup>* tcb0 t' \<and> tcpstate t' = TCP_SYNRECV \<and> tcpstate t' \<noteq> TCP_TIMEWT"
proof -
  have "\<exists>t1. open_tcb free_env 17 no_addr None 2000 0 TCP_PASSIVE 7 tcb0 = Some (OK, t1) \<and> tcpstate t1 = TCP_LISTEN \<and>
      (\<exists>r p' t2. recv_dispatch free_env no_addr syn_pkt t1 = Some ((r, p'), t2) \<and> tcpstate t2 = TCP_SYNRECV)"
    by (simp add: open_tcb_def tcpSetup_def ask_def notify_def Let_def tcb0_def no_addr_def to_u32_def recv_dispatch_def tcpRecvOpts_def
        offset2octets_def syn_pkt_def arrived_def tcpRecvListen_def tcpSendSyn_def tcpSend_def tcpRecvData_def tcpSeglen_def send_pending_def
        set_flg_def clear_flg_def tcpSendWindow_def)
  then obtain t1 r p' t2 where t: "open_tcb free_env 17 no_addr None 2000 0 TCP_PASSIVE 7 tcb0 = Some (OK, t1)" "tcpstate t1 = TCP_LISTEN"
    "recv_dispatch free_env no_addr syn_pkt t1 = Some ((r, p'), t2)" "tcpstate t2 = TCP_SYNRECV" by blast
  have "tcp_step tcb0 t1" using t(1) by (intro open_call) (auto simp: tcb0_def)
  moreover have "tcp_step t1 t2" using t(2) by (intro segment [OF _ t(3)]) simp
  ultimately have s: "tcp_step\<^sup>*\<^sup>* tcb0 t2" by auto
  have "tcpstate tcb0 \<noteq> TCP_TIMEWT" by (simp add: tcb0_def)
  then show ?thesis using tcp_no_timewait [OF s] s t(4) by blast
qed

text \<open>
  C33. \<^verbatim>\<open>tcpDemux\<close> finds the best match: with well-formed addresses it returns the first block with the highest level
  of agreement with the segment (both ends; the port of the remote end; only the local end), and none exactly
  when no block agrees.
\<close>

theorem tcp_demux:
  assumes "\<forall>t\<in>set (tcptab s). wf_addr (localip t) \<and> wf_addr (remoteip t)" "wf_addr dst" "wf_addr src"
  shows "\<exists>r s'. tcpDemux dpt spt dst src s = Some (r, s') \<and> best_match (match_level dpt spt dst src) (tcptab s) r \<and> tcptab s' = tcptab s"
  by (rule tcpDemux_ok [OF assms])

theorem tcp_demux_witness:
  "\<exists>r s'. tcpDemux 2000 80 no_addr no_addr \<lparr>tcptab = [tcb0, tcb0\<lparr>tcpstate := TCP_LISTEN, localpt := 2000\<rparr>], tcptrace = [], nextseq = 0, nextport = 0\<rparr> =
      Some (r, s') \<and> r = Some 1"
proof -
  let ?t = "tcb0\<lparr>tcpstate := TCP_LISTEN, localpt := 2000\<rparr>"
  let ?s = "\<lparr>tcptab = [tcb0, ?t], tcptrace = [], nextseq = 0, nextport = 0\<rparr>"
  have w: "wf_addr no_addr" by (simp add: wf_addr_def no_addr_def)
  have f: "localip tcb0 = no_addr" "remoteip tcb0 = no_addr" by (simp_all add: tcb0_def)
  obtain r s' where r: "tcpDemux 2000 80 no_addr no_addr ?s = Some (r, s')" "best_match (match_level 2000 80 no_addr no_addr) [tcb0, ?t] r"
    using tcp_demux [of ?s no_addr no_addr 2000 80] w f by auto
  have "match_level 2000 80 no_addr no_addr tcb0 = 0" "match_level 2000 80 no_addr no_addr ?t = 1"
    by (simp_all add: match_level_def tcb0_def addr_eq_def same_kind_def no_addr_def)
  then have "r = Some 1" using r(2) by (cases r) (auto simp: best_match_def less_Suc_eq)
  then show ?thesis using r(1) by blast
qed

text \<open>
  \<^verbatim>\<open>allocPort\<close> terminates: its loop restarts with another port whenever a block has the one it tries, yet for a table
  of fewer than 55000 blocks it returns a port from 10000 to 64999 that no open block has, the first one of the
  table excepted, which the restarted scan passes over.
\<close>

theorem tcp_port_terminates:
  assumes "length (tcptab s) < 55000"
  shows "\<exists>p s'. allocPort s = Some (p, s') \<and> 10000 \<le> unat p \<and> unat p < 65000 \<and>
    (\<forall>i. 1 \<le> i \<and> i < length (tcptab s) \<and> tcpstate (tcptab s ! i) \<noteq> TCP_CLOSED \<longrightarrow> localpt (tcptab s ! i) \<noteq> p) \<and> tcptab s' = tcptab s"
  by (rule allocPort_ok [OF assms])

theorem tcp_port_terminates_witness:
  "\<exists>p s'. allocPort \<lparr>tcptab = [tcb0, est_tcb\<lparr>localpt := 10001\<rparr>], tcptrace = [], nextseq = 0, nextport = 0\<rparr> = Some (p, s') \<and>
    10000 \<le> unat p \<and> unat p < 65000 \<and> p \<noteq> 10001"
proof -
  let ?s = "\<lparr>tcptab = [tcb0, est_tcb\<lparr>localpt := 10001\<rparr>], tcptrace = [], nextseq = 0, nextport = 0\<rparr>"
  obtain p s' where p: "allocPort ?s = Some (p, s')" "10000 \<le> unat p" "unat p < 65000"
    "\<forall>i. 1 \<le> i \<and> i < length (tcptab ?s) \<and> tcpstate (tcptab ?s ! i) \<noteq> TCP_CLOSED \<longrightarrow> localpt (tcptab ?s ! i) \<noteq> p"
    using tcp_port_terminates [of ?s] by auto
  have "p \<noteq> 10001" using p(4) [rule_format, of 1] by (simp add: est_tcb_def)
  then show ?thesis using p(1-3) by blast
qed

text \<open>
  The option that announces the maximum segment size is read in the wrong byte order: its value arrives with the high
  byte first, and \<^verbatim>\<open>tcpRecvOpts\<close> takes the first byte as the low one.
\<close>

theorem tcp_mss_swapped:
  assumes "offset p = 0x60" "length h = 20" "tbytes p = h @ [TCP_OPT_MSS, 4, hi, lo, x] @ rest"
  shows "tcpRecvOpts p t = Some (t\<lparr>sndmss := ucast hi + push_bit 8 (ucast lo) - 20\<rparr>)"
proof -
  let ?d = "h @ [TCP_OPT_MSS, 4, hi, lo, x] @ rest"
  have rd: "rd ?d 20 = Some TCP_OPT_MSS" "rd ?d 22 = Some hi" "rd ?d 23 = Some lo" "rd ?d 24 = Some x"
    using assms(2) by (simp_all add: rd_def nth_append)
  have e: "offset2octets (offset p) = 24" using assms(1) by (simp add: offset2octets_def)
  have "opts_loop ?d 24 24 u = Some u" for u using rd(4) by (subst opts_loop.simps) simp
  then have "opts_loop ?d 20 24 t = Some (t\<lparr>sndmss := ucast hi + push_bit 8 (ucast lo) - 20\<rparr>)"
    using rd by (subst opts_loop.simps) simp
  then show ?thesis using e assms(3) by (simp add: tcpRecvOpts_def)
qed

theorem tcp_mss_swapped_witness:
  "\<exists>p. offset p = 0x60 \<and> tbytes p = replicate 20 0 @ [TCP_OPT_MSS, 4, 0x05, 0xb4, 0] \<and> map_option sndmss (tcpRecvOpts p tcb0) = Some 46065"
proof -
  let ?p = "syn_pkt\<lparr>offset := 0x60, tbytes := replicate 20 0 @ [TCP_OPT_MSS, 4, 0x05, 0xb4, 0]\<rparr>"
  have "tcpRecvOpts ?p tcb0 = Some (tcb0\<lparr>sndmss := ucast (0x05::u8) + push_bit 8 (ucast (0xb4::u8)) - 20\<rparr>)"
    by (rule tcp_mss_swapped [where h = "replicate 20 0" and rest = "[]" and x = 0]) simp_all
  then show ?thesis by (intro exI [of _ ?p]) (simp add: push_bit_eq_mult)
qed

section \<open>Timers\<close>

definition two_timers :: timers where
  \<comment> \<open>two retransmissions of the connection 4, due after 50 and after 80 ticks\<close>
  "two_timers = \<lparr>evtab = (\<lambda>i. if i = 0 then \<lparr>eused = False, etime = 0, eremain = 0, etype = EVT_ALL, etcb = 0, enext = Some 2\<rparr>
       else if i = 2 then \<lparr>eused = True, etime = 50, eremain = 50, etype = EVT_RXT, etcb = 4, enext = Some 4\<rparr>
       else if i = 4 then \<lparr>eused = True, etime = 90, eremain = 30, etype = EVT_RXT, etcb = 4, enext = None\<rparr>
       else \<lparr>eused = False, etime = 0, eremain = 0, etype = EVT_ALL, etcb = 0, enext = None\<rparr>), nextevt = 4\<rparr>"

lemma two_timers_ok: "timers_ok two_timers [2, 4]"
  by (auto simp: timers_ok_def two_timers_def)

text \<open>
  C16. Scheduling on the delta queue equals insertion by absolute time: with a free event, \<^verbatim>\<open>tcpTimerSched\<close> takes one that is
  not in use, the due times become the old ones with the new one inserted behind those that are not later,
  and no other event's owner or type changes.
\<close>

theorem timer_schedule:
  assumes "timers_ok s xs" "0 \<le> time" "time \<le> INT_MAX" "length xs < 21"
  shows "\<exists>s' i ys. tcpTimerSched time (Some t) ty s = Some (OK, s') \<and> timers_ok s' ys \<and> i \<notin> set xs \<and>
    due (rem_of s') 0 ys = ins_time i time (due (rem_of s) 0 xs) \<and> etype (evtab s' i) = ty \<and> etcb (evtab s' i) = t \<and>
    (\<forall>x\<in>set xs. etype (evtab s' x) = etype (evtab s x) \<and> etcb (evtab s' x) = etcb (evtab s x))"
  by (rule tcpTimerSched_ok [OF assms])

theorem timer_schedule_witness:
  "\<exists>s' i ys. tcpTimerSched 60 (Some 7) EVT_PERSIST two_timers = Some (OK, s') \<and> timers_ok s' ys \<and>
    due (rem_of s') 0 ys = [(2, 50), (i, 60), (4, 80)]"
proof -
  have d: "due (rem_of two_timers) 0 [2, 4] = [(2, 50), (4, 80)]" by (simp add: two_timers_def)
  show ?thesis using timer_schedule [OF two_timers_ok, of 60 7 EVT_PERSIST] unfolding d by auto
qed



text \<open>
  C34. \<^verbatim>\<open>tcpTimerPurge\<close> fails on neighbours: of two matching events that are adjacent in the queue, the second one is
  marked free but stays linked, so that it still fires and its slot can be taken while it is queued.
\<close>

theorem timer_purge_neighbours:
  assumes "timers_ok s (a @ x # y # b)" "\<forall>z\<in>set (a @ b). \<not> evt_match t ty (evtab s z)"
    and "evt_match t ty (evtab s x)" "evt_match t ty (evtab s y)"
  shows "\<exists>r s'. tcpTimerPurge t ty s = Some (r, s') \<and> evq (evtab s') (enext (evtab s' 0)) (a @ y # b) \<and>
    \<not> eused (evtab s' y) \<and> \<not> eused (evtab s' x)"
  by (rule purge_adjacent [OF assms])

theorem timer_purge_neighbours_witness:
  "\<exists>r s'. tcpTimerPurge 4 EVT_RXT two_timers = Some (r, s') \<and> evq (evtab s') (enext (evtab s' 0)) [4] \<and> \<not> eused (evtab s' 4)"
proof -
  have "timers_ok two_timers ([] @ 2 # 4 # [])" using two_timers_ok by simp
  then show ?thesis
    using timer_purge_neighbours [of two_timers "[]" 2 4 "[]" 4 EVT_RXT] by (auto simp: two_timers_def evt_match_def)
qed

end
