(* ===== verification/Loopback.thy ===== *)
theory Loopback
  imports Semaphore Fifo
begin

text \<open>
  The loopback device, \<^verbatim>\<open>device/loopback/*.c\<close>: what is written to it can be read from it.  The number of
  bytes in the buffer is the count of the device's semaphore, on which readers wait.  The device table is
  part of the kernel state; a device call that waits returns \<open>None\<close>, and continues with the function's
  \<open>_take\<close> part when the thread runs again.
\<close>

section \<open>Operations\<close>

abbreviation (input) LOOP_BUFFER :: nat where "LOOP_BUFFER \<equiv> 1024"
abbreviation (input) LOOP_NONBLOCK :: u32 where "LOOP_NONBLOCK \<equiv> 1"
abbreviation (input) EOF :: int where "EOF \<equiv> -2"

datatype loopstate = LOOP_STATE_FREE | LOOP_STATE_ALLOC

record loopback =
  lbstate :: loopstate
  lbindex :: int
  lbflags :: u32
  lbsem :: u32
  lbbuffer :: "u8 list"

record loops = kernel +
  looptab :: "loopback list"

definition lbk :: "nat \<Rightarrow> 'a loops_scheme \<Rightarrow> loopback option" where
  "lbk i s = (if i < length (looptab s) then Some (looptab s ! i) else None)"

definition set_lbk :: "nat \<Rightarrow> loopback \<Rightarrow> 'a loops_scheme \<Rightarrow> 'a loops_scheme" where
  "set_lbk i p s = s\<lparr>looptab := (looptab s)[i := p]\<rparr>"

definition loopbackInit :: "nat \<Rightarrow> 'a loops_scheme \<Rightarrow> (int \<times> 'a loops_scheme) option" where
  "loopbackInit i s = do {
     p \<leftarrow> lbk i s;
     Some (OK, set_lbk i (p\<lparr>lbstate := LOOP_STATE_FREE, lbindex := 0\<rparr>) s) }"

definition loopbackOpen :: "nat \<Rightarrow> 'a loops_scheme \<Rightarrow> (int \<times> 'a loops_scheme) option" where
  "loopbackOpen i s = do {
     p \<leftarrow> lbk i s;
     if lbstate p \<noteq> LOOP_STATE_FREE then Some (SYSERR, s)
     else do {
       (sem, s) \<leftarrow> semcreate 0 s;
       let p = p\<lparr>lbsem := sem\<rparr>;
       if sem = SYSERR_u then Some (SYSERR, set_lbk i p s)
       else Some (OK, set_lbk i (p\<lparr>lbbuffer := replicate LOOP_BUFFER 0, lbflags := 0, lbstate := LOOP_STATE_ALLOC\<rparr>) s) } }"

definition loopbackClose :: "nat \<Rightarrow> 'a loops_scheme \<Rightarrow> (int \<times> 'a loops_scheme) option" where
  "loopbackClose i s = do {
     p \<leftarrow> lbk i s;
     if lbstate p \<noteq> LOOP_STATE_ALLOC then Some (SYSERR, s)
     else do {
       (_, s) \<leftarrow> semfree (lbsem p) s;
       Some (OK, set_lbk i (p\<lparr>lbstate := LOOP_STATE_FREE\<rparr>) s) } }"

definition loopbackControl :: "nat \<Rightarrow> int \<Rightarrow> u32 \<Rightarrow> 'a loops_scheme \<Rightarrow> (int \<times> 'a loops_scheme) option" where
  "loopbackControl i func arg1 s = do {
     p \<leftarrow> lbk i s;
     if lbstate p \<noteq> LOOP_STATE_ALLOC then Some (SYSERR, s)
     else if func = 1 then Some (to_int (lbflags p), set_lbk i (p\<lparr>lbflags := lbflags p OR arg1\<rparr>) s)
     else if func = 2 then Some (to_int (lbflags p AND arg1), set_lbk i (p\<lparr>lbflags := lbflags p AND NOT arg1\<rparr>) s)
     else Some (SYSERR, s) }"

definition c_rem :: "int \<Rightarrow> int \<Rightarrow> int" where
  \<comment> \<open>the remainder of C, for a positive divisor\<close>
  "c_rem a n = (if 0 \<le> a then a mod n else - (- a mod n))"

definition loopbackPutc :: "nat \<Rightarrow> u8 \<Rightarrow> 'a loops_scheme \<Rightarrow> (int \<times> 'a loops_scheme) option" where
  "loopbackPutc i ch s = do {
     p \<leftarrow> lbk i s;
     n \<leftarrow> semcount (lbsem p) s;
     if int LOOP_BUFFER \<le> n then Some (SYSERR, s)
     else do {
       k \<leftarrow> c_int (lbindex p + n);
       let k = c_rem k (int LOOP_BUFFER);
       if 0 \<le> k \<and> nat k < length (lbbuffer p)
       then do {
         (_, s) \<leftarrow> signal (lbsem p) (set_lbk i (p\<lparr>lbbuffer := (lbbuffer p)[nat k := ch]\<rparr>) s);
         Some (uint ch, s) }
       else None } }"

definition loopbackGetc_take :: "nat \<Rightarrow> 'a loops_scheme \<Rightarrow> (int \<times> 'a loops_scheme) option" where
  "loopbackGetc_take i s = do {
     p \<leftarrow> lbk i s;
     if 0 \<le> lbindex p \<and> nat (lbindex p) < length (lbbuffer p)
     then Some (uint (lbbuffer p ! nat (lbindex p)), set_lbk i (p\<lparr>lbindex := c_rem (lbindex p + 1) (int LOOP_BUFFER)\<rparr>) s)
     else None }"

definition loopbackGetc :: "nat \<Rightarrow> 'a loops_scheme \<Rightarrow> (int option \<times> 'a loops_scheme) option" where
  "loopbackGetc i s = do {
     p \<leftarrow> lbk i s;
     n \<leftarrow> (if lbflags p AND LOOP_NONBLOCK = LOOP_NONBLOCK then semcount (lbsem p) s else Some 1);
     if n \<le> 0 then Some (Some EOF, s)
     else do {
       (_, s') \<leftarrow> wait (lbsem p) s;
       if thrcurrent s' = thrcurrent s
       then do { (ch, s') \<leftarrow> loopbackGetc_take i s'; Some (Some ch, s') }
       else Some (None, s') } }"

fun write_bytes :: "nat \<Rightarrow> int \<Rightarrow> u8 list \<Rightarrow> 'a loops_scheme \<Rightarrow> (int \<times> 'a loops_scheme) option" where
  \<comment> \<open>\<open>n\<close> bytes have been written\<close>
  "write_bytes i n [] s = Some (n, s)"
| "write_bytes i n (b # bs) s = do {
     (r, s) \<leftarrow> loopbackPutc i b s;
     if r = SYSERR then Some (if n = 0 then SYSERR else n, s) else write_bytes i (n + 1) bs s }"

definition loopbackWrite :: "nat \<Rightarrow> u8 list \<Rightarrow> 'a loops_scheme \<Rightarrow> (int \<times> 'a loops_scheme) option" where
  "loopbackWrite i bs s = do {
     p \<leftarrow> lbk i s;
     if lbstate p \<noteq> LOOP_STATE_ALLOC then Some (SYSERR, s) else write_bytes i 0 bs s }"

fun read_bytes :: "nat \<Rightarrow> nat \<Rightarrow> 'a loops_scheme \<Rightarrow> (u8 list option \<times> 'a loops_scheme) option" where
  "read_bytes i 0 s = Some (Some [], s)"
| "read_bytes i (Suc n) s = do {
     (r, s) \<leftarrow> loopbackGetc i s;
     case r of
       None \<Rightarrow> Some (None, s)
     | Some ch \<Rightarrow> if ch = EOF then Some (Some [], s)
         else do { (bs, s) \<leftarrow> read_bytes i n s; Some (map_option (Cons (of_int ch)) bs, s) } }"

definition loopbackRead :: "nat \<Rightarrow> nat \<Rightarrow> 'a loops_scheme \<Rightarrow> ((int \<times> u8 list) option \<times> 'a loops_scheme) option" where
  \<comment> \<open>the result and the bytes stored in the caller's buffer\<close>
  "loopbackRead i len s = do {
     p \<leftarrow> lbk i s;
     if lbstate p \<noteq> LOOP_STATE_ALLOC then Some (Some (SYSERR, []), s)
     else do { (bs, s) \<leftarrow> read_bytes i len s; Some (map_option (\<lambda>bs. (int (length bs), bs)) bs, s) } }"

section \<open>The buffer as a queue\<close>

lemma kinv_looptab [simp]: "kinv Q (s\<lparr>looptab := l\<rparr>) = kinv Q s"
proof -
  have "home (s\<lparr>looptab := l\<rparr>) = home s" by (simp add: home_def fun_eq_iff split: thrstate.split)
  then show ?thesis by (simp add: kinv_def kinv0_def config_ok_def inv_defs)
qed

text \<open>An open device nobody waits for holds the bytes \<open>xs\<close>.\<close>

definition lbk_ok :: "'a loops_scheme \<Rightarrow> nat \<Rightarrow> u8 list \<Rightarrow> bool" where
  "lbk_ok s i xs \<longleftrightarrow> i < length (looptab s) \<and> (let p = looptab s ! i in
     lbstate p = LOOP_STATE_ALLOC \<and> length (lbbuffer p) = LOOP_BUFFER \<and> 0 \<le> lbindex p \<and> lbindex p < int LOOP_BUFFER \<and>
     \<not> isbadsem s (lbsem p) \<and> count (semtab s (uint (lbsem p))) = int (length xs) \<and> length xs \<le> LOOP_BUFFER \<and>
     xs = ring_list LOOP_BUFFER ((!) (lbbuffer p)) (nat (lbindex p)) (length xs))"

lemma ring_list_nth_cong:
  "0 < cap \<Longrightarrow> (\<And>k. k < cap \<Longrightarrow> f k = g k) \<Longrightarrow> ring_list cap f start n = ring_list cap g start n"
  by (simp add: ring_list_def)

lemma loopbackPutc_ok:
  assumes k: "kinv Q s" and b: "lbk_ok s i xs" and l: "length xs < LOOP_BUFFER"
  shows "\<exists>s'. loopbackPutc i ch s = Some (uint ch, s') \<and> kinv Q s' \<and> lbk_ok s' i (xs @ [ch])"
proof -
  define p where "p = looptab s ! i"
  define k where "k = (nat (lbindex p) + length xs) mod LOOP_BUFFER"
  have d: "i < length (looptab s)" "lbstate p = LOOP_STATE_ALLOC" "length (lbbuffer p) = LOOP_BUFFER" "0 \<le> lbindex p" "lbindex p < int LOOP_BUFFER"
    "\<not> isbadsem s (lbsem p)" "count (semtab s (uint (lbsem p))) = int (length xs)"
    "xs = ring_list LOOP_BUFFER ((!) (lbbuffer p)) (nat (lbindex p)) (length xs)"
    using b by (simp_all add: lbk_ok_def p_def Let_def)
  have c: "semcount (lbsem p) s = Some (int (length xs))" using d(6,7) by (simp add: semcount_ok)
  have ci: "c_int (lbindex p + int (length xs)) = Some (lbindex p + int (length xs))" using d(4,5) l by (simp add: c_int_Some)
  have kk: "c_rem (lbindex p + int (length xs)) (int LOOP_BUFFER) = int k"
    using d(4) by (simp add: c_rem_def k_def zmod_int)
  have kl: "k < LOOP_BUFFER" by (simp add: k_def)
  define p' where "p' = p\<lparr>lbbuffer := (lbbuffer p)[k := ch]\<rparr>"
  define s1 where "s1 = set_lbk i p' s"
  have k1: "kinv Q s1" "\<not> isbadsem s1 (lbsem p)" "count (semtab s1 (uint (lbsem p))) = int (length xs)"
    using assms(1) d by (simp_all add: s1_def set_lbk_def isbadsem_def)
  define s2 where "s2 = recount (uint (lbsem p)) (int (length xs) + 1) s1"
  have sg: "signal (lbsem p) s1 = Some (OK, s2)" "kinv Q s2"
    using signal_free [OF k1(1,2)] k1(3) l by (simp_all add: s2_def)
  have "loopbackPutc i ch s = Some (uint ch, s2)"
    unfolding loopbackPutc_def lbk_def using d c ci kk kl sg(1) l by (simp add: Let_def p_def [symmetric] s1_def p'_def)
  moreover have "ring_list LOOP_BUFFER ((!) ((lbbuffer p)[k := ch])) (nat (lbindex p)) (Suc (length xs)) = xs @ [ch]"
  proof -
    have "ring_list LOOP_BUFFER ((!) ((lbbuffer p)[k := ch])) (nat (lbindex p)) (Suc (length xs)) =
        ring_list LOOP_BUFFER (((!) (lbbuffer p))(k := ch)) (nat (lbindex p)) (Suc (length xs))"
      by (rule ring_list_nth_cong) (use d(3) kl in \<open>auto simp: nth_list_update\<close>)
    then show ?thesis using ring_list_put [OF l, of "(!) (lbbuffer p)" "nat (lbindex p)" ch] d(8) by (simp add: k_def)
  qed
  then have "lbk_ok s2 i (xs @ [ch])"
    using d l k1 by (simp add: lbk_ok_def s2_def s1_def set_lbk_def p'_def Let_def isbadsem_def)
  ultimately show ?thesis using sg(2) by blast
qed

lemma loopbackGetc_ok:
  assumes k: "kinv Q s" and b: "lbk_ok s i (x # xs)"
  shows "\<exists>s'. loopbackGetc i s = Some (Some (uint x), s') \<and> kinv Q s' \<and> lbk_ok s' i xs"
proof -
  define p where "p = looptab s ! i"
  have d: "i < length (looptab s)" "lbstate p = LOOP_STATE_ALLOC" "length (lbbuffer p) = LOOP_BUFFER" "0 \<le> lbindex p" "lbindex p < int LOOP_BUFFER"
    "\<not> isbadsem s (lbsem p)" "count (semtab s (uint (lbsem p))) = int (length (x # xs))" "length (x # xs) \<le> LOOP_BUFFER"
    "x # xs = ring_list LOOP_BUFFER ((!) (lbbuffer p)) (nat (lbindex p)) (Suc (length xs))"
    using b by (simp_all add: lbk_ok_def p_def Let_def)
  have c: "semcount (lbsem p) s = Some (1 + int (length xs))" using d(6,7) by (simp add: semcount_ok)
  define s1 where "s1 = recount (uint (lbsem p)) (int (length xs)) s"
  have w: "wait (lbsem p) s = Some (OK, s1)" "kinv Q s1"
    using wait_no_block [OF k d(6)] d(7) by (simp_all add: s1_def)
  have x: "x = lbbuffer p ! nat (lbindex p)" "xs = ring_list LOOP_BUFFER ((!) (lbbuffer p)) (Suc (nat (lbindex p)) mod LOOP_BUFFER) (length xs)"
    using d(4,5,9) by (simp_all add: ring_list_get)
  define p' where "p' = p\<lparr>lbindex := (lbindex p + 1) mod int LOOP_BUFFER\<rparr>"
  have f: "looptab s1 = looptab s" "thrcurrent s1 = thrcurrent s" by (simp_all add: s1_def)
  have "loopbackGetc_take i s1 = Some (uint x, set_lbk i p' s1)"
    unfolding loopbackGetc_take_def lbk_def f using d x(1) by (simp add: p_def [symmetric] p'_def c_rem_def)
  then have "loopbackGetc i s = Some (Some (uint x), set_lbk i p' s1)"
    unfolding loopbackGetc_def lbk_def using d c w(1) f by (simp add: p_def [symmetric])
  moreover have "nat ((lbindex p + 1) mod int LOOP_BUFFER) = Suc (nat (lbindex p)) mod LOOP_BUFFER"
    using d(4) by (simp add: nat_mod_distrib Suc_nat_eq_nat_zadd1 add.commute)
  then have "lbk_ok (set_lbk i p' s1) i xs"
    using d x(2) by (simp add: lbk_ok_def set_lbk_def p'_def Let_def s1_def isbadsem_def)
  ultimately show ?thesis using w(2) by (intro exI [of _ "set_lbk i p' s1"]) (simp add: set_lbk_def)
qed

section \<open>The device as a queue\<close>

definition lbk_put :: "nat \<Rightarrow> u8 \<Rightarrow> 'a loops_scheme \<Rightarrow> 'a loops_scheme option" where
  "lbk_put i ch s = (case loopbackPutc i ch s of Some (r, s) \<Rightarrow> if r = SYSERR then None else Some s | None \<Rightarrow> None)"

definition lbk_get :: "nat \<Rightarrow> 'a loops_scheme \<Rightarrow> (u8 \<times> 'a loops_scheme) option" where
  "lbk_get i s = (case loopbackGetc i s of Some (Some r, s) \<Rightarrow> if r = EOF then None else Some (of_int r, s) | _ \<Rightarrow> None)"

lemma uint_no_error [simp]: "uint (ch :: u8) \<noteq> SYSERR" "uint (ch :: u8) \<noteq> EOF"
  using uint_ge_0 [of ch] by linarith+

interpretation lbq: fifo "lbk_put i" "lbk_get i" "\<lambda>s xs. kinv Q s \<and> lbk_ok s i xs" "\<lambda>_. True" LOOP_BUFFER for i Q
proof
  fix s :: "'a loops_scheme" and xs x
  assume a: "kinv Q s \<and> lbk_ok s i xs" "length xs < LOOP_BUFFER"
  then show "\<exists>s'. lbk_put i x s = Some s' \<and> kinv Q s' \<and> lbk_ok s' i (xs @ [x])"
    using loopbackPutc_ok [of Q s i xs x] by (auto simp: lbk_put_def)
next
  fix s :: "'a loops_scheme" and xs x
  assume a: "kinv Q s \<and> lbk_ok s i (x # xs)"
  then show "\<exists>s'. lbk_get i s = Some (x, s') \<and> kinv Q s' \<and> lbk_ok s' i xs"
    using loopbackGetc_ok [of Q s i x xs] by (auto simp: lbk_get_def)
qed

lemma loopbackPutc_full:
  "lbk_ok s i xs \<Longrightarrow> length xs = LOOP_BUFFER \<Longrightarrow> loopbackPutc i ch s = Some (SYSERR, s)"
  by (auto simp: lbk_ok_def Let_def loopbackPutc_def lbk_def semcount_ok)

lemma write_bytes_ok:
  assumes "kinv Q s" "lbk_ok s i xs" "0 \<le> n" "m = min (length bs) (LOOP_BUFFER - length xs)"
  shows "\<exists>s'. write_bytes i n bs s = Some (if m < length bs \<and> n + int m = 0 then SYSERR else n + int m, s') \<and>
    kinv Q s' \<and> lbk_ok s' i (xs @ take m bs)"
  using assms
proof (induction bs arbitrary: s xs n m)
  case (Cons b bs)
  have l: "length xs \<le> LOOP_BUFFER" using Cons.prems(2) by (simp add: lbk_ok_def Let_def)
  show ?case
  proof (cases "length xs = LOOP_BUFFER")
    case True
    then show ?thesis using loopbackPutc_full [OF Cons.prems(2)] Cons.prems by auto
  next
    case False
    then obtain s1 where s1: "loopbackPutc i b s = Some (uint b, s1)" "kinv Q s1" "lbk_ok s1 i (xs @ [b])"
      using loopbackPutc_ok [OF Cons.prems(1,2), of b] l by auto
    have m: "m = Suc (min (length bs) (LOOP_BUFFER - length (xs @ [b])))" using Cons.prems(4) False l by auto
    show ?thesis using Cons.IH [OF s1(2,3), of "n + 1"] Cons.prems(3) s1(1) by (auto simp: m)
  qed
qed auto

lemma read_bytes_ok:
  assumes "kinv Q s" "lbk_ok s i (xs @ ys)"
  shows "\<exists>s'. read_bytes i (length xs) s = Some (Some xs, s') \<and> kinv Q s' \<and> lbk_ok s' i ys"
  using assms
proof (induction xs arbitrary: s)
  case (Cons x xs)
  obtain s1 where s1: "loopbackGetc i s = Some (Some (uint x), s1)" "kinv Q s1" "lbk_ok s1 i (xs @ ys)"
    using loopbackGetc_ok [OF Cons.prems(1), of i x "xs @ ys"] Cons.prems(2) by auto
  show ?case using Cons.IH [OF s1(2,3)] s1(1) by auto
qed simp

section \<open>A byte that arrives while a reader waits\<close>

lemma looptab_more: "kernel.more s' = kernel.more s \<Longrightarrow> looptab s' = looptab s"
  by (cases s; cases s') simp

lemma loopbackPutc_waiting:
  assumes k: "kinv Q s" and i: "i < length (looptab s)" and p: "p = looptab s ! i" "length (lbbuffer p) = LOOP_BUFFER"
    and x: "0 \<le> lbindex p" "lbindex p < int LOOP_BUFFER" and b: "\<not> isbadsem s (lbsem p)" and c: "count (semtab s (uint (lbsem p))) = -1"
  shows "lbindex p = 0 \<Longrightarrow> loopbackPutc i ch s = None"
    and "0 < lbindex p \<Longrightarrow> \<exists>Q' s'. loopbackPutc i ch s = Some (uint ch, s') \<and> kinv Q' s' \<and>
      looptab s' = (looptab s)[i := p\<lparr>lbbuffer := (lbbuffer p)[nat (lbindex p) - 1 := ch]\<rparr>]"
proof -
  have n: "semcount (lbsem p) s = Some (-1)" "lbk i s = Some p" using b c i p by (simp_all add: semcount_ok lbk_def)
  have ci: "c_int (lbindex p - 1) = Some (lbindex p - 1)" using x by (simp add: c_int_Some)
  show "loopbackPutc i ch s = None" if "lbindex p = 0"
    using n ci that by (simp add: loopbackPutc_def c_rem_def)
  assume pos: "0 < lbindex p"
  have r: "c_rem (lbindex p - 1) (int LOOP_BUFFER) = lbindex p - 1" using pos x by (simp add: c_rem_def)
  define s1 where "s1 = set_lbk i (p\<lparr>lbbuffer := (lbbuffer p)[nat (lbindex p - 1) := ch]\<rparr>) s"
  have k1: "kinv Q s1" "\<not> isbadsem s1 (lbsem p)" "count (semtab s1 (uint (lbsem p))) < INT_MAX"
    using k b c by (simp_all add: s1_def set_lbk_def isbadsem_def)
  obtain Q' s' where s': "signal (lbsem p) s1 = Some (OK, s')" "kinv Q' s'" "kernel.more s' = kernel.more s1"
    using signal_more [OF k1] by blast
  have "loopbackPutc i ch s = Some (uint ch, s')"
    unfolding loopbackPutc_def using n ci r pos x p(2) s'(1) by (simp add: Let_def s1_def)
  moreover have "looptab s' = (looptab s)[i := p\<lparr>lbbuffer := (lbbuffer p)[nat (lbindex p) - 1 := ch]\<rparr>]"
  proof -
    have "nat (lbindex p - 1) = nat (lbindex p) - 1" by linarith
    then show ?thesis using looptab_more [OF s'(3)] by (simp add: s1_def set_lbk_def)
  qed
  ultimately show "\<exists>Q' s'. loopbackPutc i ch s = Some (uint ch, s') \<and> kinv Q' s' \<and>
      looptab s' = (looptab s)[i := p\<lparr>lbbuffer := (lbbuffer p)[nat (lbindex p) - 1 := ch]\<rparr>]" using s'(2) by blast
qed

end
