(* ===== verification/Ip.thy ===== *)
theory Ip
  imports Route Wire Kernel_State
begin

text \<open>
  Sending and receiving IPv4 and ICMP packets: \<^verbatim>\<open>network/net/netSend.c\<close>, \<^verbatim>\<open>netGetbuf.c\<close>, \<^verbatim>\<open>netRecv.c\<close>,
  \<^verbatim>\<open>network/ipv4/*.c\<close> and \<^verbatim>\<open>network/icmp/*.c\<close>.  A packet is a buffer of \<^verbatim>\<open>NET_MAX_PKTLEN\<close> bytes; the
  pointers \<^verbatim>\<open>linkhdr\<close>, \<^verbatim>\<open>nethdr\<close> and \<^verbatim>\<open>curr\<close> are offsets into it, and an access outside of it has no result.
  The interface table, the routing table and the answers of address resolution and of the devices are
  parameters; the calls that leave this layer are recorded in order in a trace.  A packet argument is not
  \<^verbatim>\<open>NULL\<close>.
\<close>

section \<open>Packets\<close>

abbreviation (input) NET_MAX_PKTLEN :: nat where "NET_MAX_PKTLEN \<equiv> 1598"
abbreviation (input) ETHER_TYPE_IPv4 :: u16 where "ETHER_TYPE_IPv4 \<equiv> 0x0800"
abbreviation (input) ETHER_TYPE_ARP :: u16 where "ETHER_TYPE_ARP \<equiv> 0x0806"
abbreviation (input) IPv4_FLAG_MF :: u16 where "IPv4_FLAG_MF \<equiv> 0x2000"
abbreviation (input) IPv4_FLAG_DF :: u16 where "IPv4_FLAG_DF \<equiv> 0x4000"
abbreviation (input) IPv4_FLAGS :: u16 where "IPv4_FLAGS \<equiv> 0xE000"
abbreviation (input) IPv4_FROFF :: u16 where "IPv4_FROFF \<equiv> 0x1FFF"
abbreviation (input) IPv4_TTL :: u8 where "IPv4_TTL \<equiv> 64"
abbreviation (input) IPv4_PROTO_ICMP :: u8 where "IPv4_PROTO_ICMP \<equiv> 1"
abbreviation (input) IPv4_PROTO_TCP :: u8 where "IPv4_PROTO_TCP \<equiv> 6"
abbreviation (input) IPv4_PROTO_UDP :: u8 where "IPv4_PROTO_UDP \<equiv> 17"
abbreviation (input) ICMP_FOFF_DFSET :: u8 where "ICMP_FOFF_DFSET \<equiv> 4"
abbreviation (input) ICMP_HEADER_LEN :: u32 where "ICMP_HEADER_LEN \<equiv> 4"
abbreviation (input) ICMP_ECHOREPLY :: u8 where "ICMP_ECHOREPLY \<equiv> 0"
abbreviation (input) ICMP_UNREACH :: u8 where "ICMP_UNREACH \<equiv> 3"
abbreviation (input) ICMP_REDIRECT :: u8 where "ICMP_REDIRECT \<equiv> 5"
abbreviation (input) ICMP_ECHO :: u8 where "ICMP_ECHO \<equiv> 8"
abbreviation (input) ICMP_TIMEEXCD :: u8 where "ICMP_TIMEEXCD \<equiv> 11"
abbreviation (input) ICMP_DEF_DATALEN :: nat where "ICMP_DEF_DATALEN \<equiv> 64"

record packet =
  pnif :: "nat option"
  plen :: u32
  plink :: nat
  pnet :: nat
  pcurr :: nat
  pdata :: bytes

definition get_bytes :: "nat \<Rightarrow> nat \<Rightarrow> bytes \<Rightarrow> bytes option" where
  "get_bytes i n d = (if i + n \<le> length d then Some (take n (drop i d)) else None)"

definition put_bytes :: "nat \<Rightarrow> bytes \<Rightarrow> bytes \<Rightarrow> bytes option" where
  "put_bytes i bs d = (if i + length bs \<le> length d then Some (take i d @ bs @ drop (i + length bs) d) else None)"

definition wr16 :: "nat \<Rightarrow> u16 \<Rightarrow> bytes \<Rightarrow> bytes option" where
  \<comment> \<open>an \<^verbatim>\<open>unsigned short\<close> stored at a byte offset\<close>
  "wr16 i v d = put_bytes i [ucast v, ucast (drop_bit 8 v)] d"

definition push_hdr :: "u32 \<Rightarrow> packet \<Rightarrow> packet option" where
  \<comment> \<open>\<^verbatim>\<open>pkt->curr -= n; pkt->len += n\<close>\<close>
  "push_hdr n pkt = (if unat n \<le> pcurr pkt then Some (pkt\<lparr>pcurr := pcurr pkt - unat n, plen := plen pkt + n\<rparr>) else None)"

datatype ip_call =
    ArpLookup nat "netaddr option" | DevWrite int bytes | SnoopCapture nat bytes | NetGetbuf | NetFreebuf
  | DestUnreach packet u8 | RtRecv packet
  | IcmpRecv packet | UdpRecv packet netaddr netaddr | TcpRecv packet netaddr netaddr | RawRecv packet netaddr netaddr u8
  | Ipv4Recv packet | ArpRecv packet | SendMsg int u32 | MboxSend u32
  | UdpGetbuf int | UdpFreebuf | SemSignal u32 | SemCreate int | SemFree u32 | BfpAlloc nat nat | BfpFree int

record ipenv =
  answer :: "ip_call list \<Rightarrow> int"
  resolved :: "ip_call list \<Rightarrow> netaddr"
  netiftab :: "netif list"
  captured :: "nat \<Rightarrow> bool"
  routes :: rttab

definition nif_at :: "ipenv \<Rightarrow> nat option \<Rightarrow> netif option" where
  \<comment> \<open>a pointer to an interface is dereferenced\<close>
  "nif_at env p = (case p of None \<Rightarrow> None | Some n \<Rightarrow> if n < length (netiftab env) then Some (netiftab env ! n) else None)"

definition netGetbuf :: "ipenv \<Rightarrow> ip_call list \<Rightarrow> packet option \<times> ip_call list" where
  "netGetbuf env tr =
     (let tr = tr @ [NetGetbuf]
      in (if answer env tr = SYSERR then None
          else Some \<lparr>pnif = None, plen = 0, plink = 0, pnet = 0, pcurr = NET_MAX_PKTLEN, pdata = replicate NET_MAX_PKTLEN 0\<rparr>, tr))"

section \<open>The link layer\<close>

definition NETADDR_GLOBAL_ETH_BRC :: netaddr where
  "NETADDR_GLOBAL_ETH_BRC = \<lparr>natype = NETADDR_ETHERNET, nalen = ETH_ADDR_LEN, naddr = replicate 6 0xFF\<rparr>"

definition netSend ::
    "ipenv \<Rightarrow> netaddr option \<Rightarrow> netaddr option \<Rightarrow> u16 \<Rightarrow> packet \<Rightarrow> ip_call list \<Rightarrow> (int \<times> packet \<times> ip_call list) option" where
  "netSend env hwaddr praddr ty pkt tr = (case pnif pkt of
       None \<Rightarrow> Some (SYSERR, pkt, tr)
     | Some n \<Rightarrow> do {
         netptr \<leftarrow> nif_at env (Some n);
         if nifstate netptr \<noteq> NET_ALLOC then Some (SYSERR, pkt, tr)
         else do {
           pkt \<leftarrow> push_hdr (niflinkhdrlen netptr) pkt;
           d \<leftarrow> wr16 (pcurr pkt + 12) (ucast (hs2net (ucast ty))) (pdata pkt);
           src \<leftarrow> get_bytes 0 (unat (nalen (nifhwaddr netptr))) (naddr (nifhwaddr netptr));
           d \<leftarrow> put_bytes (pcurr pkt + 6) src d;
           let pkt = pkt\<lparr>pdata := d\<rparr>;
           let (result, hw, tr) = (case hwaddr of
                Some a \<Rightarrow> (OK, a, tr)
              | None \<Rightarrow> let tr = tr @ [ArpLookup n praddr] in (answer env tr, resolved env tr, tr));
           if result \<noteq> OK then Some (result, pkt, tr)
           else do {
             dst \<leftarrow> get_bytes 0 (unat (nalen hw)) (naddr hw);
             d \<leftarrow> put_bytes (pcurr pkt) dst d;
             let pkt = pkt\<lparr>pdata := d\<rparr>;
             frame \<leftarrow> get_bytes (pcurr pkt) (unat (plen pkt)) d;
             let tr = tr @ [DevWrite (nifdev netptr) frame];
             if to_u32 (answer env tr) \<noteq> plen pkt then Some (SYSERR, pkt, tr)
             else Some (OK, pkt, if captured env n then tr @ [SnoopCapture n frame] else tr) } } })"

record ifstat =
  nin :: u32
  nproc :: u32

definition netRecv_packet :: "ipenv \<Rightarrow> nat \<Rightarrow> int \<Rightarrow> bytes \<Rightarrow> ifstat \<Rightarrow> ip_call list \<Rightarrow> (ifstat \<times> ip_call list) option" where
  \<comment> \<open>the body of the loop of \<^verbatim>\<open>netRecv\<close> once a read has returned \<open>len\<close> and filled the buffer with \<open>d\<close>\<close>
  "netRecv_packet env n len d st tr = do {
     netptr \<leftarrow> nif_at env (Some n);
     if 14 > len \<or> len = SYSERR then Some (st, tr @ [NetFreebuf])
     else do {
       let pkt = \<lparr>pnif = Some n, plen = to_u32 len, plink = 0, pnet = 0, pcurr = 0, pdata = d\<rparr>;
       let st = st\<lparr>nin := nin st + 1\<rparr>;
       let tr = (if captured env n then tr @ [SnoopCapture n (take (nat len) d)] else tr);
       a \<leftarrow> get_bytes 0 6 d;
       let dst = \<lparr>natype = NETADDR_ETHERNET, nalen = ETH_ADDR_LEN, naddr = a\<rparr>;
       mine \<leftarrow> netaddrequal dst (nifhwaddr netptr);
       mine \<leftarrow> (if mine then Some True else netaddrequal dst (nifhwbrc netptr));
       if mine
       then do {
         let pkt = pkt\<lparr>pcurr := unat (niflinkhdrlen netptr)\<rparr>;
         ty \<leftarrow> rd16 d 12;
         let ty = net2hs ty;
         if ty = ucast ETHER_TYPE_IPv4 then Some (st\<lparr>nproc := nproc st + 1\<rparr>, tr @ [Ipv4Recv pkt])
         else if ty = ucast ETHER_TYPE_ARP then Some (st\<lparr>nproc := nproc st + 1\<rparr>, tr @ [ArpRecv pkt])
         else Some (st, tr @ [NetFreebuf]) }
       else Some (st, tr @ [NetFreebuf]) } }"

section \<open>IPv4\<close>

definition set_chksum :: "nat \<Rightarrow> nat \<Rightarrow> nat \<Rightarrow> bytes \<Rightarrow> bytes option" where
  \<comment> \<open>the checksum of \<open>n\<close> bytes at \<open>pos\<close> is stored at \<open>i\<close>, which is cleared first\<close>
  "set_chksum i n pos d = do { d \<leftarrow> wr16 i 0 d; c \<leftarrow> netChksum (drop pos d) n; wr16 i c d }"

partial_function (option) frag_loop ::
    "ipenv \<Rightarrow> u32 \<Rightarrow> netaddr \<Rightarrow> bytes \<Rightarrow> nat \<Rightarrow> u16 \<Rightarrow> nat \<Rightarrow> u32 \<Rightarrow> u16 \<Rightarrow> packet \<Rightarrow> ip_call list \<Rightarrow> (packet \<times> ip_call list) option" where
  \<comment> \<open>\<open>ptr\<close> is the offset of \<^verbatim>\<open>outip\<close> in the outgoing packet, \<open>data\<close> the offset of the data left in \<open>inp\<close>\<close>
  "frag_loop env mtu nxthop inp ptr lastFlag data dRem froff out tr =
     (if dRem > 0
      then do {
        let dLen = (if (dRem + 7) AND NOT 7 > mtu + of_nat IPv4_HDR_LEN then ucast ((mtu - of_nat IPv4_HDR_LEN) AND NOT 7) else ucast dRem :: u16);
        seg \<leftarrow> get_bytes data (unat dLen) inp;
        d \<leftarrow> put_bytes (ptr + 20) seg (pdata out);
        let ff = (if ucast dLen = dRem then lastFlag AND froff else IPv4_FLAG_MF AND froff);
        d \<leftarrow> wr16 (ptr + 6) (ucast (hs2net (ucast ff))) d;
        d \<leftarrow> wr16 (ptr + 2) (ucast (hs2net (of_nat IPv4_HDR_LEN + ucast dLen))) d;
        d \<leftarrow> set_chksum (ptr + 10) IPv4_HDR_LEN ptr d;
        l \<leftarrow> rd16 d (ptr + 2);
        (_, out, tr) \<leftarrow> netSend env None (Some nxthop) ETHER_TYPE_IPv4 (out\<lparr>pdata := d, plen := net2hs l\<rparr>) tr;
        frag_loop env mtu nxthop inp ptr lastFlag (data + unat dLen) (dRem - ucast dLen) (froff + dLen div 8) out tr }
      else Some (out, tr))"

declare frag_loop.simps [code]

definition frag_rest ::
    "ipenv \<Rightarrow> netif \<Rightarrow> netaddr \<Rightarrow> nat \<Rightarrow> u16 \<Rightarrow> nat \<Rightarrow> u32 \<Rightarrow> u16 \<Rightarrow> packet \<Rightarrow> ip_call list \<Rightarrow> (int \<times> packet \<times> ip_call list) option" where
  \<comment> \<open>\<^verbatim>\<open>ipv4SendFrag\<close> after the first fragment; \<open>ptr\<close> is the offset of \<^verbatim>\<open>ip\<close>\<close>
  "frag_rest env netptr nxthop ptr lastFlag data dRem froff pkt tr = (case netGetbuf env tr of
       (None, tr) \<Rightarrow> Some (SYSERR, pkt, tr)
     | (Some out, tr) \<Rightarrow>
         if unat (nifmtu netptr) \<le> pcurr out
         then do {
           let out = out\<lparr>pcurr := pcurr out - unat (nifmtu netptr), pnif := pnif pkt\<rparr>;
           hdr \<leftarrow> get_bytes ptr IPv4_HDR_LEN (pdata pkt);
           d \<leftarrow> put_bytes (pcurr out) hdr (pdata out);
           (_, tr) \<leftarrow> frag_loop env (nifmtu netptr) nxthop (pdata pkt) (pcurr out) lastFlag data dRem froff (out\<lparr>pdata := d\<rparr>) tr;
           Some (OK, pkt, tr @ [NetFreebuf]) }
         else None)"

definition ipv4SendFrag :: "ipenv \<Rightarrow> netaddr \<Rightarrow> packet \<Rightarrow> ip_call list \<Rightarrow> (int \<times> packet \<times> ip_call list) option" where
  "ipv4SendFrag env nxthop pkt tr = do {
     let ptr = pcurr pkt;
     len \<leftarrow> rd16 (pdata pkt) (ptr + 2);
     netptr \<leftarrow> nif_at env (pnif pkt);
     if net2hs len \<le> nifmtu netptr
     then do {
       brc \<leftarrow> netaddrequal (nifipbrc netptr) nxthop;
       netSend env (if brc then Some NETADDR_GLOBAL_ETH_BRC else None) (Some nxthop) ETHER_TYPE_IPv4 pkt tr }
     else do {
       ff \<leftarrow> rd16 (pdata pkt) (ptr + 6);
       if net2hs ff AND ucast IPv4_FLAG_DF \<noteq> 0 then Some (SYSERR, pkt, tr @ [DestUnreach pkt ICMP_FOFF_DFSET])
       else do {
         ver \<leftarrow> rd (pdata pkt) ptr;
         let ihl = (ucast (ver AND 0x0F) * 4 :: u32);
         let data = ptr + unat ihl;
         let dRem = net2hs len - ihl;
         let froff = ucast (net2hs ff) AND IPv4_FROFF;
         let lastFlag = ucast (net2hs ff) AND IPv4_FLAGS;
         let dLen = (ucast ((nifmtu netptr - ihl) AND NOT 7) :: u16);
         let len = ihl + ucast dLen;
         d \<leftarrow> wr16 (ptr + 2) (ucast (hs2net len)) (pdata pkt);
         d \<leftarrow> wr16 (ptr + 6) (ucast (hs2net (ucast (IPv4_FLAG_MF AND froff)))) d;
         d \<leftarrow> set_chksum (ptr + 10) (unat ihl) ptr d;
         (_, pkt, tr) \<leftarrow> netSend env None (Some nxthop) ETHER_TYPE_IPv4 (pkt\<lparr>pdata := d, plen := len\<rparr>) tr;
         frag_rest env netptr nxthop ptr lastFlag (data + unat dLen) (dRem - ucast dLen) (froff + dLen div 8) pkt tr } } }"

definition ip_header :: "nat \<Rightarrow> u32 \<Rightarrow> u8 \<Rightarrow> bytes \<Rightarrow> bytes \<Rightarrow> bytes \<Rightarrow> bytes option" where
  \<comment> \<open>the header fields as \<^verbatim>\<open>ipv4Send\<close> sets them at offset \<open>pos\<close>\<close>
  "ip_header pos len proto src dst d = do {
     d \<leftarrow> put_bytes pos [0x45, 0] d;
     d \<leftarrow> wr16 (pos + 2) (ucast (hs2net len)) d;
     d \<leftarrow> wr16 (pos + 4) 0 d;
     d \<leftarrow> wr16 (pos + 6) 0 d;
     d \<leftarrow> put_bytes (pos + 8) [IPv4_TTL, proto] d;
     d \<leftarrow> put_bytes (pos + 12) src d;
     d \<leftarrow> put_bytes (pos + 16) dst d;
     set_chksum (pos + 10) IPv4_HDR_LEN pos d }"

definition ipv4Send ::
    "ipenv \<Rightarrow> netaddr \<Rightarrow> netaddr option \<Rightarrow> u8 \<Rightarrow> packet \<Rightarrow> ip_call list \<Rightarrow> (int \<times> packet \<times> ip_call list) option" where
  "ipv4Send env src dst proto pkt tr = (case dst of
       None \<Rightarrow> Some (SYSERR, pkt, tr)
     | Some dst \<Rightarrow>
         if natype dst \<noteq> NETADDR_IPv4 then Some (SYSERR, pkt, tr)
         else do {
           route \<leftarrow> rtLookup (routes env) dst;
           case route of
             None \<Rightarrow> Some (SYSERR, pkt, tr)
           | Some r \<Rightarrow> do {
               let rt = routes env ! r;
               let nxthop = (if natype (rtgateway rt) = 0 then dst else rtgateway rt);
               pkt \<leftarrow> push_hdr (of_nat IPv4_HDR_LEN) (pkt\<lparr>pnif := rtnif rt\<rparr>);
               netptr \<leftarrow> (if natype src = 0 then map_option nifip (nif_at env (pnif pkt)) else Some src);
               s \<leftarrow> get_bytes 0 4 (naddr netptr);
               t \<leftarrow> get_bytes 0 4 (naddr dst);
               d \<leftarrow> ip_header (pcurr pkt) (plen pkt) proto s t (pdata pkt);
               ipv4SendFrag env nxthop (pkt\<lparr>pdata := d\<rparr>) tr } })"

definition ipv4Recv :: "ipenv \<Rightarrow> packet \<Rightarrow> ip_call list \<Rightarrow> (int \<times> packet \<times> ip_call list) option" where
  "ipv4Recv env pkt tr = do {
     let ptr = pcurr pkt;
     let pkt = pkt\<lparr>pnet := ptr\<rparr>;
     valid \<leftarrow> ipv4RecvValid (drop ptr (pdata pkt));
     if \<not> valid then Some (SYSERR, pkt, tr @ [NetFreebuf])
     else do {
       dst \<leftarrow> ipv4_addr (drop ptr (pdata pkt)) 16;
       src \<leftarrow> ipv4_addr (drop ptr (pdata pkt)) 12;
       mine \<leftarrow> ipv4RecvDemux (netiftab env) dst;
       if \<not> mine then let tr = tr @ [RtRecv pkt] in Some (answer env tr, pkt, tr)
       else do {
         ff \<leftarrow> rd16 (pdata pkt) (ptr + 6);
         if ucast IPv4_FLAG_MF AND net2hs ff \<noteq> 0 \<or> net2hs ff AND ucast IPv4_FROFF \<noteq> 0 then Some (SYSERR, pkt, tr @ [NetFreebuf])
         else do {
           len \<leftarrow> rd16 (pdata pkt) (ptr + 2);
           let iplen = net2hs len;
           netptr \<leftarrow> nif_at env (pnif pkt);
           let pkt = (if plen pkt - niflinkhdrlen netptr > iplen then pkt\<lparr>plen := niflinkhdrlen netptr + iplen\<rparr> else pkt);
           ver \<leftarrow> rd (pdata pkt) ptr;
           let pkt = pkt\<lparr>pcurr := ptr + 4 * unat (ver AND 0x0F)\<rparr>;
           proto \<leftarrow> rd (pdata pkt) (ptr + 9);
           Some (OK, pkt, tr @
             [if proto = IPv4_PROTO_ICMP then IcmpRecv pkt
              else if proto = IPv4_PROTO_UDP then UdpRecv pkt src dst
              else if proto = IPv4_PROTO_TCP then TcpRecv pkt src dst
              else RawRecv pkt src dst proto]) } } } }"

section \<open>ICMP\<close>

definition icmpSend ::
    "ipenv \<Rightarrow> u8 \<Rightarrow> u8 \<Rightarrow> u32 \<Rightarrow> netaddr \<Rightarrow> netaddr \<Rightarrow> packet \<Rightarrow> ip_call list \<Rightarrow> (int \<times> packet \<times> ip_call list) option" where
  "icmpSend env ty code datalen src dst pkt tr = do {
     pkt \<leftarrow> push_hdr ICMP_HEADER_LEN pkt;
     d \<leftarrow> put_bytes (pcurr pkt) [ty, code] (pdata pkt);
     d \<leftarrow> set_chksum (pcurr pkt + 2) (unat (datalen + ICMP_HEADER_LEN)) (pcurr pkt) d;
     ipv4Send env src (Some dst) IPv4_PROTO_ICMP (pkt\<lparr>pdata := d\<rparr>) tr }"

definition any_addr :: netaddr where
  \<comment> \<open>only the type of the source address is set\<close>
  "any_addr = \<lparr>natype = 0, nalen = 0, naddr = []\<rparr>"

definition icmpEchoReply :: "ipenv \<Rightarrow> packet \<Rightarrow> ip_call list \<Rightarrow> (int \<times> packet \<times> ip_call list) option" where
  "icmpEchoReply env pkt tr = do {
     dst \<leftarrow> ipv4_addr (drop (pnet pkt) (pdata pkt)) 16;
     src \<leftarrow> ipv4_addr (drop (pnet pkt) (pdata pkt)) 12;
     let pkt = pkt\<lparr>pcurr := pcurr pkt + 4\<rparr>;
     let pkt = pkt\<lparr>plen := plen pkt - of_nat (pcurr pkt)\<rparr>;
     icmpSend env ICMP_ECHOREPLY 0 (plen pkt) dst src pkt tr }"

definition icmp_quote :: "bytes \<Rightarrow> packet \<Rightarrow> packet \<Rightarrow> (netaddr \<times> packet) option" where
  \<comment> \<open>the packet in question is quoted behind four bytes; the message goes to its source\<close>
  "icmp_quote first bad pkt = do {
     dst \<leftarrow> ipv4_addr (drop (pnet bad) (pdata bad)) 12;
     ver \<leftarrow> rd (pdata bad) (pnet bad);
     let n = unat (ver AND 0x0F) * 4 + ICMP_DEF_DATALEN;
     quote \<leftarrow> get_bytes (pnet bad) n (pdata bad);
     pkt \<leftarrow> push_hdr (of_nat n) (pkt\<lparr>plen := 0\<rparr>);
     d \<leftarrow> put_bytes (pcurr pkt) quote (pdata pkt);
     pkt \<leftarrow> push_hdr 4 pkt;
     d \<leftarrow> put_bytes (pcurr pkt) first d;
     Some (dst, pkt\<lparr>pdata := d\<rparr>) }"

definition icmp_error :: "ipenv \<Rightarrow> u8 \<Rightarrow> u8 \<Rightarrow> bytes \<Rightarrow> packet \<Rightarrow> ip_call list \<Rightarrow> (int \<times> ip_call list) option" where
  "icmp_error env ty code first bad tr = (case netGetbuf env tr of
       (None, tr) \<Rightarrow> Some (SYSERR, tr)
     | (Some pkt, tr) \<Rightarrow> do {
         (dst, pkt) \<leftarrow> icmp_quote first bad pkt;
         (result, _, tr) \<leftarrow> icmpSend env ty code (plen pkt) any_addr dst pkt tr;
         Some (result, tr @ [NetFreebuf]) })"

definition icmpDestUnreach :: "ipenv \<Rightarrow> packet \<Rightarrow> u8 \<Rightarrow> ip_call list \<Rightarrow> (int \<times> ip_call list) option" where
  "icmpDestUnreach env unreached code tr = icmp_error env ICMP_UNREACH code [0, 0, 0, 0] unreached tr"

definition icmpTimeExceeded :: "ipenv \<Rightarrow> packet \<Rightarrow> u8 \<Rightarrow> ip_call list \<Rightarrow> (int \<times> ip_call list) option" where
  "icmpTimeExceeded env unreached code tr = icmp_error env ICMP_TIMEEXCD code [0, 0, 0, 0] unreached tr"

definition icmpRedirect :: "ipenv \<Rightarrow> packet \<Rightarrow> u8 \<Rightarrow> rtEntry \<Rightarrow> ip_call list \<Rightarrow> (int \<times> ip_call list) option" where
  "icmpRedirect env redir code route tr = do {
     gate \<leftarrow> get_bytes 0 4 (naddr (rtgateway route));
     icmp_error env ICMP_REDIRECT code gate redir tr }"

definition be_long :: "u32 \<Rightarrow> bytes" where
  \<comment> \<open>an \<^verbatim>\<open>unsigned long\<close> converted by \<^verbatim>\<open>hl2net\<close> and stored\<close>
  "be_long x = (let v = hl2net x in [ucast v, ucast (drop_bit 8 v), ucast (drop_bit 16 v), ucast (drop_bit 24 v)])"

definition icmpEchoRequest :: "ipenv \<Rightarrow> u32 \<Rightarrow> u32 \<Rightarrow> u32 \<Rightarrow> netaddr \<Rightarrow> u16 \<Rightarrow> u16 \<Rightarrow> ip_call list \<Rightarrow> (int \<times> ip_call list) option" where
  \<comment> \<open>the first three arguments are \<^verbatim>\<open>clkcount()\<close>, \<^verbatim>\<open>clkticks\<close> and \<^verbatim>\<open>clktime\<close>\<close>
  "icmpEchoRequest env cyc ticks time dst iden sq tr = (case netGetbuf env tr of
       (None, tr) \<Rightarrow> Some (SYSERR, tr)
     | (Some pkt, tr) \<Rightarrow> do {
         pkt \<leftarrow> push_hdr 28 (pkt\<lparr>plen := 0\<rparr>);
         d \<leftarrow> wr16 (pcurr pkt) (ucast (hs2net (ucast iden))) (pdata pkt);
         d \<leftarrow> wr16 (pcurr pkt + 2) (ucast (hs2net (ucast sq))) d;
         d \<leftarrow> put_bytes (pcurr pkt + 4) (be_long time @ be_long ticks @ be_long cyc @ replicate 12 0) d;
         (result, _, tr) \<leftarrow> icmpSend env ICMP_ECHO 0 28 any_addr dst (pkt\<lparr>pdata := d\<rparr>) tr;
         Some (result, tr @ [NetFreebuf]) })"

abbreviation (input) NPINGQUEUE :: nat where "NPINGQUEUE \<equiv> 5"
abbreviation (input) NPINGHOLD :: int where "NPINGHOLD \<equiv> 10"

record icmpEchoQueue =
  eqtid :: int
  eqhead :: int
  eqtail :: int
  eqpkts :: "int \<Rightarrow> u32"

fun echo_scan :: "int \<Rightarrow> icmpEchoQueue list \<Rightarrow> nat option" where
  "echo_scan iden [] = None"
| "echo_scan iden (q # qs) = (if iden = eqtid q then Some 0 else map_option Suc (echo_scan iden qs))"

definition le_long :: "u32 \<Rightarrow> bytes" where
  "le_long v = [ucast v, ucast (drop_bit 8 v), ucast (drop_bit 16 v), ucast (drop_bit 24 v)]"

definition icmpRecv ::
    "ipenv \<Rightarrow> u32 \<Rightarrow> u32 \<Rightarrow> u32 \<Rightarrow> u32 \<Rightarrow> packet \<Rightarrow> icmpEchoQueue list \<Rightarrow> ip_call list \<Rightarrow> (int \<times> packet \<times> icmpEchoQueue list \<times> ip_call list) option" where
  \<comment> \<open>\<open>addr\<close> is the address of the packet; then \<^verbatim>\<open>clkcount()\<close>, \<^verbatim>\<open>clkticks\<close> and \<^verbatim>\<open>clktime\<close>\<close>
  "icmpRecv env addr cyc ticks time pkt echotab tr = do {
     ty \<leftarrow> rd (pdata pkt) (pcurr pkt);
     if ty = ICMP_ECHOREPLY
     then do {
       iden \<leftarrow> rd16 (pdata pkt) (pcurr pkt + 4);
       let iden = to_int (net2hs iden);
       if 0 \<le> iden \<and> iden < NTHREAD
       then do {
         d \<leftarrow> put_bytes (pcurr pkt + 20) (le_long time @ le_long ticks @ le_long cyc) (pdata pkt);
         let pkt = pkt\<lparr>pdata := d\<rparr>;
         case echo_scan iden (take NPINGQUEUE echotab) of
           None \<Rightarrow> Some (SYSERR, pkt, echotab, tr @ [NetFreebuf])
         | Some i \<Rightarrow>
             let eq = echotab ! i
             in if (eqhead eq + 1) mod NPINGHOLD = eqtail eq then Some (SYSERR, pkt, echotab, tr @ [NetFreebuf])
                else let eq = eq\<lparr>eqpkts := (eqpkts eq)(eqhead eq := addr), eqhead := (eqhead eq + 1) mod NPINGHOLD\<rparr>
                     in Some (OK, pkt, echotab[i := eq], tr @ [SendMsg iden addr]) }
       else Some (SYSERR, pkt, echotab, tr @ [NetFreebuf]) }
     else if ty = ICMP_ECHO then Some (OK, pkt, echotab, tr @ [MboxSend addr])
     else Some (OK, pkt, echotab, tr @ [NetFreebuf]) }"

definition icmpDaemon_packet :: "ipenv \<Rightarrow> packet \<Rightarrow> ip_call list \<Rightarrow> ip_call list option" where
  \<comment> \<open>the body of the loop of \<^verbatim>\<open>icmpDaemon\<close> for a packet received from \<^verbatim>\<open>icmpqueue\<close>\<close>
  "icmpDaemon_packet env pkt tr = do { (_, _, tr) \<leftarrow> icmpEchoReply env pkt tr; Some (tr @ [NetFreebuf]) }"

end
