(* ===== verification/Udp.thy ===== *)
theory Udp
  imports Ip
begin

text \<open>
  The UDP device, \<^verbatim>\<open>device/udp/*.c\<close>.  A control block holds the ring of received datagrams: each entry is the
  content of a buffer of \<^verbatim>\<open>NET_MAX_PKTLEN\<close> bytes with a pseudo header, the UDP header in host byte order and
  the data.  Semaphores, buffer pools and ICMP are reached by calls that are recorded in the trace of
  \<^verbatim>\<open>Ip\<close>.  A read that finds the device open calls \<^verbatim>\<open>wait\<close> and continues with \<open>udpRead_take\<close>.
\<close>

section \<open>State\<close>

abbreviation (input) UDP_MAX_PKTS :: nat where "UDP_MAX_PKTS \<equiv> 100"
abbreviation (input) UDP_MAX_DATALEN :: u32 where "UDP_MAX_DATALEN \<equiv> 1024"
abbreviation (input) UDP_HDR_LEN :: nat where "UDP_HDR_LEN \<equiv> 8"
abbreviation (input) UDP_FLAG_PASSIVE :: u8 where "UDP_FLAG_PASSIVE \<equiv> 1"
abbreviation (input) UDP_FLAG_NOBLOCK :: u8 where "UDP_FLAG_NOBLOCK \<equiv> 2"
abbreviation (input) UDP_FLAG_BINDFIRST :: u8 where "UDP_FLAG_BINDFIRST \<equiv> 4"
abbreviation (input) ICMP_PORT_UNR :: u8 where "ICMP_PORT_UNR \<equiv> 3"
abbreviation (input) PSEUDO_LEN :: nat where "PSEUDO_LEN \<equiv> 12"

datatype udpstate = UDP_FREE | UDP_ALLOC | UDP_OPEN

record udp =
  udpin :: "nat \<Rightarrow> bytes"
  inPool :: int
  icount :: int
  istart :: int
  isem :: u32
  localpt :: u16
  remotept :: u16
  localip :: netaddr
  remoteip :: netaddr
  ustate :: udpstate
  uflags :: u8

definition zero_addr :: netaddr where
  "zero_addr = \<lparr>natype = 0, nalen = 0, naddr = replicate NET_MAX_ALEN 0\<rparr>"

definition zero_udp :: udp where
  "zero_udp = \<lparr>udpin = (\<lambda>_. []), inPool = 0, icount = 0, istart = 0, isem = 0, localpt = 0, remotept = 0,
     localip = zero_addr, remoteip = zero_addr, ustate = UDP_FREE, uflags = 0\<rparr>"

section \<open>Sending\<close>

definition pseudo_hdr :: "bytes \<Rightarrow> bytes \<Rightarrow> bytes \<Rightarrow> bytes" where
  "pseudo_hdr src dst len = src @ dst @ [0, IPv4_PROTO_UDP] @ len"

definition udpChksum :: "packet \<Rightarrow> u16 \<Rightarrow> netaddr \<Rightarrow> netaddr \<Rightarrow> u16 option" where
  \<comment> \<open>the pseudo header is written before the packet for the time of the computation\<close>
  "udpChksum pkt len src dst =
     (if PSEUDO_LEN \<le> pcurr pkt
      then do {
        s \<leftarrow> get_bytes 0 4 (naddr src);
        t \<leftarrow> get_bytes 0 4 (naddr dst);
        let l = (ucast (hs2net (ucast len)) :: u16);
        d \<leftarrow> put_bytes (pcurr pkt - PSEUDO_LEN) (pseudo_hdr s t [ucast l, ucast (drop_bit 8 l)]) (pdata pkt);
        netChksum (drop (pcurr pkt - PSEUDO_LEN) d) (unat len + PSEUDO_LEN) }
      else None)"

definition pull_back :: "u16 \<Rightarrow> packet \<Rightarrow> packet option" where
  \<comment> \<open>\<^verbatim>\<open>pkt->len = datalen; pkt->curr -= (3 + pkt->len) & ~0x03\<close>\<close>
  "pull_back datalen pkt =
     (let k = unat ((3 + ucast datalen :: u32) AND NOT 3)
      in if k \<le> pcurr pkt then Some (pkt\<lparr>plen := ucast datalen, pcurr := pcurr pkt - k\<rparr>) else None)"

definition swap16 :: "nat \<Rightarrow> bytes \<Rightarrow> bytes option" where
  \<comment> \<open>a header field converted between network and host byte order in place\<close>
  "swap16 i d = do { v \<leftarrow> rd16 d i; wr16 i (ucast (hs2net v)) d }"

definition udp_finish :: "ipenv \<Rightarrow> u16 \<Rightarrow> netaddr \<Rightarrow> netaddr \<Rightarrow> packet \<Rightarrow> ip_call list \<Rightarrow> (int \<times> ip_call list) option" where
  \<comment> \<open>checksum, \<^verbatim>\<open>ipv4Send\<close> and release of the buffer\<close>
  "udp_finish env datalen lip rip pkt tr = do {
     c \<leftarrow> udpChksum pkt datalen lip rip;
     d \<leftarrow> wr16 (pcurr pkt + 6) c (pdata pkt);
     (result, _, tr) \<leftarrow> ipv4Send env lip (Some rip) IPv4_PROTO_UDP (pkt\<lparr>pdata := d\<rparr>) tr;
     let tr = tr @ [NetFreebuf];
     Some (if answer env tr = SYSERR then SYSERR else result, tr) }"

definition udpSend_passive :: "ipenv \<Rightarrow> udp \<Rightarrow> u16 \<Rightarrow> bytes \<Rightarrow> packet \<Rightarrow> ip_call list \<Rightarrow> (int \<times> ip_call list) option" where
  "udpSend_passive env u datalen buf pkt tr = do {
     let datalen = datalen - of_nat PSEUDO_LEN;
     pkt \<leftarrow> pull_back datalen pkt;
     seg \<leftarrow> get_bytes PSEUDO_LEN (unat datalen) buf;
     d \<leftarrow> put_bytes (pcurr pkt) seg (pdata pkt);
     d \<leftarrow> swap16 (pcurr pkt) d;
     d \<leftarrow> swap16 (pcurr pkt + 2) d;
     d \<leftarrow> wr16 (pcurr pkt + 4) (ucast (hs2net (plen pkt))) d;
     d \<leftarrow> wr16 (pcurr pkt + 6) 0 d;
     dst \<leftarrow> get_bytes 4 (unat (nalen (localip u))) buf;
     a \<leftarrow> put_bytes 0 dst (naddr (remoteip u));
     let rip = \<lparr>natype = natype (localip u), nalen = nalen (localip u), naddr = a\<rparr>;
     cmp \<leftarrow> memcmp (naddr (localip u)) buf (unat (nalen (localip u)));
     if cmp \<noteq> 0 then Some (SYSERR, tr @ [NetFreebuf])
     else udp_finish env datalen (localip u) rip (pkt\<lparr>pdata := d\<rparr>) tr }"

definition udpSend_active :: "ipenv \<Rightarrow> udp \<Rightarrow> u16 \<Rightarrow> bytes \<Rightarrow> packet \<Rightarrow> ip_call list \<Rightarrow> (int \<times> ip_call list) option" where
  "udpSend_active env u datalen buf pkt tr = do {
     let datalen = datalen + of_nat UDP_HDR_LEN;
     pkt \<leftarrow> pull_back datalen pkt;
     d \<leftarrow> wr16 (pcurr pkt) (ucast (hs2net (ucast (localpt u)))) (pdata pkt);
     d \<leftarrow> wr16 (pcurr pkt + 2) (ucast (hs2net (ucast (remotept u)))) d;
     d \<leftarrow> wr16 (pcurr pkt + 4) (ucast (hs2net (plen pkt))) d;
     d \<leftarrow> wr16 (pcurr pkt + 6) 0 d;
     seg \<leftarrow> (if unat datalen < UDP_HDR_LEN then None else get_bytes 0 (unat datalen - UDP_HDR_LEN) buf);
     d \<leftarrow> put_bytes (pcurr pkt + 8) seg d;
     udp_finish env datalen (localip u) (remoteip u) (pkt\<lparr>pdata := d\<rparr>) tr }"

definition udpSend :: "ipenv \<Rightarrow> udp \<Rightarrow> u16 \<Rightarrow> bytes \<Rightarrow> ip_call list \<Rightarrow> (int \<times> ip_call list) option" where
  "udpSend env u datalen buf tr = (case netGetbuf env tr of
       (None, tr) \<Rightarrow> Some (SYSERR, tr)
     | (Some pkt, tr) \<Rightarrow>
         if uflags u AND UDP_FLAG_PASSIVE \<noteq> 0 then udpSend_passive env u datalen buf pkt tr
         else udpSend_active env u datalen buf pkt tr)"

function udpWrite_loop :: "ipenv \<Rightarrow> udp \<Rightarrow> bytes \<Rightarrow> nat \<Rightarrow> nat \<Rightarrow> ip_call list \<Rightarrow> (int \<times> ip_call list) option" where
  "udpWrite_loop env u buf len cnt tr =
     (if cnt < len
      then let pktsize = (if len - cnt \<ge> unat UDP_MAX_DATALEN then unat UDP_MAX_DATALEN else len - cnt)
        in do {
          (result, tr) \<leftarrow> udpSend env u (of_nat pktsize) (drop cnt buf) tr;
          if result \<noteq> OK then Some (if cnt = 0 then SYSERR else to_int (of_nat cnt), tr)
          else udpWrite_loop env u buf len (cnt + pktsize) tr }
      else Some (to_int (of_nat len), tr))"
  by pat_completeness auto
termination
  by (relation "measure (\<lambda>(_, _, _, len, cnt, _). len - cnt)") (auto split: if_splits)

declare udpWrite_loop.simps [simp del]

definition udpWrite :: "ipenv \<Rightarrow> udp \<Rightarrow> bytes \<Rightarrow> u32 \<Rightarrow> ip_call list \<Rightarrow> (int \<times> ip_call list) option" where
  "udpWrite env u buf len tr =
     (if uflags u AND UDP_FLAG_PASSIVE \<noteq> 0
      then if len > of_nat PSEUDO_LEN + of_nat UDP_HDR_LEN + UDP_MAX_DATALEN \<or> len < of_nat PSEUDO_LEN + of_nat UDP_HDR_LEN
           then Some (SYSERR, tr)
           else do {
             (result, tr) \<leftarrow> udpSend env u (ucast len) buf tr;
             Some (if result = OK then to_int len else SYSERR, tr) }
      else if remotept u = 0 \<or> natype (remoteip u) = 0 then Some (SYSERR, tr)
      else udpWrite_loop env u buf (unat len) 0 tr)"

section \<open>Receiving\<close>

abbreviation (input) NO_MATCH :: nat where "NO_MATCH \<equiv> 0"
abbreviation (input) DEST_MATCH :: nat where "DEST_MATCH \<equiv> 1"
abbreviation (input) PARTIAL_MATCH :: nat where "PARTIAL_MATCH \<equiv> 2"
abbreviation (input) FULL_MATCH :: nat where "FULL_MATCH \<equiv> 3"

fun udpDemux_loop :: "u16 \<Rightarrow> u16 \<Rightarrow> netaddr \<Rightarrow> netaddr \<Rightarrow> nat \<Rightarrow> nat option \<Rightarrow> nat \<Rightarrow> udp list \<Rightarrow> nat option option" where
  "udpDemux_loop dstpt srcpt dstip srcip i ptr match [] = Some ptr"
| "udpDemux_loop dstpt srcpt dstip srcip i ptr match (u # us) =
     (if ustate u = UDP_FREE then udpDemux_loop dstpt srcpt dstip srcip (i + 1) ptr match us
      else do {
        bound \<leftarrow> netaddrequal (localip u) dstip;
        if \<not> bound then udpDemux_loop dstpt srcpt dstip srcip (i + 1) ptr match us
        else do {
          full \<leftarrow> (if match < FULL_MATCH \<and> localpt u = dstpt \<and> remotept u = srcpt then netaddrequal (remoteip u) srcip else Some False);
          if full then Some (Some i)
          else
            let (ptr, match) = (if match < PARTIAL_MATCH \<and> localpt u = dstpt \<and> remotept u = srcpt \<and> natype (remoteip u) = 0
                  then (Some i, PARTIAL_MATCH) else (ptr, match));
                (ptr, match) = (if match < DEST_MATCH \<and> localpt u = dstpt \<and> remotept u = 0 \<and> natype (remoteip u) = 0
                  then (Some i, DEST_MATCH) else (ptr, match))
            in udpDemux_loop dstpt srcpt dstip srcip (i + 1) ptr match us } })"

definition udpDemux :: "u16 \<Rightarrow> u16 \<Rightarrow> netaddr \<Rightarrow> netaddr \<Rightarrow> udp list \<Rightarrow> nat option option" where
  "udpDemux dstpt srcpt dstip srcip tab = udpDemux_loop dstpt srcpt dstip srcip 0 None NO_MATCH tab"

definition bind_first :: "u16 \<Rightarrow> netaddr \<Rightarrow> netaddr \<Rightarrow> udp \<Rightarrow> udp" where
  "bind_first srcPort src dst u =
     (if uflags u AND UDP_FLAG_BINDFIRST \<noteq> 0
      then u\<lparr>remotept := srcPort, localip := dst, remoteip := src, uflags := uflags u AND NOT UDP_FLAG_BINDFIRST\<rparr> else u)"

definition udp_enqueue :: "bytes \<Rightarrow> udp \<Rightarrow> udp" where
  "udp_enqueue buf u = u\<lparr>udpin := (udpin u)(nat ((istart u + icount u) mod int UDP_MAX_PKTS) := buf), icount := icount u + 1\<rparr>"

definition udp_store :: "ipenv \<Rightarrow> packet \<Rightarrow> u16 \<Rightarrow> netaddr \<Rightarrow> netaddr \<Rightarrow> udp \<Rightarrow> ip_call list \<Rightarrow> (int \<times> udp \<times> ip_call list) option" where
  \<comment> \<open>\<^verbatim>\<open>udpRecv\<close> once the control block is known; the header is in host order\<close>
  "udp_store env pkt srcPort src dst u tr =
     (if icount u \<ge> int UDP_MAX_PKTS then Some (SYSERR, u, tr @ [NetFreebuf])
      else do {
        let u = bind_first srcPort src dst u;
        let tr = tr @ [UdpGetbuf (inPool u)];
        if answer env tr = SYSERR then Some (SYSERR, u, tr @ [NetFreebuf])
        else do {
          len \<leftarrow> rd16 (pdata pkt) (pcurr pkt + 4);
          s \<leftarrow> get_bytes 0 4 (naddr src);
          t \<leftarrow> get_bytes 0 4 (naddr dst);
          let l = (ucast len :: u16);
          seg \<leftarrow> get_bytes (pcurr pkt) (unat len) (pdata pkt);
          b \<leftarrow> put_bytes 0 (pseudo_hdr s t [ucast l, ucast (drop_bit 8 l)]) (replicate NET_MAX_PKTLEN 0);
          b \<leftarrow> put_bytes PSEUDO_LEN seg b;
          Some (OK, udp_enqueue b u, tr @ [SemSignal (isem u), NetFreebuf]) } })"

definition udpRecv ::
    "ipenv \<Rightarrow> packet \<Rightarrow> netaddr \<Rightarrow> netaddr \<Rightarrow> udp list \<Rightarrow> ip_call list \<Rightarrow> (int \<times> udp list \<times> ip_call list) option" where
  "udpRecv env pkt src dst tab tr = do {
     c \<leftarrow> rd16 (pdata pkt) (pcurr pkt + 6);
     len \<leftarrow> rd16 (pdata pkt) (pcurr pkt + 4);
     sum \<leftarrow> (if c \<noteq> 0 then udpChksum pkt (ucast (net2hs len)) src dst else Some 0);
     if sum \<noteq> 0 then Some (SYSERR, tab, tr @ [NetFreebuf])
     else do {
       d \<leftarrow> swap16 (pcurr pkt) (pdata pkt);
       d \<leftarrow> swap16 (pcurr pkt + 2) d;
       d \<leftarrow> swap16 (pcurr pkt + 4) d;
       srcPort \<leftarrow> rd16 d (pcurr pkt);
       dstPort \<leftarrow> rd16 d (pcurr pkt + 2);
       let pkt = pkt\<lparr>pdata := d\<rparr>;
       m \<leftarrow> udpDemux (ucast dstPort) (ucast srcPort) dst src tab;
       case m of
         None \<Rightarrow> do {
           d \<leftarrow> swap16 (pcurr pkt) d;
           d \<leftarrow> swap16 (pcurr pkt + 2) d;
           d \<leftarrow> swap16 (pcurr pkt + 4) d;
           Some (SYSERR, tab, tr @ [DestUnreach (pkt\<lparr>pdata := d\<rparr>) ICMP_PORT_UNR, NetFreebuf]) }
       | Some i \<Rightarrow> do {
           (r, u, tr) \<leftarrow> udp_store env pkt (ucast srcPort) src dst (tab ! i) tr;
           Some (r, tab[i := u], tr) } } }"

text \<open>\<^verbatim>\<open>udpRead\<close> until it waits for a datagram: the result, or \<open>None\<close> when it calls \<^verbatim>\<open>wait\<close>.\<close>

definition udpRead_enter :: "udp \<Rightarrow> int option" where
  "udpRead_enter u =
     (if ustate u \<noteq> UDP_OPEN then Some SYSERR
      else if uflags u AND UDP_FLAG_NOBLOCK \<noteq> 0 \<and> icount u < 1 then Some 0
      else None)"

definition udpRead_take :: "u32 \<Rightarrow> udp \<Rightarrow> ip_call list \<Rightarrow> (int \<times> bytes \<times> udp \<times> ip_call list) option" where
  \<comment> \<open>the result and the bytes stored in the caller's buffer\<close>
  "udpRead_take len u tr =
     (if ustate u \<noteq> UDP_OPEN then Some (SYSERR, [], u, tr)
      else do {
        let b = udpin u (nat (istart u));
        let u = u\<lparr>istart := (istart u + 1) mod int UDP_MAX_PKTS, icount := icount u - 1\<rparr>;
        l \<leftarrow> rd16 b (PSEUDO_LEN + 4);
        let (cnt, off) = (if uflags u AND UDP_FLAG_PASSIVE \<noteq> 0 then (l + of_nat PSEUDO_LEN, 0) else (l - of_nat UDP_HDR_LEN, PSEUDO_LEN + UDP_HDR_LEN));
        let cnt = (if cnt > len then len else cnt);
        data \<leftarrow> get_bytes off (unat cnt) b;
        Some (to_int cnt, data, u, tr @ [UdpFreebuf]) })"

section \<open>The device\<close>

definition udpInit :: "udp \<Rightarrow> int \<times> udp" where
  "udpInit u = (OK, zero_udp)"

fun udpAlloc_loop :: "nat \<Rightarrow> udp list \<Rightarrow> nat option" where
  "udpAlloc_loop i [] = None"
| "udpAlloc_loop i (u # us) = (if ustate u = UDP_FREE then Some i else udpAlloc_loop (i + 1) us)"

definition udpAlloc :: "nat \<Rightarrow> udp list \<Rightarrow> u16 \<times> udp list" where
  \<comment> \<open>\<open>base\<close> is the device number \<^verbatim>\<open>UDP0\<close>\<close>
  "udpAlloc base tab = (case udpAlloc_loop 0 tab of
       None \<Rightarrow> (of_int SYSERR, tab)
     | Some i \<Rightarrow> (of_nat (i + base), tab[i := (tab ! i)\<lparr>ustate := UDP_ALLOC\<rparr>]))"

partial_function (option) udp_port_loop :: "udp list \<Rightarrow> nat \<Rightarrow> nat \<Rightarrow> nat option" where
  \<comment> \<open>after a conflict the scan is restarted with \<^verbatim>\<open>i = 0\<close>, which the loop increments\<close>
  "udp_port_loop tab i port =
     (if i < length tab
      then if unat (localpt (tab ! i)) = port + 10000 \<or> port + 10000 = 33434
           then udp_port_loop tab 1 ((port + 1) mod 55000)
           else udp_port_loop tab (i + 1) port
      else Some port)"

declare udp_port_loop.simps [code]

definition udp_allocPort :: "udp list \<Rightarrow> nat \<Rightarrow> (u16 \<times> nat) option" where
  "udp_allocPort tab nextport = do {
     port \<leftarrow> udp_port_loop tab 0 ((nextport + 1) mod 55000);
     Some (of_nat (port + 10000), port) }"

definition udpOpen ::
    "ipenv \<Rightarrow> nat \<Rightarrow> netaddr option \<Rightarrow> netaddr option \<Rightarrow> u16 \<Rightarrow> u16 \<Rightarrow> udp list \<times> nat \<Rightarrow> ip_call list \<Rightarrow> (int \<times> (udp list \<times> nat) \<times> ip_call list) option" where
  "udpOpen env i lip rip lpt rpt st tr = (case st of (tab, nextport) \<Rightarrow>
     if length tab \<le> i then None
     else if ustate (tab ! i) = UDP_OPEN then Some (SYSERR, (tab, nextport), tr)
     else
       let tr = tr @ [SemCreate 0];
           sem = answer env tr;
           u = (tab ! i)\<lparr>ustate := UDP_OPEN, icount := 0, istart := 0, isem := to_u32 sem\<rparr>
       in if sem = SYSERR then Some (SYSERR, (tab[i := u\<lparr>ustate := UDP_FREE\<rparr>], nextport), tr)
          else (case lip of
              None \<Rightarrow> Some (SYSERR, (tab[i := u\<lparr>ustate := UDP_FREE\<rparr>], nextport), tr @ [SemFree (isem u)])
            | Some lip \<Rightarrow> do {
                let u = u\<lparr>localip := lip, remoteip := (case rip of None \<Rightarrow> zero_addr | Some a \<Rightarrow> a)\<rparr>;
                (lpt, nextport) \<leftarrow> (if lpt = 0 then udp_allocPort (tab[i := u]) nextport else Some (lpt, nextport));
                let u = u\<lparr>localpt := lpt, remotept := rpt\<rparr>;
                let tr = tr @ [BfpAlloc NET_MAX_PKTLEN UDP_MAX_PKTS];
                let pool = answer env tr;
                let u = u\<lparr>inPool := pool\<rparr>;
                if pool = SYSERR
                then Some (SYSERR, (tab[i := u\<lparr>localpt := 0, ustate := UDP_FREE\<rparr>], nextport), tr @ [SemFree (isem u)])
                else Some (OK, (tab[i := u\<lparr>uflags := 0\<rparr>], nextport), tr) }))"

definition udpClose :: "udp \<Rightarrow> ip_call list \<Rightarrow> int \<times> udp \<times> ip_call list" where
  "udpClose u tr =
     (if ustate u \<noteq> UDP_OPEN then (SYSERR, u, tr)
      else (OK, zero_udp\<lparr>ustate := UDP_FREE\<rparr>, tr @ [BfpFree (inPool u), SemFree (isem u)]))"

definition udpControl :: "int \<Rightarrow> u32 \<Rightarrow> netaddr option \<Rightarrow> udp \<Rightarrow> int \<times> udp" where
  \<comment> \<open>\<^verbatim>\<open>arg2\<close> is a pointer to an address or \<^verbatim>\<open>NULL\<close>\<close>
  "udpControl func arg1 arg2 u =
     (if func = 1 then let u = u\<lparr>localpt := ucast arg1\<rparr> in
        (case arg2 of None \<Rightarrow> (SYSERR, u) | Some a \<Rightarrow> (OK, u\<lparr>localip := a\<rparr>))
      else if func = 2 then (OK, u\<lparr>remotept := ucast arg1, remoteip := (case arg2 of None \<Rightarrow> zero_addr | Some a \<Rightarrow> a)\<rparr>)
      else if func = 3 then (uint (uflags u AND ucast arg1), u\<lparr>uflags := uflags u AND NOT (ucast arg1)\<rparr>)
      else if func = 4 then (uint (uflags u AND ucast arg1), u\<lparr>uflags := uflags u OR ucast arg1\<rparr>)
      else (SYSERR, u))"

end
