(* ===== verification/Ip_Frame.thy ===== *)
theory Ip_Frame
  imports Ip
begin

text \<open>
  What the senders write to the device: the bytes of the frames, that a received frame is parsed back to what
  was sent, and what becomes of a packet that needs fragments.
\<close>

section \<open>Accesses to packet buffers\<close>

lemma get_bytes_ok [simp]: "i + n \<le> length d \<Longrightarrow> get_bytes i n d = Some (take n (drop i d))"
  by (simp add: get_bytes_def)

lemma put_bytes_ok: "i + length bs \<le> length d \<Longrightarrow> put_bytes i bs d = Some (take i d @ bs @ drop (i + length bs) d)"
  by (simp add: put_bytes_def)

lemma put_bytes_append:
  "put_bytes (length a + k) bs (a @ d) = map_option ((@) a) (put_bytes k bs d)"
  "k + length bs \<le> length d \<Longrightarrow> put_bytes k bs (d @ e) = map_option (\<lambda>x. x @ e) (put_bytes k bs d)"
  by (auto simp: put_bytes_def)

lemma wr16_append:
  "wr16 (length a + k) v (a @ d) = map_option ((@) a) (wr16 k v d)"
  "k + 2 \<le> length d \<Longrightarrow> wr16 k v (d @ e) = map_option (\<lambda>x. x @ e) (wr16 k v d)"
  by (simp_all add: wr16_def put_bytes_append)

lemma put_bytes_length: "put_bytes i bs d = Some d' \<Longrightarrow> length d' = length d"
  by (auto simp: put_bytes_def split: if_splits)

lemma wr16_length: "wr16 i v d = Some d' \<Longrightarrow> length d' = length d"
  by (auto simp: wr16_def dest: put_bytes_length)

lemma length_be [simp]: "length (be16 x) = 2" "length (be32 y) = 4"
  by (simp_all add: be16_def be32_def)

lemma bit_u16: "bit (ucast (w::u16) :: u32) n \<longleftrightarrow> n < 16 \<and> bit w n"
  by (auto simp: bit_simps dest: bit_imp_le_length)

lemma net_bytes: "[ucast (ucast (hs2net x) :: u16), ucast (drop_bit 8 (ucast (hs2net x) :: u16))] = be16 (ucast x)"
proof -
  have ff: "(0xff::u32) = mask 8" by (simp add: mask_eq_exp_minus_1)
  have "(ucast (ucast (hs2net x) :: u16) :: u8) = ucast (drop_bit 8 (ucast x :: u16))"
    unfolding hs2net_def ff
    by (rule bit_word_eqI) (simp add: bit_bytes bit_or_iff bit_and_iff bit_drop_bit_eq bit_mask_iff)
  moreover have "(ucast (drop_bit 8 (ucast (hs2net x) :: u16)) :: u8) = ucast (ucast x :: u16)"
    unfolding hs2net_def ff
    by (rule bit_word_eqI) (simp add: bit_bytes bit_or_iff bit_and_iff bit_drop_bit_eq bit_mask_iff)
  ultimately show ?thesis by (simp add: be16_def)
qed

lemma be16_round: "be16 (ucast (ucast (x :: u16) :: u32)) = be16 x"
  by (rule arg_cong [where f = be16], rule bit_word_eqI) (simp add: bit_bytes bit_u16)

lemma wr16_net: "wr16 i (ucast (hs2net x)) d = put_bytes i (be16 (ucast x)) d"
  unfolding wr16_def net_bytes ..

lemma net2hs_ucast: "net2hs (ucast (ucast (drop_bit 8 x) :: u8) + 256 * ucast (ucast x :: u8)) = ucast (x::u16)"
proof -
  have ff: "(0xff::u32) = mask 8" by (simp add: mask_eq_exp_minus_1)
  show ?thesis unfolding hs2net_def ff ucast_sum
  proof (rule bit_word_eqI)
    fix n assume "n < LENGTH(32)"
    consider "n < 8" | "8 \<le> n" "n < 16" | "16 \<le> n" by linarith
    then show "bit ((drop_bit 8 (ucast (ucast (drop_bit 8 x) :: u8) OR push_bit 8 (ucast (ucast x :: u8))) AND mask 8) OR
        push_bit 8 ((ucast (ucast (drop_bit 8 x) :: u8) OR push_bit 8 (ucast (ucast x :: u8))) AND mask 8) :: u32) n = bit (ucast x :: u32) n"
      unfolding bit_bytes bit_u16 bit_or_iff bit_and_iff bit_drop_bit_eq bit_mask_iff o_apply
      by cases (simp_all add: less_diff_conv2, arith)
  qed
qed

lemma rd16_be16:
  assumes "take 2 (drop i d) = be16 x"
  shows "map_option net2hs (rd16 d i) = Some (ucast x)"
proof -
  have "length (take 2 (drop i d)) = 2" using assms by simp
  then have l: "i + 1 < length d" by (simp split: if_splits)
  then have "drop i d = d ! i # d ! (i + 1) # drop (i + 2) d" by (simp add: Cons_nth_drop_Suc)
  then have "d ! i = ucast (drop_bit 8 x)" "d ! (i + 1) = ucast x" using assms by (simp_all add: be16_def)
  then show ?thesis using l net2hs_ucast [of x] by (simp add: rd16_def rd_def)
qed

lemma unat_of_small:
  "k < 4294967296 \<Longrightarrow> unat (of_nat k :: u32) = k"
  "k < 65536 \<Longrightarrow> unat (of_nat k :: u16) = k"
  "k < 65536 \<Longrightarrow> (ucast (of_nat k :: u32) :: u16) = of_nat k"
  "k < 65536 \<Longrightarrow> (ucast (of_nat k :: u16) :: u32) = of_nat k"
  by (simp_all add: unat_of_nat take_bit_nat_eq_self word_unat_eq_iff unsigned_ucast_eq)

section \<open>Checksums\<close>

lemma netChksum_take:
  assumes "n \<le> length d" "n \<le> 131070"
  shows "netChksum (d @ e) n = netChksum d n"
proof -
  obtain c where c: "netChksum d n = Some c" "unat c = 65535 - fold16 (wsum (take n d))" using netChksum_ok [OF assms] by auto
  obtain c' where c': "netChksum (d @ e) n = Some c'" "unat c' = 65535 - fold16 (wsum (take n (d @ e)))"
    using netChksum_ok [of n "d @ e"] assms by auto
  have "c' = c" using c(2) c'(2) assms(1) by (simp add: word_unat_eq_iff)
  then show ?thesis using c c' by simp
qed

text \<open>Storing the checksum of the first \<open>n\<close> bytes of \<open>d\<close>.\<close>

lemma wr16_put16: "i + 2 \<le> length d \<Longrightarrow> wr16 i v d = Some (put16 d i v)"
proof -
  assume a: "i + 2 \<le> length d"
  then have "d = take i d @ d ! i # d ! Suc i # drop (i + 2) d"
    by (simp add: Cons_nth_drop_Suc)
  then have "put16 d i v = (take i d @ d ! i # d ! Suc i # drop (i + 2) d)[i := ucast v, i + 1 := ucast (drop_bit 8 v)]"
    by (simp add: put16_def)
  also have "\<dots> = take i d @ ucast v # ucast (drop_bit 8 v) # drop (i + 2) d" using a by (simp add: list_update_append)
  finally have "put16 d i v = take i d @ ucast v # ucast (drop_bit 8 v) # drop (i + 2) d" .
  then show ?thesis using a by (simp add: wr16_def put_bytes_ok)
qed

lemma set_chksum_ok:
  assumes "i + 2 \<le> n" "n \<le> length d" "n \<le> 131070" "even i"
  shows "\<exists>c. set_chksum (length a + i) n (length a) (a @ d @ e) = Some (a @ put16 d i c @ e) \<and> netChksum (put16 d i c) n = Some 0"
proof -
  have l: "length (put16 d i 0) = length d" by simp
  obtain c where c: "netChksum (put16 d i 0) n = Some c" using netChksum_ok [of n "put16 d i 0"] assms l by auto
  have w: "wr16 (length a + i) v (a @ x @ e) = Some (a @ put16 x i v @ e)" if "length x = length d" for v x
    using that assms wr16_append(1) [of a i v "x @ e"] wr16_append(2) [of i x v e] by (simp add: wr16_put16)
  have "put16 (put16 d i 0) i c = put16 d i c" by (simp add: put16_def list_update_swap)
  moreover have "put16 d i 0 ! i = 0" "put16 d i 0 ! (i + 1) = 0" using assms by (simp_all add: put16_def)
  then have "netChksum (put16 (put16 d i 0) i c) n = Some 0" using assms l c by (intro netChksum_verify) auto
  moreover have "set_chksum (length a + i) n (length a) (a @ d @ e) = Some (a @ put16 (put16 d i 0) i c @ e)"
    using w assms l c by (simp add: set_chksum_def netChksum_take)
  ultimately show ?thesis by auto
qed

section \<open>Frames\<close>

fun frames :: "ip_call list \<Rightarrow> bytes list" where
  "frames [] = []"
| "frames (DevWrite dev f # cs) = f # frames cs"
| "frames (_ # cs) = frames cs"

lemma frames_append [simp]: "frames (xs @ ys) = frames xs @ frames ys"
  by (induction xs rule: frames.induct) auto

definition hw_addr :: "netaddr \<Rightarrow> bool" where
  "hw_addr a \<longleftrightarrow> nalen a = 6 \<and> 6 \<le> length (naddr a)"

lemma hw_addr_octets [simp]: "hw_addr a \<Longrightarrow> length (octets a) = 6" "hw_addr a \<Longrightarrow> get_bytes 0 (unat (nalen a)) (naddr a) = Some (octets a)"
  by (simp_all add: hw_addr_def octets_def)

text \<open>An Ethernet interface that works: addresses are resolved and the device takes the whole frame.\<close>

definition link_up :: "ipenv \<Rightarrow> nat \<Rightarrow> bool" where
  "link_up env n \<longleftrightarrow> n < length (netiftab env) \<and> nifstate (netiftab env ! n) = NET_ALLOC \<and> niflinkhdrlen (netiftab env ! n) = 14 \<and>
     hw_addr (nifhwaddr (netiftab env ! n)) \<and>
     (\<forall>tr p. answer env (tr @ [ArpLookup n p]) = OK \<and> hw_addr (resolved env (tr @ [ArpLookup n p]))) \<and>
     (\<forall>tr dev f. answer env (tr @ [DevWrite dev f]) = int (length f))"

lemma netSend_ok:
  assumes up: "link_up env n" and p: "pnif pkt = Some n" "pcurr pkt = length pre + 14" "pdata pkt = pre @ lh @ body @ tail" "length lh = 14"
    "unat (plen pkt) = length body" "length body < 60000" and hw: "\<forall>a. hwaddr = Some a \<longrightarrow> hw_addr a"
  shows "\<exists>dst tr'. netSend env hwaddr praddr ty pkt tr = Some (OK, pkt\<lparr>pcurr := length pre, plen := plen pkt + 14,
      pdata := pre @ (dst @ octets (nifhwaddr (netiftab env ! n)) @ be16 ty) @ body @ tail\<rparr>, tr') \<and>
    dst = octets (case hwaddr of None \<Rightarrow> resolved env (tr @ [ArpLookup n praddr]) | Some a \<Rightarrow> a) \<and> length dst = 6 \<and>
    frames tr' = frames tr @ [(dst @ octets (nifhwaddr (netiftab env ! n)) @ be16 ty) @ body]"
proof -
  let ?if = "netiftab env ! n"
  have i: "nif_at env (Some n) = Some ?if" "nifstate ?if = NET_ALLOC" "niflinkhdrlen ?if = 14" "hw_addr (nifhwaddr ?if)" "length (octets (nifhwaddr ?if)) = 6"
    using up by (auto simp: link_up_def nif_at_def)
  obtain l1 l2 where l: "lh = l1 @ l2" "length l1 = 12" "length l2 = 2" using p(4) by (intro that [of "take 12 lh" "drop 12 lh"]) auto
  obtain l3 l4 where l': "l1 = l3 @ l4" "length l3 = 6" "length l4 = 6" using l(2) by (intro that [of "take 6 l1" "drop 6 l1"]) auto
  define pkt1 where "pkt1 = pkt\<lparr>pcurr := length pre, plen := plen pkt + 14\<rparr>"
  have ph: "push_hdr 14 pkt = Some pkt1" using p(2) by (simp add: push_hdr_def pkt1_def)
  have len: "unat (plen pkt + 14) = 14 + length body"
    using p(5,6) unat_add_no_wrap [of "plen pkt" 14] by simp
  define d1 where "d1 = pre @ l3 @ l4 @ be16 ty @ body @ tail"
  have w1: "wr16 (length pre + 12) (ucast (hs2net (ucast ty))) (pdata pkt) = Some d1"
    unfolding wr16_net using put_bytes_append(1) [of "pre @ l1" 0 "be16 ty" "l2 @ body @ tail"] l l' p(3)
    by (simp add: d1_def put_bytes_def be16_round)
  define d2 where "d2 = pre @ l3 @ octets (nifhwaddr ?if) @ be16 ty @ body @ tail"
  have w2: "put_bytes (length pre + 6) (octets (nifhwaddr ?if)) d1 = Some d2"
    using put_bytes_append(1) [of "pre @ l3" 0 "octets (nifhwaddr ?if)" "l4 @ be16 ty @ body @ tail"] l' i(5)
    by (simp add: d1_def d2_def put_bytes_def)
  define tr1 where "tr1 = (case hwaddr of None \<Rightarrow> tr @ [ArpLookup n praddr] | Some _ \<Rightarrow> tr)"
  define hw where "hw = (case hwaddr of None \<Rightarrow> resolved env tr1 | Some a \<Rightarrow> a)"
  have h: "hw_addr hw" "length (octets hw) = 6" using up hw by (auto simp: hw_def tr1_def link_up_def split: option.splits)
  define d3 where "d3 = pre @ octets hw @ octets (nifhwaddr ?if) @ be16 ty @ body @ tail"
  have w3: "put_bytes (length pre) (octets hw) d2 = Some d3"
    using put_bytes_append(1) [of pre 0 "octets hw" "l3 @ octets (nifhwaddr ?if) @ be16 ty @ body @ tail"] l' h
    by (simp add: d2_def d3_def put_bytes_def)
  define frame where "frame = (octets hw @ octets (nifhwaddr ?if) @ be16 ty) @ body"
  have w4: "get_bytes (length pre) (unat (plen pkt + 14)) d3 = Some frame"
    using h i(5) by (simp add: len d3_def frame_def)
  define tr2 where "tr2 = tr1 @ [DevWrite (nifdev ?if) frame]"
  have lf: "length frame = unat (plen pkt + 14)" using h i(5) len by (simp add: frame_def)
  have "answer env tr2 = int (length frame)" using up unfolding link_up_def tr2_def by blast
  then have ans: "to_u32 (answer env tr2) = plen pkt + 14" unfolding lf by (simp add: to_u32_def)
  have arp: "answer env (tr @ [ArpLookup n praddr]) = OK" using up by (simp add: link_up_def)
  have case_eq: "(case hwaddr of None \<Rightarrow> let tr = tr @ [ArpLookup n praddr] in (answer env tr, resolved env tr, tr) | Some a \<Rightarrow> (OK, a, tr)) = (OK, hw, tr1)"
    using arp by (auto simp: hw_def tr1_def Let_def split: option.splits)
  define tr3 where "tr3 = (if captured env n then tr2 @ [SnoopCapture n frame] else tr2)"
  have "netSend env hwaddr praddr ty pkt tr = Some (OK, pkt1\<lparr>pdata := d3\<rparr>, tr3)"
    unfolding netSend_def p(1) option.case i(1) i(3) ph
    using i w1 w2 w3 w4 h ans case_eq
    by (simp add: ph Let_def tr3_def pkt1_def flip: tr2_def)
  moreover have "frames tr3 = frames tr @ [frame]" by (auto simp: tr3_def tr2_def tr1_def split: option.splits)
  moreover have "octets hw = octets (case hwaddr of None \<Rightarrow> resolved env (tr @ [ArpLookup n praddr]) | Some a \<Rightarrow> a)" "length (octets hw) = 6"
    using h by (auto simp: hw_def tr1_def split: option.splits)
  ultimately show ?thesis
    by (intro exI [of _ "octets hw"] exI [of _ tr3]) (simp add: pkt1_def d3_def frame_def)
qed

section \<open>The IPv4 header\<close>

definition ip_hdr :: "u16 \<Rightarrow> u8 \<Rightarrow> bytes \<Rightarrow> bytes \<Rightarrow> u16 \<Rightarrow> bytes" where
  "ip_hdr len proto src dst c = [0x45, 0] @ be16 len @ [0, 0, 0, 0, IPv4_TTL, proto, ucast c, ucast (drop_bit 8 c)] @ src @ dst"

lemma length_ip_hdr [simp]: "length src = 4 \<Longrightarrow> length dst = 4 \<Longrightarrow> length (ip_hdr len proto src dst c) = 20"
  by (simp add: ip_hdr_def)

lemma put_bytes_mid:
  "k + length bs \<le> length h \<Longrightarrow>
   put_bytes (length a + k) bs (a @ h @ e) = Some (a @ (take k h @ bs @ drop (k + length bs) h) @ e)"
  by (simp add: put_bytes_append put_bytes_ok)

lemma wr16_mid:
  "k + 2 \<le> length h \<Longrightarrow> wr16 (length a + k) v (a @ h @ e) = Some (a @ (take k h @ [ucast v, ucast (drop_bit 8 v)] @ drop (k + 2) h) @ e)"
  by (simp add: wr16_def put_bytes_mid [of _ "[_, _]", simplified])

lemma ip_header_ok:
  assumes "length h = 20" "length src = 4" "length dst = 4"
  shows "\<exists>c. ip_header (length pre) len proto src dst (pre @ h @ tail) = Some (pre @ ip_hdr (ucast len) proto src dst c @ tail) \<and>
    netChksum (ip_hdr (ucast len) proto src dst c) 20 = Some 0"
proof -
  define d1 where "d1 = take 0 h @ [0x45, 0] @ drop 2 h"
  define d2 where "d2 = take 2 d1 @ be16 (ucast len) @ drop 4 d1"
  define d3 where "d3 = take 4 d2 @ [0, 0] @ drop 6 d2"
  define d4 where "d4 = take 6 d3 @ [0, 0] @ drop 8 d3"
  define d5 where "d5 = take 8 d4 @ [IPv4_TTL, proto] @ drop 10 d4"
  define d6 where "d6 = take 12 d5 @ src @ drop 16 d5"
  define d7 where "d7 = take 16 d6 @ dst @ drop 20 d6"
  note ds = d1_def d2_def d3_def d4_def d5_def d6_def d7_def
  have l: "length d1 = 20" "length d2 = 20" "length d3 = 20" "length d4 = 20" "length d5 = 20" "length d6 = 20" "length d7 = 20"
    using assms by (simp_all add: ds)
  have w1: "put_bytes (length pre) [0x45, 0] (pre @ h @ tail) = Some (pre @ d1 @ tail)"
    using put_bytes_mid [of 0 "[0x45, 0]" h pre tail] assms by (simp add: d1_def numeral_2_eq_2)
  have w2: "wr16 (length pre + 2) (ucast (hs2net len)) (pre @ d1 @ tail) = Some (pre @ d2 @ tail)"
    unfolding wr16_net using put_bytes_mid [of 2 "be16 (ucast len)" d1 pre tail] l by (simp add: d2_def)
  have w3: "wr16 (length pre + 4) 0 (pre @ d2 @ tail) = Some (pre @ d3 @ tail)"
    using wr16_mid [of 4 d2 pre 0 tail] l by (simp add: d3_def)
  have w4: "wr16 (length pre + 6) 0 (pre @ d3 @ tail) = Some (pre @ d4 @ tail)"
    using wr16_mid [of 6 d3 pre 0 tail] l by (simp add: d4_def)
  have w5: "put_bytes (length pre + 8) [IPv4_TTL, proto] (pre @ d4 @ tail) = Some (pre @ d5 @ tail)"
    using put_bytes_mid [of 8 "[IPv4_TTL, proto]" d4 pre tail] l by (simp add: d5_def eval_nat_numeral)
  have w6: "put_bytes (length pre + 12) src (pre @ d5 @ tail) = Some (pre @ d6 @ tail)"
    using put_bytes_mid [of 12 src d5 pre tail] l assms by (simp add: d6_def)
  have w7: "put_bytes (length pre + 16) dst (pre @ d6 @ tail) = Some (pre @ d7 @ tail)"
    using put_bytes_mid [of 16 dst d6 pre tail] l assms by (simp add: d7_def)
  have "ip_header (length pre) len proto src dst (pre @ h @ tail) = set_chksum (length pre + 10) 20 (length pre) (pre @ d7 @ tail)"
    by (simp add: ip_header_def w1 w2 w3 w4 w5 w6 w7 del: add_2_eq_Suc')
  moreover have "put16 d7 10 c = ip_hdr (ucast len) proto src dst c" for c
    using assms l by (auto simp: put16_def ip_hdr_def ds be16_def length_Suc_conv numeral_eq_Suc)
  ultimately show ?thesis using set_chksum_ok [of 10 20 d7 pre tail] l by auto
qed

section \<open>Sending a packet that needs no fragments\<close>

definition eth_frame :: "bytes \<Rightarrow> netif \<Rightarrow> bytes \<Rightarrow> bytes" where
  "eth_frame mac nif body = (mac @ octets (nifhwaddr nif) @ be16 ETHER_TYPE_IPv4) @ body"

definition next_mac :: "ipenv \<Rightarrow> nat \<Rightarrow> netaddr \<Rightarrow> ip_call list \<Rightarrow> bytes" where
  "next_mac env n nxthop tr =
     (let brc = nifipbrc (netiftab env ! n)
      in if same_kind brc nxthop \<and> octets brc = octets nxthop then replicate 6 0xFF
         else octets (resolved env (tr @ [ArpLookup n (Some nxthop)])))"

lemma length_next_mac: "link_up env n \<Longrightarrow> length (next_mac env n hop tr) = 6"
  by (auto simp: next_mac_def link_up_def Let_def)

definition addr_ok :: "netaddr \<Rightarrow> bool" where
  "addr_ok a \<longleftrightarrow> 4 \<le> length (naddr a) \<and> unat (nalen a) \<le> length (naddr a)"

lemma eth_brc [simp]: "hw_addr NETADDR_GLOBAL_ETH_BRC" "octets NETADDR_GLOBAL_ETH_BRC = replicate 6 0xFF"
  by (simp_all add: hw_addr_def octets_def NETADDR_GLOBAL_ETH_BRC_def)

lemma ipv4SendFrag_small:
  assumes up: "link_up env n" and p: "pnif pkt = Some n" "pcurr pkt = length pre + 14" "pdata pkt = pre @ lh @ body @ tail" "length lh = 14"
    "unat (plen pkt) = length body" "length body < 60000" and a: "addr_ok nxthop" "addr_ok (nifipbrc (netiftab env ! n))"
    and len: "take 2 (drop 2 body) = be16 (of_nat (length body))" and mtu: "length body \<le> unat (nifmtu (netiftab env ! n))"
  shows "\<exists>pkt' tr'. ipv4SendFrag env nxthop pkt tr = Some (OK, pkt', tr') \<and>
    frames tr' = frames tr @ [eth_frame (next_mac env n nxthop tr) (netiftab env ! n) body]"
proof -
  let ?if = "netiftab env ! n"
  have i: "nif_at env (Some n) = Some ?if" using up by (simp add: link_up_def nif_at_def)
  have "take 2 (drop (length pre + 14 + 2) (pdata pkt)) = take 2 (drop 2 (body @ tail))" using p by simp
  also have "\<dots> = take 2 (drop 2 body)"
  proof -
    have "length (take 2 (drop 2 body)) = 2" using len by simp
    then show ?thesis by (simp add: min_def split: if_splits)
  qed
  finally have "map_option net2hs (rd16 (pdata pkt) (length pre + 14 + 2)) = Some (ucast (of_nat (length body) :: u16))"
    using len by (intro rd16_be16) simp
  moreover have u: "(ucast (of_nat (length body) :: u16) :: u32) = of_nat (length body)"
    using p(6) by (simp add: word_unat_eq_iff unsigned_ucast_eq unat_of_nat take_bit_nat_eq_self)
  ultimately obtain l where l: "rd16 (pdata pkt) (length pre + 14 + 2) = Some l" "net2hs l = of_nat (length body)"
    by (auto simp: map_option_case split: option.splits)
  have small: "(of_nat (length body) :: u32) \<le> nifmtu ?if"
    using mtu p(6) by (simp add: word_le_nat_alt unat_of_nat take_bit_nat_eq_self)
  define brc where "brc \<longleftrightarrow> same_kind (nifipbrc ?if) nxthop \<and> octets (nifipbrc ?if) = octets nxthop"
  have b: "netaddrequal (nifipbrc ?if) nxthop = Some brc" using a by (simp add: netaddrequal_octets addr_ok_def brc_def)
  define hw where "hw = (if brc then Some NETADDR_GLOBAL_ETH_BRC else None)"
  have f: "ipv4SendFrag env nxthop pkt tr = netSend env hw (Some nxthop) ETHER_TYPE_IPv4 pkt tr"
    unfolding ipv4SendFrag_def Let_def p(1,2) i l(1)
    by (simp add: l(2) small b i hw_def)
  have hw6: "\<forall>a. hw = Some a \<longrightarrow> hw_addr a" by (auto simp: hw_def)
  obtain dst tr' where s: "netSend env hw (Some nxthop) ETHER_TYPE_IPv4 pkt tr = Some (OK, pkt\<lparr>pcurr := length pre, plen := plen pkt + 14,
      pdata := pre @ (dst @ octets (nifhwaddr ?if) @ be16 ETHER_TYPE_IPv4) @ body @ tail\<rparr>, tr')"
    "dst = octets (case hw of None \<Rightarrow> resolved env (tr @ [ArpLookup n (Some nxthop)]) | Some a \<Rightarrow> a)"
    "frames tr' = frames tr @ [(dst @ octets (nifhwaddr ?if) @ be16 ETHER_TYPE_IPv4) @ body]"
    using netSend_ok [OF up p hw6, of "Some nxthop" ETHER_TYPE_IPv4 tr] by blast
  have "dst = next_mac env n nxthop tr" unfolding s(2) by (auto simp: hw_def next_mac_def brc_def Let_def)
  then show ?thesis using f s by (auto simp: eth_frame_def)
qed

text \<open>The next hop and the source address \<^verbatim>\<open>ipv4Send\<close> chooses.\<close>

definition next_hop :: "rtEntry \<Rightarrow> netaddr \<Rightarrow> netaddr" where
  "next_hop rt dst = (if natype (rtgateway rt) = 0 then dst else rtgateway rt)"

definition source :: "netif \<Rightarrow> netaddr \<Rightarrow> netaddr" where
  "source nif src = (if natype src = 0 then nifip nif else src)"

definition route_up :: "ipenv \<Rightarrow> netaddr \<Rightarrow> nat \<Rightarrow> nat \<Rightarrow> bool" where
  "route_up env dst r n \<longleftrightarrow> rtLookup (routes env) dst = Some (Some r) \<and> rtnif (routes env ! r) = Some n \<and> link_up env n \<and>
     natype dst = NETADDR_IPv4 \<and> addr_ok dst \<and> addr_ok (next_hop (routes env ! r) dst) \<and> addr_ok (nifipbrc (netiftab env ! n))"

lemma buffer_split:
  assumes "34 \<le> k" "k + n \<le> length d"
  obtains pre lh h tail where "d = pre @ lh @ h @ take n (drop k d) @ tail" "length pre = k - 34" "length lh = 14" "length h = 20"
proof
  have "take (k - 34) d @ take 14 (drop (k - 34) d) = take (k - 20) d" using assms take_add [of "k - 34" 14 d] by simp
  moreover have "take (k - 20) d @ take 20 (drop (k - 20) d) = take k d" using assms take_add [of "k - 20" 20 d] by simp
  moreover have "take k d @ take n (drop k d) = take (k + n) d" using take_add [of k n d] by simp
  ultimately show "d = take (k - 34) d @ take 14 (drop (k - 34) d) @ take 20 (drop (k - 20) d) @ take n (drop k d) @ drop (k + n) d"
    by (metis append.assoc append_take_drop_id)
qed (use assms in auto)

lemma ipv4Send_ok:
  assumes r: "route_up env dst r n" and s: "4 \<le> length (naddr (source (netiftab env ! n) src))"
    and p: "34 \<le> pcurr pkt" "pcurr pkt + unat (plen pkt) \<le> length (pdata pkt)" "body = take (unat (plen pkt)) (drop (pcurr pkt) (pdata pkt))"
    and len: "unat (plen pkt) + 20 < 60000" "unat (plen pkt) + 20 \<le> unat (nifmtu (netiftab env ! n))"
  shows "\<exists>c pkt' tr'. ipv4Send env src (Some dst) proto pkt tr = Some (OK, pkt', tr') \<and>
    netChksum (ip_hdr (of_nat (length body + 20)) proto (take 4 (naddr (source (netiftab env ! n) src))) (take 4 (naddr dst)) c) 20 = Some 0 \<and>
    frames tr' = frames tr @ [eth_frame (next_mac env n (next_hop (routes env ! r) dst) tr) (netiftab env ! n)
      (ip_hdr (of_nat (length body + 20)) proto (take 4 (naddr (source (netiftab env ! n) src))) (take 4 (naddr dst)) c @ body)]"
proof -
  let ?if = "netiftab env ! n" and ?hop = "next_hop (routes env ! r) dst" and ?s = "take 4 (naddr (source (netiftab env ! n) src))" and ?t = "take 4 (naddr dst)"
  have r': "rtLookup (routes env) dst = Some (Some r)" "rtnif (routes env ! r) = Some n" "link_up env n" "natype dst = NETADDR_IPv4"
    "4 \<le> length (naddr dst)" "addr_ok ?hop" "addr_ok (nifipbrc ?if)"
    using r by (auto simp: route_up_def addr_ok_def)
  have i: "nif_at env (Some n) = Some ?if" using r' by (simp add: link_up_def nif_at_def)
  obtain pre lh h tail where d: "pdata pkt = pre @ lh @ h @ body @ tail" "length pre = pcurr pkt - 34" "length lh = 14" "length h = 20"
    unfolding p(3) by (rule buffer_split [OF p(1,2)])
  have lb: "length body = unat (plen pkt)" using p by simp
  define len where "len = plen pkt + 20"
  have ul: "unat len = length body + 20" using len(1) unat_add_no_wrap [of "plen pkt" 20] by (simp add: len_def lb)
  have cl: "(ucast len :: u16) = of_nat (length body + 20)"
    using arg_cong [OF ul, of "of_nat :: nat \<Rightarrow> u16"] by simp
  obtain c where c: "ip_header (length (pre @ lh)) len proto ?s ?t ((pre @ lh) @ h @ body @ tail) = Some ((pre @ lh) @ ip_hdr (ucast len) proto ?s ?t c @ body @ tail)"
    "netChksum (ip_hdr (ucast len) proto ?s ?t c) 20 = Some 0"
    using ip_header_ok [of h ?s ?t "pre @ lh" len proto "body @ tail"] d(4) s r'(5) by auto
  define pkt1 where "pkt1 = pkt\<lparr>pnif := Some n, pcurr := length pre + 14, plen := len, pdata := pre @ lh @ (ip_hdr (ucast len) proto ?s ?t c @ body) @ tail\<rparr>"
  have ph: "push_hdr (of_nat IPv4_HDR_LEN) (pkt\<lparr>pnif := Some n\<rparr>) = Some (pkt\<lparr>pnif := Some n, pcurr := length pre + 14, plen := len\<rparr>)"
    using p(1) d(2) by (simp add: push_hdr_def len_def)
  have g: "get_bytes 0 4 (naddr (source ?if src)) = Some ?s" "get_bytes 0 4 (naddr dst) = Some ?t" using s r' by simp_all
  have "ipv4Send env src (Some dst) proto pkt tr = ipv4SendFrag env ?hop pkt1 tr"
    using r' ph i g c(1) d(1,3) by (auto simp: ipv4Send_def Let_def source_def next_hop_def pkt1_def)
  moreover have "\<exists>pkt' tr'. ipv4SendFrag env ?hop pkt1 tr = Some (OK, pkt', tr') \<and>
      frames tr' = frames tr @ [eth_frame (next_mac env n ?hop tr) ?if (ip_hdr (ucast len) proto ?s ?t c @ body)]"
  proof (rule ipv4SendFrag_small [OF r'(3)])
    show "take 2 (drop 2 (ip_hdr (ucast len) proto ?s ?t c @ body)) = be16 (of_nat (length (ip_hdr (ucast len) proto ?s ?t c @ body)))"
      using s r'(5) by (simp add: ip_hdr_def cl be16_def add.commute)
  qed (use s r' d(3) len ul lb in \<open>auto simp: pkt1_def\<close>)
  ultimately show ?thesis using c(2) unfolding cl by auto
qed

end
