(* ===== verification/Ip_Deliver.thy ===== *)
theory Ip_Deliver
  imports Ip_Frame
begin

text \<open>
  The other end of the wire: a frame that \<^verbatim>\<open>ipv4Send\<close> wrote is accepted by \<^verbatim>\<open>netRecv\<close> and \<^verbatim>\<open>ipv4Recv\<close> of the
  station it is addressed to, which hand the payload to the transport protocol.
\<close>

text \<open>The function \<^verbatim>\<open>ipv4Recv\<close> calls for a protocol number.\<close>

definition transport :: "u8 \<Rightarrow> packet \<Rightarrow> netaddr \<Rightarrow> netaddr \<Rightarrow> ip_call" where
  "transport proto pkt src dst =
     (if proto = IPv4_PROTO_ICMP then IcmpRecv pkt
      else if proto = IPv4_PROTO_UDP then UdpRecv pkt src dst
      else if proto = IPv4_PROTO_TCP then TcpRecv pkt src dst
      else RawRecv pkt src dst proto)"

text \<open>The station with hardware address \<open>mac\<close>, or whose broadcast address it is.\<close>

definition listens :: "ipenv \<Rightarrow> nat \<Rightarrow> bytes \<Rightarrow> bool" where
  "listens env m mac \<longleftrightarrow> m < length (netiftab env) \<and> niflinkhdrlen (netiftab env ! m) = 14 \<and>
     hw_addr (nifhwaddr (netiftab env ! m)) \<and> natype (nifhwaddr (netiftab env ! m)) = NETADDR_ETHERNET \<and>
     hw_addr (nifhwbrc (netiftab env ! m)) \<and> natype (nifhwbrc (netiftab env ! m)) = NETADDR_ETHERNET \<and>
     mac \<in> {octets (nifhwaddr (netiftab env ! m)), octets (nifhwbrc (netiftab env ! m))}"

text \<open>An address record for the four octets \<open>x\<close>.\<close>

definition is_ip :: "netaddr \<Rightarrow> bytes \<Rightarrow> bool" where
  "is_ip a x \<longleftrightarrow> wf_addr a \<and> natype a = NETADDR_IPv4 \<and> nalen a = IPv4_ADDR_LEN \<and> octets a = x"

lemma is_ip_bytes: "is_ip a x \<Longrightarrow> get_bytes 0 4 (naddr a) = Some x"
  by (auto simp: is_ip_def wf_addr_def octets_def)

lemma rd16_be16_net:
  assumes "take 2 (drop i d) = be16 x"
  obtains l where "rd16 d i = Some l" "net2hs l = ucast x"
  using rd16_be16 [OF assms] by (auto simp: map_option_case split: option.splits)

lemma netRecv_eth:
  assumes l: "listens env m mac" "length mac = 6" "length smac = 6" and len: "k \<le> length pad"
    and d: "d = (mac @ smac @ be16 ETHER_TYPE_IPv4) @ body @ pad"
  shows "\<exists>tr'. netRecv_packet env m (int (14 + length body + k)) d st tr =
      Some (st\<lparr>nin := nin st + 1, nproc := nproc st + 1\<rparr>,
        tr' @ [Ipv4Recv \<lparr>pnif = Some m, plen = of_nat (14 + length body + k), plink = 0, pnet = 0, pcurr = 14, pdata = d\<rparr>])"
proof -
  let ?if = "netiftab env ! m" and ?dst = "\<lparr>natype = NETADDR_ETHERNET, nalen = ETH_ADDR_LEN, naddr = mac\<rparr>"
  have i: "nif_at env (Some m) = Some ?if" "niflinkhdrlen ?if = 14" using l by (simp_all add: listens_def nif_at_def)
  have g: "get_bytes 0 6 d = Some mac" using d l by simp
  have o: "octets ?dst = mac" using l by (simp add: octets_def)
  have hw: "hw_addr (nifhwaddr ?if)" "hw_addr (nifhwbrc ?if)" using l by (simp_all add: listens_def)
  have e: "netaddrequal ?dst (nifhwaddr ?if) = Some (same_kind ?dst (nifhwaddr ?if) \<and> mac = octets (nifhwaddr ?if))"
    "netaddrequal ?dst (nifhwbrc ?if) = Some (same_kind ?dst (nifhwbrc ?if) \<and> mac = octets (nifhwbrc ?if))"
    using hw l(2) netaddrequal_octets [of ?dst "nifhwaddr ?if"] netaddrequal_octets [of ?dst "nifhwbrc ?if"] unfolding o hw_addr_def by simp_all
  have sk: "same_kind ?dst (nifhwaddr ?if)" "same_kind ?dst (nifhwbrc ?if)" using l by (simp_all add: listens_def same_kind_def hw_addr_def)
  obtain w where w: "rd16 d 12 = Some w" "net2hs w = ucast ETHER_TYPE_IPv4"
    by (rule rd16_be16_net [of 12 d ETHER_TYPE_IPv4]) (use d l in simp)
  have m: "mac = octets (nifhwaddr ?if) \<or> mac = octets (nifhwbrc ?if)" using l by (auto simp: listens_def)
  have "to_u32 (int (14 + length body + k)) = of_nat (14 + length body + k)" by (simp add: to_u32_def)
  then show ?thesis using i g e sk w m unfolding netRecv_packet_def by (auto simp: Let_def simp del: of_nat_add)
qed

text \<open>
  \<^verbatim>\<open>ipv4RecvValid\<close> compares the length field with 20 without converting it from network byte order, so it
  rejects a packet whose length is a multiple of 256 below 5120.
\<close>

definition len_accepted :: "nat \<Rightarrow> bool" where
  "len_accepted n \<longleftrightarrow> n mod 256 \<noteq> 0 \<or> 5120 \<le> n"

lemma raw_length:
  assumes "n < 65536"
  shows "rd16 ([a, b] @ be16 (of_nat n) @ e) 2 = Some (of_nat (n div 256 + 256 * (n mod 256)))"
proof -
  have "unat (of_nat n :: u16) = n" using assms by (simp add: unat_of_nat take_bit_nat_eq_self)
  then have "(of_nat n :: u16) = word_of_nat n" "unat (drop_bit 8 (of_nat n :: u16)) = n div 256" "unat (ucast (drop_bit 8 (of_nat n :: u16)) :: u8) = n div 256"
    "unat (ucast (of_nat n :: u16) :: u8) = n mod 256"
    using assms by (simp_all add: drop_bit_eq_div unat_div_distrib unsigned_ucast_eq take_bit_eq_mod)
  then have "ucast (ucast (drop_bit 8 (of_nat n :: u16)) :: u8) = (of_nat (n div 256) :: u32)" "ucast (ucast (of_nat n :: u16) :: u8) = (of_nat (n mod 256) :: u32)"
    by (metis of_nat_unat)+
  then show ?thesis by (simp add: rd16_def rd_def be16_def)
qed

lemma uint_of_small: "k < 2 ^ 32 \<Longrightarrow> uint (of_nat k :: u32) = int k"
  by (simp add: unsigned_of_nat take_bit_eq_mod)

lemma ipv4RecvValid_hdr:
  assumes n: "n < 65536" and l: "length s = 4" "length t = 4" and c: "netChksum (ip_hdr (of_nat n) proto s t c) 20 = Some 0"
  shows "ipv4RecvValid (ip_hdr (of_nat n) proto s t c @ e) = Some (n div 256 + 256 * (n mod 256) \<ge> 20)"
proof -
  let ?h = "ip_hdr (of_nat n) proto s t c @ e"
  have r: "rd16 ?h 2 = Some (of_nat (n div 256 + 256 * (n mod 256)))"
    using raw_length [OF n] by (simp add: ip_hdr_def)
  have "n div 256 < 256" "n mod 256 < 256" using n by auto
  then have "n div 256 + 256 * (n mod 256) < 2 ^ 32" by (simp add: algebra_simps)
  then have u: "uint (of_nat (n div 256 + 256 * (n mod 256)) :: u32) = int (n div 256 + 256 * (n mod 256))"
    by (rule uint_of_small)
  have "rd ?h 0 = Some 0x45" by (simp add: rd_def ip_hdr_def)
  moreover have "netChksum ?h 20 = Some 0" using c l by (simp add: netChksum_take)
  ultimately show ?thesis using r u unfolding ipv4RecvValid_def by (auto simp: Let_def)
qed

lemma len_accepted_raw: "20 \<le> n \<Longrightarrow> len_accepted n \<longleftrightarrow> 20 \<le> n div 256 + 256 * (n mod 256)"
  unfolding len_accepted_def by (cases "n mod 256 = 0") auto

definition ours :: "ipenv \<Rightarrow> bytes \<Rightarrow> bool" where
  "ours env t \<longleftrightarrow> (\<forall>nif \<in> set (netiftab env). wf_addr (nifip nif) \<and> wf_addr (nifipbrc nif)) \<and>
     (\<exists>nif \<in> set (netiftab env). nifstate nif = NET_ALLOC \<and>
       (\<exists>a \<in> {nifip nif, nifipbrc nif}. natype a = NETADDR_IPv4 \<and> nalen a = IPv4_ADDR_LEN \<and> octets a = t))"

lemma ours_demux:
  assumes "ours env t" "wf_addr b" "natype b = NETADDR_IPv4" "nalen b = IPv4_ADDR_LEN" "octets b = t"
  shows "ipv4RecvDemux (netiftab env) b = Some True"
proof -
  obtain nif x where "nif \<in> set (netiftab env)" "nifstate nif = NET_ALLOC" "x \<in> {nifip nif, nifipbrc nif}" "same_kind b x" "octets b = octets x"
    using assms unfolding ours_def same_kind_def by metis
  moreover have "\<forall>nif \<in> set (netiftab env). wf_addr (nifip nif) \<and> wf_addr (nifipbrc nif)" using assms(1) by (simp add: ours_def)
  ultimately have "ipv4RecvDemux (netiftab env) b = Some (\<exists>n \<in> set (netiftab env). nifstate n = NET_ALLOC \<and>
      (\<exists>a \<in> {nifip n, nifipbrc n}. same_kind b a \<and> octets b = octets a)) \<and>
    (\<exists>n \<in> set (netiftab env). nifstate n = NET_ALLOC \<and> (\<exists>a \<in> {nifip n, nifipbrc n}. same_kind b a \<and> octets b = octets a))"
    using ipv4RecvDemux_ok [OF assms(2), of "netiftab env"] by blast
  then show ?thesis by simp
qed

lemma ipv4Recv_hdr:
  assumes n: "n = length body + 20" "n < 60000" "len_accepted n" and l: "length s = 4" "length t = 4" "length eh = 14"
    and c: "netChksum (ip_hdr (of_nat n) proto s t c) 20 = Some 0" and t: "ours env t"
    and m: "m < length (netiftab env)" "niflinkhdrlen (netiftab env ! m) = 14"
    and k: "k \<le> length pad" "k < 2000" and d: "d = eh @ ip_hdr (of_nat n) proto s t c @ body @ pad"
  shows "\<exists>a b. ipv4Recv env \<lparr>pnif = Some m, plen = of_nat (14 + n + k), plink = 0, pnet = 0, pcurr = 14, pdata = d\<rparr> tr =
      Some (OK, \<lparr>pnif = Some m, plen = of_nat (14 + n), plink = 0, pnet = 14, pcurr = 34, pdata = d\<rparr>,
        tr @ [transport proto \<lparr>pnif = Some m, plen = of_nat (14 + n), plink = 0, pnet = 14, pcurr = 34, pdata = d\<rparr> a b]) \<and>
      is_ip a s \<and> is_ip b t"
proof -
  let ?h = "ip_hdr (of_nat n) proto s t c" and ?if = "netiftab env ! m"
  have dr: "drop 14 d = ?h @ body @ pad" using d l by simp
  have v: "ipv4RecvValid (drop 14 d) = Some True"
    unfolding dr using ipv4RecvValid_hdr [OF _ l(1,2) c, of "body @ pad"] n len_accepted_raw [of n] by simp
  have h: "take 4 (drop 16 (?h @ body @ pad)) = t" "take 4 (drop 12 (?h @ body @ pad)) = s" "take 2 (drop 20 d) = be16 0" "take 2 (drop 16 d) = be16 (of_nat n)"
    using l d by (simp_all add: ip_hdr_def be16_def)
  obtain a where a: "ipv4_addr (drop 14 d) 12 = Some a" "is_ip a s"
    using ipv4_addr_ok [of 12 "drop 14 d"] l h unfolding dr is_ip_def by auto
  obtain b where b: "ipv4_addr (drop 14 d) 16 = Some b" "wf_addr b" "natype b = NETADDR_IPv4" "nalen b = IPv4_ADDR_LEN" "octets b = t"
    using ipv4_addr_ok [of 16 "drop 14 d"] l h unfolding dr by auto
  have mine: "ipv4RecvDemux (netiftab env) b = Some True"
    by (rule ours_demux [OF t b(2)]) (use b in simp_all)
  obtain ff where ff: "rd16 d 20 = Some ff" "net2hs ff = 0" by (rule rd16_be16_net [OF h(3)]) simp
  obtain len where len: "rd16 d 16 = Some len" "net2hs len = ucast (of_nat n :: u16)" by (rule rd16_be16_net [OF h(4)])
  have "net2hs len = of_nat n"
    unfolding len(2) using n(2) by (simp add: word_unat_eq_iff unsigned_ucast_eq unat_of_nat take_bit_nat_eq_self)
  note len = len(1) this
  have i: "nif_at env (Some m) = Some ?if" using m by (simp add: nif_at_def)
  have ver: "rd d 14 = Some 0x45" "rd d 23 = Some proto" using d l by (simp_all add: rd_def ip_hdr_def nth_append be16_def)
  have cut: "(if (of_nat (14 + n + k) :: u32) - 14 > of_nat n then 14 + of_nat n else of_nat (14 + n + k)) = (of_nat (14 + n) :: u32)"
  proof (cases "k = 0")
    case False
    have "(of_nat (14 + n + k) :: u32) - 14 = of_nat (n + k)" by simp
    moreover have "(of_nat n :: u32) < of_nat (n + k)"
      using n(2) k False by (simp only: word_less_nat_alt unat_of_nat) (simp add: take_bit_eq_mod)
    ultimately show ?thesis by simp
  qed simp
  have "ipv4Recv env \<lparr>pnif = Some m, plen = L, plink = 0, pnet = 0, pcurr = 14, pdata = d\<rparr> tr =
      Some (OK, \<lparr>pnif = Some m, plen = L', plink = 0, pnet = 14, pcurr = 34, pdata = d\<rparr>,
        tr @ [transport proto \<lparr>pnif = Some m, plen = L', plink = 0, pnet = 14, pcurr = 34, pdata = d\<rparr> a b])"
    if "(if L - 14 > net2hs len then 14 + net2hs len else L) = L'" for L L' :: u32
    unfolding ipv4Recv_def Let_def
    using that v a(1) b(1) mine ff len(1) i ver m(2) by (auto simp: transport_def)
  from this [of "of_nat (14 + n + k)", OF cut [folded len(2)]] show ?thesis using a b unfolding is_ip_def by blast
qed

text \<open>The whole way of a frame through the receiving station.\<close>

definition rcv_packet :: "nat \<Rightarrow> nat \<Rightarrow> bytes \<Rightarrow> packet" where
  \<comment> \<open>a packet of \<open>n\<close> bytes behind the link header, as \<^verbatim>\<open>ipv4Recv\<close> hands it on\<close>
  "rcv_packet m n d = \<lparr>pnif = Some m, plen = of_nat (14 + n), plink = 0, pnet = 14, pcurr = 34, pdata = d\<rparr>"

lemma frame_received:
  assumes f: "f = eth_frame mac nif (ip_hdr (of_nat n) proto s t c @ payload)" "length mac = 6" "hw_addr (nifhwaddr nif)"
    and n: "n = length payload + 20" "n < 60000" "len_accepted n" and l: "length s = 4" "length t = 4"
    and c: "netChksum (ip_hdr (of_nat n) proto s t c) 20 = Some 0" and rcv: "listens env m mac" "ours env t" and k: "k \<le> length pad" "k < 2000"
  shows "\<exists>p1 a b tr1.
      netRecv_packet env m (int (length f + k)) (f @ pad) st tr = Some (st\<lparr>nin := nin st + 1, nproc := nproc st + 1\<rparr>, tr1 @ [Ipv4Recv p1]) \<and>
      ipv4Recv env p1 tr' = Some (OK, rcv_packet m n (f @ pad), tr' @ [transport proto (rcv_packet m n (f @ pad)) a b]) \<and>
      is_ip a s \<and> is_ip b t"
proof -
  let ?eh = "mac @ octets (nifhwaddr nif) @ be16 ETHER_TYPE_IPv4" and ?b = "ip_hdr (of_nat n) proto s t c @ payload"
  have m6: "length (octets (nifhwaddr nif)) = 6" using f(3) by simp
  have fd: "f @ pad = ?eh @ ?b @ pad" "f @ pad = ?eh @ ip_hdr (of_nat n) proto s t c @ payload @ pad" "length f = 14 + n"
    using f(1,2) m6 l n by (simp_all add: eth_frame_def)
  have hl: "length ?b = n" using l n by simp
  have m: "m < length (netiftab env)" "niflinkhdrlen (netiftab env ! m) = 14" using rcv by (simp_all add: listens_def)
  have l14: "length ?eh = 14" using f(2) m6 by simp
  show ?thesis
    using netRecv_eth [OF rcv(1) f(2) m6 k(1) fd(1), of st tr] ipv4Recv_hdr [OF n l l14 c rcv(2) m k fd(2), of tr']
    unfolding hl fd(3) rcv_packet_def by blast
qed

lemma rcv_payload:
  assumes "f = eth_frame mac nif (ip_hdr (of_nat n) proto s t c @ payload)" "length mac = 6" "hw_addr (nifhwaddr nif)"
    and "n = length payload + 20" "n < 60000" "length s = 4" "length t = 4"
  shows "pcurr (rcv_packet m n (f @ pad)) = 34" "unat (plen (rcv_packet m n (f @ pad))) = 14 + n"
    "drop 34 (pdata (rcv_packet m n (f @ pad))) = payload @ pad"
proof -
  show "unat (plen (rcv_packet m n (f @ pad))) = 14 + n"
    unfolding rcv_packet_def packet.simps using assms(5) by (simp only: unat_of_nat) (simp add: take_bit_eq_mod)
qed (use assms in \<open>simp_all add: rcv_packet_def eth_frame_def\<close>)

section \<open>ICMP messages\<close>

definition icmp_msg :: "u8 \<Rightarrow> u8 \<Rightarrow> u16 \<Rightarrow> bytes \<Rightarrow> bytes" where
  "icmp_msg ty code c data = [ty, code, ucast c, ucast (drop_bit 8 c)] @ data"

lemma length_icmp_msg [simp]: "length (icmp_msg ty code c data) = 4 + length data"
  by (simp add: icmp_msg_def)

lemma icmpSend_ok:
  assumes r: "route_up env dst r n" and s: "4 \<le> length (naddr (source (netiftab env ! n) src))"
    and p: "38 \<le> pcurr pkt" "pcurr pkt + unat (plen pkt) \<le> length (pdata pkt)" "data = take (unat (plen pkt)) (drop (pcurr pkt) (pdata pkt))"
    and len: "unat (plen pkt) + 24 < 60000" "unat (plen pkt) + 24 \<le> unat (nifmtu (netiftab env ! n))"
  shows "\<exists>ck c pkt' tr'. icmpSend env ty code (plen pkt) src dst pkt tr = Some (OK, pkt', tr') \<and>
    netChksum (icmp_msg ty code ck data) (4 + length data) = Some 0 \<and>
    netChksum (ip_hdr (of_nat (length data + 24)) IPv4_PROTO_ICMP (take 4 (naddr (source (netiftab env ! n) src))) (take 4 (naddr dst)) c) 20 = Some 0 \<and>
    frames tr' = frames tr @ [eth_frame (next_mac env n (next_hop (routes env ! r) dst) tr) (netiftab env ! n)
      (ip_hdr (of_nat (length data + 24)) IPv4_PROTO_ICMP (take 4 (naddr (source (netiftab env ! n) src))) (take 4 (naddr dst)) c @ icmp_msg ty code ck data)]"
proof -
  let ?k = "pcurr pkt - 4"
  have lb: "length data = unat (plen pkt)" using p by simp
  define pre where "pre = take ?k (pdata pkt)"
  define tail where "tail = drop (pcurr pkt + unat (plen pkt)) (pdata pkt)"
  define h where "h = take 4 (drop ?k (pdata pkt))"
  have "pre @ h = take (pcurr pkt) (pdata pkt)" using p(1) take_add [of ?k 4 "pdata pkt"] by (simp add: pre_def h_def)
  moreover have "drop (pcurr pkt) (pdata pkt) = data @ tail" 
    unfolding p(3) tail_def add.commute [of "pcurr pkt"] drop_drop [symmetric] by (rule append_take_drop_id [symmetric])
  ultimately have d: "pdata pkt = pre @ (h @ data) @ tail" by (metis append.assoc append_take_drop_id)
  have lp: "length pre = ?k" "length h = 4" using p by (simp_all add: pre_def h_def)
  then obtain h0 h1 h2 h3 where h: "h = [h0, h1, h2, h3]" by (auto simp: length_Suc_conv numeral_eq_Suc)
  define len where "len = plen pkt + 4"
  have ul: "unat len = 4 + length data" using len(1) unat_add_no_wrap [of "plen pkt" 4] by (simp add: len_def lb)
  have ph: "push_hdr ICMP_HEADER_LEN pkt = Some (pkt\<lparr>pcurr := length pre, plen := len\<rparr>)" using p(1) lp by (simp add: push_hdr_def len_def)
  have w1: "put_bytes (length pre) [ty, code] (pdata pkt) = Some (pre @ ([ty, code, h2, h3] @ data) @ tail)"
    using put_bytes_mid [of 0 "[ty, code]" "h @ data" pre tail] d h by simp
  have "put16 ([ty, code, h2, h3] @ data) 2 c = icmp_msg ty code c data" for c by (simp add: put16_def icmp_msg_def numeral_eq_Suc)
  then obtain ck where ck: "set_chksum (length pre + 2) (4 + length data) (length pre) (pre @ ([ty, code, h2, h3] @ data) @ tail) = Some (pre @ icmp_msg ty code ck data @ tail)"
    "netChksum (icmp_msg ty code ck data) (4 + length data) = Some 0"
    using set_chksum_ok [of 2 "4 + length data" "[ty, code, h2, h3] @ data" pre tail] len(1) lb by auto
  define pkt1 where "pkt1 = pkt\<lparr>pcurr := length pre, plen := len, pdata := pre @ icmp_msg ty code ck data @ tail\<rparr>"
  have "icmpSend env ty code (plen pkt) src dst pkt tr = ipv4Send env src (Some dst) IPv4_PROTO_ICMP pkt1 tr"
    using ph w1 ck(1) ul unfolding icmpSend_def len_def by (simp add: pkt1_def len_def)
  moreover have "icmp_msg ty code ck data = take (unat (plen pkt1)) (drop (pcurr pkt1) (pdata pkt1))"
    using ul by (simp add: pkt1_def)
  then have "\<exists>c pkt' tr'. ipv4Send env src (Some dst) IPv4_PROTO_ICMP pkt1 tr = Some (OK, pkt', tr') \<and>
    netChksum (ip_hdr (of_nat (length (icmp_msg ty code ck data) + 20)) IPv4_PROTO_ICMP (take 4 (naddr (source (netiftab env ! n) src))) (take 4 (naddr dst)) c) 20 = Some 0 \<and>
    frames tr' = frames tr @ [eth_frame (next_mac env n (next_hop (routes env ! r) dst) tr) (netiftab env ! n)
      (ip_hdr (of_nat (length (icmp_msg ty code ck data) + 20)) IPv4_PROTO_ICMP (take 4 (naddr (source (netiftab env ! n) src))) (take 4 (naddr dst)) c @ icmp_msg ty code ck data)]"
    by (rule ipv4Send_ok [OF r s, rotated 2]) (use p(1) lp lb ul len in \<open>simp_all add: pkt1_def icmp_msg_def\<close>)
  moreover have e: "length (icmp_msg ty code ck data) + 20 = length data + 24" by simp
  ultimately show ?thesis using ck(2) unfolding e by metis
qed

text \<open>An echo request as \<^verbatim>\<open>ipv4Recv\<close> hands it over is answered with the same data, the addresses exchanged.\<close>

lemma icmpEchoReply_ok:
  assumes k: "k = 24 + length data" "k < 60000" and l: "length eh = 14" "length s = 4" "length t = 4" "length ih = 4"
    and d: "d = eh @ ip_hdr len proto s t c0 @ ih @ data @ pad"
    and pkt: "pkt = \<lparr>pnif = nif, plen = of_nat (14 + k), plink = 0, pnet = 14, pcurr = 34, pdata = d\<rparr>"
    and a: "ipv4_addr (drop 14 d) 12 = Some a" and r: "route_up env a r n" and mtu: "k \<le> unat (nifmtu (netiftab env ! n))"
  shows "\<exists>ck c pkt' tr'. icmpEchoReply env pkt tr = Some (OK, pkt', tr') \<and>
    netChksum (icmp_msg ICMP_ECHOREPLY 0 ck data) (4 + length data) = Some 0 \<and> netChksum (ip_hdr (of_nat k) IPv4_PROTO_ICMP t s c) 20 = Some 0 \<and>
    frames tr' = frames tr @ [eth_frame (next_mac env n (next_hop (routes env ! r) a) tr) (netiftab env ! n)
      (ip_hdr (of_nat k) IPv4_PROTO_ICMP t s c @ icmp_msg ICMP_ECHOREPLY 0 ck data)]"
proof -
  have dr: "drop 14 d = ip_hdr len proto s t c0 @ ih @ data @ pad" using d l by simp
  have h: "take 4 (drop 16 (drop 14 d)) = t" "take 4 (drop 12 (drop 14 d)) = s"
    unfolding dr using l by (simp_all add: ip_hdr_def be16_def)
  have ld: "20 \<le> length (drop 14 d)" using d l by simp
  obtain b where b: "ipv4_addr (drop 14 d) 16 = Some b" "wf_addr b" "natype b = NETADDR_IPv4" "nalen b = IPv4_ADDR_LEN" "octets b = t"
    using ipv4_addr_ok [of 16 "drop 14 d"] ld unfolding h by auto
  have sa: "nalen a = IPv4_ADDR_LEN" "octets a = s" using ipv4_addr_ok [of 12 "drop 14 d"] ld a unfolding h by auto
  have ta: "take 4 (naddr b) = t" "take 4 (naddr a) = s" "4 \<le> length (naddr b)" using b sa by (simp_all add: octets_def wf_addr_def)
  define pkt1 where "pkt1 = pkt\<lparr>pcurr := 38, plen := of_nat (length data)\<rparr>"
  have "(of_nat (14 + k) :: u32) - of_nat 38 = of_nat (length data)" using k by (simp add: algebra_simps)
  then have "icmpEchoReply env pkt tr = icmpSend env ICMP_ECHOREPLY 0 (plen pkt1) b a pkt1 tr"
    unfolding icmpEchoReply_def pkt using a b by (simp add: pkt1_def pkt)
  moreover have u: "unat (plen pkt1) = length data" using k by (simp add: pkt1_def unat_of_nat take_bit_nat_eq_self)
  have "source (netiftab env ! n) b = b" using b by (simp add: source_def)
  moreover have "\<exists>ck c pkt' tr'. icmpSend env ICMP_ECHOREPLY 0 (plen pkt1) b a pkt1 tr = Some (OK, pkt', tr') \<and>
    netChksum (icmp_msg ICMP_ECHOREPLY 0 ck data) (4 + length data) = Some 0 \<and>
    netChksum (ip_hdr (of_nat (length data + 24)) IPv4_PROTO_ICMP (take 4 (naddr (source (netiftab env ! n) b))) (take 4 (naddr a)) c) 20 = Some 0 \<and>
    frames tr' = frames tr @ [eth_frame (next_mac env n (next_hop (routes env ! r) a) tr) (netiftab env ! n)
      (ip_hdr (of_nat (length data + 24)) IPv4_PROTO_ICMP (take 4 (naddr (source (netiftab env ! n) b))) (take 4 (naddr a)) c @ icmp_msg ICMP_ECHOREPLY 0 ck data)]"
  proof (rule icmpSend_ok [OF r])
    show "data = take (unat (plen pkt1)) (drop (pcurr pkt1) (pdata pkt1))" unfolding u using d l by (simp add: pkt1_def pkt)
  qed (use d l k mtu u ta calculation in \<open>simp_all add: pkt1_def pkt\<close>)
  ultimately show ?thesis unfolding k(1) by (simp add: ta add.commute)
qed

end
