(* ===== verification/Udp_Flow.thy ===== *)
theory Udp_Flow
  imports Udp Ip_Deliver Fifo
begin

text \<open>
  The way of a datagram from \<^verbatim>\<open>udpSend\<close> to \<^verbatim>\<open>udpRead\<close>, and the input queue of a UDP device as a bounded
  first-in first-out buffer.
\<close>

section \<open>Sending\<close>

definition udp_msg :: "u16 \<Rightarrow> u16 \<Rightarrow> u16 \<Rightarrow> bytes \<Rightarrow> bytes" where
  "udp_msg sp dp c data = be16 sp @ be16 dp @ be16 (of_nat (8 + length data)) @ [ucast c, ucast (drop_bit 8 c)] @ data"

lemma length_udp_msg [simp]: "length (udp_msg sp dp c data) = 8 + length data"
  by (simp add: udp_msg_def)

lemma and_not_3: "unat ((x :: u32) AND NOT 3) = unat x div 4 * 4"
proof -
  have "x AND NOT 3 = push_bit 2 (drop_bit 2 x)"
  proof (rule bit_word_eqI)
    fix n assume "n < LENGTH(32)"
    have m: "(3 :: u32) = mask 2" by (simp add: mask_eq_exp_minus_1)
    show "bit (x AND NOT 3) n = bit (push_bit 2 (drop_bit 2 x)) n"
      unfolding m bit_and_iff bit_not_iff bit_push_bit_iff bit_drop_bit_eq bit_mask_iff o_apply
      using \<open>n < LENGTH(32)\<close> by (cases "n < 2") (simp_all add: le_add_diff_inverse del: add_2_eq_Suc)
  qed
  moreover have "unat x div 4 * 4 < 2 ^ 32" using unsigned_less [of x, where ?'a = nat] by simp
  ultimately show ?thesis
    by (simp add: push_bit_eq_mult drop_bit_eq_div unat_word_ariths unat_div_distrib mult.commute)
qed

lemma pull_back_ok:
  assumes "L \<le> 1500" "1600 \<le> pcurr pkt + 50"
  shows "\<exists>k. pull_back (of_nat L) pkt = Some (pkt\<lparr>plen := of_nat L, pcurr := pcurr pkt - k\<rparr>) \<and> L \<le> k \<and> k \<le> L + 3"
proof -
  have u: "(ucast (of_nat L :: u16) :: u32) = of_nat L" using assms(1) by (simp add: word_unat_eq_iff unsigned_ucast_eq unat_of_nat take_bit_nat_eq_self)
  have "unat (of_nat (3 + L) :: u32) = 3 + L" using assms(1) by (simp only: unat_of_nat) (simp add: take_bit_eq_mod)
  then have k: "unat ((3 + of_nat L :: u32) AND NOT 3) = (3 + L) div 4 * 4" using and_not_3 [of "of_nat (3 + L)"] by simp
  have "L \<le> (3 + L) div 4 * 4" "(3 + L) div 4 * 4 \<le> L + 3" by presburger+
  moreover from this have "pull_back (of_nat L) pkt = Some (pkt\<lparr>plen := of_nat L, pcurr := pcurr pkt - (3 + L) div 4 * 4\<rparr>)"
    using assms unfolding pull_back_def u k Let_def by simp
  ultimately show ?thesis by blast
qed

text \<open>The buffer of a packet before and after the header has been written.\<close>

lemma udp_header_written:
  assumes "length h = 8"
  shows "wr16 (length a) (ucast (hs2net (ucast sp))) (a @ h @ e) = Some (a @ (be16 sp @ drop 2 h) @ e)"
    "wr16 (length a + 2) (ucast (hs2net (ucast dp))) (a @ (be16 sp @ drop 2 h) @ e) = Some (a @ (be16 sp @ be16 dp @ drop 4 h) @ e)"
    "wr16 (length a + 4) (ucast (hs2net len)) (a @ (be16 sp @ be16 dp @ drop 4 h) @ e) = Some (a @ (be16 sp @ be16 dp @ be16 (ucast len) @ drop 6 h) @ e)"
    "wr16 (length a + 6) c (a @ (be16 sp @ be16 dp @ be16 l @ drop 6 h) @ e) = Some (a @ (be16 sp @ be16 dp @ be16 l @ [ucast c, ucast (drop_bit 8 c)]) @ e)"
proof -
  show "wr16 (length a) (ucast (hs2net (ucast sp))) (a @ h @ e) = Some (a @ (be16 sp @ drop 2 h) @ e)"
    unfolding wr16_net be16_round using put_bytes_mid [of 0 "be16 sp" h a e] assms by (simp add: numeral_2_eq_2)
  show "wr16 (length a + 2) (ucast (hs2net (ucast dp))) (a @ (be16 sp @ drop 2 h) @ e) = Some (a @ (be16 sp @ be16 dp @ drop 4 h) @ e)"
    unfolding wr16_net be16_round using put_bytes_mid [of 2 "be16 dp" "be16 sp @ drop 2 h" a e] assms by simp
  show "wr16 (length a + 4) (ucast (hs2net len)) (a @ (be16 sp @ be16 dp @ drop 4 h) @ e) = Some (a @ (be16 sp @ be16 dp @ be16 (ucast len) @ drop 6 h) @ e)"
    unfolding wr16_net using put_bytes_mid [of 4 "be16 (ucast len)" "be16 sp @ be16 dp @ drop 4 h" a e] assms by simp
  show "wr16 (length a + 6) c (a @ (be16 sp @ be16 dp @ be16 l @ drop 6 h) @ e) = Some (a @ (be16 sp @ be16 dp @ be16 l @ [ucast c, ucast (drop_bit 8 c)]) @ e)"
    using wr16_mid [of 6 "be16 sp @ be16 dp @ be16 l @ drop 6 h" a c e] assms by simp
qed

abbreviation (input) pseudo_of :: "bytes \<Rightarrow> bytes \<Rightarrow> nat \<Rightarrow> bytes" where
  "pseudo_of s t L \<equiv> pseudo_hdr s t (be16 (of_nat L))"

lemma udpChksum_eq:
  assumes "pcurr pkt = length a" "12 \<le> length a" "pdata pkt = a @ m @ e" "length m = L" "L \<le> 1500"
    and "get_bytes 0 4 (naddr src) = Some s" "get_bytes 0 4 (naddr dst) = Some t" "length s = 4" "length t = 4"
  shows "udpChksum pkt (of_nat L) src dst = netChksum (pseudo_of s t L @ m) (L + 12)"
proof -
  have u: "unat (of_nat L :: u16) = L" using assms(5) by (simp add: unat_of_nat take_bit_nat_eq_self)
  define a1 where "a1 = take (length a - 12) a"
  define a2 where "a2 = drop (length a - 12) a"
  have a: "a = a1 @ a2" "length a2 = 12" "length a1 = length a - 12" using assms(2) by (simp_all add: a1_def a2_def)
  have p: "length (pseudo_of s t L) = 12" using assms by (simp add: pseudo_hdr_def)
  have w: "put_bytes (length a - 12) (pseudo_of s t L) (a @ m @ e) = Some (a1 @ pseudo_of s t L @ m @ e)"
  proof -
    have "put_bytes (length a1 + 0) (pseudo_of s t L) (a1 @ a2 @ m @ e) = Some (a1 @ (take 0 a2 @ pseudo_of s t L @ drop (0 + 12) a2) @ m @ e)"
      using put_bytes_mid [of 0 "pseudo_of s t L" a2 a1 "m @ e"] unfolding p a(2) by simp
    moreover have "drop (0 + 12) a2 = []" using a(2) by simp
    moreover have "a @ m @ e = a1 @ a2 @ m @ e" using a(1) by (metis append.assoc)
    ultimately show ?thesis unfolding a(3) by simp
  qed
  have "netChksum (drop (length a - 12) (a1 @ pseudo_of s t L @ m @ e)) (L + 12) = netChksum ((pseudo_of s t L @ m) @ e) (L + 12)"
    using a(3) by simp
  also have "\<dots> = netChksum (pseudo_of s t L @ m) (L + 12)" by (rule netChksum_take) (use assms(4,5) p in simp_all)
  finally show ?thesis
    unfolding udpChksum_def Let_def net_bytes be16_round using assms(1-3,6,7) w u by simp
qed

lemma udp_msg_checksum:
  assumes "length s = 4" "length t = 4" "length data \<le> 1400"
  shows "\<exists>c. netChksum (pseudo_of s t (8 + length data) @ udp_msg sp dp 0 data) (8 + length data + 12) = Some c \<and>
    netChksum (pseudo_of s t (8 + length data) @ udp_msg sp dp c data) (8 + length data + 12) = Some 0"
proof -
  let ?x = "\<lambda>c. pseudo_of s t (8 + length data) @ udp_msg sp dp c data"
  obtain s0 s1 s2 s3 t0 t1 t2 t3 where st: "s = [s0, s1, s2, s3]" "t = [t0, t1, t2, t3]"
    using assms(1,2) by (auto simp: length_Suc_conv numeral_eq_Suc)
  have l: "length (?x 0) = 8 + length data + 12" using assms by (simp add: pseudo_hdr_def)
  obtain c where c: "netChksum (?x 0) (8 + length data + 12) = Some c" using netChksum_ok [of "8 + length data + 12" "?x 0"] l assms by auto
  have "?x 0 ! 18 = 0" "?x 0 ! (18 + 1) = 0" by (simp_all add: st pseudo_hdr_def udp_msg_def be16_def)
  then have "netChksum (put16 (?x 0) 18 c) (8 + length data + 12) = Some 0" using l assms c by (intro netChksum_verify) auto
  moreover have "put16 (?x 0) 18 c = ?x c" by (simp add: st put16_def pseudo_hdr_def udp_msg_def be16_def)
  ultimately show ?thesis using c by auto
qed

text \<open>The environment of a sender: the pool has buffers and takes them back.\<close>

definition bufs_ok :: "ipenv \<Rightarrow> bool" where
  "bufs_ok env \<longleftrightarrow> (\<forall>tr. answer env (tr @ [NetGetbuf]) \<noteq> SYSERR \<and> answer env (tr @ [NetFreebuf]) \<noteq> SYSERR)"

lemma udp_finish_ok:
  assumes r: "route_up env rip r n" and f: "bufs_ok env" and lip: "natype lip \<noteq> 0" "4 \<le> length (naddr lip)"
    and p: "pcurr pkt = length a" "46 \<le> length a" "pdata pkt = a @ udp_msg sp dp 0 data @ e" "plen pkt = of_nat (8 + length data)"
    and l: "length data \<le> 1400" "length data + 28 \<le> unat (nifmtu (netiftab env ! n))"
  shows "\<exists>c h tr'. udp_finish env (of_nat (8 + length data)) lip rip pkt tr = Some (OK, tr') \<and>
    netChksum (pseudo_of (take 4 (naddr lip)) (take 4 (naddr rip)) (8 + length data) @ udp_msg sp dp c data) (8 + length data + 12) = Some 0 \<and>
    netChksum (ip_hdr (of_nat (length data + 28)) 17 (take 4 (naddr lip)) (take 4 (naddr rip)) h) 20 = Some 0 \<and>
    frames tr' = frames tr @ [eth_frame (next_mac env n (next_hop (routes env ! r) rip) tr) (netiftab env ! n)
      (ip_hdr (of_nat (length data + 28)) 17 (take 4 (naddr lip)) (take 4 (naddr rip)) h @ udp_msg sp dp c data)]"
proof -
  let ?s = "take 4 (naddr lip)" and ?t = "take 4 (naddr rip)" and ?L = "8 + length data"
  have rip: "4 \<le> length (naddr rip)" using r by (simp add: route_up_def addr_ok_def)
  have st: "length ?s = 4" "length ?t = 4" "get_bytes 0 4 (naddr lip) = Some ?s" "get_bytes 0 4 (naddr rip) = Some ?t" using lip rip by simp_all
  obtain c where c: "netChksum (pseudo_of ?s ?t ?L @ udp_msg sp dp 0 data) (?L + 12) = Some c"
    "netChksum (pseudo_of ?s ?t ?L @ udp_msg sp dp c data) (?L + 12) = Some 0"
    using udp_msg_checksum [OF st(1,2) l(1)] by blast
  have ck: "udpChksum pkt (of_nat ?L) lip rip = Some c"
    using udpChksum_eq [OF p(1) _ p(3) length_udp_msg _ st(3,4,1,2)] p(2) l(1) c(1) by simp
  have w: "wr16 (length a + 6) c (pdata pkt) = Some (a @ udp_msg sp dp c data @ e)"
    unfolding p(3) using wr16_mid [of 6 "udp_msg sp dp 0 data" a c e] by (simp add: udp_msg_def be16_def)
  define pkt1 where "pkt1 = pkt\<lparr>pdata := a @ udp_msg sp dp c data @ e\<rparr>"
  have pl: "unat (plen pkt1) = ?L" using unat_of_small(1) [of ?L] l(1) p(4) by (simp add: pkt1_def)
  have src: "source (netiftab env ! n) lip = lip" using lip by (simp add: source_def)
  have e28: "length (udp_msg sp dp c data) + 20 = length data + 28" by simp
  have "\<exists>h pkt' tr'. ipv4Send env lip (Some rip) 17 pkt1 tr = Some (OK, pkt', tr') \<and>
    netChksum (ip_hdr (of_nat (length (udp_msg sp dp c data) + 20)) 17 (take 4 (naddr (source (netiftab env ! n) lip))) ?t h) 20 = Some 0 \<and>
    frames tr' = frames tr @ [eth_frame (next_mac env n (next_hop (routes env ! r) rip) tr) (netiftab env ! n)
      (ip_hdr (of_nat (length (udp_msg sp dp c data) + 20)) 17 (take 4 (naddr (source (netiftab env ! n) lip))) ?t h @ udp_msg sp dp c data)]"
  proof (rule ipv4Send_ok [OF r])
    show "udp_msg sp dp c data = take (unat (plen pkt1)) (drop (pcurr pkt1) (pdata pkt1))" unfolding pl using p(1) by (simp add: pkt1_def)
  qed (use src lip p(1,2) l pl in \<open>simp_all add: pkt1_def\<close>)
  then obtain h pkt' tr1 where s1: "ipv4Send env lip (Some rip) 17 pkt1 tr = Some (OK, pkt', tr1)"
    "netChksum (ip_hdr (of_nat (length data + 28)) 17 ?s ?t h) 20 = Some 0"
    "frames tr1 = frames tr @ [eth_frame (next_mac env n (next_hop (routes env ! r) rip) tr) (netiftab env ! n)
      (ip_hdr (of_nat (length data + 28)) 17 ?s ?t h @ udp_msg sp dp c data)]"
    unfolding src e28 by blast
  have "udp_finish env (of_nat ?L) lip rip pkt tr = Some (OK, tr1 @ [NetFreebuf])"
    unfolding udp_finish_def p(1) using ck w s1(1) f by (simp add: pkt1_def bufs_ok_def)
  then show ?thesis using c(2) s1(2,3) by auto
qed

lemma udpSend_ok:
  assumes r: "route_up env (remoteip u) r n" and f: "bufs_ok env" and u: "uflags u AND UDP_FLAG_PASSIVE = 0"
    and lip: "natype (localip u) \<noteq> 0" "4 \<le> length (naddr (localip u))" and d: "get_bytes 0 (length data) buf = Some data"
    and l: "length data \<le> 1024" "length data + 28 \<le> unat (nifmtu (netiftab env ! n))"
  shows "\<exists>c h tr'. udpSend env u (of_nat (length data)) buf tr = Some (OK, tr') \<and>
    netChksum (pseudo_of (take 4 (naddr (localip u))) (take 4 (naddr (remoteip u))) (8 + length data) @ udp_msg (localpt u) (remotept u) c data) (8 + length data + 12) = Some 0 \<and>
    netChksum (ip_hdr (of_nat (length data + 28)) 17 (take 4 (naddr (localip u))) (take 4 (naddr (remoteip u))) h) 20 = Some 0 \<and>
    frames tr' = frames tr @ [eth_frame (next_mac env n (next_hop (routes env ! r) (remoteip u)) (tr @ [NetGetbuf])) (netiftab env ! n)
      (ip_hdr (of_nat (length data + 28)) 17 (take 4 (naddr (localip u))) (take 4 (naddr (remoteip u))) h @ udp_msg (localpt u) (remotept u) c data)]"
proof -
  let ?L = "8 + length data" and ?z = "\<lambda>k. replicate k (0::u8)"
  define pkt0 where "pkt0 = \<lparr>pnif = None, plen = 0, plink = 0, pnet = 0, pcurr = 1598, pdata = ?z 1598\<rparr>"
  have g: "netGetbuf env tr = (Some pkt0, tr @ [NetGetbuf])" using f by (simp add: netGetbuf_def Let_def pkt0_def bufs_ok_def)
  obtain k where k: "pull_back (of_nat ?L) pkt0 = Some (pkt0\<lparr>plen := of_nat ?L, pcurr := 1598 - k\<rparr>)" "?L \<le> k" "k \<le> ?L + 3"
    using pull_back_ok [of ?L pkt0] l(1) by (auto simp: pkt0_def)
  define a where "a = ?z (1598 - k)"
  define e where "e = ?z (k - ?L)"
  have la: "length a = 1598 - k" "46 \<le> length a" using k l by (simp_all add: a_def)
  have "1598 = (1598 - k) + (8 + (length data + (k - ?L)))" using k(2,3) l(1) by simp
  moreover have "a @ ?z 8 @ ?z (length data) @ e = ?z ((1598 - k) + (8 + (length data + (k - ?L))))"
    by (simp only: a_def e_def replicate_add)
  ultimately have z: "?z 1598 = a @ ?z 8 @ ?z (length data) @ e" by metis
  have ul: "(ucast (of_nat ?L :: u32) :: u16) = of_nat ?L" "unat (of_nat ?L :: u16) = ?L"
    by (rule unat_of_small; use l(1) in simp)+
  note w = udp_header_written [of "?z 8" a, simplified length_replicate, OF refl]
  let ?e = "?z (length data) @ e" and ?sp = "localpt u" and ?dp = "remotept u"
  have w4: "wr16 (length a + 6) 0 (a @ (be16 ?sp @ be16 ?dp @ be16 (of_nat ?L) @ drop 6 (?z 8)) @ ?e) = Some (a @ (be16 ?sp @ be16 ?dp @ be16 (of_nat ?L) @ [0, 0]) @ ?e)"
    using w(4) [of 0] by simp
  have pd: "put_bytes (length a + 8) data (a @ (be16 ?sp @ be16 ?dp @ be16 (of_nat ?L) @ [0, 0]) @ ?e) = Some (a @ udp_msg ?sp ?dp 0 data @ e)"
    using put_bytes_mid [of 0 data "?z (length data)" "a @ be16 ?sp @ be16 ?dp @ be16 (of_nat ?L) @ [0, 0]" e] by (simp add: udp_msg_def)
  define pkt1 where "pkt1 = pkt0\<lparr>plen := of_nat ?L, pcurr := 1598 - k, pdata := a @ udp_msg ?sp ?dp 0 data @ e\<rparr>"
  have "udpSend env u (of_nat (length data)) buf tr = udp_finish env (of_nat ?L) (localip u) (remoteip u) pkt1 (tr @ [NetGetbuf])"
  proof -
    have s: "(of_nat (length data) :: u16) + of_nat UDP_HDR_LEN = of_nat ?L" by simp
    have p0: "pdata pkt0 = a @ ?z 8 @ ?e" using z by (simp add: pkt0_def)
    have d8: "get_bytes 0 (?L - 8) buf = Some data" "\<not> ?L < 8" using d by simp_all
    define q where "q = pkt0\<lparr>plen := of_nat ?L, pcurr := length a\<rparr>"
    have q: "pull_back (of_nat ?L) pkt0 = Some q" "pcurr q = length a" "pdata q = a @ ?z 8 @ ?e" "plen q = of_nat ?L"
      "pkt1 = q\<lparr>pdata := a @ udp_msg ?sp ?dp 0 data @ e\<rparr>"
      using k(1) la(1) p0 by (simp_all add: q_def pkt1_def)
    have "udpSend_active env u (of_nat (length data)) buf pkt0 (tr @ [NetGetbuf]) = udp_finish env (of_nat ?L) (localip u) (remoteip u) pkt1 (tr @ [NetGetbuf])"
      unfolding udpSend_active_def Let_def s q(5)
      by (simp only: q(1-4) bind.bind_lunit w(1,2,3) ul w4 d8 if_False pd)
    then show ?thesis using g u by (simp add: udpSend_def)
  qed
  then show ?thesis
    using udp_finish_ok [OF r f lip, of pkt1 a ?sp ?dp data e "tr @ [NetGetbuf]"] l la by (simp add: pkt1_def)
qed

section \<open>Receiving\<close>

definition le16 :: "u16 \<Rightarrow> bytes" where
  "le16 x = [ucast x, ucast (drop_bit 8 x)]"

lemma length_le16 [simp]: "length (le16 x) = 2"
  by (simp add: le16_def)

lemma u16_u32_u16: "(ucast (ucast (x :: u16) :: u32) :: u16) = x"
  by (rule bit_word_eqI) (simp add: bit_bytes bit_u16)

lemma rd16_at: "take 2 (drop k h) = [x, y] \<Longrightarrow> rd16 (a @ h @ e) (length a + k) = Some (ucast x + 256 * ucast y)"
proof -
  assume t: "take 2 (drop k h) = [x, y]"
  have "length (take 2 (drop k h)) = 2" using t by simp
  then have l: "k + 1 < length h" by (simp split: if_splits)
  then have "drop k h = h ! k # h ! (k + 1) # drop (k + 2) h" by (simp add: Cons_nth_drop_Suc)
  then have "h ! k = x" "h ! (k + 1) = y" using t by simp_all
  then show ?thesis using l by (simp add: rd16_def rd_def nth_append)
qed

lemma rd16_le:
  assumes "take 2 (drop k h) = le16 x"
  shows "rd16 (a @ h @ e) (length a + k) = Some (ucast x)"
proof -
  have "(ucast (ucast x :: u8) + 256 * ucast (ucast (drop_bit 8 x) :: u8) :: u32) = ucast x"
    unfolding ucast_sum
  proof (rule bit_word_eqI)
    fix n assume "n < LENGTH(32)"
    consider "n < 8" | "8 \<le> n" "n < 16" | "16 \<le> n" by linarith
    then show "bit (ucast (ucast x :: u8) OR push_bit 8 (ucast (ucast (drop_bit 8 x) :: u8)) :: u32) n = bit (ucast x :: u32) n"
      unfolding bit_bytes bit_u16 bit_or_iff bit_drop_bit_eq o_apply
      by cases (simp_all add: less_diff_conv2)
  qed
  then show ?thesis using rd16_at [of k h] assms by (simp add: le16_def)
qed

lemma swap16_mid:
  assumes "take 2 (drop k h) = be16 x"
  shows "swap16 (length a + k) (a @ h @ e) = Some (a @ (take k h @ le16 x @ drop (k + 2) h) @ e)"
proof -
  have "length (take 2 (drop k h)) = 2" using assms by simp
  then have l: "k + 2 \<le> length h" by (simp split: if_splits)
  have "rd16 (a @ h @ e) (length a + k) = Some (ucast (ucast (drop_bit 8 x) :: u8) + 256 * ucast (ucast x :: u8))"
    using rd16_at [of k h] assms by (simp add: be16_def)
  then show ?thesis
    unfolding swap16_def using wr16_mid [OF l, of a x e] by (simp add: net2hs_ucast u16_u32_u16 le16_def)
qed

definition host_msg :: "u16 \<Rightarrow> u16 \<Rightarrow> u16 \<Rightarrow> bytes \<Rightarrow> bytes" where
  "host_msg sp dp c data = le16 sp @ le16 dp @ le16 (of_nat (8 + length data)) @ le16 c @ data"

lemma length_host_msg [simp]: "length (host_msg sp dp c data) = 8 + length data"
  by (simp add: host_msg_def)

lemma to_host_order:
  "do { d \<leftarrow> swap16 (length a) (a @ udp_msg sp dp c data @ e); d \<leftarrow> swap16 (length a + 2) d; swap16 (length a + 4) d } =
   Some (a @ host_msg sp dp c data @ e)"
proof -
  let ?l = "of_nat (8 + length data) :: u16"
  have "swap16 (length a + 0) (a @ udp_msg sp dp c data @ e) = Some (a @ (le16 sp @ be16 dp @ be16 ?l @ le16 c @ data) @ e)"
    using swap16_mid [of 0 "udp_msg sp dp c data" sp a e] by (simp add: udp_msg_def be16_def le16_def)
  moreover have "swap16 (length a + 2) (a @ (le16 sp @ be16 dp @ be16 ?l @ le16 c @ data) @ e) = Some (a @ (le16 sp @ le16 dp @ be16 ?l @ le16 c @ data) @ e)"
    using swap16_mid [of 2 "le16 sp @ be16 dp @ be16 ?l @ le16 c @ data" dp a e] by (simp add: be16_def le16_def)
  moreover have "swap16 (length a + 4) (a @ (le16 sp @ le16 dp @ be16 ?l @ le16 c @ data) @ e) = Some (a @ host_msg sp dp c data @ e)"
    using swap16_mid [of 4 "le16 sp @ le16 dp @ be16 ?l @ le16 c @ data" ?l a e] by (simp add: be16_def le16_def host_msg_def)
  ultimately show ?thesis by simp
qed

text \<open>The buffer of a received datagram.\<close>

definition dgram :: "bytes \<Rightarrow> bytes \<Rightarrow> u16 \<Rightarrow> u16 \<Rightarrow> u16 \<Rightarrow> bytes \<Rightarrow> bytes" where
  "dgram s t sp dp c data = pseudo_hdr s t (le16 (of_nat (8 + length data))) @ host_msg sp dp c data @ replicate (1578 - length data) 0"

lemma udp_store_ok:
  assumes p: "pcurr pkt = length a" "pdata pkt = a @ host_msg sp dp c data @ e" and l: "length data \<le> 1400" and u: "icount u < int UDP_MAX_PKTS"
    and ad: "get_bytes 0 4 (naddr src) = Some s" "get_bytes 0 4 (naddr dst) = Some t" "length s = 4" "length t = 4"
    and ans: "answer env (tr @ [UdpGetbuf (inPool u)]) \<noteq> SYSERR"
  shows "udp_store env pkt sp src dst u tr =
    Some (OK, udp_enqueue (dgram s t sp dp c data) (bind_first sp src dst u), tr @ [UdpGetbuf (inPool u), SemSignal (isem u), NetFreebuf])"
proof -
  let ?L = "8 + length data" and ?z = "\<lambda>k. replicate k (0::u8)"
  have f: "inPool (bind_first sp src dst u) = inPool u" "isem (bind_first sp src dst u) = isem u" by (simp_all add: bind_first_def)
  have "take 2 (drop 4 (host_msg sp dp c data)) = le16 (of_nat ?L)" by (simp add: host_msg_def le16_def)
  then have len: "rd16 (pdata pkt) (length a + 4) = Some (of_nat ?L)"
    unfolding p(2) using rd16_le [of 4 "host_msg sp dp c data"] unat_of_small(4) [of ?L] l by simp
  have ul: "unat (of_nat ?L :: u32) = ?L" "(ucast (of_nat ?L :: u32) :: u16) = of_nat ?L" by (rule unat_of_small; use l in simp)+
  have seg: "get_bytes (length a) ?L (pdata pkt) = Some (host_msg sp dp c data)" unfolding p(2) by simp
  have lp: "length (pseudo_hdr s t (le16 (of_nat ?L))) = 12" using ad by (simp add: pseudo_hdr_def)
  have "1598 = 12 + (?L + (1578 - length data))" using l by simp
  moreover have "?z 12 @ ?z ?L @ ?z (1578 - length data) = ?z (12 + (?L + (1578 - length data)))" by (simp only: replicate_add)
  ultimately have z: "?z 1598 = ?z 12 @ ?z ?L @ ?z (1578 - length data)" by metis
  have w1: "put_bytes 0 (pseudo_hdr s t (le16 (of_nat ?L))) (?z 1598) = Some (pseudo_hdr s t (le16 (of_nat ?L)) @ ?z ?L @ ?z (1578 - length data))"
    unfolding z using put_bytes_mid [of 0 "pseudo_hdr s t (le16 (of_nat ?L))" "?z 12" "[]" "?z ?L @ ?z (1578 - length data)"] lp by simp
  have w2: "put_bytes 12 (host_msg sp dp c data) (pseudo_hdr s t (le16 (of_nat ?L)) @ ?z ?L @ ?z (1578 - length data)) = Some (dgram s t sp dp c data)"
    using put_bytes_mid [of 0 "host_msg sp dp c data" "?z ?L" "pseudo_hdr s t (le16 (of_nat ?L))" "?z (1578 - length data)"] lp by (simp add: dgram_def)
  have le: "[ucast (of_nat ?L :: u16), ucast (drop_bit 8 (of_nat ?L :: u16))] = le16 (of_nat ?L)" by (simp add: le16_def)
  have c0: "\<not> int UDP_MAX_PKTS \<le> icount u" using u by simp
  show ?thesis
    unfolding udp_store_def if_not_P [OF c0] Let_def f if_not_P [OF ans] p(1) len bind.bind_lunit ad(1,2) ul seg le
    by (simp only: w1 w2 bind.bind_lunit append.assoc append.simps)
qed

lemma udpRecv_ok:
  assumes p: "pcurr pkt = length a" "12 \<le> length a" "pdata pkt = a @ udp_msg sp dp c data @ e" and l: "length data \<le> 1400"
    and ad: "get_bytes 0 4 (naddr src) = Some s" "get_bytes 0 4 (naddr dst) = Some t" "length s = 4" "length t = 4"
    and ck: "netChksum (pseudo_of s t (8 + length data) @ udp_msg sp dp c data) (8 + length data + 12) = Some 0"
    and dm: "udpDemux dp sp dst src tab = Some (Some i)" "icount (tab ! i) < int UDP_MAX_PKTS"
    and ans: "answer env (tr @ [UdpGetbuf (inPool (tab ! i))]) \<noteq> SYSERR"
  shows "udpRecv env pkt src dst tab tr =
    Some (OK, tab[i := udp_enqueue (dgram s t sp dp c data) (bind_first sp src dst (tab ! i))],
      tr @ [UdpGetbuf (inPool (tab ! i)), SemSignal (isem (tab ! i)), NetFreebuf])"
proof -
  let ?L = "8 + length data"
  have "take 2 (drop 4 (udp_msg sp dp c data)) = be16 (of_nat ?L)" by (simp add: udp_msg_def be16_def)
  then obtain len where len: "rd16 (pdata pkt) (length a + 4) = Some len" "net2hs len = ucast (of_nat ?L :: u16)"
    using rd16_be16_net [of "length a + 4" "pdata pkt" "of_nat ?L"] unfolding p(3) by (auto simp: udp_msg_def be16_def)
  have len': "(ucast (net2hs len) :: u16) = of_nat ?L" unfolding len(2) by (rule u16_u32_u16)
  obtain c' where c': "rd16 (pdata pkt) (length a + 6) = Some c'"
    unfolding p(3) using rd16_at [of 6 "udp_msg sp dp c data"] by (auto simp: udp_msg_def be16_def)
  have sum: "udpChksum pkt (of_nat ?L) src dst = Some 0"
    using udpChksum_eq [OF p length_udp_msg _ ad] ck l by simp
  have sum': "(if c' \<noteq> 0 then udpChksum pkt (of_nat ?L) src dst else Some 0) = Some 0" using sum by simp
  define d1 where "d1 = a @ host_msg sp dp c data @ e"
  obtain x y where sw: "swap16 (length a) (pdata pkt) = Some x" "swap16 (length a + 2) x = Some y" "swap16 (length a + 4) y = Some d1"
    using to_host_order [of a sp dp c data e] unfolding p(3) d1_def by (auto simp: bind_eq_Some_conv)
  have ports: "rd16 d1 (length a) = Some (ucast sp)" "rd16 d1 (length a + 2) = Some (ucast dp)"
    using rd16_le [of 0 "host_msg sp dp c data" sp a e] rd16_le [of 2 "host_msg sp dp c data" dp a e]
    by (simp_all add: d1_def host_msg_def le16_def)
  have z: "\<not> (0::u16) \<noteq> 0" by simp
  have st: "udp_store env (pkt\<lparr>pdata := d1\<rparr>) sp src dst (tab ! i) tr =
      Some (OK, udp_enqueue (dgram s t sp dp c data) (bind_first sp src dst (tab ! i)), tr @ [UdpGetbuf (inPool (tab ! i)), SemSignal (isem (tab ! i)), NetFreebuf])"
    by (rule udp_store_ok [OF _ _ l dm(2) ad ans]) (use p(1) in \<open>simp_all add: d1_def\<close>)
  have pc: "pcurr (pkt\<lparr>pdata := d1\<rparr>) = length a" using p(1) by simp
  show ?thesis
    unfolding udpRecv_def p(1) c' len(1) bind.bind_lunit len' sum' if_not_P [OF z] sw ports Let_def u16_u32_u16 dm(1)
    by (simp only: option.case st bind.bind_lunit prod.case)
qed

section \<open>Reading\<close>

lemma udpRead_take_ok:
  assumes o: "ustate u = UDP_OPEN" "uflags u AND UDP_FLAG_PASSIVE = 0" and b: "udpin u (nat (istart u)) = dgram s t sp dp c data"
    and l: "length data \<le> 1400" "length s = 4" "length t = 4" and n: "n = min (unat len) (length data)"
  shows "udpRead_take len u tr =
    Some (int n, take n data, u\<lparr>istart := (istart u + 1) mod int UDP_MAX_PKTS, icount := icount u - 1\<rparr>, tr @ [UdpFreebuf])"
proof -
  let ?L = "8 + length data"
  have lp: "length (pseudo_hdr s t (le16 (of_nat ?L))) = 12" using l by (simp add: pseudo_hdr_def)
  have "take 2 (drop 4 (host_msg sp dp c data)) = le16 (of_nat ?L)" by (simp add: host_msg_def le16_def)
  then have "rd16 (dgram s t sp dp c data) (length (pseudo_hdr s t (le16 (of_nat ?L))) + 4) = Some (ucast (of_nat ?L :: u16))"
    unfolding dgram_def by (rule rd16_le)
  then have rd: "rd16 (dgram s t sp dp c data) (PSEUDO_LEN + 4) = Some (of_nat ?L)"
    unfolding lp using unat_of_small(4) [of ?L] l by simp
  have c: "(of_nat ?L :: u32) - of_nat UDP_HDR_LEN = of_nat (length data)" by simp
  have u: "unat (of_nat (length data) :: u32) = length data" by (rule unat_of_small) (use l in simp)
  define k where "k = (if (of_nat (length data) :: u32) > len then len else of_nat (length data))"
  have k: "unat k = n" "to_int k = int n"
  proof -
    show "unat k = n" using u by (auto simp: k_def n word_less_nat_alt min_def)
    then have "uint k = int n" using uint_nat [of k] by metis
    then show "to_int k = int n" using to_int_small [of k] n l by simp
  qed
  have "drop 20 (dgram s t sp dp c data) = data @ replicate (1578 - length data) 0"
    using lp by (simp add: dgram_def host_msg_def)
  moreover have "length (dgram s t sp dp c data) = 1598" using l lp by (simp add: dgram_def)
  ultimately have g: "get_bytes (PSEUDO_LEN + UDP_HDR_LEN) n (dgram s t sp dp c data) = Some (take n data)" using n l by simp
  show ?thesis
    unfolding udpRead_take_def Let_def b rd bind.bind_lunit c
    using o g k by (simp flip: k_def)
qed

section \<open>The input queue\<close>

text \<open>An open device in its normal mode whose ring holds datagrams with the payloads \<open>xs\<close>, oldest first.\<close>

definition holds :: "bytes \<Rightarrow> bytes \<Rightarrow> bool" where
  "holds b x \<longleftrightarrow> (\<exists>s t sp dp c. length s = 4 \<and> length t = 4 \<and> length x \<le> 1400 \<and> b = dgram s t sp dp c x)"

definition udp_queue :: "udp \<Rightarrow> bytes list \<Rightarrow> bool" where
  "udp_queue u xs \<longleftrightarrow> ustate u = UDP_OPEN \<and> uflags u AND UDP_FLAG_PASSIVE = 0 \<and> 0 \<le> istart u \<and> istart u < int UDP_MAX_PKTS \<and>
     icount u = int (length xs) \<and> length xs \<le> UDP_MAX_PKTS \<and>
     list_all2 holds (ring_list UDP_MAX_PKTS (udpin u) (nat (istart u)) (length xs)) xs"

lemma bind_first_fields [simp]:
  "ustate (bind_first sp src dst u) = ustate u" "istart (bind_first sp src dst u) = istart u" "icount (bind_first sp src dst u) = icount u"
  "udpin (bind_first sp src dst u) = udpin u" "inPool (bind_first sp src dst u) = inPool u" "isem (bind_first sp src dst u) = isem u"
  by (simp_all add: bind_first_def)

lemma bind_first_passive: "uflags u AND UDP_FLAG_PASSIVE = 0 \<Longrightarrow> uflags (bind_first sp src dst u) AND UDP_FLAG_PASSIVE = 0"
proof -
  assume a: "uflags u AND UDP_FLAG_PASSIVE = 0"
  have "(uflags u AND NOT UDP_FLAG_BINDFIRST) AND UDP_FLAG_PASSIVE = (uflags u AND UDP_FLAG_PASSIVE) AND NOT UDP_FLAG_BINDFIRST"
    by (simp only: and.assoc and.commute and.left_commute)
  then show ?thesis using a by (simp add: bind_first_def)
qed

lemma udp_enqueue_queue:
  assumes q: "udp_queue u xs" and l: "length xs < UDP_MAX_PKTS" and h: "holds b x"
  shows "udp_queue (udp_enqueue b (bind_first sp src dst u)) (xs @ [x])"
proof -
  have d: "ustate u = UDP_OPEN" "uflags u AND UDP_FLAG_PASSIVE = 0" "0 \<le> istart u" "istart u < int UDP_MAX_PKTS" "icount u = int (length xs)"
    "list_all2 holds (ring_list UDP_MAX_PKTS (udpin u) (nat (istart u)) (length xs)) xs" using q by (simp_all add: udp_queue_def)
  have i: "nat ((istart u + int (length xs)) mod int UDP_MAX_PKTS) = (nat (istart u) + length xs) mod UDP_MAX_PKTS"
    using d(3) by (simp add: nat_mod_distrib nat_add_distrib)
  have "ring_list UDP_MAX_PKTS (udpin (udp_enqueue b (bind_first sp src dst u))) (nat (istart u)) (Suc (length xs)) =
      ring_list UDP_MAX_PKTS (udpin u) (nat (istart u)) (length xs) @ [b]"
    using ring_list_put [OF l, of "udpin u" "nat (istart u)" b] i d(5) by (simp add: udp_enqueue_def)
  then show ?thesis
    using d l h bind_first_passive [OF d(2)] by (simp add: udp_queue_def udp_enqueue_def list_all2_append)
qed

lemma udp_dequeue_queue:
  assumes q: "udp_queue u (x # xs)"
  shows "udp_queue (u\<lparr>istart := (istart u + 1) mod int UDP_MAX_PKTS, icount := icount u - 1\<rparr>) xs" "holds (udpin u (nat (istart u))) x"
proof -
  have d: "ustate u = UDP_OPEN" "uflags u AND UDP_FLAG_PASSIVE = 0" "0 \<le> istart u" "istart u < int UDP_MAX_PKTS" "icount u = 1 + int (length xs)"
    "list_all2 holds (ring_list UDP_MAX_PKTS (udpin u) (nat (istart u)) (Suc (length xs))) (x # xs)" "Suc (length xs) \<le> UDP_MAX_PKTS"
    using q by (simp_all add: udp_queue_def)
  have i: "nat ((istart u + 1) mod int UDP_MAX_PKTS) = Suc (nat (istart u)) mod UDP_MAX_PKTS"
    using d(3) by (simp add: nat_mod_distrib Suc_nat_eq_nat_zadd1 add.commute)
  show "udp_queue (u\<lparr>istart := (istart u + 1) mod int UDP_MAX_PKTS, icount := icount u - 1\<rparr>) xs"
    using d i by (simp add: udp_queue_def ring_list_get)
  show "holds (udpin u (nat (istart u))) x" using d(3,4,6) by (simp add: ring_list_get)
qed

lemma udp_read_head:
  assumes "udp_queue u (x # xs)" "length x \<le> unat len"
  shows "\<exists>u'. udpRead_enter u = None \<and> udpRead_take len u tr = Some (int (length x), x, u', tr @ [UdpFreebuf]) \<and> udp_queue u' xs"
proof -
  obtain s t sp dp c where h: "udpin u (nat (istart u)) = dgram s t sp dp c x" "length s = 4" "length t = 4" "length x \<le> 1400"
    using udp_dequeue_queue(2) [OF assms(1)] unfolding holds_def by blast
  have o: "ustate u = UDP_OPEN" "uflags u AND UDP_FLAG_PASSIVE = 0" "\<not> icount u < 1" using assms by (simp_all add: udp_queue_def)
  show ?thesis
    using udpRead_take_ok [OF o(1,2) h(1,4,2,3), of "length x" len tr] udp_dequeue_queue(1) [OF assms(1)] assms(2) o
    by (simp add: udpRead_enter_def min_absorb2)
qed

definition udp_put :: "ipenv \<Rightarrow> netaddr \<Rightarrow> netaddr \<Rightarrow> u16 \<Rightarrow> u16 \<Rightarrow> bytes \<Rightarrow> udp \<Rightarrow> udp option" where
  \<comment> \<open>the datagram with payload \<open>x\<close> arrives\<close>
  "udp_put env src dst sp dp x u =
     (case udp_store env \<lparr>pnif = None, plen = 0, plink = 0, pnet = 0, pcurr = 0, pdata = host_msg sp dp 0 x\<rparr> sp src dst u [] of
        Some (r, u, _) \<Rightarrow> if r = OK then Some u else None | None \<Rightarrow> None)"

definition udp_get :: "udp \<Rightarrow> (bytes \<times> udp) option" where
  "udp_get u = (case udpRead_enter u of Some _ \<Rightarrow> None
     | None \<Rightarrow> (case udpRead_take 0xFFFFFFFF u [] of Some (n, x, u, _) \<Rightarrow> Some (x, u) | None \<Rightarrow> None))"

definition pool_ok :: "ipenv \<Rightarrow> bool" where
  "pool_ok env \<longleftrightarrow> (\<forall>tr p. answer env (tr @ [UdpGetbuf p]) \<noteq> SYSERR)"

interpretation udpq: fifo "udp_put env src dst sp dp" udp_get
  "\<lambda>u xs. udp_queue u xs \<and> pool_ok env \<and> is_ip src s \<and> is_ip dst t \<and> length s = 4 \<and> length t = 4" "\<lambda>x. length x \<le> 1400" UDP_MAX_PKTS
  for env src dst sp dp s t
proof
  fix u xs and x :: bytes
  assume a: "udp_queue u xs \<and> pool_ok env \<and> is_ip src s \<and> is_ip dst t \<and> length s = 4 \<and> length t = 4" "length xs < UDP_MAX_PKTS" "length x \<le> 1400"
  have ans: "answer env ([] @ [UdpGetbuf (inPool u)]) \<noteq> SYSERR" using a(1) unfolding pool_ok_def by blast
  have i: "icount u < int UDP_MAX_PKTS" and lst: "length s = 4" "length t = 4"
    and ad: "get_bytes 0 4 (naddr src) = Some s" "get_bytes 0 4 (naddr dst) = Some t"
    using a is_ip_bytes unfolding udp_queue_def by auto
  have "udp_put env src dst sp dp x u = Some (udp_enqueue (dgram s t sp dp 0 x) (bind_first sp src dst u))"
    using udp_store_ok [of "\<lparr>pnif = None, plen = 0, plink = 0, pnet = 0, pcurr = 0, pdata = host_msg sp dp 0 x\<rparr>" "[]" sp dp 0 x "[]", OF _ _ a(3) i ad lst ans]
    by (simp add: udp_put_def)
  moreover have "holds (dgram s t sp dp 0 x) x" unfolding holds_def using a(3) lst by blast
  ultimately show "\<exists>u'. udp_put env src dst sp dp x u = Some u' \<and> udp_queue u' (xs @ [x]) \<and> pool_ok env \<and> is_ip src s \<and> is_ip dst t \<and> length s = 4 \<and> length t = 4"
    using udp_enqueue_queue [of u xs] a by blast
next
  fix u x xs
  assume a: "udp_queue u (x # xs) \<and> pool_ok env \<and> is_ip src s \<and> is_ip dst t \<and> length s = 4 \<and> length t = 4"
  then have "length x \<le> 1400" using udp_dequeue_queue(2) by (auto simp: holds_def)
  then obtain u' where "udpRead_enter u = None" "udpRead_take 0xFFFFFFFF u [] = Some (int (length x), x, u', [] @ [UdpFreebuf])" "udp_queue u' xs"
    using udp_read_head [of u x xs "0xFFFFFFFF" "[]"] a by auto
  then show "\<exists>u'. udp_get u = Some (x, u') \<and> udp_queue u' xs \<and> pool_ok env \<and> is_ip src s \<and> is_ip dst t \<and> length s = 4 \<and> length t = 4"
    using a by (simp add: udp_get_def)
qed

section \<open>From one station to another\<close>

lemma udp_transferred:
  assumes r: "route_up env (remoteip u) r n" "bufs_ok env" and u: "uflags u AND UDP_FLAG_PASSIVE = 0" "natype (localip u) \<noteq> 0" "4 \<le> length (naddr (localip u))"
    and d: "get_bytes 0 (length data) buf = Some data" "length data \<le> 1024" "length data + 28 \<le> unat (nifmtu (netiftab env ! n))" "len_accepted (length data + 28)"
    and l: "listens env' m (next_mac env n (next_hop (routes env ! r) (remoteip u)) (tr @ [NetGetbuf]))" "ours env' (take 4 (naddr (remoteip u)))" "pool_ok env'"
    and k: "k \<le> length pad" "k < 2000"
    and dm: "\<forall>a b. is_ip a (take 4 (naddr (localip u))) \<and> is_ip b (take 4 (naddr (remoteip u))) \<longrightarrow> udpDemux (remotept u) (localpt u) b a tab = Some (Some i)"
    and q: "i < length tab" "udp_queue (tab ! i) xs" "length xs < UDP_MAX_PKTS"
  shows "\<exists>tr' f. udpSend env u (of_nat (length data)) buf tr = Some (OK, tr') \<and> frames tr' = frames tr @ [f] \<and>
    (\<exists>p1 p2 a b tr1 tab' tr4.
       netRecv_packet env' m (int (length f + k)) (f @ pad) st tr2 = Some (st\<lparr>nin := nin st + 1, nproc := nproc st + 1\<rparr>, tr1 @ [Ipv4Recv p1]) \<and>
       ipv4Recv env' p1 tr3 = Some (OK, p2, tr3 @ [UdpRecv p2 a b]) \<and>
       udpRecv env' p2 a b tab tr5 = Some (OK, tab', tr4) \<and> udp_queue (tab' ! i) (xs @ [data]))"
proof -
  let ?s = "take 4 (naddr (localip u))" and ?t = "take 4 (naddr (remoteip u))" and ?n = "length data + 28"
    and ?mac = "next_mac env n (next_hop (routes env ! r) (remoteip u)) (tr @ [NetGetbuf])" and ?sp = "localpt u" and ?dp = "remotept u"
  obtain c h tr' where s: "udpSend env u (of_nat (length data)) buf tr = Some (OK, tr')"
    "netChksum (pseudo_of ?s ?t (8 + length data) @ udp_msg ?sp ?dp c data) (8 + length data + 12) = Some 0"
    "netChksum (ip_hdr (of_nat ?n) 17 ?s ?t h) 20 = Some 0"
    "frames tr' = frames tr @ [eth_frame ?mac (netiftab env ! n) (ip_hdr (of_nat ?n) 17 ?s ?t h @ udp_msg ?sp ?dp c data)]"
    using udpSend_ok [OF r u d(1,2,3), of tr] by blast
  define f where "f = eth_frame ?mac (netiftab env ! n) (ip_hdr (of_nat ?n) 17 ?s ?t h @ udp_msg ?sp ?dp c data)"
  have up: "link_up env n" "4 \<le> length (naddr (remoteip u))" using r by (simp_all add: route_up_def addr_ok_def)
  have hw: "length ?mac = 6" "hw_addr (nifhwaddr (netiftab env ! n))" using up length_next_mac by (simp_all add: link_up_def)
  have st4: "length ?s = 4" "length ?t = 4" and n: "?n = length (udp_msg ?sp ?dp c data) + 20" "?n < 60000" using u up d by simp_all
  let ?p = "rcv_packet m ?n (f @ pad)"
  note rp = rcv_payload [OF f_def hw n st4, of m pad]
  obtain p1 a b tr1 where rc: "netRecv_packet env' m (int (length f + k)) (f @ pad) st tr2 = Some (st\<lparr>nin := nin st + 1, nproc := nproc st + 1\<rparr>, tr1 @ [Ipv4Recv p1])"
    "ipv4Recv env' p1 tr3 = Some (OK, ?p, tr3 @ [transport 17 ?p a b])" "is_ip a ?s" "is_ip b ?t"
    using frame_received [OF f_def hw n d(4) st4 s(3) l(1,2) k, of st tr2 tr3] by blast
  have t17: "transport 17 ?p a b = UdpRecv ?p a b" by (simp add: transport_def)
  have ic: "icount (tab ! i) < int UDP_MAX_PKTS" using q by (simp add: udp_queue_def)
  define pre where "pre = take 34 (pdata ?p)"
  have "length (drop 34 (pdata ?p)) > 0" unfolding rp(3) by simp
  then have pre: "length pre = 34" "pdata ?p = pre @ udp_msg ?sp ?dp c data @ pad"
    unfolding rp(3) [symmetric] pre_def by simp_all
  have dmx: "udpDemux ?dp ?sp b a tab = Some (Some i)" using dm rc(3,4) by blast
  have "udpRecv env' ?p a b tab tr5 = Some (OK, tab[i := udp_enqueue (dgram ?s ?t ?sp ?dp c data) (bind_first ?sp a b (tab ! i))],
      tr5 @ [UdpGetbuf (inPool (tab ! i)), SemSignal (isem (tab ! i)), NetFreebuf])"
    by (rule udpRecv_ok [OF _ _ pre(2) _ is_ip_bytes [OF rc(3)] is_ip_bytes [OF rc(4)] st4 s(2) dmx ic]) (use pre rp(1) d(2) l(3) in \<open>simp_all add: pool_ok_def\<close>)
  moreover have "holds (dgram ?s ?t ?sp ?dp c data) data" unfolding holds_def using st4 d(2) by (intro exI conjI) (assumption | simp)+
  then have "udp_queue (tab[i := udp_enqueue (dgram ?s ?t ?sp ?dp c data) (bind_first ?sp a b (tab ! i))] ! i) (xs @ [data])"
    using udp_enqueue_queue [OF q(2,3)] q(1) by simp
  ultimately show ?thesis using s(1,4) rc(1,2) unfolding t17 f_def [symmetric] by blast
qed

section \<open>The length field\<close>

lemma udp_store_overrun:
  assumes p: "rd16 (pdata pkt) (pcurr pkt + 4) = Some len" "1586 < unat len" and u: "icount u < int UDP_MAX_PKTS"
    and ans: "answer env (tr @ [UdpGetbuf (inPool u)]) \<noteq> SYSERR"
  shows "udp_store env pkt sp src dst u tr = None"
proof -
  have no: False if "put_bytes 0 x (replicate NET_MAX_PKTLEN 0) = Some b2" "put_bytes PSEUDO_LEN seg b2 = Some b3" "length seg = unat len" for x b2 b3 seg
    using put_bytes_length [OF that(1)] that(2,3) p(2) by (simp add: put_bytes_def split: if_splits)
  have False if "udp_store env pkt sp src dst u tr = Some r" for r
    using that p(1) u ans unfolding udp_store_def
    by (auto simp: Let_def bind_Some_iff get_bytes_def split: if_splits dest: no)
  then show ?thesis by (cases "udp_store env pkt sp src dst u tr") auto
qed

end
