(* ===== verification/Ip_Frag.thy ===== *)
theory Ip_Frag
  imports Ip_Deliver
begin

text \<open>
  What \<^verbatim>\<open>ipv4SendFrag\<close> does with a packet longer than the MTU of an Ethernet interface.
\<close>

lemma put16_ip_hdr: "put16 (ip_hdr l proto s t c) 10 c' = ip_hdr l proto s t c'"
  by (simp add: put16_def ip_hdr_def be16_def numeral_eq_Suc)

lemma wr16_hdr_len:
  assumes "length s = 4" "length t = 4"
  shows "wr16 (length a + 2) (ucast (hs2net x)) (a @ ip_hdr l proto s t c @ e) = Some (a @ ip_hdr (ucast x) proto s t c @ e)"
  unfolding wr16_net using put_bytes_mid [of 2 "be16 (ucast x)" "ip_hdr l proto s t c" a e] assms
  by (simp add: ip_hdr_def be16_def numeral_eq_Suc)

lemma wr16_hdr_flags:
  assumes "length s = 4" "length t = 4"
  shows "wr16 (length a + 6) 0 (a @ ip_hdr l proto s t c @ e) = Some (a @ ip_hdr l proto s t c @ e)"
  using wr16_mid [of 6 "ip_hdr l proto s t c" a 0 e] assms by (simp add: ip_hdr_def be16_def numeral_eq_Suc)

lemma set_chksum_hdr:
  assumes "length s = 4" "length t = 4"
  shows "\<exists>c'. set_chksum (length a + 10) 20 (length a) (a @ ip_hdr l proto s t c @ e) = Some (a @ ip_hdr l proto s t c' @ e) \<and>
    netChksum (ip_hdr l proto s t c') 20 = Some 0"
  using set_chksum_ok [of 10 20 "ip_hdr l proto s t c" a e] assms by (simp add: put16_ip_hdr)

lemma hs2net_0 [simp]: "hs2net 0 = 0"
  by (simp add: hs2net_def)

lemma rd16_hdr_len:
  assumes "length s = 4" "length t = 4"
  obtains v where "rd16 (a @ ip_hdr l proto s t c @ e) (length a + 2) = Some v" "net2hs v = ucast l"
  by (rule rd16_be16_net [of "length a + 2" "a @ ip_hdr l proto s t c @ e" l]) (use assms in \<open>simp_all add: ip_hdr_def be16_def\<close>)

lemma rd16_hdr_flags:
  assumes "length s = 4" "length t = 4"
  obtains v where "rd16 (a @ ip_hdr l proto s t c @ e) (length a + 6) = Some v" "net2hs v = 0"
  by (rule rd16_be16_net [of "length a + 6" "a @ ip_hdr l proto s t c @ e" 0]) (use assms in \<open>simp_all add: ip_hdr_def be16_def\<close>)

text \<open>The second and last fragment.\<close>

lemma frag_loop_done: "frag_loop env mtu nxthop inp ptr lf data 0 froff out tr = Some (out, tr)"
  by (subst frag_loop.simps) simp

lemma frag_loop_step:
  assumes "dRem > 0" "\<not> (dRem + 7) AND NOT 7 > mtu + of_nat IPv4_HDR_LEN" "ucast (ucast dRem :: u16) = dRem"
    and "get_bytes data (unat (ucast dRem :: u16)) inp = Some seg" "put_bytes (ptr + 20) seg (pdata out) = Some b1"
    and "wr16 (ptr + 6) (ucast (hs2net (ucast (lf AND froff)))) b1 = Some b2"
    and "wr16 (ptr + 2) (ucast (hs2net (of_nat IPv4_HDR_LEN + dRem))) b2 = Some b3"
    and "set_chksum (ptr + 10) IPv4_HDR_LEN ptr b3 = Some b4" "rd16 b4 (ptr + 2) = Some l"
    and "netSend env None (Some nxthop) ETHER_TYPE_IPv4 (out\<lparr>pdata := b4, plen := net2hs l\<rparr>) tr = Some (x, out', tr')"
  shows "frag_loop env mtu nxthop inp ptr lf data dRem froff out tr = Some (out', tr')"
  by (subst frag_loop.simps)
    (simp only: assms(1-3) Let_def if_True if_False simp_thms assms(4-10) bind.bind_lunit prod.case diff_self frag_loop_done)

lemma frag_loop_last:
  assumes up: "link_up env n" and l: "length s = 4" "length t = 4" "length lh = 14"
    and out: "pnif out = Some n" "pcurr out = length pre + 14" "pdata out = pre @ lh @ ip_hdr l0 proto s t c0 @ old @ tail" "length old = length d2"
    and d2: "get_bytes data (length d2) inp = Some d2" "0 < length d2" "length d2 \<le> 1480" "lf AND froff = 0"
  shows "\<exists>c out' tr'. frag_loop env 1500 nxthop inp (length pre + 14) lf data (of_nat (length d2)) froff out tr = Some (out', tr') \<and>
    netChksum (ip_hdr (of_nat (20 + length d2)) proto s t c) 20 = Some 0 \<and>
    frames tr' = frames tr @ [eth_frame (octets (resolved env (tr @ [ArpLookup n (Some nxthop)]))) (netiftab env ! n)
      (ip_hdr (of_nat (20 + length d2)) proto s t c @ d2)]"
proof -
  let ?m = "length d2" and ?a = "pre @ lh"
  have u: "unat (of_nat ?m :: u16) = ?m" "unat (of_nat ?m :: u32) = ?m" "(ucast (of_nat ?m :: u32) :: u16) = of_nat ?m" "(ucast (of_nat ?m :: u16) :: u32) = of_nat ?m"
    using d2 by (simp_all add: unat_of_nat take_bit_nat_eq_self word_unat_eq_iff unsigned_ucast_eq)
  have "((of_nat ?m :: u32) + 7) AND NOT 7 \<le> of_nat ?m + 7" by (rule word_and_le2)
  moreover have "(of_nat ?m :: u32) + 7 = of_nat (?m + 7)" by simp
  then have "unat ((of_nat ?m :: u32) + 7) = ?m + 7" using d2 by (simp only: unat_of_nat) (simp add: take_bit_eq_mod)
  ultimately have small: "\<not> ((of_nat ?m :: u32) + 7) AND NOT 7 > 1500 + of_nat IPv4_HDR_LEN"
    using d2 by (simp add: word_le_nat_alt not_less)
  have pos: "(of_nat ?m :: u32) > 0" using d2 u(2) by (metis unat_gt_0 word_neq_0_conv)
  have w1: "put_bytes (length pre + 14 + 20) d2 (pdata out) = Some (?a @ ip_hdr l0 proto s t c0 @ d2 @ tail)"
    using put_bytes_mid [of 0 d2 old "?a @ ip_hdr l0 proto s t c0" tail] out l by (simp add: add.assoc)
  have la: "length ?a = length pre + 14" using l by simp
  have w2: "wr16 (length pre + 14 + 6) (ucast (hs2net (ucast (lf AND froff)))) (?a @ ip_hdr l0 proto s t c0 @ d2 @ tail) = Some (?a @ ip_hdr l0 proto s t c0 @ d2 @ tail)"
    using wr16_hdr_flags [OF l(1,2), of ?a l0 proto c0 "d2 @ tail"] d2(4) unfolding la by simp
  have w3: "wr16 (length pre + 14 + 2) (ucast (hs2net (of_nat IPv4_HDR_LEN + of_nat ?m))) (?a @ ip_hdr l0 proto s t c0 @ d2 @ tail) = Some (?a @ ip_hdr (of_nat (20 + ?m)) proto s t c0 @ d2 @ tail)"
  proof -
    have "unat (of_nat (20 + ?m) :: u32) = 20 + ?m" using d2 by (simp only: unat_of_nat) (simp add: take_bit_eq_mod)
    then have "(ucast (of_nat (20 + ?m) :: u32) :: u16) = of_nat (20 + ?m)" using arg_cong [of _ _ "of_nat :: nat \<Rightarrow> u16"] by (metis of_nat_unat)
    then show ?thesis using wr16_hdr_len [OF l(1,2), of ?a "of_nat (20 + ?m)" l0 proto c0 "d2 @ tail"] unfolding la by simp
  qed
  obtain c where c: "set_chksum (length pre + 14 + 10) IPv4_HDR_LEN (length pre + 14) (?a @ ip_hdr (of_nat (20 + ?m)) proto s t c0 @ d2 @ tail) =
      Some (?a @ ip_hdr (of_nat (20 + ?m)) proto s t c @ d2 @ tail)" "netChksum (ip_hdr (of_nat (20 + ?m)) proto s t c) 20 = Some 0"
    using set_chksum_hdr [OF l(1,2), of ?a "of_nat (20 + ?m)" proto c0 "d2 @ tail"] unfolding la by auto
  obtain v where v: "rd16 (?a @ ip_hdr (of_nat (20 + ?m)) proto s t c @ d2 @ tail) (length pre + 14 + 2) = Some v" "net2hs v = ucast (of_nat (20 + ?m) :: u16)"
    by (rule rd16_hdr_len [OF l(1,2), of ?a "of_nat (20 + ?m)" proto c "d2 @ tail"]) (unfold la, assumption)
  have v20: "unat (net2hs v) = 20 + ?m"
    unfolding v(2) using d2 by (simp add: unsigned_ucast_eq unat_of_nat take_bit_nat_eq_self del: of_nat_add)
  define out1 where "out1 = out\<lparr>pdata := ?a @ ip_hdr (of_nat (20 + ?m)) proto s t c @ d2 @ tail, plen := net2hs v\<rparr>"
  obtain out' tr' where send: "netSend env None (Some nxthop) ETHER_TYPE_IPv4 out1 tr = Some (OK, out', tr')"
    "frames tr' = frames tr @ [(octets (resolved env (tr @ [ArpLookup n (Some nxthop)])) @ octets (nifhwaddr (netiftab env ! n)) @ be16 ETHER_TYPE_IPv4) @ ip_hdr (of_nat (20 + ?m)) proto s t c @ d2]"
    using netSend_ok [OF up, of out1 pre lh "ip_hdr (of_nat (20 + ?m)) proto s t c @ d2" tail None "Some nxthop" ETHER_TYPE_IPv4 tr] out l v20 d2 by (auto simp: out1_def)
  have "frag_loop env 1500 nxthop inp (length pre + 14) lf data (of_nat ?m) froff out tr = Some (out', tr')"
    by (rule frag_loop_step [OF pos small _ _ w1 w2 w3 c(1) v(1) send(1) [unfolded out1_def]]) (simp_all add: u d2(1))
  then show ?thesis using c(2) send(2) by (auto simp: eth_frame_def)
qed

text \<open>The rest of a packet after the first fragment, in a buffer of its own.\<close>

lemma frag_rest_last:
  assumes up: "link_up env n" and l: "length s = 4" "length t = 4" and mtu: "nifmtu nif = 1500"
    and buf: "answer env (tr @ [NetGetbuf]) \<noteq> SYSERR" and pkt: "pnif pkt = Some n" "get_bytes ptr 20 (pdata pkt) = Some (ip_hdr l0 proto s t c0)"
    and d2: "get_bytes data (length d2) (pdata pkt) = Some d2" "0 < length d2" "length d2 \<le> 1480" "lf AND froff = 0"
  shows "\<exists>c tr'. frag_rest env nif nxthop ptr lf data (of_nat (length d2)) froff pkt tr = Some (OK, pkt, tr') \<and>
    netChksum (ip_hdr (of_nat (20 + length d2)) proto s t c) 20 = Some 0 \<and>
    frames tr' = frames tr @ [eth_frame (octets (resolved env (tr @ [NetGetbuf, ArpLookup n (Some nxthop)]))) (netiftab env ! n)
      (ip_hdr (of_nat (20 + length d2)) proto s t c @ d2)]"
proof -
  let ?h = "ip_hdr l0 proto s t c0" and ?z = "\<lambda>k. replicate k (0::u8)"
  define out where "out = \<lparr>pnif = Some n, plen = 0, plink = 0, pnet = 0, pcurr = 98, pdata = ?z 84 @ ?z 14 @ ?h @ ?z (length d2) @ ?z (1480 - length d2)\<rparr>"
  have lh: "length ?h = 20" using l by simp
  have z: "?z NET_MAX_PKTLEN = ?z 98 @ ?z 20 @ ?z 1480" "?z 98 = ?z 84 @ ?z 14" "?z 1480 = ?z (length d2) @ ?z (1480 - length d2)"
    using d2(3) by (simp_all flip: replicate_add)
  have w: "put_bytes 98 ?h (?z NET_MAX_PKTLEN) = Some (pdata out)"
    unfolding z(1) using put_bytes_mid [of 0 ?h "?z 20" "?z 98" "?z 1480"] lh by (simp add: out_def z)
  have g: "netGetbuf env tr = (Some \<lparr>pnif = None, plen = 0, plink = 0, pnet = 0, pcurr = 1598, pdata = ?z NET_MAX_PKTLEN\<rparr>, tr @ [NetGetbuf])"
    using buf by (simp add: netGetbuf_def Let_def)
  have "\<exists>c out' tr'. frag_loop env 1500 nxthop (pdata pkt) (length (?z 84) + 14) lf data (of_nat (length d2)) froff out (tr @ [NetGetbuf]) = Some (out', tr') \<and>
    netChksum (ip_hdr (of_nat (20 + length d2)) proto s t c) 20 = Some 0 \<and>
    frames tr' = frames (tr @ [NetGetbuf]) @ [eth_frame (octets (resolved env ((tr @ [NetGetbuf]) @ [ArpLookup n (Some nxthop)]))) (netiftab env ! n)
      (ip_hdr (of_nat (20 + length d2)) proto s t c @ d2)]"
    by (rule frag_loop_last [OF up l _ _ _ _ _ d2, where lh = "?z 14" and tail = "?z (1480 - length d2)" and old = "?z (length d2)"]) (simp_all add: out_def)
  then obtain c out' tr' where fl: "frag_loop env 1500 nxthop (pdata pkt) 98 lf data (of_nat (length d2)) froff out (tr @ [NetGetbuf]) = Some (out', tr')"
    "netChksum (ip_hdr (of_nat (20 + length d2)) proto s t c) 20 = Some 0"
    "frames tr' = frames tr @ [eth_frame (octets (resolved env (tr @ [NetGetbuf, ArpLookup n (Some nxthop)]))) (netiftab env ! n)
      (ip_hdr (of_nat (20 + length d2)) proto s t c @ d2)]" by auto
  have "frag_rest env nif nxthop ptr lf data (of_nat (length d2)) froff pkt tr = Some (OK, pkt, tr' @ [NetFreebuf])"
    unfolding frag_rest_def g mtu using w fl(1) pkt by (simp add: Let_def) (simp add: out_def)
  then show ?thesis using fl(2,3) by auto
qed

lemma ipv4SendFrag_two:
  assumes up: "link_up env n" and l: "length s = 4" "length t = 4" "length lh = 14" and mtu: "nifmtu (netiftab env ! n) = 1500"
    and buf: "\<forall>tr. answer env (tr @ [NetGetbuf]) \<noteq> SYSERR"
    and pkt: "pnif pkt = Some n" "pcurr pkt = length pre + 14" "pdata pkt = pre @ lh @ ip_hdr (of_nat (1500 + length d2)) proto s t c0 @ d1 @ d2 @ tail"
    and d: "length d1 = 1480" "0 < length d2" "length d2 \<le> 1480"
  shows "\<exists>c1 c2 mac1 mac2 pkt' tr'. ipv4SendFrag env nxthop pkt tr = Some (OK, pkt', tr') \<and>
    netChksum (ip_hdr 1500 proto s t c1) 20 = Some 0 \<and> netChksum (ip_hdr (of_nat (20 + length d2)) proto s t c2) 20 = Some 0 \<and>
    frames tr' = frames tr @ [eth_frame mac1 (netiftab env ! n) (ip_hdr 1500 proto s t c1 @ d1),
      eth_frame mac2 (netiftab env ! n) (ip_hdr (of_nat (20 + length d2)) proto s t c2 @ d2)]"
proof -
  let ?a = "pre @ lh" and ?k = "1500 + length d2" and ?if = "netiftab env ! n"
  define ptr where "ptr = length pre + 14"
  have la: "length ?a = ptr" using l by (simp add: ptr_def)
  have pd: "pdata pkt = ?a @ ip_hdr (of_nat ?k) proto s t c0 @ d1 @ d2 @ tail" using pkt by simp
  obtain v where v: "rd16 (pdata pkt) (ptr + 2) = Some v" "net2hs v = ucast (of_nat ?k :: u16)"
    unfolding pd by (rule rd16_hdr_len [OF l(1,2), of ?a]) (unfold la, assumption)
  obtain ff where ff: "rd16 (pdata pkt) (ptr + 6) = Some ff" "net2hs ff = 0"
    unfolding pd by (rule rd16_hdr_flags [OF l(1,2), of ?a]) (unfold la, assumption)
  have vk: "net2hs v = of_nat ?k" "unat (net2hs v) = ?k"
    unfolding v(2) using d by (simp_all add: word_unat_eq_iff unsigned_ucast_eq unat_of_nat take_bit_nat_eq_self del: of_nat_add)
  have big: "\<not> net2hs v \<le> 1500" using vk(2) d by (simp add: word_le_nat_alt)
  have ver: "rd (pdata pkt) ptr = Some 0x45" unfolding pd rd_def la [symmetric] nth_append_length_plus [of ?a _ 0, simplified]
    by (simp add: ip_hdr_def nth_append)
  have i: "nif_at env (Some n) = Some ?if" using up by (simp add: link_up_def nif_at_def)
  have w1: "wr16 (ptr + 2) (ucast (hs2net 1500)) (pdata pkt) = Some (?a @ ip_hdr 1500 proto s t c0 @ d1 @ d2 @ tail)"
    using wr16_hdr_len [OF l(1,2), of ?a 1500] unfolding la pd by simp
  have w2: "wr16 (ptr + 6) 0 (?a @ ip_hdr 1500 proto s t c0 @ d1 @ d2 @ tail) = Some (?a @ ip_hdr 1500 proto s t c0 @ d1 @ d2 @ tail)"
    using wr16_hdr_flags [OF l(1,2), of ?a] unfolding la by simp
  obtain c1 where c1: "set_chksum (ptr + 10) 20 ptr (?a @ ip_hdr 1500 proto s t c0 @ d1 @ d2 @ tail) = Some (?a @ ip_hdr 1500 proto s t c1 @ d1 @ d2 @ tail)"
    "netChksum (ip_hdr 1500 proto s t c1) 20 = Some 0"
    using set_chksum_hdr [OF l(1,2), of ?a 1500 proto c0] unfolding la by blast
  define pkt1 where "pkt1 = pkt\<lparr>pdata := ?a @ ip_hdr 1500 proto s t c1 @ d1 @ d2 @ tail, plen := 1500\<rparr>"
  define mac where "mac = octets (resolved env (tr @ [ArpLookup n (Some nxthop)]))"
  define pkt2 where "pkt2 = pkt1\<lparr>pcurr := length pre, plen := plen pkt1 + 14,
      pdata := pre @ (mac @ octets (nifhwaddr ?if) @ be16 ETHER_TYPE_IPv4) @ (ip_hdr 1500 proto s t c1 @ d1) @ d2 @ tail\<rparr>"
  have "\<exists>tr'. netSend env None (Some nxthop) ETHER_TYPE_IPv4 pkt1 tr = Some (OK, pkt2, tr') \<and> length mac = 6 \<and>
      frames tr' = frames tr @ [eth_frame mac ?if (ip_hdr 1500 proto s t c1 @ d1)]"
    using netSend_ok [OF up, of pkt1 pre lh "ip_hdr 1500 proto s t c1 @ d1" "d2 @ tail" None "Some nxthop" ETHER_TYPE_IPv4 tr] pkt(1,2) l d
    by (auto simp: pkt1_def pkt2_def mac_def eth_frame_def)
  then obtain tr1 where s1: "netSend env None (Some nxthop) ETHER_TYPE_IPv4 pkt1 tr = Some (OK, pkt2, tr1)" "length mac = 6"
    "frames tr1 = frames tr @ [eth_frame mac ?if (ip_hdr 1500 proto s t c1 @ d1)]" by blast
  have m6: "length (octets (nifhwaddr ?if)) = 6" using up by (simp add: link_up_def)
  have "pnif pkt2 = Some n" "get_bytes ptr 20 (pdata pkt2) = Some (ip_hdr 1500 proto s t c1)" "get_bytes (ptr + 20 + 1480) (length d2) (pdata pkt2) = Some d2"
    using pkt(1) s1(2) m6 l d by (simp_all add: pkt1_def pkt2_def ptr_def)
  then obtain c2 tr' where fr: "frag_rest env ?if nxthop ptr 0 (ptr + 20 + 1480) (of_nat (length d2)) 185 pkt2 tr1 = Some (OK, pkt2, tr')"
    "netChksum (ip_hdr (of_nat (20 + length d2)) proto s t c2) 20 = Some 0"
    "frames tr' = frames tr1 @ [eth_frame (octets (resolved env (tr1 @ [NetGetbuf, ArpLookup n (Some nxthop)]))) ?if (ip_hdr (of_nat (20 + length d2)) proto s t c2 @ d2)]"
    using frag_rest_last [OF up l(1,2) mtu, of tr1 pkt2 ptr 1500 proto c1 "ptr + 20 + 1480" d2 0 185 nxthop] d buf by auto
  have rem: "net2hs v - 20 - 1480 = of_nat (length d2)" unfolding vk(1) by simp
  have "ipv4SendFrag env nxthop pkt tr = Some (OK, pkt2, tr')"
    unfolding ipv4SendFrag_def pkt(1,2) ptr_def [symmetric] i mtu
    using v(1) ff ver w1 w2 c1(1) s1(1) fr(1) big rem mtu by (simp add: Let_def pkt1_def)
  then show ?thesis using c1(2) fr(2,3) s1(3) by auto
qed

end
