(* ===== verification/Ip_Props.thy ===== *)
theory Ip_Props
  imports Ip_Frag
begin

text \<open>The properties of the IPv4 and ICMP senders and receivers.\<close>

section \<open>A network of two stations\<close>

definition lan_addr :: "u8 \<Rightarrow> netaddr" where
  "lan_addr x = \<lparr>natype = NETADDR_IPv4, nalen = 4, naddr = [10, 0, 0, x, 0, 0]\<rparr>"

definition lan_mac :: "u8 \<Rightarrow> netaddr" where
  "lan_mac x = \<lparr>natype = NETADDR_ETHERNET, nalen = 6, naddr = [2, 0, 0, 0, 0, x]\<rparr>"

definition lan_nif :: "u8 \<Rightarrow> netif" where
  "lan_nif x = \<lparr>nifdev = 1, nifstate = NET_ALLOC, nifmtu = 1500, niflinkhdrlen = 14, nifip = lan_addr x,
     nifmask = (lan_addr 0)\<lparr>naddr := [255, 255, 255, 0, 0, 0]\<rparr>, nifgateway = any_addr, nifipbrc = lan_addr 255,
     nifhwaddr = lan_mac x, nifhwbrc = NETADDR_GLOBAL_ETH_BRC\<rparr>"

definition lan_route :: rtEntry where
  "lan_route = \<lparr>rtstate = RT_USED, rtmasklen = 24, rtdst = lan_addr 0, rtgateway = any_addr,
     rtmask = (lan_addr 0)\<lparr>naddr := [255, 255, 255, 0, 0, 0]\<rparr>, rtnif = Some 0\<rparr>"

definition lan_env :: "u8 \<Rightarrow> u8 \<Rightarrow> ipenv" where
  \<comment> \<open>station \<open>x\<close>, whose peer is \<open>y\<close>\<close>
  "lan_env x y = \<lparr>answer = (\<lambda>tr. case last tr of DevWrite _ f \<Rightarrow> int (length f) | _ \<Rightarrow> OK), resolved = (\<lambda>_. lan_mac y),
     netiftab = [lan_nif x], captured = (\<lambda>_. False), routes = lan_route # replicate 31 (lan_route\<lparr>rtstate := RT_FREE\<rparr>)\<rparr>"

definition lan_packet :: packet where
  "lan_packet = \<lparr>pnif = None, plen = 5, plink = 0, pnet = 0, pcurr = 40, pdata = replicate 40 0 @ [104, 101, 108, 108, 111]\<rparr>"

lemma lan_hw [simp]: "hw_addr (lan_mac x)" "octets (lan_mac x) = [2, 0, 0, 0, 0, x]" "natype (lan_mac x) = NETADDR_ETHERNET"
  by (simp_all add: hw_addr_def lan_mac_def octets_def)

lemma lan_ip [simp]: "wf_addr (lan_addr x)" "octets (lan_addr x) = [10, 0, 0, x]" "natype (lan_addr x) = NETADDR_IPv4" "nalen (lan_addr x) = 4"
  "take 4 (naddr (lan_addr x)) = [10, 0, 0, x]" "length (naddr (lan_addr x)) = 6"
  by (simp_all add: wf_addr_def lan_addr_def octets_def)

lemma lan_link_up: "link_up (lan_env x y) 0"
  by (simp add: link_up_def lan_env_def lan_nif_def)

lemma lan_lookup: "rtLookup (routes (lan_env x y)) (lan_addr z) = Some (Some 0)"
proof -
  have m: "netaddrmask (lan_addr z) (rtmask lan_route) = Some (OK, lan_addr 0)"
    by (simp add: netaddrmask_ok masked_def wf_addr_def same_kind_def lan_route_def octets_def lan_addr_def)
  have "rtLookup_loop (lan_route # replicate 31 (lan_route\<lparr>rtstate := RT_FREE\<rparr>)) a n i r = Some r" if "0 < i" "i + n = 32" for a n i r
    using that by (induction n arbitrary: i) (simp_all add: nth_Cons')
  then have "rtLookup_loop (lan_route # replicate 31 (lan_route\<lparr>rtstate := RT_FREE\<rparr>)) (lan_addr z) (Suc 31) 0 None = Some (Some 0)"
    unfolding rtLookup_loop.simps(2) nth_Cons_0 m
    using netaddrequal_ok [of "lan_addr 0" "rtdst lan_route"] by (simp add: same_kind_def) (simp add: lan_route_def same_kind_def)
  moreover have "(32::nat) = Suc 31" by simp
  ultimately show ?thesis unfolding rtLookup_def by (simp only: lan_env_def ipenv.select_convs)
qed

lemma lan_fields [simp]: "netiftab (lan_env x y) = [lan_nif x]" "routes (lan_env x y) ! 0 = lan_route" "nifip (lan_nif x) = lan_addr x"
  "nifipbrc (lan_nif x) = lan_addr 255" "nifhwaddr (lan_nif x) = lan_mac x" "nifmtu (lan_nif x) = 1500"
  by (simp_all add: lan_env_def lan_nif_def)

lemma lan_next_hop [simp]: "next_hop lan_route a = a"
  by (simp add: next_hop_def lan_route_def any_addr_def)

lemma lan_route_up: "route_up (lan_env x y) (lan_addr z) 0 0"
  using lan_link_up lan_lookup by (simp add: route_up_def addr_ok_def) (simp add: lan_route_def)

lemma lan_next_mac: "y \<noteq> 255 \<Longrightarrow> next_mac (lan_env x y) 0 (lan_addr y) tr = [2, 0, 0, 0, 0, y]"
  by (simp add: next_mac_def) (simp add: lan_env_def)

lemma lan_listens: "listens (lan_env x y) 0 [2, 0, 0, 0, 0, x]"
  by (simp add: listens_def) (simp add: lan_nif_def NETADDR_GLOBAL_ETH_BRC_def hw_addr_def)

lemma lan_ours: "ours (lan_env x y) [10, 0, 0, x]"
  by (simp add: ours_def) (simp add: lan_nif_def)

section \<open>Delivery\<close>



section \<open>Validity and echo\<close>

text \<open>
  C36. A header built by the sender, with its checksum, is accepted by \<^verbatim>\<open>ipv4RecvValid\<close> unless the packet's
  total length is a multiple of 256 below 5120: the length is compared with 20 in network byte order.
\<close>

theorem ip_header_validity:
  assumes "20 \<le> n" "n < 65536" "length s = 4" "length t = 4" "netChksum (ip_hdr (of_nat n) proto s t c) 20 = Some 0"
  shows "ipv4RecvValid (ip_hdr (of_nat n) proto s t c @ e) = Some (n mod 256 \<noteq> 0 \<or> 5120 \<le> n)"
  using ipv4RecvValid_hdr [OF assms(2-5)] len_accepted_raw [OF assms(1)] by (simp add: len_accepted_def)

theorem ip_header_validity_witness:
  "\<exists>c d. ipv4RecvValid (ip_hdr 1280 17 [10, 0, 0, 1] [10, 0, 0, 2] c @ []) = Some False \<and>
     ipv4RecvValid (ip_hdr 1281 17 [10, 0, 0, 1] [10, 0, 0, 2] d @ []) = Some True"
proof -
  obtain c d where "netChksum (ip_hdr 1280 17 [10, 0, 0, 1] [10, 0, 0, 2] c) 20 = Some 0" "netChksum (ip_hdr 1281 17 [10, 0, 0, 1] [10, 0, 0, 2] d) 20 = Some 0"
    using ip_header_ok [of "replicate 20 0" "[10, 0, 0, 1]" "[10, 0, 0, 2]" "[]" 1280 17 "[]"]
      ip_header_ok [of "replicate 20 0" "[10, 0, 0, 1]" "[10, 0, 0, 2]" "[]" 1281 17 "[]"] by auto
  then show ?thesis
    using ip_header_validity [of 1280 "[10, 0, 0, 1]" "[10, 0, 0, 2]" 17 c "[]"] ip_header_validity [of 1281 "[10, 0, 0, 1]" "[10, 0, 0, 2]" 17 d "[]"]
    by (intro exI [of _ c] exI [of _ d]) simp
qed


definition lan_ping :: bytes where
  "lan_ping = replicate 14 0 @ ip_hdr 28 1 [10, 0, 0, 2] [10, 0, 0, 1] 0 @ [8, 0, 0, 0] @ [0, 7, 0, 1] @ replicate 18 0"


section \<open>Fragments\<close>

text \<open>
  C35. A packet of up to twice the data an Ethernet frame can hold leaves in two frames that together carry all
  of its data in order, each with a valid checksum; but the header of either is that of a complete packet:
  the flag for more fragments and the fragment offset are zero in both, since the code combines the flag
  with the offset by \<^verbatim>\<open>&\<close> where \<^verbatim>\<open>|\<close> is meant.
\<close>

theorem fragments_unmarked:
  assumes "link_up env n" "length s = 4" "length t = 4" "length lh = 14" "nifmtu (netiftab env ! n) = 1500" "\<forall>tr. answer env (tr @ [NetGetbuf]) \<noteq> SYSERR"
    and "pnif pkt = Some n" "pcurr pkt = length pre + 14" "pdata pkt = pre @ lh @ ip_hdr (of_nat (1500 + length d2)) proto s t c0 @ d1 @ d2 @ tail"
    and "length d1 = 1480" "0 < length d2" "length d2 \<le> 1480"
  shows "\<exists>c1 c2 mac1 mac2 pkt' tr'. ipv4SendFrag env nxthop pkt tr = Some (OK, pkt', tr') \<and>
    netChksum (ip_hdr 1500 proto s t c1) 20 = Some 0 \<and> netChksum (ip_hdr (of_nat (20 + length d2)) proto s t c2) 20 = Some 0 \<and>
    frames tr' = frames tr @ [eth_frame mac1 (netiftab env ! n) (ip_hdr 1500 proto s t c1 @ d1),
      eth_frame mac2 (netiftab env ! n) (ip_hdr (of_nat (20 + length d2)) proto s t c2 @ d2)] \<and>
    take 2 (drop 6 (ip_hdr 1500 proto s t c1)) = [0, 0] \<and> take 2 (drop 6 (ip_hdr (of_nat (20 + length d2)) proto s t c2)) = [0, 0]"
proof -
  have "take 2 (drop 6 (ip_hdr l proto s t c)) = [0, 0]" for l c by (simp add: ip_hdr_def be16_def)
  then show ?thesis using ipv4SendFrag_two [OF assms, of nxthop tr] by auto
qed

definition lan_big :: packet where
  "lan_big = \<lparr>pnif = Some 0, plen = 1508, plink = 0, pnet = 0, pcurr = 16,
     pdata = [0, 0] @ replicate 14 0 @ ip_hdr (of_nat (1500 + length [1, 2, 3, 4, 5, 6, 7, 8 :: u8])) 17 [10, 0, 0, 1] [10, 0, 0, 2] 0 @ replicate 1480 9 @ [1, 2, 3, 4, 5, 6, 7, 8] @ []\<rparr>"

theorem fragments_unmarked_witness:
  "\<exists>c1 c2 mac1 mac2 pkt' tr'. ipv4SendFrag (lan_env 1 2) (lan_addr 2) lan_big [] = Some (OK, pkt', tr') \<and>
    frames tr' = [eth_frame mac1 (lan_nif 1) (ip_hdr 1500 17 [10, 0, 0, 1] [10, 0, 0, 2] c1 @ replicate 1480 9),
      eth_frame mac2 (lan_nif 1) (ip_hdr 28 17 [10, 0, 0, 1] [10, 0, 0, 2] c2 @ [1, 2, 3, 4, 5, 6, 7, 8])]"
proof -
  have "\<forall>tr. answer (lan_env 1 2) (tr @ [NetGetbuf]) \<noteq> SYSERR" by (simp add: lan_env_def)
  then show ?thesis
    using fragments_unmarked [OF lan_link_up, of "[10, 0, 0, 1]" "[10, 0, 0, 2]" "replicate 14 0" 1 2 lan_big "[0, 0]" "[1, 2, 3, 4, 5, 6, 7, 8]" 17 0 "replicate 1480 9" "[]" "lan_addr 2" "[]"]
    by (simp add: lan_big_def) blast
qed

end
