(* ===== verification/Device_Props.thy ===== *)
theory Device_Props
  imports Loopback Udp_Flow Ip_Props
begin

text \<open>The properties of the loopback and UDP devices.\<close>

section \<open>Loopback\<close>

text \<open>
  C39. What is written to the loopback device is read back: a write stores as many bytes as there is room for
  and returns their number, or an error if there is none, and reading them all returns the bytes that were
  in the device and then the written ones, in order.
\<close>

theorem loopback_roundtrip:
  assumes "kinv Q s" "lbk_ok s i xs" "m = min (length bs) (LOOP_BUFFER - length xs)" "0 < m \<or> bs = []"
  shows "\<exists>s1 s2. loopbackWrite i bs s = Some (int m, s1) \<and>
    loopbackRead i (length xs + m) s1 = Some (Some (int (length xs + m), xs @ take m bs), s2) \<and> kinv Q s2 \<and> lbk_ok s2 i []"
proof -
  have "\<not> (m < length bs \<and> 0 + int m = 0)" using assms(4) by auto
  then obtain s1 where s1: "write_bytes i 0 bs s = Some (int m, s1)" "kinv Q s1" "lbk_ok s1 i (xs @ take m bs)"
    using write_bytes_ok [OF assms(1,2) _ assms(3), of 0] by auto
  moreover have l: "length (xs @ take m bs) = length xs + m" using assms(3) by simp
  ultimately obtain s2 where s2: "read_bytes i (length xs + m) s1 = Some (Some (xs @ take m bs), s2)" "kinv Q s2" "lbk_ok s2 i []"
    using read_bytes_ok [of Q s1 i "xs @ take m bs" "[]"] by auto
  have "lbk i s = Some (looptab s ! i)" "lbstate (looptab s ! i) = LOOP_STATE_ALLOC"
    "lbk i s1 = Some (looptab s1 ! i)" "lbstate (looptab s1 ! i) = LOOP_STATE_ALLOC"
    using assms(2) s1(3) by (simp_all add: lbk_ok_def Let_def lbk_def)
  then show ?thesis using s1(1) s2 l by (simp add: loopbackWrite_def loopbackRead_def)
qed

text \<open>The sample kernel with a device on semaphore 0, which holds one byte, and one on semaphore 1, on which a thread waits.\<close>

definition lb_sample :: "int \<Rightarrow> int \<Rightarrow> loops" where
  "lb_sample sem k = kernel.extend sample \<lparr>looptab = [\<lparr>lbstate = LOOP_STATE_ALLOC, lbindex = k, lbflags = 0, lbsem = of_int sem, lbbuffer = replicate LOOP_BUFFER 7\<rparr>], \<dots> = ()\<rparr>"

lemma kinv_extend: "kinv Q (kernel.extend s m) = kinv Q s"
proof -
  have f: "quetab (kernel.extend s m) = quetab s" "thrtab (kernel.extend s m) = thrtab s" "semtab (kernel.extend s m) = semtab s"
    "readylist (kernel.extend s m) = readylist s" "sleepq (kernel.extend s m) = sleepq s" "thrcurrent (kernel.extend s m) = thrcurrent s"
    "resdefer (kernel.extend s m) = resdefer s" "nextqid (kernel.extend s m) = nextqid s" "nexttid (kernel.extend s m) = nexttid s"
    "nextsem (kernel.extend s m) = nextsem s" "thrcount (kernel.extend s m) = thrcount s" "kheap (kernel.extend s m) = kheap s"
    by (simp_all add: kernel.defs)
  have h: "home (kernel.extend s m) = home s" by (simp add: home_def fun_eq_iff f split: thrstate.split)
  show ?thesis by (simp add: kinv_def kinv0_def config_ok_def inv_defs h f)
qed

lemma lb_fields [simp]:
  "looptab (lb_sample sem k) = [\<lparr>lbstate = LOOP_STATE_ALLOC, lbindex = k, lbflags = 0, lbsem = of_int sem, lbbuffer = replicate LOOP_BUFFER 7\<rparr>]"
  "semtab (lb_sample sem k) = semtab sample" "kinv sampleQ (lb_sample sem k)"
  using sample_kinv kinv_extend [of sampleQ sample] by (simp_all add: lb_sample_def) (simp_all add: kernel.defs)

lemma lb_sems: "semstate (semtab sample 0) = SUSED" "count (semtab sample 0) = 1" "semstate (semtab sample 1) = SUSED" "count (semtab sample 1) = -1"
  by (simp_all add: sample_def)

lemma lb_sample_ok: "lbk_ok (lb_sample 0 1023) 0 [7]"
  by (simp add: lbk_ok_def Let_def isbadsem_def lb_sems ring_list_def)

theorem loopback_roundtrip_witness:
  "\<exists>s1 s2. loopbackWrite 0 [1, 2, 3] (lb_sample 0 1023) = Some (3, s1) \<and>
    loopbackRead 0 4 s1 = Some (Some (4, [7, 1, 2, 3]), s2) \<and> kinv sampleQ s2 \<and> lbk_ok s2 0 []"
  using loopback_roundtrip [of sampleQ "lb_sample 0 1023" 0 "[7]" 3 "[1, 2, 3]"] lb_sample_ok by simp



section \<open>UDP\<close>

text \<open>
  C4. A datagram of up to 1024 bytes that \<^verbatim>\<open>udpSend\<close> sends leaves in one frame; the station it is addressed to
  accepts the frame, \<^verbatim>\<open>ipv4Recv\<close> hands it to \<^verbatim>\<open>udpRecv\<close>, which verifies the checksum and queues it for the
  device that \<^verbatim>\<open>udpDemux\<close> finds, and \<^verbatim>\<open>udpRead\<close> with a buffer that is large enough returns exactly the bytes
  that were sent.  The total length must be one that \<^verbatim>\<open>ipv4RecvValid\<close> accepts.
\<close>

theorem udp_transfer:
  assumes r: "route_up env (remoteip u) r n" "bufs_ok env" and u: "uflags u AND UDP_FLAG_PASSIVE = 0" "natype (localip u) \<noteq> 0" "4 \<le> length (naddr (localip u))"
    and d: "get_bytes 0 (length data) buf = Some data" "length data \<le> 1024" "length data + 28 \<le> unat (nifmtu (netiftab env ! n))" "len_accepted (length data + 28)"
    and l: "listens env' m (next_mac env n (next_hop (routes env ! r) (remoteip u)) (tr @ [NetGetbuf]))" "ours env' (take 4 (naddr (remoteip u)))" "pool_ok env'"
    and k: "k \<le> length pad" "k < 2000"
    and dm: "\<forall>a b. is_ip a (take 4 (naddr (localip u))) \<and> is_ip b (take 4 (naddr (remoteip u))) \<longrightarrow> udpDemux (remotept u) (localpt u) b a tab = Some (Some i)"
    and q: "i < length tab" "udp_queue (tab ! i) []" and len: "length data \<le> unat len"
  shows "\<exists>tr' f. udpSend env u (of_nat (length data)) buf tr = Some (OK, tr') \<and> frames tr' = frames tr @ [f] \<and>
    (\<exists>p1 p2 a b tr1 tab' tr4 u'.
       netRecv_packet env' m (int (length f + k)) (f @ pad) st tr2 = Some (st\<lparr>nin := nin st + 1, nproc := nproc st + 1\<rparr>, tr1 @ [Ipv4Recv p1]) \<and>
       ipv4Recv env' p1 tr3 = Some (OK, p2, tr3 @ [UdpRecv p2 a b]) \<and>
       udpRecv env' p2 a b tab tr5 = Some (OK, tab', tr4) \<and>
       udpRead_enter (tab' ! i) = None \<and> udpRead_take len (tab' ! i) tr6 = Some (int (length data), data, u', tr6 @ [UdpFreebuf]))"
proof -
  have "length ([] :: bytes list) < UDP_MAX_PKTS" by simp
  from udp_transferred [OF r u d l k dm q this, of st tr2 tr3 tr5] obtain tr' f p1 p2 a b tr1 tab' tr4 where
    s: "udpSend env u (of_nat (length data)) buf tr = Some (OK, tr')" "frames tr' = frames tr @ [f]"
    "netRecv_packet env' m (int (length f + k)) (f @ pad) st tr2 = Some (st\<lparr>nin := nin st + 1, nproc := nproc st + 1\<rparr>, tr1 @ [Ipv4Recv p1])"
    "ipv4Recv env' p1 tr3 = Some (OK, p2, tr3 @ [UdpRecv p2 a b])" "udpRecv env' p2 a b tab tr5 = Some (OK, tab', tr4)" "udp_queue (tab' ! i) [data]"
    unfolding append_Nil by blast
  then show ?thesis using udp_read_head [OF s(6) len, of tr6] by blast
qed

definition lan_udp :: "u8 \<Rightarrow> u8 \<Rightarrow> udp" where
  \<comment> \<open>station \<open>x\<close> talks to \<open>y\<close> between the ports 5000 + \<open>x\<close> and 5000 + \<open>y\<close>\<close>
  "lan_udp x y = zero_udp\<lparr>localip := lan_addr x, remoteip := lan_addr y, localpt := 5000 + ucast x, remotept := 5000 + ucast y, ustate := UDP_OPEN\<rparr>"

lemma lan_udp_fields [simp]: "localip (lan_udp x y) = lan_addr x" "remoteip (lan_udp x y) = lan_addr y" "localpt (lan_udp x y) = 5000 + ucast x"
  "remotept (lan_udp x y) = 5000 + ucast y" "ustate (lan_udp x y) = UDP_OPEN" "uflags (lan_udp x y) = 0" "udp_queue (lan_udp x y) []"
  by (simp_all add: lan_udp_def zero_udp_def udp_queue_def ring_list_def)

lemma lan_answers: "bufs_ok (lan_env x y)" "pool_ok (lan_env x y)"
  by (simp_all add: bufs_ok_def pool_ok_def lan_env_def)

lemma lan_demux:
  assumes "is_ip a [10, 0, 0, y]" "is_ip b [10, 0, 0, x]"
  shows "udpDemux (5000 + ucast x) (5000 + ucast y) b a [lan_udp x y] = Some (Some 0)"
proof -
  have "netaddrequal (lan_addr x) b = Some True" "netaddrequal (lan_addr y) a = Some True"
    using assms by (simp_all add: netaddrequal_ok is_ip_def same_kind_def)
  then show ?thesis by (simp add: udpDemux_def)
qed

theorem udp_transfer_witness:
  "\<exists>tr' f. udpSend (lan_env 1 2) (lan_udp 1 2) (of_nat (length [104, 105 :: u8])) [104, 105] [] = Some (OK, tr') \<and> frames tr' = frames [] @ [f] \<and>
    (\<exists>p1 p2 a b tr1 tab' tr4 u'.
       netRecv_packet (lan_env 2 1) 0 (int (length f + 16)) (f @ replicate 16 0) \<lparr>nin = 0, nproc = 0\<rparr> [] =
         Some (\<lparr>nin = 0, nproc = 0\<rparr>\<lparr>nin := nin \<lparr>nin = 0, nproc = 0\<rparr> + 1, nproc := nproc \<lparr>nin = 0, nproc = 0\<rparr> + 1\<rparr>, tr1 @ [Ipv4Recv p1]) \<and>
       ipv4Recv (lan_env 2 1) p1 [] = Some (OK, p2, [] @ [UdpRecv p2 a b]) \<and>
       udpRecv (lan_env 2 1) p2 a b [lan_udp 2 1] [] = Some (OK, tab', tr4) \<and>
       udpRead_enter (tab' ! 0) = None \<and> udpRead_take 100 (tab' ! 0) [] = Some (int (length [104, 105 :: u8]), [104, 105], u', [] @ [UdpFreebuf]))"
  by (rule udp_transfer [where env = "lan_env 1 2" and u = "lan_udp 1 2" and env' = "lan_env 2 1" and pad = "replicate 16 0" and tab = "[lan_udp 2 1]" and r = 0 and n = 0])
    (use lan_route_up [of 1 2 2] lan_listens [of 2 1] lan_ours [of 2 1] lan_answers lan_demux [of _ 1 _ 2] in \<open>simp_all add: len_accepted_def lan_next_mac\<close>)

text \<open>
  C37. The input of a UDP device is a bounded first-in first-out queue of datagrams: any sequence of arrivals
  and reads that a list of at most 100 payloads can follow returns exactly the payloads the list returns.
\<close>

theorem udp_fifo:
  assumes "udp_queue u xs" "pool_ok env" "is_ip src s" "is_ip dst t" "length s = 4" "length t = 4"
    and "\<forall>x. Put x \<in> set ops \<longrightarrow> length x \<le> 1400" "queue_run UDP_MAX_PKTS ops xs = Some (ys, zs)"
  shows "\<exists>u'. fifo_run (udp_put env src dst sp dp) udp_get ops u = Some (ys, u') \<and> udp_queue u' zs"
  using udpq.run [of u xs env src s dst t ops ys zs sp dp] assms by blast

theorem udp_fifo_witness:
  "\<exists>u'. fifo_run (udp_put (lan_env 2 1) (lan_addr 1) (lan_addr 2) 5001 5002) udp_get [Put [1], Put [2, 3], Get, Put [], Get] (lan_udp 2 1) = Some ([[1], [2, 3]], u') \<and>
    udp_queue u' [[]]"
proof -
  have "is_ip (lan_addr x) [10, 0, 0, x]" for x by (simp add: is_ip_def)
  then show ?thesis
    using udp_fifo [of "lan_udp 2 1" "[]" "lan_env 2 1" "lan_addr 1" "[10, 0, 0, 1]" "lan_addr 2" "[10, 0, 0, 2]" "[Put [1], Put [2, 3], Get, Put [], Get]" "[[1], [2, 3]]" "[[]]"] lan_answers
    by simp
qed

text \<open>
  C38. \<^verbatim>\<open>udpRecv\<close> trusts the length in the UDP header: a datagram without checksum for a device that can take it,
  whose header claims more than 1586 bytes, is copied past the end of the buffer, or of the packet.
\<close>

theorem udp_length_trusted:
  assumes "pcurr pkt = length a" "pdata pkt = a @ (be16 sp @ be16 dp @ be16 l @ [0, 0]) @ e" "1586 < unat l"
    and "udpDemux dp sp dst src tab = Some (Some i)" "icount (tab ! i) < int UDP_MAX_PKTS" "answer env (tr @ [UdpGetbuf (inPool (tab ! i))]) \<noteq> SYSERR"
  shows "udpRecv env pkt src dst tab tr = None"
proof -
  let ?h = "be16 sp @ be16 dp @ be16 l @ [0, 0]" and ?g = "le16 sp @ le16 dp @ le16 l @ [0, 0]"
  define d1 where "d1 = a @ ?g @ e"
  have c: "rd16 (pdata pkt) (length a + 6) = Some 0" unfolding assms(2) using rd16_at [of 6 ?h 0 0 a e] by (simp add: be16_def)
  obtain len where len: "rd16 (pdata pkt) (length a + 4) = Some len"
    unfolding assms(2) using rd16_at [of 4 ?h _ _ a e] by (auto simp: be16_def)
  have sw: "swap16 (length a) (pdata pkt) = Some (a @ (le16 sp @ be16 dp @ be16 l @ [0, 0]) @ e)"
    "swap16 (length a + 2) (a @ (le16 sp @ be16 dp @ be16 l @ [0, 0]) @ e) = Some (a @ (le16 sp @ le16 dp @ be16 l @ [0, 0]) @ e)"
    "swap16 (length a + 4) (a @ (le16 sp @ le16 dp @ be16 l @ [0, 0]) @ e) = Some d1"
    unfolding assms(2) using swap16_mid [of 0 ?h sp a e] swap16_mid [of 2 "le16 sp @ be16 dp @ be16 l @ [0, 0]" dp a e]
      swap16_mid [of 4 "le16 sp @ le16 dp @ be16 l @ [0, 0]" l a e] by (simp_all add: be16_def le16_def d1_def)
  have rd: "rd16 d1 (length a) = Some (ucast sp)" "rd16 d1 (length a + 2) = Some (ucast dp)" "rd16 d1 (length a + 4) = Some (ucast l)"
    using rd16_le [of 0 ?g sp a e] rd16_le [of 2 ?g dp a e] rd16_le [of 4 ?g l a e] by (simp_all add: d1_def le16_def)
  have "unat l < 65536" using unsigned_less [of l, where ?'a = nat] by simp
  then have big: "1586 < unat (ucast l :: u32)" using assms(3) by (simp add: unsigned_ucast_eq take_bit_nat_eq_self)
  have "udp_store env (pkt\<lparr>pdata := d1\<rparr>) sp src dst (tab ! i) tr = None"
    by (rule udp_store_overrun [OF _ big assms(5,6)]) (use assms(1) rd(3) in simp)
  then show ?thesis
    unfolding udpRecv_def assms(1) c len by (simp add: sw rd assms(4) u16_u32_u16 Let_def del: append_assoc add_2_eq_Suc')
qed

theorem udp_length_trusted_witness:
  "udpRecv (lan_env 2 1) \<lparr>pnif = Some 0, plen = 42, plink = 0, pnet = 14, pcurr = 34,
     pdata = replicate 34 0 @ (be16 5001 @ be16 5002 @ be16 2000 @ [0, 0]) @ replicate 1556 0\<rparr> (lan_addr 1) (lan_addr 2) [lan_udp 2 1] [] = None"
proof -
  have "is_ip (lan_addr x) [10, 0, 0, x]" for x by (simp add: is_ip_def)
  then have "udpDemux 5002 5001 (lan_addr 2) (lan_addr 1) [lan_udp 2 1] = Some (Some 0)" using lan_demux [of "lan_addr 1" 1 "lan_addr 2" 2] by simp
  moreover have "icount (lan_udp 2 1) = 0" by (simp add: lan_udp_def zero_udp_def)
  moreover have "answer (lan_env 2 1) ([] @ [UdpGetbuf p]) \<noteq> SYSERR" for p using lan_answers(2) [of 2 1] unfolding pool_ok_def by blast
  ultimately show ?thesis
    by (intro udp_length_trusted [where a = "replicate 34 0" and i = 0 and l = 2000 and sp = 5001 and dp = 5002 and e = "replicate 1556 0"])
      simp_all
qed

end
