(* ===== verification/Spec2Isabelle.thy ===== *)
theory Spec2Isabelle
  imports Kernel_Props Service_Props Lib_Props Tcp_Props Device_Props
begin

text \<open>
  Verification of the Embedded Xinu kernel.
\<close>

end
